(* ===== verification/NB_Prelude.thy ===== *)
theory NB_Prelude
  imports Main "HOL-Library.Word" "HOL-Library.Monad_Syntax" "HOL-Library.Code_Target_Numeral"
begin

text \<open>
  Shared vocabulary of the NetBricks development.

  \<^item> Machine integers keep their width: \<open>u8\<close>, \<open>u16\<close>, \<open>u32\<close>, \<open>u64\<close> and \<open>usize\<close> (64 bits) are
    words.  Rust's \<open>wrapping_add\<close> and \<open>wrapping_sub\<close> are \<open>+\<close> and \<open>-\<close> on words; the plain operators
    are \<open>checked_add\<close>, \<open>checked_sub\<close> and \<open>checked_mul\<close>, whose overflow is a panic.
  \<^item> A panic (failed assertion, index out of range, \<open>unwrap\<close> of nothing, arithmetic overflow) is the
    value \<open>None\<close> of an \<open>option\<close>; the \<open>do\<close> blocks stop at the first one.  A theorem whose conclusion
    says that an operation returns \<open>Some\<close> also says that no overflow occurs on the way, so it holds
    for builds with and without overflow checks.  The two places where the release build goes on after an overflow and this
    matters, the size of a payload and the counters of a port, wrap around in the model.
  \<^item> An \<open>Err\<close> of \<open>Result<T>\<close> is \<open>Inl\<close> of the \<open>error_kind\<close> of \<open>framework/src/common/errors.rs\<close>.
  \<^item> Slices and vectors are lists; \<open>vec_get\<close>, \<open>vec_set\<close> and \<open>slice_range\<close> are the bounds-checked
    accesses, and \<open>blit\<close> is the effect of copying a block of bytes over a list.
  \<^item> The target is little endian (the framework contains x86 assembly), so \<open>to_be\<close> and \<open>from_be\<close>
    reverse the bytes of a word.
\<close>

unbundle bit_operations_syntax

named_theorems word_blast \<open>rewriting of word equations to equations on single bits\<close>
named_theorems rust_defs \<open>definitions of the bounds-checked and overflow-checked primitives\<close>

section \<open>Machine integers\<close>

type_synonym u8 = "8 word"
type_synonym u16 = "16 word"
type_synonym u32 = "32 word"
type_synonym u64 = "64 word"
type_synonym usize = "64 word"

definition checked_add :: "'a::len word \<Rightarrow> 'a word \<Rightarrow> 'a word option" where
  "checked_add a b = (if unat a + unat b < 2 ^ LENGTH('a) then Some (a + b) else None)"

definition checked_sub :: "'a::len word \<Rightarrow> 'a word \<Rightarrow> 'a word option" where
  "checked_sub a b = (if b \<le> a then Some (a - b) else None)"

definition checked_mul :: "'a::len word \<Rightarrow> 'a word \<Rightarrow> 'a word option" where
  "checked_mul a b = (if unat a * unat b < 2 ^ LENGTH('a) then Some (a * b) else None)"

text \<open>Subtraction of lengths, which are natural numbers in the model.\<close>

definition len_sub :: "nat \<Rightarrow> nat \<Rightarrow> nat option" where
  "len_sub a b = (if b \<le> a then Some (a - b) else None)"

text \<open>\<open>assert!\<close>: continue or panic.\<close>

definition rust_assert :: "bool \<Rightarrow> unit option" where
  "rust_assert b = (if b then Some () else None)"

declare checked_add_def [rust_defs] checked_sub_def [rust_defs] checked_mul_def [rust_defs]
  len_sub_def [rust_defs] rust_assert_def [rust_defs]

lemma checked_sub_Some_iff: "checked_sub a b = Some c \<longleftrightarrow> b \<le> a \<and> c = a - b"
  by (auto simp: checked_sub_def)

lemma checked_sub_unat: "checked_sub a b = Some c \<Longrightarrow> unat c = unat a - unat b"
  by (simp add: checked_sub_Some_iff unat_sub)

lemma checked_add_unat: "checked_add a b = Some c \<Longrightarrow> unat c = unat a + unat b"
  by (auto simp: checked_add_def unat_word_ariths split: if_splits)

lemma rust_assert_Some_iff [simp]: "rust_assert b = Some u \<longleftrightarrow> b"
  by (simp add: rust_assert_def)

lemma rust_assert_bind [simp]:
  "Option.bind (rust_assert b) f = (if b then f () else None)"
  by (simp add: rust_assert_def)

section \<open>Errors\<close>

text \<open>\<open>error_chain!\<close> of \<open>framework/src/common/errors.rs\<close>.\<close>

datatype error_kind =
    FailedAllocation
  | FailedDeallocation
  | FailedToInitializePort int
  | BadQueue
  | CannotSend
  | BadDev string
  | BadVdev string
  | BadTxQueue int int
  | BadRxQueue int int
  | BadOffset nat
  | MetadataTooLarge
  | RingAllocationFailure
  | InvalidRingSize usize
  | RingDuplicationFailure
  | ConfigurationError string
  | NoRunningSchedulerOnCore int

type_synonym 'a result = "error_kind + 'a"

section \<open>Slices and vectors\<close>

definition vec_get :: "'a list \<Rightarrow> nat \<Rightarrow> 'a option" where
  "vec_get xs i = (if i < length xs then Some (xs ! i) else None)"

definition vec_set :: "'a list \<Rightarrow> nat \<Rightarrow> 'a \<Rightarrow> 'a list option" where
  "vec_set xs i x = (if i < length xs then Some (xs[i := x]) else None)"

definition slice_range :: "nat \<Rightarrow> nat \<Rightarrow> 'a list \<Rightarrow> 'a list option" where
  "slice_range a b xs = (if a \<le> b \<and> b \<le> length xs then Some (take (b - a) (drop a xs)) else None)"

definition blit :: "nat \<Rightarrow> 'a list \<Rightarrow> 'a list \<Rightarrow> 'a list" where
  "blit n src dst = take n dst @ src @ drop (n + length src) dst"

declare vec_get_def [rust_defs] vec_set_def [rust_defs] slice_range_def [rust_defs]

lemma length_blit [simp]: "n + length src \<le> length dst \<Longrightarrow> length (blit n src dst) = length dst"
  by (simp add: blit_def)

lemma blit_Nil [simp]: "blit n [] dst = dst"
  by (simp add: blit_def)

lemma nth_blit:
  assumes "n + length src \<le> length dst" and "i < length dst"
  shows "blit n src dst ! i = (if n \<le> i \<and> i < n + length src then src ! (i - n) else dst ! i)"
  using assms by (auto simp: blit_def nth_append min_def)

lemma slice_of_blit:
  "n + length src \<le> length dst \<Longrightarrow> take (length src) (drop n (blit n src dst)) = src"
  by (simp add: blit_def)

lemma slice_range_length: "slice_range a b xs = Some ys \<Longrightarrow> length ys = b - a"
  by (auto simp: slice_range_def split: if_splits)

section \<open>Rewriting words to bits\<close>

text \<open>
  An equation between words of a concrete width is the conjunction of the equations between their
  bits; \<open>bit_simps\<close> evaluates each bit.  These are the rules \<open>simp add: word_blast bit_simps\<close> uses
  on bit fields.
\<close>

lemma bits_eq_iff8 [word_blast]: "(x::u8) = y \<longleftrightarrow> (\<forall>n\<in>set [0..<8]. bit x n = bit y n)"
  by (auto intro: bit_word_eqI)

lemma bits_eq_iff16 [word_blast]: "(x::u16) = y \<longleftrightarrow> (\<forall>n\<in>set [0..<16]. bit x n = bit y n)"
  by (auto intro: bit_word_eqI)

lemma bits_eq_iff32 [word_blast]: "(x::u32) = y \<longleftrightarrow> (\<forall>n\<in>set [0..<32]. bit x n = bit y n)"
  by (auto intro: bit_word_eqI)

lemma upto8 [word_blast]: "[0..<8] = [0,1,2,3,4,5,6,7]"
  by (simp add: upt_rec)

lemma upto16 [word_blast]: "[0..<16] = [0,1,2,3,4,5,6,7,8,9,10,11,12,13,14,15]"
  by (simp add: upt_rec)

lemma upto32 [word_blast]:
  "[0..<32] = [0,1,2,3,4,5,6,7,8,9,10,11,12,13,14,15,16,17,18,19,20,21,22,23,24,25,26,27,28,29,30,31]"
  by (simp add: upt_rec)

lemma no_bit8 [word_blast]: "8 \<le> n \<Longrightarrow> \<not> bit (x::u8) n"
  using bit_imp_le_length by fastforce

lemma no_bit16 [word_blast]: "16 \<le> n \<Longrightarrow> \<not> bit (x::u16) n"
  using bit_imp_le_length by fastforce

lemma no_bit32 [word_blast]: "32 \<le> n \<Longrightarrow> \<not> bit (x::u32) n"
  using bit_imp_le_length by fastforce

section \<open>Byte order\<close>

text \<open>\<open>u16::to_be\<close>, \<open>u16::from_be\<close>, \<open>u32::to_be\<close> and \<open>u32::from_be\<close> on a little-endian target.\<close>

definition u16_swap :: "u16 \<Rightarrow> u16" where
  "u16_swap x = push_bit 8 x OR drop_bit 8 x"

definition u32_swap :: "u32 \<Rightarrow> u32" where
  "u32_swap x =
     push_bit 24 (x AND 0xff) OR push_bit 8 (x AND 0xff00) OR (drop_bit 8 x AND 0xff00) OR drop_bit 24 x"

abbreviation u16_to_be :: "u16 \<Rightarrow> u16" where "u16_to_be \<equiv> u16_swap"
abbreviation u16_from_be :: "u16 \<Rightarrow> u16" where "u16_from_be \<equiv> u16_swap"
abbreviation u32_to_be :: "u32 \<Rightarrow> u32" where "u32_to_be \<equiv> u32_swap"
abbreviation u32_from_be :: "u32 \<Rightarrow> u32" where "u32_from_be \<equiv> u32_swap"

lemma u16_swap_swap [simp]: "u16_swap (u16_swap x) = x"
  by (simp add: word_blast bit_simps u16_swap_def)

lemma u32_swap_swap [simp]: "u32_swap (u32_swap x) = x"
  by (simp add: word_blast bit_simps u32_swap_def)

lemma u16_swap_inject [simp]: "u16_swap x = u16_swap y \<longleftrightarrow> x = y"
  by (metis u16_swap_swap)

lemma u32_swap_inject [simp]: "u32_swap x = u32_swap y \<longleftrightarrow> x = y"
  by (metis u32_swap_swap)

section \<open>Powers of two and masks\<close>

text \<open>Masking with one less than a power of two is the remainder.\<close>

lemma unat_pow2: "k < LENGTH('a) \<Longrightarrow> unat (2 ^ k :: 'a::len word) = 2 ^ k"
  using unat_of_nat [of "2 ^ k", where ?'a = 'a] by simp

lemma unat_and_pow2_minus_1:
  fixes x :: "'a::len word"
  assumes "k < LENGTH('a)"
  shows "unat (x AND (2 ^ k - 1)) = unat x mod 2 ^ k"
proof -
  have "x AND (2 ^ k - 1) = take_bit k x"
    by (simp add: take_bit_eq_mask mask_eq_exp_minus_1)
  then have "unat (x AND (2 ^ k - 1)) = take_bit k (unat x)"
    by (simp only: unsigned_take_bit_eq)
  then show ?thesis
    by (simp add: take_bit_eq_mod)
qed

lemma and_not_mask_eq_push_drop:
  fixes x :: "'a::len word"
  shows "x AND NOT (mask n) = push_bit n (drop_bit n x)"
  by (rule bit_word_eqI) (auto simp: bit_simps)

lemma unat_and_not_mask:
  fixes x :: "'a::len word"
  shows "unat (x AND NOT (mask n)) = unat x div 2 ^ n * 2 ^ n"
proof -
  have "unat x div 2 ^ n * 2 ^ n \<le> unat x" by simp
  also have "\<dots> < 2 ^ LENGTH('a)" by (rule unsigned_less)
  finally have "unat x div 2 ^ n * 2 ^ n < 2 ^ LENGTH('a)" .
  moreover have "unat (push_bit n (drop_bit n x)) = take_bit LENGTH('a) (push_bit n (drop_bit n (unat x)))"
    by (simp only: unsigned_push_bit_eq unsigned_drop_bit_eq take_bit_nat_eq_self [OF unsigned_less])
  ultimately show ?thesis
    by (simp only: and_not_mask_eq_push_drop push_bit_eq_mult [where ?'a = nat]
        drop_bit_eq_div [where ?'a = nat] take_bit_nat_eq_self)
qed

lemma unat_pow2_minus_1: "k < LENGTH('a) \<Longrightarrow> unat (2 ^ k - 1 :: 'a::len word) = 2 ^ k - 1"
  by (simp add: unat_pow2 unat_sub word_le_nat_alt)

text \<open>The test \<open>x & (x - 1) == 0\<close> recognises the powers of two.\<close>

lemma bit_leading:
  fixes x :: "'a::len word"
  assumes "2 ^ n \<le> unat x" and "unat x < 2 ^ Suc n"
  shows "bit x n"
proof -
  have "unat x div 2 ^ n = 1" using assms by (intro div_nat_eqI) simp_all
  then have "bit (unat x) n" by (simp add: bit_iff_odd)
  then show ?thesis by (simp add: bit_unsigned_iff)
qed

lemma leading_exponent:
  fixes m :: nat
  assumes "0 < m"
  obtains n where "2 ^ n \<le> m" and "m < 2 ^ Suc n"
proof -
  let ?n = "LEAST n. m < 2 ^ n"
  have lt: "m < 2 ^ ?n" by (rule LeastI [of _ m]) (rule less_exp)
  then have "?n \<noteq> 0" using assms by (cases "?n = 0") auto
  then obtain n where n: "?n = Suc n" using not0_implies_Suc by blast
  then have "2 ^ n \<le> m" using not_less_Least [of n "\<lambda>n. m < 2 ^ n"] by simp
  with lt n show thesis by (intro that [of n]) simp_all
qed

lemma and_minus_1_eq_0_iff:
  fixes x :: "'a::len word"
  assumes "x \<noteq> 0"
  shows "x AND (x - 1) = 0 \<longleftrightarrow> (\<exists>k<LENGTH('a). x = 2 ^ k)"
proof
  assume and0: "x AND (x - 1) = 0"
  have pos: "0 < unat x" using assms by (simp add: unat_gt_0)
  then obtain n where n: "2 ^ n \<le> unat x" "unat x < 2 ^ Suc n" by (rule leading_exponent)
  have len: "n < LENGTH('a)"
    using n(1) unsigned_less [of x, where ?'a = nat] by (metis le_less_trans nat_power_less_imp_less zero_less_numeral)
  have m1: "unat (x - 1) = unat x - 1" using pos by (subst unat_sub) (simp_all add: word_le_nat_alt)
  have "x = 2 ^ n"
  proof (rule ccontr)
    assume "x \<noteq> 2 ^ n"
    then have "unat x \<noteq> 2 ^ n" using len by (metis unat_pow2 unsigned_word_eqI)
    then have "bit (x - 1) n" using n m1 by (intro bit_leading) simp_all
    moreover have "bit x n" using n by (rule bit_leading)
    ultimately have "bit (x AND (x - 1)) n" by (simp add: bit_and_iff)
    with and0 show False by simp
  qed
  with len show "\<exists>k<LENGTH('a). x = 2 ^ k" by blast
next
  assume "\<exists>k<LENGTH('a). x = 2 ^ k"
  then obtain k where "x = 2 ^ k" by blast
  then show "x AND (x - 1) = 0"
    by (simp add: mask_eq_exp_minus_1 [symmetric]) (rule bit_word_eqI, auto simp: bit_simps)
qed

text \<open>Free-running 64-bit counters whose position in a ring of a power of two is the masked counter.\<close>

lemma counter_position:
  assumes "k < 64"
  shows "unat ((h + x :: usize) AND (2 ^ k - 1)) = (unat h + unat x) mod 2 ^ k"
proof -
  have "unat ((h + x) AND (2 ^ k - 1)) = (unat h + unat x) mod 2 ^ 64 mod 2 ^ k"
    using assms by (simp add: unat_and_pow2_minus_1 unat_word_ariths)
  also have "\<dots> = (unat h + unat x) mod 2 ^ k"
    using assms by (intro mod_mod_cancel le_imp_power_dvd) simp
  finally show ?thesis .
qed

lemma unat_advance:
  fixes a :: usize
  assumes "unat a + w < 2 ^ 64"
  shows "unat (a + of_nat w) = unat a + w"
  using assms by (simp add: unat_word_ariths unat_of_nat)

section \<open>Loops\<close>

text \<open>
  A \<open>while\<close> or \<open>loop\<close> whose end is not evident: one iteration either continues with a new state
  (\<open>Inl\<close>), leaves the loop with a result (\<open>Inr\<close>) or panics (\<open>None\<close>).  A loop that runs forever does not
  return either, and its value is \<open>None\<close> as well: a theorem that concludes \<open>Some\<close> states termination.
\<close>

partial_function (option) rust_loop :: "('s \<Rightarrow> ('s + 'r) option) \<Rightarrow> 's \<Rightarrow> 'r option" where
  [code]: "rust_loop step s = do {
     x \<leftarrow> step s;
     case x of Inl s' \<Rightarrow> rust_loop step s' | Inr r \<Rightarrow> Some r
   }"

lemma rust_loop_panic: "step s = None \<Longrightarrow> rust_loop step s = None"
  by (subst rust_loop.simps) simp

lemma rust_loop_continue: "step s = Some (Inl s') \<Longrightarrow> rust_loop step s = rust_loop step s'"
  by (subst rust_loop.simps) simp

lemma rust_loop_break: "step s = Some (Inr r) \<Longrightarrow> rust_loop step s = Some r"
  by (subst rust_loop.simps) simp

text \<open>Termination: every iteration from a state of the invariant breaks well or decreases a measure.\<close>

lemma rust_loop_total:
  fixes m :: "'s \<Rightarrow> nat"
  assumes "I s"
    and "\<And>s. I s \<Longrightarrow> (\<exists>s'. step s = Some (Inl s') \<and> I s' \<and> m s' < m s) \<or>
      (\<exists>r. step s = Some (Inr r) \<and> post r)"
  shows "\<exists>r. rust_loop step s = Some r \<and> post r"
  using assms(1)
proof (induction "m s" arbitrary: s rule: less_induct)
  case less
  from assms(2) [OF less.prems] show ?case
  proof (elim disjE exE conjE)
    fix s' assume "step s = Some (Inl s')" "I s'" "m s' < m s"
    with less.hyps show ?thesis by (simp add: rust_loop_continue)
  qed (simp add: rust_loop_break)
qed

text \<open>A set of states that the iteration never leaves is an infinite loop.\<close>

lemma rust_loop_diverges:
  assumes "I s" and step: "\<And>s. I s \<Longrightarrow> \<exists>s'. step s = Some (Inl s') \<and> I s'"
  shows "rust_loop step s = None"
proof (rule ccontr)
  assume "rust_loop step s \<noteq> None"
  then obtain r where r: "rust_loop step s = Some r" by blast
  have "step = step \<longrightarrow> \<not> I s"
  proof (rule rust_loop.raw_induct [of "\<lambda>t s r. t = step \<longrightarrow> \<not> I s", OF _ r])
    fix loop t s r
    assume "\<And>t s r. loop t s = Some r \<Longrightarrow> t = step \<longrightarrow> \<not> I s"
      and "t s \<bind> (\<lambda>x. case x of Inl s' \<Rightarrow> loop t s' | Inr r \<Rightarrow> Some r) = Some r"
    then show "t = step \<longrightarrow> \<not> I s" using step [of s] by auto
  qed
  with assms(1) show False by blast
qed

end
