(* ===== verification/NB_Utils.thy ===== *)
theory NB_Utils
  imports NB_Prelude
begin

text \<open>
  \<open>framework/src/utils/mod.rs\<close> and the address prefixes of \<open>framework/src/utils/flow.rs\<close>:
  rounding to pages and to powers of two, and CIDR prefix matching.
\<close>

section \<open>Rounding\<close>

definition PAGE_SIZE :: usize where
  "PAGE_SIZE = 4096"

definition round_to_pages :: "usize \<Rightarrow> usize option" where
  "round_to_pages buffer_size = do {
     s \<leftarrow> checked_add buffer_size (PAGE_SIZE - 1);
     Some (s AND NOT (PAGE_SIZE - 1))
   }"

definition round_to_power_of_2 :: "usize \<Rightarrow> usize" where
  "round_to_power_of_2 s0 =
    (let s = s0 - 1;
         s = s OR drop_bit 1 s;
         s = s OR drop_bit 2 s;
         s = s OR drop_bit 4 s;
         s = s OR drop_bit 8 s;
         s = s OR drop_bit 16 s;
         s = s OR drop_bit 32 s
     in s + 1)"

text \<open>
  The doubling shifts smear every set bit of the operand over all the lower positions:
  after a shift by \<open>m\<close> each position looks \<open>2 * m\<close> bits upwards.
\<close>

definition smeared :: "nat \<Rightarrow> 'a::len word \<Rightarrow> 'a word \<Rightarrow> bool" where
  "smeared m x y \<longleftrightarrow> (\<forall>i. bit y i \<longleftrightarrow> (\<exists>d<m. bit x (i + d)))"

lemma smeared_start: "smeared 1 x x"
  by (simp add: smeared_def)

lemma smeared_step:
  assumes "smeared m x y"
  shows "smeared (2 * m) x (y OR drop_bit m y)"
  unfolding smeared_def
proof
  fix i
  have "(\<exists>d<2 * m. bit x (i + d)) \<longleftrightarrow> (\<exists>d<m. bit x (i + d)) \<or> (\<exists>d<m. bit x (m + i + d))"
  proof
    assume "\<exists>d<2 * m. bit x (i + d)"
    then obtain d where d: "d < 2 * m" "bit x (i + d)" by blast
    show "(\<exists>d<m. bit x (i + d)) \<or> (\<exists>d<m. bit x (m + i + d))"
    proof (cases "d < m")
      case True
      with d show ?thesis by blast
    next
      case False
      with d have "d - m < m" "bit x (m + i + (d - m))" by (simp_all add: ac_simps)
      then show ?thesis by blast
    qed
  next
    assume "(\<exists>d<m. bit x (i + d)) \<or> (\<exists>d<m. bit x (m + i + d))"
    then show "\<exists>d<2 * m. bit x (i + d)"
    proof
      assume "\<exists>d<m. bit x (i + d)"
      then obtain d where "d < m" "bit x (i + d)" by blast
      then show ?thesis by (intro exI [of _ d]) simp
    next
      assume "\<exists>d<m. bit x (m + i + d)"
      then obtain d where "d < m" "bit x (i + (m + d))" by (auto simp: ac_simps)
      then show ?thesis by (intro exI [of _ "m + d"]) simp
    qed
  qed
  with assms show "bit (y OR drop_bit m y) i \<longleftrightarrow> (\<exists>d<2 * m. bit x (i + d))"
    by (simp add: smeared_def bit_or_iff bit_drop_bit_eq)
qed

lemma round_to_power_of_2_smeared: "\<exists>y. smeared 64 (s - 1) y \<and> round_to_power_of_2 s = y + 1"
proof -
  let ?x = "s - 1"
  define a where "a = ?x OR drop_bit 1 ?x"
  define b where "b = a OR drop_bit 2 a"
  define c where "c = b OR drop_bit 4 b"
  define d where "d = c OR drop_bit 8 c"
  define e where "e = d OR drop_bit 16 d"
  define f where "f = e OR drop_bit 32 e"
  have "smeared 2 ?x a"
    using smeared_step [OF smeared_start] unfolding a_def by simp
  then have "smeared 4 ?x b" using smeared_step unfolding b_def by fastforce
  then have "smeared 8 ?x c" using smeared_step unfolding c_def by fastforce
  then have "smeared 16 ?x d" using smeared_step unfolding d_def by fastforce
  then have "smeared 32 ?x e" using smeared_step unfolding e_def by fastforce
  then have "smeared 64 ?x f" using smeared_step unfolding f_def by fastforce
  moreover have "round_to_power_of_2 s = f + 1"
    unfolding round_to_power_of_2_def Let_def a_def b_def c_def d_def e_def f_def by (rule refl)
  ultimately show ?thesis by blast
qed

lemma smeared_all_mask:
  fixes x y :: "'a::len word"
  assumes sm: "smeared LENGTH('a) x y" and lt: "unat x < 2 ^ n" and ge: "n = 0 \<or> 2 ^ (n - 1) \<le> unat x"
    and n: "n \<le> LENGTH('a)"
  shows "y = mask n"
proof (rule bit_word_eqI)
  fix i assume i: "i < LENGTH('a)"
  have high: "\<not> bit x j" if "n \<le> j" for j
  proof -
    have "(2::nat) ^ n \<le> 2 ^ j" using that by simp
    with lt have "unat x < 2 ^ j" by (rule less_le_trans)
    then have "\<not> bit (unat x) j" by (simp add: bit_iff_odd)
    then show ?thesis by (simp add: bit_unsigned_iff)
  qed
  have "bit y i \<longleftrightarrow> i < n"
  proof
    assume "bit y i"
    with sm obtain d where "bit x (i + d)" by (auto simp: smeared_def)
    with high show "i < n" by (meson le_add1 le_trans not_le)
  next
    assume "i < n"
    have "unat x div 2 ^ (n - 1) = 1"
    proof -
      from \<open>i < n\<close> ge lt have "2 ^ (n - 1) \<le> unat x" "unat x < 2 * 2 ^ (n - 1)"
        by (simp_all flip: power_Suc)
      then show ?thesis by (simp add: div_nat_eqI)
    qed
    then have "bit (unat x) (n - 1)" by (simp add: bit_iff_odd)
    then have "bit x (n - 1)" by (simp add: bit_unsigned_iff)
    then have "bit x (i + (n - 1 - i))" using \<open>i < n\<close> by simp
    moreover have "n - 1 - i < LENGTH('a)" using n \<open>i < n\<close> by simp
    ultimately show "bit y i" using sm unfolding smeared_def by blast
  qed
  with i show "bit y i = bit (mask n :: 'a word) i"
    by (simp add: bit_mask_iff)
qed

text \<open>The exponent the rounding produces: the least one whose power is at least the operand.\<close>

lemma least_exponent:
  fixes m :: nat
  obtains n where "m < 2 ^ n" and "n = 0 \<or> 2 ^ (n - 1) \<le> m"
proof -
  let ?n = "LEAST n. m < 2 ^ n"
  have "m < 2 ^ ?n" by (rule LeastI [of _ m]) (rule less_exp)
  moreover have "?n = 0 \<or> 2 ^ (?n - 1) \<le> m"
    using not_less_Least [of "?n - 1" "\<lambda>n. m < 2 ^ n"] by (cases "?n = 0") auto
  ultimately show thesis by (rule that)
qed

lemma round_to_power_of_2_exponent:
  assumes "m = unat (s - 1)" and "m < 2 ^ n" and "n = 0 \<or> 2 ^ (n - 1) \<le> m"
  shows "n \<le> 64" and "round_to_power_of_2 s = 2 ^ n"
proof -
  have m: "m < 2 ^ 64" unfolding assms(1) using unsigned_less [of "s - 1", where ?'a = nat] by simp
  show n: "n \<le> 64"
  proof (rule ccontr)
    assume "\<not> n \<le> 64"
    then have "(2::nat) ^ 64 \<le> 2 ^ (n - 1)" by (intro power_increasing) simp_all
    with assms(3) m \<open>\<not> n \<le> 64\<close> show False by linarith
  qed
  obtain y where y: "smeared 64 (s - 1) y" "round_to_power_of_2 s = y + 1"
    using round_to_power_of_2_smeared by blast
  have "y = mask n"
    using smeared_all_mask [of "s - 1" y n] y(1) assms n by simp
  with y(2) show "round_to_power_of_2 s = 2 ^ n"
    by (simp add: mask_eq_exp_minus_1)
qed

lemma round_to_power_of_2_least:
  assumes "0 < unat s" and "unat s \<le> 2 ^ 63"
  shows "\<exists>k<64. round_to_power_of_2 s = 2 ^ k \<and> unat s \<le> 2 ^ k \<and> (\<forall>j. unat s \<le> 2 ^ j \<longrightarrow> k \<le> j)"
proof -
  have m: "unat (s - 1) = unat s - 1"
    using assms(1) by (subst unat_sub) (simp_all add: word_le_nat_alt)
  obtain n where n: "unat (s - 1) < 2 ^ n" "n = 0 \<or> 2 ^ (n - 1) \<le> unat (s - 1)"
    by (rule least_exponent)
  have "n < 64"
  proof (rule ccontr)
    assume "\<not> n < 64"
    then have "(2::nat) ^ 63 \<le> 2 ^ (n - 1)" by (intro power_increasing) simp_all
    with n(2) \<open>\<not> n < 64\<close> m assms show False by linarith
  qed
  moreover have "unat s \<le> 2 ^ n" using n(1) m by linarith
  moreover have "n \<le> j" if "unat s \<le> 2 ^ j" for j
  proof (rule ccontr)
    assume "\<not> n \<le> j"
    then have "(2::nat) ^ j \<le> 2 ^ (n - 1)" by (intro power_increasing) simp_all
    with n(2) m that assms(1) \<open>\<not> n \<le> j\<close> show False by linarith
  qed
  moreover have "round_to_power_of_2 s = 2 ^ n"
    by (rule round_to_power_of_2_exponent(2) [OF refl n])
  ultimately show ?thesis by blast
qed

text \<open>
  For every size from 1 to 2^63, \<open>round_to_power_of_2\<close> returns the least power of two that is
  at least the size.
\<close>

theorem round_to_power_of_2_correct:
  assumes "0 < unat s" and "unat s \<le> 2 ^ 63"
  shows "\<exists>k<64. round_to_power_of_2 s = 2 ^ k \<and> unat s \<le> 2 ^ k \<and> (\<forall>j. unat s \<le> 2 ^ j \<longrightarrow> k \<le> j)"
  using assms by (rule round_to_power_of_2_least)

theorem round_to_power_of_2_correct_witness:
  "(0::nat) < unat (4097::usize) \<and> unat (4097::usize) \<le> 2 ^ 63 \<and>
   (\<exists>k<64. round_to_power_of_2 4097 = 2 ^ k \<and> unat (4097::usize) \<le> 2 ^ k \<and>
     (\<forall>j. unat (4097::usize) \<le> 2 ^ j \<longrightarrow> k \<le> j))"
proof -
  have h: "0 < unat (4097::usize)" "unat (4097::usize) \<le> 2 ^ 63" by simp_all
  show ?thesis using h round_to_power_of_2_correct [OF h] by blast
qed

text \<open>The two boundary cases: zero, and sizes beyond the largest power, wrap around to zero.\<close>

lemma round_to_power_of_2_boundary:
  assumes "unat s = 0 \<or> 2 ^ 63 < unat s"
  shows "round_to_power_of_2 s = 0"
proof -
  have m: "2 ^ 63 \<le> unat (s - 1)"
  proof (cases "unat s = 0")
    case True
    then have "s = 0" by (simp add: unat_eq_zero)
    then show ?thesis by (simp add: unsigned_minus_1_eq_mask mask_eq_exp_minus_1)
  next
    case False
    with assms show ?thesis by (subst unat_sub) (simp_all add: word_le_nat_alt)
  qed
  have lt: "unat (s - 1) < 2 ^ 64"
    using unsigned_less [of "s - 1", where ?'a = nat] by simp
  have "round_to_power_of_2 s = 2 ^ 64"
    by (rule round_to_power_of_2_exponent(2) [OF refl lt]) (use m in simp)
  then show ?thesis by simp
qed

lemma round_to_pages_unat:
  assumes "round_to_pages b = Some r"
  shows "unat r = (unat b + 4095) div 4096 * 4096"
proof -
  from assms obtain s where s: "checked_add b 4095 = Some s" and r: "r = s AND NOT (2 ^ 12 - 1)"
    by (auto simp: round_to_pages_def PAGE_SIZE_def bind_eq_Some_conv)
  have "r = s AND NOT (mask 12)"
    unfolding r by (simp add: mask_eq_exp_minus_1)
  then have "unat r = unat s div 2 ^ 12 * 2 ^ 12"
    by (simp only: unat_and_not_mask)
  then show ?thesis
    using checked_add_unat [OF s] by simp
qed

text \<open>
  \<open>round_to_pages\<close> returns the least multiple of the page size that is at least the size;
  it overflows exactly when the size plus 4095 does not fit in 64 bits.
\<close>

theorem round_to_pages_correct:
  "(round_to_pages b = None \<longleftrightarrow> 2 ^ 64 \<le> unat b + 4095) \<and>
   (\<forall>r. round_to_pages b = Some r \<longrightarrow>
      4096 dvd unat r \<and> unat b \<le> unat r \<and> unat r < unat b + 4096)"
proof (intro conjI allI impI)
  show "round_to_pages b = None \<longleftrightarrow> 2 ^ 64 \<le> unat b + 4095"
    by (auto simp: round_to_pages_def PAGE_SIZE_def checked_add_def)
  fix r assume "round_to_pages b = Some r"
  then have r: "unat r = (unat b + 4095) div 4096 * 4096" by (rule round_to_pages_unat)
  show "4096 dvd unat r" unfolding r by simp
  have "unat b + 4095 = (unat b + 4095) div 4096 * 4096 + (unat b + 4095) mod 4096"
    by simp
  moreover have "(unat b + 4095) mod 4096 < 4096" by (rule mod_less_divisor) simp
  ultimately show "unat b \<le> unat r" "unat r < unat b + 4096" unfolding r by linarith+
qed

theorem round_to_pages_correct_witness:
  "round_to_pages 4097 = Some 8192 \<and> (4096::nat) dvd unat (8192::usize) \<and>
   unat (4097::usize) \<le> unat (8192::usize) \<and> unat (8192::usize) < unat (4097::usize) + 4096"
proof -
  have h: "round_to_pages 4097 = Some 8192"
    by (simp add: round_to_pages_def PAGE_SIZE_def checked_add_def)
  show ?thesis using h round_to_pages_correct [of 4097] by blast
qed

section \<open>Address prefixes\<close>

record Ipv4Prefix =
  ip_address :: u32
  prefix :: u8
  pfx_mask :: u32

definition Ipv4Prefix_new :: "u32 \<Rightarrow> u8 \<Rightarrow> Ipv4Prefix option" where
  "Ipv4Prefix_new address pfx = do {
     m \<leftarrow> (if pfx = 0 then Some 0
           else do {
             inv_pfx \<leftarrow> checked_sub 32 pfx;
             bits \<leftarrow> checked_sub (push_bit (unat inv_pfx) 1) 1;
             Some (NOT bits)
           });
     Some \<lparr>ip_address = address AND m, prefix = pfx, pfx_mask = m\<rparr>
   }"

definition in_range :: "Ipv4Prefix \<Rightarrow> u32 \<Rightarrow> bool" where
  "in_range p address \<longleftrightarrow> (address AND pfx_mask p) = ip_address p"

lemma Ipv4Prefix_new_mask:
  assumes "unat pfx \<le> 32"
  shows "Ipv4Prefix_new a pfx =
    Some \<lparr>ip_address = a AND NOT (mask (32 - unat pfx)), prefix = pfx, pfx_mask = NOT (mask (32 - unat pfx))\<rparr>"
proof (cases "pfx = 0")
  case True
  have "(mask 32 :: u32) = -1" by (simp add: mask_eq_exp_minus_1)
  with True show ?thesis by (simp add: Ipv4Prefix_new_def)
next
  case False
  then have pos: "0 < unat pfx" by (simp add: unat_gt_0)
  have le: "pfx \<le> 32" using assms by (simp add: word_le_nat_alt)
  then have inv: "unat (32 - pfx) = 32 - unat pfx" by (simp add: unat_sub)
  have one: "(1::u32) \<le> push_bit (32 - unat pfx) 1"
    using pos by (simp add: push_bit_of_1 word_le_nat_alt unat_pow2)
  from False le one show ?thesis
    by (simp add: Ipv4Prefix_new_def checked_sub_def inv mask_eq_exp_minus_1 push_bit_of_1)
qed

lemma and_not_mask_eq_iff:
  fixes a x :: "'a::len word"
  shows "x AND NOT (mask n) = a AND NOT (mask n) \<longleftrightarrow> drop_bit n x = drop_bit n a"
proof
  assume eq: "x AND NOT (mask n) = a AND NOT (mask n)"
  show "drop_bit n x = drop_bit n a"
  proof (rule bit_word_eqI)
    fix i assume "i < LENGTH('a)"
    from eq have "bit (x AND NOT (mask n)) (n + i) = bit (a AND NOT (mask n)) (n + i)" by simp
    then show "bit (drop_bit n x) i = bit (drop_bit n a) i"
      using bit_imp_le_length [of x "n + i"] bit_imp_le_length [of a "n + i"]
      by (auto simp: bit_simps)
  qed
next
  assume eq: "drop_bit n x = drop_bit n a"
  show "x AND NOT (mask n) = a AND NOT (mask n)"
  proof (rule bit_word_eqI)
    fix i assume i: "i < LENGTH('a)"
    from eq have "bit (drop_bit n x) (i - n) = bit (drop_bit n a) (i - n)" by simp
    with i show "bit (x AND NOT (mask n)) i = bit (a AND NOT (mask n)) i"
      by (auto simp: bit_simps)
  qed
qed

text \<open>
  C39: A prefix built from an address and a length of at most 32 contains exactly the addresses that
  agree with it on the leading \<open>pfx\<close> bits; longer lengths overflow the subtraction.
\<close>

theorem Ipv4Prefix_in_range_iff:
  "(unat pfx \<le> 32 \<longrightarrow>
     (\<exists>p. Ipv4Prefix_new a pfx = Some p \<and>
        (\<forall>x. in_range p x \<longleftrightarrow> drop_bit (32 - unat pfx) x = drop_bit (32 - unat pfx) a))) \<and>
   (32 < unat pfx \<longrightarrow> Ipv4Prefix_new a pfx = None)"
proof (intro conjI impI)
  assume "unat pfx \<le> 32"
  then show "\<exists>p. Ipv4Prefix_new a pfx = Some p \<and>
      (\<forall>x. in_range p x \<longleftrightarrow> drop_bit (32 - unat pfx) x = drop_bit (32 - unat pfx) a)"
    by (simp add: Ipv4Prefix_new_mask in_range_def and_not_mask_eq_iff)
next
  assume gt: "32 < unat pfx"
  then have "pfx \<noteq> 0" "\<not> pfx \<le> 32" by (auto simp: word_le_nat_alt)
  then show "Ipv4Prefix_new a pfx = None"
    by (simp add: Ipv4Prefix_new_def checked_sub_def)
qed

theorem Ipv4Prefix_in_range_iff_witness:
  "unat (16::u8) \<le> 32 \<and> (\<exists>p. Ipv4Prefix_new 0xC0A80000 16 = Some p \<and> in_range p 0xC0A86401 \<and> \<not> in_range p 0xC0A30001) \<and>
   Ipv4Prefix_new 0 33 = None"
proof -
  have h: "unat (16::u8) \<le> 32" "32 < unat (33::u8)" by simp_all
  have "drop_bit (32 - unat (16::u8)) (0xC0A86401::u32) = drop_bit (32 - unat (16::u8)) 0xC0A80000"
    "drop_bit (32 - unat (16::u8)) (0xC0A30001::u32) \<noteq> drop_bit (32 - unat (16::u8)) 0xC0A80000"
    by simp_all
  then show ?thesis
    using h Ipv4Prefix_in_range_iff [of 16 "0xC0A80000"] Ipv4Prefix_in_range_iff [of 33 0] by metis
qed

end
