(* ===== verification/NB_Fifo.thy ===== *)
theory NB_Fifo
  imports NB_Prelude
begin

text \<open>
  The contract of a bounded first-in first-out buffer, which both the byte ring of
  \<open>framework/src/state/ring_buffer.rs\<close> and the packet queue of
  \<open>framework/src/queues/mpsc_mbuf_queue.rs\<close> promise to their clients, and what follows from it for
  any sequence of operations.  Also here: reading and writing a circular array.
\<close>

section \<open>Circular arrays\<close>

definition ring_slice :: "'a list \<Rightarrow> nat \<Rightarrow> nat \<Rightarrow> 'a list" where
  "ring_slice vec off n = map (\<lambda>i. vec ! ((off + i) mod length vec)) [0..<n]"

definition ring_write :: "'a list \<Rightarrow> nat \<Rightarrow> 'a list \<Rightarrow> 'a list" where
  "ring_write vec off data =
     map (\<lambda>j. let i = (j + length vec - off mod length vec) mod length vec
               in if i < length data then data ! i else vec ! j) [0..<length vec]"

lemma length_ring_slice [simp]: "length (ring_slice vec off n) = n"
  by (simp add: ring_slice_def)

lemma length_ring_write [simp]: "length (ring_write vec off data) = length vec"
  by (simp add: ring_write_def)

lemma nth_ring_slice [simp]: "i < n \<Longrightarrow> ring_slice vec off n ! i = vec ! ((off + i) mod length vec)"
  by (simp add: ring_slice_def)

lemma ring_slice_0 [simp]: "ring_slice vec off 0 = []"
  by (simp add: ring_slice_def)

lemma ring_slice_append:
  "ring_slice vec off (n + m) = ring_slice vec off n @ ring_slice vec (off + n) m"
  by (rule nth_equalityI) (simp_all add: nth_append add.assoc)

lemma take_ring_slice: "m \<le> n \<Longrightarrow> take m (ring_slice vec off n) = ring_slice vec off m"
  by (rule nth_equalityI) simp_all

lemma drop_ring_slice: "m \<le> n \<Longrightarrow> drop m (ring_slice vec off n) = ring_slice vec (off + m) (n - m)"
  by (rule nth_equalityI) (simp_all add: ac_simps)

lemma ring_slice_mod: "ring_slice vec (off mod length vec) n = ring_slice vec off n"
  by (rule nth_equalityI) (simp_all add: mod_add_left_eq)

lemma mod_distance:
  fixes n off i :: nat
  assumes "i < n"
  shows "((off + i) mod n + n - off mod n) mod n = i"
proof -
  have n: "0 < n" using assms by simp
  then have lt: "off mod n < n" by simp
  have split: "(off + i) mod n = (off mod n + i) mod n" by (simp add: mod_add_left_eq)
  show ?thesis
  proof (cases "off mod n + i < n")
    case True
    with split have "(off + i) mod n + n - off mod n = i + n" using lt by simp
    then show ?thesis using assms by simp
  next
    case False
    moreover have "off mod n + i - n < n" using assms lt by linarith
    ultimately have "(off mod n + i) mod n = off mod n + i - n"
      by (simp only: le_mod_geq not_less mod_less)
    with split have "(off + i) mod n + n - off mod n = i" using False lt by simp
    then show ?thesis using assms by simp
  qed
qed

lemma nth_ring_write:
  assumes "i < length vec"
  shows "ring_write vec off data ! ((off + i) mod length vec) =
    (if i < length data then data ! i else vec ! ((off + i) mod length vec))"
proof -
  have "(off + i) mod length vec < length vec"
    by (rule mod_less_divisor) (rule le_less_trans [OF le0 assms])
  then show ?thesis
    by (simp add: ring_write_def Let_def mod_distance [OF assms])
qed

text \<open>Every index of the array is reached from any offset.\<close>

lemma ring_index_cases:
  assumes "j < length vec"
  obtains i where "i < length vec" and "j = (off + i) mod length vec"
proof -
  let ?n = "length vec"
  let ?i = "(j + ?n - off mod ?n) mod ?n"
  have n: "0 < ?n" by (rule le_less_trans [OF le0 assms])
  have "(off + ?i) mod ?n = (off mod ?n + (j + ?n - off mod ?n)) mod ?n"
    by (metis mod_add_left_eq mod_add_right_eq)
  also have "\<dots> = j"
    using assms mod_less_divisor [OF n, of off] by simp
  finally show thesis using n by (intro that [of ?i]) simp_all
qed

lemma ring_array_eqI:
  assumes "length xs = length ys"
    and "\<And>i. i < length ys \<Longrightarrow> xs ! ((off + i) mod length ys) = ys ! ((off + i) mod length ys)"
  shows "xs = ys"
proof (rule nth_equalityI)
  fix j assume "j < length xs"
  then have "j < length ys" using assms(1) by simp
  then show "xs ! j = ys ! j"
    by (rule ring_index_cases [where off = off]) (use assms(2) in blast)
qed (rule assms(1))

text \<open>A block that was written is read back; the blocks before it are untouched.\<close>

lemma ring_slice_write_same:
  assumes "length data \<le> length vec"
  shows "ring_slice (ring_write vec off data) off (length data) = data"
proof (rule nth_equalityI)
  fix i assume "i < length (ring_slice (ring_write vec off data) off (length data))"
  with assms nth_ring_write [of i vec off data]
  show "ring_slice (ring_write vec off data) off (length data) ! i = data ! i" by simp
qed simp

lemma ring_slice_write_other:
  assumes "d + length data \<le> length vec" and "n \<le> d"
  shows "ring_slice (ring_write vec (off + d) data) off n = ring_slice vec off n"
proof (rule nth_equalityI)
  let ?N = "length vec"
  fix i assume "i < length (ring_slice (ring_write vec (off + d) data) off n)"
  then have i: "i < n" by simp
  with assms have *: "i + ?N - d < ?N" "d \<le> i + ?N" "length data \<le> i + ?N - d" "0 < ?N" by auto
  have "off + d + (i + ?N - d) = off + i + ?N" using * by simp
  then have "(off + d + (i + ?N - d)) mod ?N = (off + i) mod ?N" by (simp only: mod_add_self2)
  with nth_ring_write [OF *(1), of "off + d" data] *(3) i
  show "ring_slice (ring_write vec (off + d) data) off n ! i = ring_slice vec off n ! i" by simp
qed simp

lemma ring_slice_write:
  assumes "d + length data \<le> n" and "n \<le> length vec"
  shows "ring_slice (ring_write vec (off + d) data) off n = blit d data (ring_slice vec off n)"
proof (rule nth_equalityI)
  let ?N = "length vec"
  show "length (ring_slice (ring_write vec (off + d) data) off n) =
      length (blit d data (ring_slice vec off n))"
    using assms by simp
  fix i assume "i < length (ring_slice (ring_write vec (off + d) data) off n)"
  then have i: "i < n" by simp
  define j where "j = (if d \<le> i then i - d else i + ?N - d)"
  have j: "j < ?N" "j < length data \<longleftrightarrow> d \<le> i \<and> i < d + length data"
    using i assms by (auto simp: j_def)
  have "off + d + j = off + i + (if d \<le> i then 0 else ?N)"
    using i assms by (auto simp: j_def)
  then have "(off + d + j) mod ?N = (off + i) mod ?N"
    by (cases "d \<le> i") (simp_all only: if_True if_False mod_add_self2 add_0_right)
  with nth_ring_write [OF j(1), of "off + d" data] i assms j
  show "ring_slice (ring_write vec (off + d) data) off n ! i = blit d data (ring_slice vec off n) ! i"
    by (auto simp: nth_blit j_def)
qed

lemma ring_write_mod: "ring_write vec (off mod length vec) data = ring_write vec off data"
  by (simp add: ring_write_def)

lemma ring_write_Nil [simp]: "ring_write vec off [] = vec"
  by (rule nth_equalityI) (simp_all add: ring_write_def)

text \<open>Both operations on the underlying array, without and with wrapping past its end.\<close>

lemma ring_slice_nowrap:
  assumes "off + m \<le> length vec"
  shows "ring_slice vec off m = take m (drop off vec)"
  using assms by (intro nth_equalityI) simp_all

lemma ring_slice_wrap:
  assumes "off < length vec" and "length vec < off + m" and "m \<le> length vec"
  shows "ring_slice vec off m = drop off vec @ take (off + m - length vec) vec"
proof (rule nth_equalityI)
  fix i assume "i < length (ring_slice vec off m)"
  then have i: "i < m" by simp
  show "ring_slice vec off m ! i = (drop off vec @ take (off + m - length vec) vec) ! i"
  proof (cases "off + i < length vec")
    case True
    with i assms show ?thesis by (simp add: nth_append less_diff_conv add.commute)
  next
    case False
    with i assms have "(off + i) mod length vec = off + i - length vec"
      by (simp add: le_mod_geq)
    with False i assms show ?thesis by (auto simp: nth_append add.commute)
  qed
qed (use assms in simp)

lemma nth_ring_write_direct:
  assumes "j < length vec" and "off < length vec"
  shows "ring_write vec off data ! j =
    (if off \<le> j \<and> j < off + length data then data ! (j - off)
     else if j < off \<and> j + length vec < off + length data then data ! (j + length vec - off)
     else vec ! j)"
proof -
  have "(j + length vec - off) mod length vec = (if off \<le> j then j - off else j + length vec - off)"
    using assms by (simp add: le_mod_geq)
  with assms show ?thesis
    by (auto simp: ring_write_def Let_def)
qed

lemma ring_write_nowrap:
  assumes "off < length vec" and "off + length data \<le> length vec"
  shows "ring_write vec off data = blit off data vec"
  using assms by (intro nth_equalityI) (auto simp: nth_ring_write_direct nth_blit)

lemma ring_write_wrap:
  assumes "off < length vec" and "length vec < off + length data" and "length data \<le> length vec"
  shows "ring_write vec off data =
    drop (length vec - off) data @
    drop (length data - (length vec - off)) (take off vec @ take (length vec - off) data)"
  using assms by (intro nth_equalityI) (auto simp: nth_ring_write_direct nth_append min_def ac_simps)

text \<open>Appending a block behind the stored elements, and counters that wrap around at \<open>2 ^ 64\<close>.\<close>

lemma ring_push:
  assumes "a + length data \<le> length vec"
  shows "ring_slice (ring_write vec (off + a) data) off (a + length data) = ring_slice vec off a @ data"
proof -
  have "ring_slice (ring_write vec (off + a) data) off a = ring_slice vec off a"
    using assms by (intro ring_slice_write_other) simp_all
  moreover have "ring_slice (ring_write vec (off + a) data) (off + a) (length data) = data"
    using assms by (intro ring_slice_write_same) simp
  ultimately show ?thesis by (simp add: ring_slice_append)
qed

lemma counter_mod:
  assumes "k < 64"
  shows "unat (c + of_nat i :: usize) mod 2 ^ k = (unat c + i) mod 2 ^ k"
proof -
  have "unat (c + of_nat i) mod 2 ^ k = (unat c + i) mod 2 ^ 64 mod 2 ^ k"
    by (simp add: unat_word_ariths unat_of_nat mod_add_right_eq)
  also have "\<dots> = (unat c + i) mod 2 ^ k"
    using assms by (intro mod_mod_cancel le_imp_power_dvd) simp
  finally show ?thesis .
qed

lemma ring_slice_counter:
  assumes "k < 64" and "length vec = 2 ^ k"
  shows "ring_slice vec (unat (c + of_nat i :: usize)) n = ring_slice vec (unat c + i) n"
  using counter_mod [OF assms(1), of c i] by (metis ring_slice_mod assms(2))

lemma ring_write_counter:
  assumes "k < 64" and "length vec = 2 ^ k"
  shows "ring_write vec (unat (c + of_nat i :: usize)) data = ring_write vec (unat c + i) data"
  using counter_mod [OF assms(1), of c i] by (metis ring_write_mod assms(2))

section \<open>Bounded FIFO buffers\<close>

text \<open>
  A client pushes a block, of which a prefix is accepted, and pulls at most a given number of
  elements.  \<open>fifo_run\<close> performs a sequence of operations and collects the elements that came out
  and the elements that were accepted.
\<close>

datatype 'a fifo_op = Push "'a list" | Pull nat

fun fifo_run ::
  "('q \<Rightarrow> 'a list \<Rightarrow> (nat \<times> 'q) option) \<Rightarrow> ('q \<Rightarrow> nat \<Rightarrow> ('a list \<times> 'q) option) \<Rightarrow>
   'a fifo_op list \<Rightarrow> 'q \<Rightarrow> ('a list \<times> 'a list \<times> 'q) option" where
  "fifo_run push pull [] q = Some ([], [], q)"
| "fifo_run push pull (Push xs # ops) q = do {
     (n, q) \<leftarrow> push q xs;
     (outs, ins, q) \<leftarrow> fifo_run push pull ops q;
     Some (outs, take n xs @ ins, q)
   }"
| "fifo_run push pull (Pull n # ops) q = do {
     (ys, q) \<leftarrow> pull q n;
     (outs, ins, q) \<leftarrow> fifo_run push pull ops q;
     Some (ys @ outs, ins, q)
   }"

text \<open>
  \<open>fifo_trace\<close> performs the operations and collects what each call returned: the number of elements a push accepted and the
  elements a pull delivered.  \<open>queue_trace\<close> is the reference, a list of at most \<open>cap\<close> elements: a push accepts as many
  elements as fit, a pull delivers as many as there are.
\<close>

fun fifo_trace ::
  "('q \<Rightarrow> 'a list \<Rightarrow> (nat \<times> 'q) option) \<Rightarrow> ('q \<Rightarrow> nat \<Rightarrow> ('a list \<times> 'q) option) \<Rightarrow>
   'a fifo_op list \<Rightarrow> 'q \<Rightarrow> ((nat + 'a list) list \<times> 'q) option" where
  "fifo_trace push pull [] q = Some ([], q)"
| "fifo_trace push pull (Push xs # ops) q = do {
     (n, q) \<leftarrow> push q xs;
     (rs, q) \<leftarrow> fifo_trace push pull ops q;
     Some (Inl n # rs, q)
   }"
| "fifo_trace push pull (Pull n # ops) q = do {
     (ys, q) \<leftarrow> pull q n;
     (rs, q) \<leftarrow> fifo_trace push pull ops q;
     Some (Inr ys # rs, q)
   }"

fun queue_trace :: "nat \<Rightarrow> 'a fifo_op list \<Rightarrow> 'a list \<Rightarrow> (nat + 'a list) list \<times> 'a list" where
  "queue_trace cap [] ys = ([], ys)"
| "queue_trace cap (Push xs # ops) ys = (
     let free = cap - length ys;
         (rs, zs) = queue_trace cap ops (ys @ take free xs)
     in (Inl (min (length xs) free) # rs, zs))"
| "queue_trace cap (Pull n # ops) ys = (
     let (rs, zs) = queue_trace cap ops (drop n ys)
     in (Inr (take n ys) # rs, zs))"

locale bounded_fifo =
  fixes inv :: "'q \<Rightarrow> bool"
    and contents :: "'q \<Rightarrow> 'a list"
    and room :: "'q \<Rightarrow> nat"
    and push :: "'q \<Rightarrow> 'a list \<Rightarrow> (nat \<times> 'q) option"
    and pull :: "'q \<Rightarrow> nat \<Rightarrow> ('a list \<times> 'q) option"
  assumes push_spec: "inv q \<Longrightarrow> \<exists>q'. push q xs = Some (min (length xs) (room q), q') \<and> inv q' \<and>
      contents q' = contents q @ take (room q) xs \<and> room q' = room q - length xs"
    and pull_spec: "inv q \<Longrightarrow> \<exists>q'. pull q n = Some (take n (contents q), q') \<and> inv q' \<and>
      contents q' = drop n (contents q) \<and> room q' = room q + min n (length (contents q))"
begin

lemma push_steps:
  assumes "inv q"
  obtains q' where "push q xs = Some (min (length xs) (room q), q')" "inv q'"
    "contents q' = contents q @ take (room q) xs" "room q' = room q - length xs"
  using push_spec [OF assms] by blast

lemma pull_steps:
  assumes "inv q"
  obtains q' where "pull q n = Some (take n (contents q), q')" "inv q'"
    "contents q' = drop n (contents q)" "room q' = room q + min n (length (contents q))"
  using pull_spec [OF assms] by blast

text \<open>Every sequence of calls returns what the reference returns, call by call.\<close>

lemma run_trace:
  "inv q \<Longrightarrow> \<exists>rs q'. fifo_trace push pull ops q = Some (rs, q') \<and> inv q' \<and>
     queue_trace (length (contents q) + room q) ops (contents q) = (rs, contents q')"
proof (induction ops arbitrary: q)
  case (Cons op ops)
  show ?case
  proof (cases op)
    case (Push xs)
    obtain q1 where q1: "push q xs = Some (min (length xs) (room q), q1)" "inv q1"
      "contents q1 = contents q @ take (room q) xs" "room q1 = room q - length xs"
      using Cons.prems by (rule push_steps)
    have cap: "length (contents q1) + room q1 = length (contents q) + room q" using q1(3,4) by simp
    from Cons.IH [OF q1(2), unfolded cap] obtain rs q' where "fifo_trace push pull ops q1 = Some (rs, q')" "inv q'"
      "queue_trace (length (contents q) + room q) ops (contents q1) = (rs, contents q')" by blast
    with q1 Push show ?thesis by (simp add: Let_def)
  next
    case (Pull n)
    obtain q1 where q1: "pull q n = Some (take n (contents q), q1)" "inv q1"
      "contents q1 = drop n (contents q)" "room q1 = room q + min n (length (contents q))"
      using Cons.prems by (rule pull_steps)
    have cap: "length (contents q1) + room q1 = length (contents q) + room q" using q1(3,4) by simp
    from Cons.IH [OF q1(2), unfolded cap] obtain rs q' where "fifo_trace push pull ops q1 = Some (rs, q')" "inv q'"
      "queue_trace (length (contents q) + room q) ops (contents q1) = (rs, contents q')" by blast
    with q1 Pull show ?thesis by simp
  qed
qed simp

text \<open>
  No operation panics; what came out followed by what is left is what was there followed by what was
  accepted; and the number of elements the buffer can hold never changes.
\<close>

lemma run_fifo:
  "inv q \<Longrightarrow> \<exists>outs ins q'. fifo_run push pull ops q = Some (outs, ins, q') \<and> inv q' \<and>
     outs @ contents q' = contents q @ ins \<and>
     length (contents q') + room q' = length (contents q) + room q"
proof (induction ops arbitrary: q)
  case Nil
  then show ?case by simp
next
  case (Cons op ops)
  show ?case
  proof (cases op)
    case (Push xs)
    obtain q1 where q1: "push q xs = Some (min (length xs) (room q), q1)" "inv q1"
      "contents q1 = contents q @ take (room q) xs" "room q1 = room q - length xs"
      using Cons.prems by (rule push_steps)
    from Cons.IH [OF q1(2)] obtain outs ins q' where
      "fifo_run push pull ops q1 = Some (outs, ins, q')" "inv q'"
      "outs @ contents q' = contents q1 @ ins"
      "length (contents q') + room q' = length (contents q1) + room q1" by blast
    with q1 Push show ?thesis by (auto simp: take_all_iff min_def)
  next
    case (Pull n)
    obtain q1 where q1: "pull q n = Some (take n (contents q), q1)" "inv q1"
      "contents q1 = drop n (contents q)" "room q1 = room q + min n (length (contents q))"
      using Cons.prems by (rule pull_steps)
    from Cons.IH [OF q1(2)] obtain outs ins q' where
      "fifo_run push pull ops q1 = Some (outs, ins, q')" "inv q'"
      "outs @ contents q' = contents q1 @ ins"
      "length (contents q') + room q' = length (contents q1) + room q1" by blast
    moreover from this have "take n (contents q) @ outs @ contents q' = contents q @ ins"
      using q1(3) by (simp flip: append_assoc)
    ultimately show ?thesis using q1 Pull by auto
  qed
qed

end

end
