(* ===== verification/NB_RingBuffer.thy ===== *)
theory NB_RingBuffer
  imports NB_Fifo
begin

text \<open>
  The byte ring of \<open>framework/src/state/ring_buffer.rs\<close>: its record, every operation, the invariant
  that keeps the indices inside the array, and the refinement to a byte queue.  \<open>head\<close> and \<open>tail\<close>
  are free-running 64-bit counters that wrap around; the position in the array is the counter masked
  with \<open>size - 1\<close>.
\<close>

section \<open>State and operations\<close>

record RingBuffer =
  rb_head :: usize
  rb_tail :: usize
  rb_size :: usize
  rb_mask :: usize
  rb_vec :: "u8 list"

definition RingBuffer_new :: "usize \<Rightarrow> RingBuffer result option" where
  "RingBuffer_new bytes = do {
     m \<leftarrow> checked_sub bytes 1;
     if bytes AND m \<noteq> 0 then Some (Inl (InvalidRingSize bytes))
     else Some (Inr \<lparr>rb_head = 0, rb_tail = 0, rb_size = bytes, rb_mask = m,
                     rb_vec = replicate (unat bytes) 0\<rparr>)
   }"

text \<open>\<open>Read for &[u8]\<close> and \<open>Write for &mut [u8]\<close>: copy as much as fits, report how much.\<close>

definition slice_read :: "u8 list \<Rightarrow> u8 list \<Rightarrow> nat \<times> u8 list" where
  "slice_read src data =
     (let amt = min (length src) (length data) in (amt, take amt src @ drop amt data))"

definition slice_write :: "u8 list \<Rightarrow> u8 list \<Rightarrow> nat \<times> u8 list" where
  "slice_write dst data =
     (let amt = min (length dst) (length data) in (amt, take amt data @ drop amt dst))"

definition wrapped_read :: "RingBuffer \<Rightarrow> usize \<Rightarrow> u8 list \<Rightarrow> (nat \<times> u8 list) option" where
  "wrapped_read rb offset data = do {
     _ \<leftarrow> rust_assert (offset < rb_size rb);
     _ \<leftarrow> rust_assert (length data \<le> unat (rb_size rb));
     src \<leftarrow> slice_range (unat offset) (length (rb_vec rb)) (rb_vec rb);
     let (bytes, data) = slice_read src data;
     if unat offset + length data > unat (rb_size rb) then do {
       remaining \<leftarrow> len_sub (length data) bytes;
       src2 \<leftarrow> slice_range 0 remaining (rb_vec rb);
       rest \<leftarrow> slice_range bytes (length data) data;
       let (bytes2, rest) = slice_read src2 rest;
       Some (bytes + bytes2, take bytes data @ rest)
     } else Some (bytes, data)
   }"

definition wrapped_write :: "RingBuffer \<Rightarrow> usize \<Rightarrow> u8 list \<Rightarrow> (nat \<times> RingBuffer) option" where
  "wrapped_write rb offset data = do {
     _ \<leftarrow> rust_assert (offset < rb_size rb);
     _ \<leftarrow> rust_assert (length data \<le> unat (rb_size rb));
     dst \<leftarrow> slice_range (unat offset) (length (rb_vec rb)) (rb_vec rb);
     let (bytes, dst) = slice_write dst data;
     let vec = take (unat offset) (rb_vec rb) @ dst;
     if unat offset + length data > unat (rb_size rb) then do {
       remaining \<leftarrow> len_sub (length data) bytes;
       dst2 \<leftarrow> slice_range 0 remaining vec;
       rest \<leftarrow> slice_range bytes (length data) data;
       let (bytes2, dst2) = slice_write dst2 rest;
       Some (bytes + bytes2, rb\<lparr>rb_vec := dst2 @ drop remaining vec\<rparr>)
     } else Some (bytes, rb\<lparr>rb_vec := vec\<rparr>)
   }"

definition write_at_offset :: "RingBuffer \<Rightarrow> usize \<Rightarrow> u8 list \<Rightarrow> (nat \<times> RingBuffer) option" where
  "write_at_offset rb offset data = wrapped_write rb offset data"

definition read_from_offset :: "RingBuffer \<Rightarrow> usize \<Rightarrow> u8 list \<Rightarrow> (nat \<times> u8 list) option" where
  "read_from_offset rb offset data = wrapped_read rb offset data"

definition seek_tail :: "RingBuffer \<Rightarrow> usize \<Rightarrow> RingBuffer" where
  "seek_tail rb increment_by = rb\<lparr>rb_tail := rb_tail rb + increment_by\<rparr>"

definition write_at_tail :: "RingBuffer \<Rightarrow> u8 list \<Rightarrow> (nat \<times> RingBuffer) option" where
  "write_at_tail rb data = do {
     let available = rb_mask rb + rb_head rb - rb_tail rb;
     let write = min (length data) (unat available);
     let offset = rb_tail rb AND rb_mask rb;
     let rb = seek_tail rb (of_nat write);
     d \<leftarrow> slice_range 0 write data;
     wrapped_write rb offset d
   }"

definition write_at_offset_from_tail ::
  "RingBuffer \<Rightarrow> usize \<Rightarrow> u8 list \<Rightarrow> (nat \<times> RingBuffer) option" where
  "write_at_offset_from_tail rb offset data = do {
     let available = rb_mask rb + rb_head rb - rb_tail rb;
     if available < offset then Some (0, rb)
     else do {
       let offset_tail = rb_tail rb + offset;
       let available_at_offset = rb_mask rb + rb_head rb - offset_tail;
       let write = min (length data) (unat available_at_offset);
       let index = offset_tail AND rb_mask rb;
       d \<leftarrow> slice_range 0 write data;
       wrapped_write rb index d
     }
   }"

definition rb_available :: "RingBuffer \<Rightarrow> usize" where
  "rb_available rb = rb_tail rb - rb_head rb"

definition read_offset :: "RingBuffer \<Rightarrow> usize" where
  "read_offset rb = rb_head rb AND rb_mask rb"

definition read_from_head_with_increment ::
  "RingBuffer \<Rightarrow> u8 list \<Rightarrow> nat \<Rightarrow> (nat \<times> u8 list \<times> RingBuffer) option" where
  "read_from_head_with_increment rb data increment = do {
     let offset = read_offset rb;
     let to_read = min (unat (rb_available rb)) (length data);
     let rb = rb\<lparr>rb_head := rb_head rb + of_nat (min increment to_read)\<rparr>;
     d \<leftarrow> slice_range 0 to_read data;
     (n, d) \<leftarrow> wrapped_read rb offset d;
     Some (n, d @ drop to_read data, rb)
   }"

definition read_from_head :: "RingBuffer \<Rightarrow> u8 list \<Rightarrow> (nat \<times> u8 list \<times> RingBuffer) option" where
  "read_from_head rb data = read_from_head_with_increment rb data (length data)"

definition seek_head :: "RingBuffer \<Rightarrow> usize \<Rightarrow> RingBuffer option" where
  "seek_head rb seek = do {
     _ \<leftarrow> rust_assert (seek \<le> rb_available rb);
     Some (rb\<lparr>rb_head := rb_head rb + seek\<rparr>)
   }"

definition rb_len :: "RingBuffer \<Rightarrow> usize" where
  "rb_len rb = rb_size rb"

definition rb_clear :: "RingBuffer \<Rightarrow> RingBuffer" where
  "rb_clear rb = rb\<lparr>rb_head := 0, rb_tail := 0\<rparr>"

section \<open>Invariant and abstraction\<close>

definition rb_inv :: "RingBuffer \<Rightarrow> bool" where
  "rb_inv rb \<longleftrightarrow>
     (\<exists>k\<in>{..<64}. rb_size rb = 2 ^ k \<and> rb_mask rb = 2 ^ k - 1 \<and> length (rb_vec rb) = 2 ^ k) \<and>
     rb_available rb \<le> rb_mask rb"

text \<open>The bytes in the buffer, oldest first, and how many more it accepts.\<close>

definition rb_contents :: "RingBuffer \<Rightarrow> u8 list" where
  "rb_contents rb = ring_slice (rb_vec rb) (unat (rb_head rb)) (unat (rb_available rb))"

definition rb_room :: "RingBuffer \<Rightarrow> nat" where
  "rb_room rb = unat (rb_mask rb) - unat (rb_available rb)"

section \<open>The circular accesses\<close>

lemma wrapped_read_eq:
  assumes "offset < rb_size rb" and "length data \<le> unat (rb_size rb)"
    and "length (rb_vec rb) = unat (rb_size rb)"
  shows "wrapped_read rb offset data =
    Some (length data, ring_slice (rb_vec rb) (unat offset) (length data))"
proof (cases "unat offset + length data > unat (rb_size rb)")
  case True
  have "unat offset < length (rb_vec rb)" using assms by (simp add: word_less_nat_alt)
  with True assms ring_slice_wrap [of "unat offset" "rb_vec rb" "length data"] show ?thesis
    by (auto simp: wrapped_read_def rust_defs slice_read_def Let_def min_def add.commute)
next
  case False
  with assms ring_slice_nowrap [of "unat offset" "length data" "rb_vec rb"] show ?thesis
    by (auto simp: wrapped_read_def rust_defs slice_read_def Let_def min_def word_less_nat_alt)
qed

lemma wrapped_write_eq:
  assumes "offset < rb_size rb" and "length data \<le> unat (rb_size rb)"
    and "length (rb_vec rb) = unat (rb_size rb)"
  shows "wrapped_write rb offset data =
    Some (length data, rb\<lparr>rb_vec := ring_write (rb_vec rb) (unat offset) data\<rparr>)"
proof (cases "unat offset + length data > unat (rb_size rb)")
  case True
  have "unat offset < length (rb_vec rb)" using assms by (simp add: word_less_nat_alt)
  with True assms ring_write_wrap [of "unat offset" "rb_vec rb" data] show ?thesis
    by (auto simp: wrapped_write_def rust_defs slice_write_def Let_def min_def add.commute)
next
  case False
  with assms ring_write_nowrap [of "unat offset" "rb_vec rb" data] show ?thesis
    by (auto simp: wrapped_write_def rust_defs slice_write_def Let_def min_def word_less_nat_alt
        blit_def add.commute)
qed

section \<open>Index arithmetic under the invariant\<close>

lemma rb_invE:
  assumes "rb_inv rb"
  obtains k where "k < 64" "rb_size rb = 2 ^ k" "rb_mask rb = 2 ^ k - 1" "length (rb_vec rb) = 2 ^ k"
    "unat (rb_size rb) = 2 ^ k" "unat (rb_mask rb) = 2 ^ k - 1" "unat (rb_available rb) < 2 ^ k"
proof -
  from assms obtain k where k: "k < 64" "rb_size rb = 2 ^ k" "rb_mask rb = 2 ^ k - 1"
    "length (rb_vec rb) = 2 ^ k" "rb_available rb \<le> rb_mask rb"
    by (auto simp: rb_inv_def)
  have m: "unat (rb_mask rb) = 2 ^ k - 1" using k by (simp add: unat_pow2_minus_1)
  moreover have "unat (rb_size rb) = 2 ^ k" using k by (simp add: unat_pow2)
  moreover have "unat (rb_available rb) < 2 ^ k"
    using k(5) m by (simp add: word_le_nat_alt Suc_le_eq [symmetric] less_eq_Suc_le le_diff_conv2)
  ultimately show thesis using k by (intro that)
qed

lemma rb_invI:
  assumes "k < 64" "rb_size rb = 2 ^ k" "rb_mask rb = 2 ^ k - 1" "length (rb_vec rb) = 2 ^ k"
    "unat (rb_available rb) < 2 ^ k"
  shows "rb_inv rb"
proof -
  have "unat (rb_mask rb) = 2 ^ k - 1" using assms by (simp add: unat_pow2_minus_1)
  with assms(5) have "rb_available rb \<le> rb_mask rb" by (simp add: word_le_nat_alt)
  with assms show ?thesis by (auto simp: rb_inv_def)
qed

text \<open>Reducing modulo a power of two commutes with the wrap-around of the counters.\<close>

lemma rb_tail_eq: "rb_tail rb = rb_head rb + rb_available rb"
  by (simp add: rb_available_def)

lemma rb_free_eq:
  assumes "rb_inv rb"
  shows "rb_mask rb + rb_head rb - rb_tail rb = rb_mask rb - rb_available rb"
    and "unat (rb_mask rb - rb_available rb) = rb_room rb"
proof -
  show "rb_mask rb + rb_head rb - rb_tail rb = rb_mask rb - rb_available rb"
    by (simp add: rb_available_def)
  have "rb_available rb \<le> rb_mask rb" using assms by (simp add: rb_inv_def)
  then show "unat (rb_mask rb - rb_available rb) = rb_room rb"
    by (simp add: rb_room_def unat_sub)
qed

lemma rb_tail_position:
  assumes "rb_inv rb"
  shows "unat (rb_tail rb AND rb_mask rb) =
    (unat (rb_head rb) + unat (rb_available rb)) mod length (rb_vec rb)"
  using assms by (elim rb_invE) (simp only: rb_tail_eq counter_position)

lemma rb_head_position:
  assumes "rb_inv rb"
  shows "unat (read_offset rb) = unat (rb_head rb) mod length (rb_vec rb)"
  using assms by (elim rb_invE) (simp add: read_offset_def unat_and_pow2_minus_1)

lemma masked_less_size:
  assumes "rb_inv rb"
  shows "x AND rb_mask rb < rb_size rb"
  using assms by (elim rb_invE) (simp add: word_less_nat_alt unat_and_pow2_minus_1)

lemma rb_contents_length [simp]: "length (rb_contents rb) = unat (rb_available rb)"
  by (simp add: rb_contents_def)

section \<open>Every operation keeps the invariant and acts as a byte queue\<close>

lemma write_at_tail_spec:
  assumes inv: "rb_inv rb"
  shows "\<exists>rb'. write_at_tail rb data = Some (min (length data) (rb_room rb), rb') \<and> rb_inv rb' \<and>
    rb_contents rb' = rb_contents rb @ take (rb_room rb) data \<and>
    rb_room rb' = rb_room rb - length data"
proof -
  obtain k where k: "k < 64" "rb_size rb = 2 ^ k" "rb_mask rb = 2 ^ k - 1"
    "length (rb_vec rb) = 2 ^ k" "unat (rb_size rb) = 2 ^ k" "unat (rb_mask rb) = 2 ^ k - 1"
    "unat (rb_available rb) < 2 ^ k"
    using inv by (rule rb_invE)
  let ?w = "min (length data) (rb_room rb)"
  let ?h = "unat (rb_head rb)" and ?a = "unat (rb_available rb)"
  have room: "rb_room rb = 2 ^ k - 1 - ?a" using k by (simp add: rb_room_def)
  then have aw: "?a + ?w < 2 ^ k" using k(7) by simp
  have p64: "(2::nat) ^ k < 2 ^ 64" using k(1) by (intro power_strict_increasing) simp_all
  define vec where "vec = ring_write (rb_vec rb) (?h + ?a) (take ?w data)"
  define rb' where "rb' = rb\<lparr>rb_tail := rb_tail rb + of_nat ?w, rb_vec := vec\<rparr>"
  have av: "unat (rb_available rb') = ?a + ?w"
  proof -
    have "rb_available rb' = rb_available rb + of_nat ?w"
      by (simp add: rb'_def rb_available_def)
    then show ?thesis using aw p64 by (simp add: unat_advance)
  qed
  have "write_at_tail rb data = Some (?w, rb')"
  proof -
    let ?rb1 = "seek_tail rb (of_nat ?w)"
    have "wrapped_write ?rb1 (rb_tail rb AND rb_mask rb) (take ?w data) =
        Some (?w, ?rb1\<lparr>rb_vec := ring_write (rb_vec ?rb1) (unat (rb_tail rb AND rb_mask rb)) (take ?w data)\<rparr>)"
      using masked_less_size [OF inv] aw k
      by (subst wrapped_write_eq) (simp_all add: seek_tail_def)
    moreover have "ring_write (rb_vec rb) (unat (rb_tail rb AND rb_mask rb)) (take ?w data) = vec"
      by (simp add: vec_def rb_tail_position [OF inv] ring_write_mod)
    ultimately show ?thesis
      by (simp add: write_at_tail_def rb_free_eq [OF inv] slice_range_def rb'_def seek_tail_def Let_def)
  qed
  moreover have "rb_inv rb'"
    using k aw av by (intro rb_invI [of k]) (simp_all add: rb'_def vec_def)
  moreover have "rb_contents rb' = rb_contents rb @ take (rb_room rb) data"
  proof -
    have "rb_contents rb' = ring_slice vec ?h (?a + ?w)"
      by (simp add: rb_contents_def av) (simp add: rb'_def)
    also have "\<dots> = rb_contents rb @ take ?w data"
      using ring_push [of ?a "take ?w data" "rb_vec rb" ?h] aw k(4) by (simp add: vec_def rb_contents_def)
    finally show ?thesis by (simp add: min_def)
  qed
  moreover have "rb_room rb' = rb_room rb - length data"
    using av by (simp add: rb_room_def rb'_def min_def)
  ultimately show ?thesis by blast
qed

lemma read_from_head_with_increment_spec:
  fixes data :: "u8 list"
  assumes inv: "rb_inv rb"
  defines "n \<equiv> min (unat (rb_available rb)) (length data)"
  shows "\<exists>rb'. read_from_head_with_increment rb data increment =
      Some (n, take n (rb_contents rb) @ drop n data, rb') \<and> rb_inv rb' \<and>
    rb_contents rb' = drop (min increment n) (rb_contents rb) \<and>
    rb_room rb' = rb_room rb + min increment n"
proof -
  obtain k where k: "k < 64" "rb_size rb = 2 ^ k" "rb_mask rb = 2 ^ k - 1"
    "length (rb_vec rb) = 2 ^ k" "unat (rb_size rb) = 2 ^ k" "unat (rb_mask rb) = 2 ^ k - 1"
    "unat (rb_available rb) < 2 ^ k"
    using inv by (rule rb_invE)
  let ?i = "min increment n"
  let ?h = "unat (rb_head rb)" and ?a = "unat (rb_available rb)"
  have na: "n \<le> ?a" "?i \<le> ?a" by (simp_all add: n_def)
  have p64: "(2::nat) ^ k < 2 ^ 64" using k(1) by (intro power_strict_increasing) simp_all
  define rb' where "rb' = rb\<lparr>rb_head := rb_head rb + of_nat ?i\<rparr>"
  have i64: "unat (of_nat ?i :: usize) = ?i"
    using na(2) k(7) p64 by (simp add: unat_of_nat)
  have av: "unat (rb_available rb') = ?a - ?i"
  proof -
    have "rb_available rb' = rb_available rb - of_nat ?i"
      by (simp add: rb'_def rb_available_def)
    moreover have "of_nat ?i \<le> rb_available rb"
      using na(2) i64 by (simp add: word_le_nat_alt)
    ultimately show ?thesis by (simp only: unat_sub i64)
  qed
  have "read_from_head_with_increment rb data increment =
      Some (n, take n (rb_contents rb) @ drop n data, rb')"
  proof -
    have "wrapped_read rb' (read_offset rb) (take n data) =
        Some (n, ring_slice (rb_vec rb) (unat (read_offset rb)) n)"
      using masked_less_size [OF inv] na k
      by (subst wrapped_read_eq) (simp_all add: rb'_def read_offset_def n_def)
    also have "ring_slice (rb_vec rb) (unat (read_offset rb)) n = take n (rb_contents rb)"
      using na(1) by (simp add: rb_head_position [OF inv] ring_slice_mod rb_contents_def take_ring_slice)
    finally show ?thesis
      by (simp add: read_from_head_with_increment_def slice_range_def rb'_def n_def Let_def)
  qed
  moreover have "rb_inv rb'"
    using k av by (intro rb_invI [of k]) (simp_all add: rb'_def)
  moreover have "rb_contents rb' = drop ?i (rb_contents rb)"
  proof -
    have "ring_slice (rb_vec rb) (unat (rb_head rb + of_nat ?i)) m = ring_slice (rb_vec rb) (?h + ?i) m" for m
      using k(1,4) by (rule ring_slice_counter)
    then show ?thesis
      using na(2) by (simp add: rb_contents_def av drop_ring_slice) (simp add: rb'_def)
  qed
  moreover have "rb_room rb' = rb_room rb + ?i"
    using av na(2) k(6,7) by (simp add: rb_room_def) (simp add: rb'_def k(6))
  ultimately show ?thesis by blast
qed

lemma read_from_head_spec:
  fixes data :: "u8 list"
  assumes "rb_inv rb"
  defines "n \<equiv> min (unat (rb_available rb)) (length data)"
  shows "\<exists>rb'. read_from_head rb data = Some (n, take n (rb_contents rb) @ drop n data, rb') \<and>
    rb_inv rb' \<and> rb_contents rb' = drop (length data) (rb_contents rb) \<and>
    rb_room rb' = rb_room rb + n"
proof -
  have "min (length data) n = n" by (simp add: n_def)
  moreover have "drop n (rb_contents rb) = drop (length data) (rb_contents rb)"
    by (simp add: n_def min_def)
  ultimately show ?thesis
    using read_from_head_with_increment_spec [OF assms(1), of data "length data"]
    by (simp add: read_from_head_def n_def)
qed

lemma rb_contents_Nil: "rb_available rb = 0 \<Longrightarrow> rb_contents rb = []"
  by (simp add: rb_contents_def)

lemma RingBuffer_new_spec:
  "RingBuffer_new bytes =
    (if bytes = 0 then None
     else if \<exists>k<64. bytes = 2 ^ k then
       Some (Inr \<lparr>rb_head = 0, rb_tail = 0, rb_size = bytes, rb_mask = bytes - 1,
         rb_vec = replicate (unat bytes) 0\<rparr>)
     else Some (Inl (InvalidRingSize bytes)))"
proof (cases "bytes = 0")
  case True
  then show ?thesis by (simp add: RingBuffer_new_def checked_sub_def)
next
  case False
  then have "1 \<le> bytes" by (simp add: word_le_nat_alt unat_gt_0 Suc_le_eq)
  with False and_minus_1_eq_0_iff [OF False] show ?thesis
    by (simp add: RingBuffer_new_def checked_sub_def)
qed

lemma RingBuffer_new_inv:
  assumes "RingBuffer_new bytes = Some (Inr rb)"
  shows "rb_inv rb \<and> rb_contents rb = [] \<and> rb_room rb = unat bytes - 1"
proof -
  from assms obtain k where k: "k < 64" "bytes = 2 ^ k"
    and rb: "rb = \<lparr>rb_head = 0, rb_tail = 0, rb_size = bytes, rb_mask = bytes - 1,
         rb_vec = replicate (unat bytes) 0\<rparr>"
    by (auto simp: RingBuffer_new_spec split: if_splits)
  have "rb_available rb = 0" by (simp add: rb rb_available_def)
  moreover from this have "rb_inv rb"
    using k by (intro rb_invI [of k]) (simp_all add: rb unat_pow2)
  ultimately show ?thesis
    using k by (simp add: rb_contents_Nil rb_room_def) (simp add: rb unat_pow2 unat_pow2_minus_1)
qed

lemma rb_clear_spec:
  assumes "rb_inv rb"
  shows "rb_inv (rb_clear rb) \<and> rb_contents (rb_clear rb) = [] \<and>
    rb_room (rb_clear rb) = unat (rb_mask rb)"
proof -
  have "rb_available (rb_clear rb) = 0" by (simp add: rb_clear_def rb_available_def)
  moreover from this assms have "rb_inv (rb_clear rb)"
    by (elim rb_invE) (intro rb_invI, auto simp: rb_clear_def)
  ultimately show ?thesis
    by (simp add: rb_contents_Nil rb_room_def) (simp add: rb_clear_def)
qed

subsection \<open>The window: the stored bytes followed by the free positions\<close>

text \<open>
  Out-of-order data is written past the tail before it becomes readable.  The window is the whole
  range of bytes the buffer can hold, starting at the head; the contents are its first
  \<open>available\<close> bytes.
\<close>

definition rb_window :: "RingBuffer \<Rightarrow> u8 list" where
  "rb_window rb = ring_slice (rb_vec rb) (unat (rb_head rb)) (unat (rb_mask rb))"

lemma rb_window_length [simp]: "length (rb_window rb) = unat (rb_mask rb)"
  by (simp add: rb_window_def)

lemma rb_contents_window:
  "rb_inv rb \<Longrightarrow> rb_contents rb = take (unat (rb_available rb)) (rb_window rb)"
  by (simp add: rb_contents_def rb_window_def take_ring_slice rb_inv_def word_le_nat_alt)

lemma write_at_offset_from_tail_spec:
  fixes data :: "u8 list" and offset :: usize
  assumes inv: "rb_inv rb"
  defines "a \<equiv> unat (rb_available rb)"
  defines "w \<equiv> min (length data) (rb_room rb - unat offset)"
  shows "\<exists>rb'. write_at_offset_from_tail rb offset data = Some (w, rb') \<and> rb_inv rb' \<and>
    rb_available rb' = rb_available rb \<and> rb_mask rb' = rb_mask rb \<and>
    rb_head rb' = rb_head rb \<and> rb_size rb' = rb_size rb \<and>
    rb_window rb' = blit (a + unat offset) (take w data) (rb_window rb)"
proof (cases "unat offset \<le> rb_room rb")
  case False
  then have "rb_mask rb - rb_available rb < offset"
    by (simp add: word_less_nat_alt rb_free_eq [OF inv])
  with False show ?thesis
    by (simp add: write_at_offset_from_tail_def rb_free_eq [OF inv] w_def inv)
next
  case True
  obtain k where k: "k < 64" "rb_size rb = 2 ^ k" "rb_mask rb = 2 ^ k - 1"
    "length (rb_vec rb) = 2 ^ k" "unat (rb_size rb) = 2 ^ k" "unat (rb_mask rb) = 2 ^ k - 1"
    "unat (rb_available rb) < 2 ^ k"
    using inv by (rule rb_invE)
  let ?h = "unat (rb_head rb)"
  have p64: "(2::nat) ^ k < 2 ^ 64" using k(1) by (intro power_strict_increasing) simp_all
  have room: "rb_room rb = 2 ^ k - 1 - a" using k by (simp add: rb_room_def a_def)
  then have aw: "a + unat offset + w \<le> 2 ^ k - 1" "length (take w data) = w"
    using True k(7) by (simp_all add: w_def a_def)
  have le: "\<not> rb_mask rb - rb_available rb < offset"
    using True by (simp add: word_less_nat_alt rb_free_eq [OF inv])
  have av: "unat (rb_mask rb + rb_head rb - (rb_tail rb + offset)) = rb_room rb - unat offset"
  proof -
    have "rb_mask rb + rb_head rb - (rb_tail rb + offset) = rb_mask rb - rb_available rb - offset"
      by (simp add: rb_available_def)
    then show ?thesis using le by (simp only: unat_sub not_less rb_free_eq [OF inv])
  qed
  have pos: "unat ((rb_tail rb + offset) AND rb_mask rb) = (?h + (a + unat offset)) mod length (rb_vec rb)"
  proof -
    have "unat (rb_available rb + offset) = a + unat offset"
      using aw p64 by (simp add: a_def unat_word_ariths)
    then show ?thesis
      using counter_position [OF k(1), of "rb_head rb" "rb_available rb + offset"] k(3,4)
      by (simp add: rb_tail_eq add.assoc)
  qed
  define rb' where "rb' = rb\<lparr>rb_vec := ring_write (rb_vec rb) (?h + (a + unat offset)) (take w data)\<rparr>"
  have "wrapped_write rb ((rb_tail rb + offset) AND rb_mask rb) (take w data) = Some (w, rb')"
    using masked_less_size [OF inv] aw k(4,5)
      ring_write_mod [of "rb_vec rb" "?h + (a + unat offset)" "take w data"]
    by (subst wrapped_write_eq) (simp_all add: pos rb'_def)
  then have "write_at_offset_from_tail rb offset data = Some (w, rb')"
    using le by (simp add: write_at_offset_from_tail_def rb_free_eq [OF inv] av slice_range_def
        Let_def w_def)
  moreover have same: "rb_available rb' = rb_available rb" "rb_mask rb' = rb_mask rb"
    by (simp_all add: rb'_def rb_available_def)
  moreover have "rb_inv rb'"
    using k same by (intro rb_invI [of k]) (simp_all add: rb'_def)
  moreover have "rb_window rb' = blit (a + unat offset) (take w data) (rb_window rb)"
    using ring_slice_write [of "a + unat offset" "take w data" "unat (rb_mask rb)" "rb_vec rb" ?h] aw k
    by (simp add: rb_window_def rb'_def)
  ultimately show ?thesis by (simp add: rb'_def)
qed

lemma seek_tail_spec:
  assumes inv: "rb_inv rb" and n: "unat n \<le> rb_room rb"
  shows "rb_inv (seek_tail rb n) \<and>
    unat (rb_available (seek_tail rb n)) = unat (rb_available rb) + unat n \<and>
    rb_window (seek_tail rb n) = rb_window rb \<and>
    rb_contents (seek_tail rb n) = take (unat (rb_available rb) + unat n) (rb_window rb)"
proof -
  obtain k where k: "k < 64" "rb_size rb = 2 ^ k" "rb_mask rb = 2 ^ k - 1"
    "length (rb_vec rb) = 2 ^ k" "unat (rb_size rb) = 2 ^ k" "unat (rb_mask rb) = 2 ^ k - 1"
    "unat (rb_available rb) < 2 ^ k"
    using inv by (rule rb_invE)
  have p64: "(2::nat) ^ k < 2 ^ 64" using k(1) by (intro power_strict_increasing) simp_all
  have lt: "unat (rb_available rb) + unat n < 2 ^ k"
    using n k(6,7) by (simp add: rb_room_def)
  have "rb_available (seek_tail rb n) = rb_available rb + n"
    by (simp add: seek_tail_def rb_available_def)
  then have av: "unat (rb_available (seek_tail rb n)) = unat (rb_available rb) + unat n"
    using lt p64 by (simp add: unat_word_ariths)
  moreover have "rb_inv (seek_tail rb n)"
    using k av lt by (intro rb_invI [of k]) (simp_all add: seek_tail_def)
  moreover have "rb_window (seek_tail rb n) = rb_window rb"
    by (simp add: rb_window_def seek_tail_def)
  ultimately show ?thesis by (simp add: rb_contents_window)
qed

lemma seek_head_spec:
  assumes inv: "rb_inv rb"
  shows "seek_head rb n =
    (if unat n \<le> unat (rb_available rb) then Some (rb\<lparr>rb_head := rb_head rb + n\<rparr>) else None)"
  by (simp add: seek_head_def word_le_nat_alt)

section \<open>The ring buffer is a bounded FIFO queue of bytes\<close>

text \<open>A read of \<open>n\<close> bytes into a fresh array, as \<open>read_from_head\<close> delivers it.\<close>

definition rb_pull :: "RingBuffer \<Rightarrow> nat \<Rightarrow> (u8 list \<times> RingBuffer) option" where
  "rb_pull rb n = do {
     (m, d, rb) \<leftarrow> read_from_head rb (replicate n 0);
     Some (take m d, rb)
   }"

interpretation rbq: bounded_fifo rb_inv rb_contents rb_room write_at_tail rb_pull
proof
  fix q :: RingBuffer and xs :: "u8 list" and n :: nat
  assume inv: "rb_inv q"
  show "\<exists>q'. write_at_tail q xs = Some (min (length xs) (rb_room q), q') \<and> rb_inv q' \<and>
      rb_contents q' = rb_contents q @ take (rb_room q) xs \<and> rb_room q' = rb_room q - length xs"
    using write_at_tail_spec [OF inv, of xs] by (auto simp: min_def)
  show "\<exists>q'. rb_pull q n = Some (take n (rb_contents q), q') \<and> rb_inv q' \<and>
      rb_contents q' = drop n (rb_contents q) \<and> rb_room q' = rb_room q + min n (length (rb_contents q))"
    using read_from_head_spec [OF inv, of "replicate n 0"]
    by (auto simp: rb_pull_def min.commute simp flip: take_take)
qed

subsection \<open>Writing past the tail and filling the gap\<close>

text \<open>An append is a write at offset 0 from the tail that also advances the tail.\<close>

lemma write_at_tail_as_offset:
  assumes inv: "rb_inv rb"
  shows "write_at_tail rb data = do {
     (w, rb') \<leftarrow> write_at_offset_from_tail rb 0 data;
     Some (w, seek_tail rb' (of_nat w))
   }"
proof -
  obtain k where k: "k < 64" "rb_size rb = 2 ^ k" "rb_mask rb = 2 ^ k - 1"
    "length (rb_vec rb) = 2 ^ k" "unat (rb_size rb) = 2 ^ k" "unat (rb_mask rb) = 2 ^ k - 1"
    "unat (rb_available rb) < 2 ^ k"
    using inv by (rule rb_invE)
  let ?w = "min (length data) (rb_room rb)" and ?o = "rb_tail rb AND rb_mask rb"
  have fit: "length (take ?w data) \<le> unat (rb_size rb)" using k by (simp add: rb_room_def)
  have vec: "length (rb_vec rb) = unat (rb_size rb)" using k by simp
  have "wrapped_write (seek_tail rb (of_nat ?w)) ?o (take ?w data) =
      Some (?w, seek_tail (rb\<lparr>rb_vec := ring_write (rb_vec rb) (unat ?o) (take ?w data)\<rparr>) (of_nat ?w))"
    using masked_less_size [OF inv] fit vec
    by (subst wrapped_write_eq) (simp_all add: seek_tail_def)
  moreover have "wrapped_write rb ?o (take ?w data) =
      Some (?w, rb\<lparr>rb_vec := ring_write (rb_vec rb) (unat ?o) (take ?w data)\<rparr>)"
    using masked_less_size [OF inv] fit vec by (subst wrapped_write_eq) simp_all
  ultimately show ?thesis
    by (simp add: write_at_tail_def write_at_offset_from_tail_def rb_free_eq [OF inv] slice_range_def Let_def)
qed

lemma write_at_tail_window:
  assumes inv: "rb_inv rb" and fits: "length data \<le> rb_room rb"
  shows "\<exists>rb'. write_at_tail rb data = Some (length data, rb') \<and> rb_inv rb' \<and>
    unat (rb_available rb') = unat (rb_available rb) + length data \<and>
    rb_room rb' = rb_room rb - length data \<and>
    rb_window rb' = blit (unat (rb_available rb)) data (rb_window rb)"
proof -
  from write_at_offset_from_tail_spec [OF inv, of 0 data] fits obtain rb1 where
    rb1: "write_at_offset_from_tail rb 0 data = Some (length data, rb1)" "rb_inv rb1"
      "rb_available rb1 = rb_available rb" "rb_mask rb1 = rb_mask rb"
      "rb_window rb1 = blit (unat (rb_available rb)) data (rb_window rb)" by auto
  have small: "unat (of_nat (length data) :: usize) = length data"
    using fits unsigned_less [of "rb_mask rb", where ?'a = nat]
    by (simp add: unat_of_nat rb_room_def)
  have "rb_room rb1 = rb_room rb" using rb1 by (simp add: rb_room_def)
  with seek_tail_spec [OF rb1(2), of "of_nat (length data)"] small fits rb1 show ?thesis
    by (simp add: write_at_tail_as_offset [OF inv] rb_room_def) (simp add: seek_tail_def)
qed

lemma fill_gap:
  assumes inv: "rb_inv rb" and fits: "length gap + length late \<le> rb_room rb"
  shows "\<exists>rb1 rb2. write_at_offset_from_tail rb (of_nat (length gap)) late = Some (length late, rb1) \<and>
    rb_inv rb1 \<and> rb_available rb1 = rb_available rb \<and> rb_contents rb1 = rb_contents rb \<and>
    write_at_tail rb1 gap = Some (length gap, rb2) \<and>
    rb_inv (seek_tail rb2 (of_nat (length late))) \<and>
    rb_contents (seek_tail rb2 (of_nat (length late))) = rb_contents rb @ gap @ late"
proof -
  let ?a = "unat (rb_available rb)"
  have len: "?a + rb_room rb = length (rb_window rb)"
    using inv by (simp add: rb_room_def rb_inv_def word_le_nat_alt)
  have small: "unat (of_nat (length gap) :: usize) = length gap"
    "unat (of_nat (length late) :: usize) = length late"
    using fits unsigned_less [of "rb_mask rb", where ?'a = nat]
    by (simp_all add: unat_of_nat rb_room_def)
  have "min (length late) (rb_room rb - length gap) = length late" using fits by simp
  with write_at_offset_from_tail_spec [OF inv, of "of_nat (length gap)" late] small
  obtain rb1 where rb1: "write_at_offset_from_tail rb (of_nat (length gap)) late = Some (length late, rb1)"
      "rb_inv rb1" "rb_available rb1 = rb_available rb" "rb_mask rb1 = rb_mask rb"
      "rb_window rb1 = blit (?a + length gap) late (rb_window rb)" by auto
  have "rb_room rb1 = rb_room rb" using rb1 by (simp add: rb_room_def)
  with write_at_tail_window [OF rb1(2), of gap] fits rb1
  obtain rb2 where rb2: "write_at_tail rb1 gap = Some (length gap, rb2)" "rb_inv rb2"
      "unat (rb_available rb2) = ?a + length gap" "rb_room rb2 = rb_room rb - length gap"
      "rb_window rb2 = blit ?a gap (rb_window rb1)" by auto
  have seek: "rb_inv (seek_tail rb2 (of_nat (length late)))"
      "rb_contents (seek_tail rb2 (of_nat (length late))) =
      take (?a + length gap + length late) (rb_window rb2)"
    using seek_tail_spec [OF rb2(2), of "of_nat (length late)"] rb2 fits small by simp_all
  note seek(2)
  also have "\<dots> = rb_contents rb @ gap @ late"
    using len fits by (simp add: rb2 rb1 rb_contents_window [OF inv] blit_def)
  finally have "rb_contents (seek_tail rb2 (of_nat (length late))) = rb_contents rb @ gap @ late" .
  moreover have "rb_contents rb1 = rb_contents rb"
    using rb1 len fits by (simp add: rb_contents_window [OF inv] rb_contents_window blit_def)
  ultimately show ?thesis using rb1(1,2,3) rb2(1) seek(1) by blast
qed

section \<open>Properties\<close>

text \<open>
  C14: A ring buffer that was just created is a FIFO byte queue of capacity \<open>bytes - 1\<close>: under every sequence of
  \<open>write_at_tail\<close> and \<open>read_from_head\<close> calls no call panics, and every call returns what it returns on a list of at most
  \<open>bytes - 1\<close> bytes, where a write accepts exactly as many bytes as fit and a read delivers the oldest bytes, as many
  as asked for or there are.
\<close>
theorem ring_buffer_fifo:
  assumes "RingBuffer_new bytes = Some (Inr rb)"
  shows "\<exists>rs rb'. fifo_trace write_at_tail rb_pull ops rb = Some (rs, rb') \<and> rb_inv rb' \<and>
    queue_trace (unat bytes - 1) ops [] = (rs, rb_contents rb')"
  using RingBuffer_new_inv [OF assms] rbq.run_trace [of rb ops] by auto

theorem ring_buffer_fifo_witness:
  "\<exists>rb rb'. RingBuffer_new 4 = Some (Inr rb) \<and>
     fifo_trace write_at_tail rb_pull [Push [1, 2], Pull 1, Push [3, 4, 5]] rb = Some ([Inl 2, Inr [1], Inl 2], rb') \<and>
     rb_contents rb' = [2, 3, 4]"
proof -
  let ?rb = "\<lparr>rb_head = 0, rb_tail = 0, rb_size = 4, rb_mask = 3, rb_vec = [0, 0, 0, 0]\<rparr>"
  have "RingBuffer_new 4 = Some (Inr ?rb)" by code_simp
  moreover have "queue_trace (unat (4 :: usize) - 1) [Push [1, 2], Pull 1, Push [3, 4, 5]] [] =
      ([Inl 2, Inr [1], Inl 2], [2, 3, 4 :: u8])" by code_simp
  ultimately show ?thesis
    using ring_buffer_fifo [of 4 ?rb "[Push [1, 2], Pull 1, Push [3, 4, 5]]"] by (auto simp del: fifo_trace.simps)
qed

text \<open>
  \<open>write_at_tail\<close> never panics on a well-formed buffer; it accepts exactly the prefix of the data
  that fits, appends it to the stored bytes, and reports how many bytes it took.
\<close>
theorem write_at_tail_appends:
  assumes "rb_inv rb"
  shows "\<exists>rb'. write_at_tail rb data = Some (min (length data) (rb_room rb), rb') \<and> rb_inv rb' \<and>
    rb_contents rb' = rb_contents rb @ take (rb_room rb) data \<and>
    rb_room rb' = rb_room rb - length data"
  using assms by (rule write_at_tail_spec)

theorem write_at_tail_appends_witness:
  "rb_inv \<lparr>rb_head = - 1, rb_tail = 1, rb_size = 4, rb_mask = 3, rb_vec = [7, 0, 0, 8]\<rparr> \<and>
   (\<exists>rb'. write_at_tail \<lparr>rb_head = - 1, rb_tail = 1, rb_size = 4, rb_mask = 3, rb_vec = [7, 0, 0, 8]\<rparr>
      [9, 10] = Some (1, rb') \<and> rb_contents rb' = [8, 7, 9])"
proof -
  let ?rb = "\<lparr>rb_head = - 1, rb_tail = 1, rb_size = 4, rb_mask = 3, rb_vec = [7, 0, 0, 8]\<rparr>"
  have inv: "rb_inv ?rb" by (intro rb_invI [of 2]) (simp_all add: rb_available_def)
  moreover have "rb_room ?rb = 1" by code_simp
  moreover have "rb_contents ?rb = [8, 7]" by code_simp
  ultimately show ?thesis using write_at_tail_appends [OF inv, of "[9, 10]"] by auto
qed

text \<open>
  \<open>read_from_head_with_increment\<close> never panics on a well-formed buffer; it copies the oldest
  stored bytes to the front of the caller's array, leaves the rest of the array alone, and consumes
  \<open>increment\<close> bytes, but never more than it read.
\<close>
theorem read_from_head_with_increment_reads:
  assumes "rb_inv rb"
  shows "\<exists>rb'. read_from_head_with_increment rb data increment =
      Some (min (length (rb_contents rb)) (length data),
            take (length data) (rb_contents rb) @ drop (length (rb_contents rb)) data, rb') \<and>
    rb_inv rb' \<and>
    rb_contents rb' = drop (min increment (length data)) (rb_contents rb) \<and>
    rb_room rb' = rb_room rb + min increment (min (length (rb_contents rb)) (length data))"
proof -
  have "take (min (length (rb_contents rb)) (length data)) (rb_contents rb) = take (length data) (rb_contents rb)"
    and "drop (min (length (rb_contents rb)) (length data)) data = drop (length (rb_contents rb)) data"
    and "drop (min increment (min (length (rb_contents rb)) (length data))) (rb_contents rb) =
      drop (min increment (length data)) (rb_contents rb)"
    by (auto simp: min_def)
  with read_from_head_with_increment_spec [OF assms, of data increment] show ?thesis by simp
qed

theorem read_from_head_with_increment_reads_witness:
  "\<exists>rb'. read_from_head_with_increment
      \<lparr>rb_head = - 1, rb_tail = 1, rb_size = 4, rb_mask = 3, rb_vec = [7, 0, 0, 8]\<rparr> [0, 0, 1] 1 =
      Some (2, [8, 7, 1], rb') \<and> rb_contents rb' = [7]"
proof -
  let ?rb = "\<lparr>rb_head = - 1, rb_tail = 1, rb_size = 4, rb_mask = 3, rb_vec = [7, 0, 0, 8]\<rparr>"
  have inv: "rb_inv ?rb" by (intro rb_invI [of 2]) (simp_all add: rb_available_def)
  have c: "rb_contents ?rb = [8, 7]" by code_simp
  show ?thesis using read_from_head_with_increment_reads [OF inv, of "[0, 0, 1]" 1]
    unfolding c by auto
qed

text \<open>
  Data that arrives ahead of a gap is stored past the tail without becoming readable; once the
  missing bytes are appended and the tail is advanced over the early data, the buffer holds the old
  bytes, the gap and the early data in order.
\<close>
theorem write_past_gap_then_fill:
  assumes "rb_inv rb" and "length gap + length late \<le> rb_room rb"
  shows "(do {
      (n1, rb1) \<leftarrow> write_at_offset_from_tail rb (of_nat (length gap)) late;
      (n2, rb2) \<leftarrow> write_at_tail rb1 gap;
      Some (n1, rb_contents rb1, n2, rb_contents (seek_tail rb2 (of_nat (length late))))
    }) = Some (length late, rb_contents rb, length gap, rb_contents rb @ gap @ late)"
  using fill_gap [OF assms] by auto

theorem write_past_gap_then_fill_witness:
  "(do {
      (n1, rb1) \<leftarrow> write_at_offset_from_tail
        \<lparr>rb_head = 3, rb_tail = 4, rb_size = 4, rb_mask = 3, rb_vec = [0, 0, 0, 8]\<rparr> 1 [6];
      (n2, rb2) \<leftarrow> write_at_tail rb1 [5];
      Some (n1, rb_contents rb1, n2, rb_contents (seek_tail rb2 1))
    }) = Some (1, [8], 1, [8, 5, 6])"
proof -
  let ?rb = "\<lparr>rb_head = 3, rb_tail = 4, rb_size = 4, rb_mask = 3, rb_vec = [0, 0, 0, 8]\<rparr>"
  have inv: "rb_inv ?rb" by (intro rb_invI [of 2]) (simp_all add: rb_available_def)
  have c: "rb_contents ?rb = [8]" "rb_room ?rb = 2" by code_simp+
  then show ?thesis using write_past_gap_then_fill [OF inv, of "[5]" "[6]"] by (simp only: list.size c) simp
qed

text \<open>
  \<open>RingBuffer::new\<close> succeeds exactly on the powers of two, with an empty buffer whose room is
  \<open>bytes - 1\<close>; it panics on 0 and reports every other size as invalid.
\<close>
theorem RingBuffer_new_correct:
  "RingBuffer_new bytes = (if bytes = 0 then None
     else if \<exists>k<64. bytes = 2 ^ k then
       Some (Inr \<lparr>rb_head = 0, rb_tail = 0, rb_size = bytes, rb_mask = bytes - 1,
         rb_vec = replicate (unat bytes) 0\<rparr>)
     else Some (Inl (InvalidRingSize bytes)))"
  by (rule RingBuffer_new_spec)

end
