(* ===== verification/NB_SegmentList.thy ===== *)
theory NB_SegmentList
  imports NB_Prelude
begin

text \<open>
  The list of received segments of \<open>framework/src/state/reordered_buffer/reordered_buffer.rs\<close>: a doubly
  linked list of sequence-number ranges kept in a vector, with a vector of free nodes.  The links are
  \<open>isize\<close> indices with \<open>-1\<close> for \<open>no node\<close>; casting a negative index to \<open>usize\<close> gives an index that is
  out of range.  The \<open>while\<close> loops are \<open>rust_loop\<close>s over one iteration of their bodies.
\<close>

section \<open>State and operations\<close>

record Segment =
  seg_prev :: int
  seg_seq :: u32
  seg_length :: u16
  seg_next :: int
  seg_idx :: int

definition Segment_new :: "int \<Rightarrow> u32 \<Rightarrow> u16 \<Rightarrow> Segment" where
  "Segment_new idx seq len = \<lparr>seg_prev = -1, seg_seq = seq, seg_length = len, seg_next = -1, seg_idx = idx\<rparr>"

record SegmentList =
  storage :: "Segment list"
  free_nodes :: "int list"
  sl_head :: int
  sl_tail :: int

definition SegmentList_new :: "nat \<Rightarrow> SegmentList" where
  "SegmentList_new len = \<lparr>
     storage = map (\<lambda>i. Segment_new (int i) 0 0) [0..<len],
     free_nodes = map int [0..<len], sl_head = -1, sl_tail = -1\<rparr>"

text \<open>\<open>self.storage[i as usize]\<close>, read and written.\<close>

definition get_segment :: "SegmentList \<Rightarrow> int \<Rightarrow> Segment option" where
  "get_segment sl i = (if 0 \<le> i then vec_get (storage sl) (nat i) else None)"

definition upd_segment :: "SegmentList \<Rightarrow> int \<Rightarrow> (Segment \<Rightarrow> Segment) \<Rightarrow> SegmentList option" where
  "upd_segment sl i f = do {
     s \<leftarrow> get_segment sl i;
     Some (sl\<lparr>storage := (storage sl)[nat i := f s]\<rparr>)
   }"

definition remove_node :: "SegmentList \<Rightarrow> int \<Rightarrow> SegmentList option" where
  "remove_node sl node = do {
     sl \<leftarrow> upd_segment sl node (\<lambda>s. s\<lparr>seg_length := 0\<rparr>);
     Some (sl\<lparr>free_nodes := free_nodes sl @ [node]\<rparr>)
   }"

definition find_available_node :: "SegmentList \<Rightarrow> int \<times> SegmentList" where
  "find_available_node sl =
     (if free_nodes sl \<noteq> [] then
        (last (free_nodes sl), sl\<lparr>free_nodes := butlast (free_nodes sl)\<rparr>)
      else
        let idx = int (length (storage sl)) in
        (idx, sl\<lparr>storage := storage sl @ [Segment_new idx 0 0]\<rparr>))"

definition insert_before_node ::
  "SegmentList \<Rightarrow> int \<Rightarrow> u32 \<Rightarrow> u16 \<Rightarrow> (int \<times> SegmentList) option" where
  "insert_before_node sl next seq len = do {
     let (idx, sl) = find_available_node sl;
     sl \<leftarrow> upd_segment sl idx (\<lambda>s. s\<lparr>seg_seq := seq\<rparr>);
     sl \<leftarrow> upd_segment sl idx (\<lambda>s. s\<lparr>seg_length := len\<rparr>);
     sl \<leftarrow> upd_segment sl idx (\<lambda>s. s\<lparr>seg_next := next\<rparr>);
     if next \<noteq> -1 then do {
       nx \<leftarrow> get_segment sl next;
       let prev = seg_prev nx;
       sl \<leftarrow> upd_segment sl idx (\<lambda>s. s\<lparr>seg_prev := prev\<rparr>);
       sl \<leftarrow> upd_segment sl next (\<lambda>s. s\<lparr>seg_prev := idx\<rparr>);
       if prev \<noteq> -1 then do {
         sl \<leftarrow> upd_segment sl prev (\<lambda>s. s\<lparr>seg_next := idx\<rparr>);
         Some (idx, sl)
       } else Some (idx, sl\<lparr>sl_head := idx\<rparr>)
     } else do {
       sl \<leftarrow> upd_segment sl idx (\<lambda>s. s\<lparr>seg_prev := -1\<rparr>);
       Some (idx, sl)
     }
   }"

definition insert_after_node ::
  "SegmentList \<Rightarrow> int \<Rightarrow> u32 \<Rightarrow> u16 \<Rightarrow> (int \<times> SegmentList) option" where
  "insert_after_node sl prev seq len = do {
     let (idx, sl) = find_available_node sl;
     sl \<leftarrow> upd_segment sl idx (\<lambda>s. s\<lparr>seg_seq := seq\<rparr>);
     sl \<leftarrow> upd_segment sl idx (\<lambda>s. s\<lparr>seg_length := len\<rparr>);
     sl \<leftarrow> upd_segment sl idx (\<lambda>s. s\<lparr>seg_prev := prev\<rparr>);
     pv \<leftarrow> get_segment sl prev;
     sl \<leftarrow> upd_segment sl idx (\<lambda>s. s\<lparr>seg_next := seg_next pv\<rparr>);
     sl \<leftarrow> upd_segment sl prev (\<lambda>s. s\<lparr>seg_next := idx\<rparr>);
     new \<leftarrow> get_segment sl idx;
     Some (idx, if seg_next new = -1 then sl\<lparr>sl_tail := idx\<rparr> else sl)
   }"

definition insert_at_tail :: "SegmentList \<Rightarrow> u32 \<Rightarrow> u16 \<Rightarrow> (int \<times> SegmentList) option" where
  "insert_at_tail sl seq len = do {
     let (idx, sl) = find_available_node sl;
     sl \<leftarrow> upd_segment sl idx (\<lambda>s. s\<lparr>seg_seq := seq\<rparr>);
     sl \<leftarrow> upd_segment sl idx (\<lambda>s. s\<lparr>seg_length := len\<rparr>);
     sl \<leftarrow> upd_segment sl idx (\<lambda>s. s\<lparr>seg_next := -1\<rparr>);
     sl \<leftarrow> upd_segment sl idx (\<lambda>s. s\<lparr>seg_prev := sl_tail sl\<rparr>);
     sl \<leftarrow> upd_segment sl (sl_tail sl) (\<lambda>s. s\<lparr>seg_next := idx\<rparr>);
     Some (idx, sl\<lparr>sl_tail := idx\<rparr>)
   }"

text \<open>
  One iteration of the loop of \<open>merge_at_idx\<close>.  The lengths are computed in \<open>usize\<close>, where the
  subtraction of the overlap from the length of the next segment can underflow.
\<close>

definition merge_step ::
  "int \<Rightarrow> SegmentList \<times> int \<Rightarrow> (SegmentList \<times> int + SegmentList) option" where
  "merge_step idx = (\<lambda>(sl, next).
     if next = -1 then Some (Inr sl)
     else do {
       cur \<leftarrow> get_segment sl idx;
       let end_seq = seg_seq cur + ucast (seg_length cur);
       nx \<leftarrow> get_segment sl next;
       if end_seq \<ge> seg_seq nx then do {
         overlap \<leftarrow> checked_sub end_seq (seg_seq nx);
         merge_len \<leftarrow> len_sub (unat (seg_length nx)) (unat overlap);
         let new_len = merge_len + unat (seg_length cur);
         if new_len \<le> unat (- 1 :: u16) then do {
           sl \<leftarrow> upd_segment sl idx (\<lambda>s. s\<lparr>seg_length := of_nat new_len\<rparr>);
           let to_free = next;
           fr \<leftarrow> get_segment sl to_free;
           let next = seg_next fr;
           sl \<leftarrow> upd_segment sl idx (\<lambda>s. s\<lparr>seg_next := next\<rparr>);
           sl \<leftarrow> (if next \<noteq> -1 then upd_segment sl next (\<lambda>s. s\<lparr>seg_prev := idx\<rparr>) else Some sl);
           sl \<leftarrow> remove_node sl to_free;
           Some (Inl (sl, next))
         } else do {
           let max_len = - 1 - seg_length cur;
           new_cur \<leftarrow> checked_add (seg_length cur) max_len;
           sl \<leftarrow> upd_segment sl idx (\<lambda>s. s\<lparr>seg_length := new_cur\<rparr>);
           nx \<leftarrow> get_segment sl next;
           new_nx \<leftarrow> checked_sub (seg_length nx) max_len;
           sl \<leftarrow> upd_segment sl next (\<lambda>s. s\<lparr>seg_length := new_nx\<rparr>);
           sl \<leftarrow> upd_segment sl next (\<lambda>s. s\<lparr>seg_seq := seg_seq s + ucast max_len\<rparr>);
           Some (Inr sl)
         }
       } else Some (Inl (sl, next))
     })"

definition merge_at_idx :: "SegmentList \<Rightarrow> int \<Rightarrow> SegmentList option" where
  "merge_at_idx sl idx = do {
     cur \<leftarrow> get_segment sl idx;
     rust_loop (merge_step idx) (sl, seg_next cur)
   }"

text \<open>One iteration of the search loop of \<open>insert_segment\<close>.\<close>

definition insert_step ::
  "u32 \<Rightarrow> u16 \<Rightarrow> SegmentList \<times> int \<Rightarrow> (SegmentList \<times> int + SegmentList \<times> int) option" where
  "insert_step seq len = (\<lambda>(sl, idx).
     if idx = -1 then Some (Inr (sl, idx))
     else do {
       let end_seq = seq + ucast len;
       seg \<leftarrow> get_segment sl idx;
       let seg_end = seg_seq seg + ucast (seg_length seg);
       if seg_end = seq then do {
         let new_len = unat (seg_length seg) + unat len;
         if new_len \<le> unat (- 1 :: u16) then do {
           sl \<leftarrow> upd_segment sl idx (\<lambda>s. s\<lparr>seg_length := of_nat new_len\<rparr>);
           Some (Inr (sl, idx))
         } else do {
           let max_len = - 1 - seg_length seg;
           grown \<leftarrow> checked_add (seg_length seg) max_len;
           sl \<leftarrow> upd_segment sl idx (\<lambda>s. s\<lparr>seg_length := grown\<rparr>);
           let seq_new = seq + ucast max_len;
           len_new \<leftarrow> checked_sub len max_len;
           (_, sl) \<leftarrow> insert_after_node sl idx seq_new len_new;
           Some (Inr (sl, idx))
         }
       } else if seg_seq seg \<ge> end_seq then do {
         (idx, sl) \<leftarrow> insert_before_node sl idx seq len;
         Some (Inr (sl, idx))
       } else if seg_seq seg \<le> seq then do {
         let new_end = max seg_end end_seq;
         len' \<leftarrow> checked_sub new_end (seg_seq seg);
         sl \<leftarrow> upd_segment sl idx (\<lambda>s. s\<lparr>seg_length := ucast len'\<rparr>);
         Some (Inr (sl, idx))
       } else Some (Inl (sl, seg_next seg))
     })"

definition insert_segment :: "SegmentList \<Rightarrow> u32 \<Rightarrow> u16 \<Rightarrow> (int \<times> SegmentList) option" where
  "insert_segment sl seq len =
     (if sl_head sl = -1 then do {
        (idx, sl) \<leftarrow> insert_before_node sl (-1) seq len;
        Some (idx, sl\<lparr>sl_head := idx, sl_tail := idx\<rparr>)
      } else do {
        (sl, idx) \<leftarrow> rust_loop (insert_step seq len) (sl, sl_head sl);
        if idx = -1 then insert_at_tail sl seq len
        else do {
          sl \<leftarrow> merge_at_idx sl idx;
          Some (idx, sl)
        }
      })"

definition is_head :: "SegmentList \<Rightarrow> int \<Rightarrow> bool" where
  "is_head sl seg \<longleftrightarrow> sl_head sl = seg"

definition remove_head :: "SegmentList \<Rightarrow> SegmentList option" where
  "remove_head sl = do {
     let head = sl_head sl;
     h \<leftarrow> get_segment sl head;
     remove_node (sl\<lparr>sl_head := seg_next h\<rparr>) head
   }"

definition consume_head_data :: "SegmentList \<Rightarrow> u32 \<Rightarrow> u16 \<Rightarrow> (bool \<times> SegmentList) option" where
  "consume_head_data sl seq consumed = do {
     let idx = sl_head sl;
     h \<leftarrow> get_segment sl idx;
     if seg_seq h \<noteq> seq then Some (False, sl)
     else do {
       let consume = min consumed (seg_length h);
       sl \<leftarrow> upd_segment sl idx (\<lambda>s. s\<lparr>seg_seq := seg_seq s + ucast consume\<rparr>);
       len' \<leftarrow> checked_sub (seg_length h) consume;
       sl \<leftarrow> upd_segment sl idx (\<lambda>s. s\<lparr>seg_length := len'\<rparr>);
       sl \<leftarrow> (if len' = 0 then remove_head sl else merge_at_idx sl idx);
       Some (consume = consumed, sl)
     }
   }"

definition clear_step :: "SegmentList \<times> int \<Rightarrow> (SegmentList \<times> int + SegmentList) option" where
  "clear_step = (\<lambda>(sl, idx).
     if idx = -1 then Some (Inr sl)
     else do {
       s \<leftarrow> get_segment sl idx;
       sl \<leftarrow> remove_node sl idx;
       Some (Inl (sl, seg_next s))
     })"

definition sl_clear :: "SegmentList \<Rightarrow> SegmentList option" where
  "sl_clear sl = do {
     sl \<leftarrow> rust_loop clear_step (sl, sl_head sl);
     Some (sl\<lparr>sl_head := -1, sl_tail := -1\<rparr>)
   }"

definition one_segment :: "SegmentList \<Rightarrow> bool option" where
  "one_segment sl =
     (if sl_head sl = -1 then Some True
      else do {
        h \<leftarrow> get_segment sl (sl_head sl);
        Some (seg_next h = -1)
      })"

section \<open>The shape of the list\<close>

text \<open>
  \<open>linked st p xs n\<close>: the nodes \<open>xs\<close> form a doubly linked chain in the store \<open>st\<close>, entered from \<open>p\<close>
  and continued at \<open>n\<close>.  \<open>sl_wf sl xs\<close>: the list consists of exactly the nodes \<open>xs\<close>, in this order,
  and the free nodes are other nodes of the vector.
\<close>

definition hd_or :: "'a list \<Rightarrow> 'a \<Rightarrow> 'a" where
  "hd_or xs x = (case xs of [] \<Rightarrow> x | y # _ \<Rightarrow> y)"

definition last_or :: "'a \<Rightarrow> 'a list \<Rightarrow> 'a" where
  "last_or x xs = (if xs = [] then x else last xs)"

fun linked :: "(int \<Rightarrow> Segment) \<Rightarrow> int \<Rightarrow> int list \<Rightarrow> int \<Rightarrow> bool" where
  "linked st p [] n \<longleftrightarrow> True"
| "linked st p (i # is) n \<longleftrightarrow>
     seg_prev (st i) = p \<and> seg_next (st i) = hd_or is n \<and> linked st i is n"

definition sl_at :: "SegmentList \<Rightarrow> int \<Rightarrow> Segment" where
  "sl_at sl i = storage sl ! nat i"

definition sl_valid :: "SegmentList \<Rightarrow> int \<Rightarrow> bool" where
  "sl_valid sl i \<longleftrightarrow> 0 \<le> i \<and> nat i < length (storage sl)"

definition sl_nodes :: "SegmentList \<Rightarrow> int list \<Rightarrow> bool" where
  "sl_nodes sl xs \<longleftrightarrow> distinct (xs @ free_nodes sl) \<and> list_all (sl_valid sl) (xs @ free_nodes sl)"

definition sl_wf :: "SegmentList \<Rightarrow> int list \<Rightarrow> bool" where
  "sl_wf sl xs \<longleftrightarrow> sl_nodes sl xs \<and> linked (sl_at sl) (-1) xs (-1) \<and>
     sl_head sl = hd_or xs (-1)"

text \<open>The sequence ranges the nodes hold.\<close>

definition sl_ranges :: "SegmentList \<Rightarrow> int list \<Rightarrow> (u32 \<times> u16) list" where
  "sl_ranges sl xs = map (\<lambda>i. (seg_seq (sl_at sl i), seg_length (sl_at sl i))) xs"

subsection \<open>Access to valid nodes\<close>

definition sl_upd :: "SegmentList \<Rightarrow> int \<Rightarrow> (Segment \<Rightarrow> Segment) \<Rightarrow> SegmentList" where
  "sl_upd sl i f = sl\<lparr>storage := (storage sl)[nat i := f (sl_at sl i)]\<rparr>"

lemma hd_or_simps [simp]: "hd_or [] x = x" "hd_or (y # ys) x = y"
  "hd_or (xs @ ys) x = hd_or xs (hd_or ys x)"
  by (simp_all add: hd_or_def split: list.splits)

lemma last_or_simps [simp]: "last_or x [] = x" "last_or x (xs @ [y]) = y"
  "last_or x (xs @ y # ys) = last_or y ys" "last_or x (y # ys) = last_or y ys"
  by (simp_all add: last_or_def)

lemma hd_or_in: "hd_or xs x \<in> insert x (set xs)"
  by (cases xs) simp_all

lemma last_or_in: "last_or x xs \<in> insert x (set xs)"
  by (simp add: last_or_def)

lemma sl_valid_nonneg: "sl_valid sl i \<Longrightarrow> 0 \<le> i"
  by (simp add: sl_valid_def)

lemma sl_valid_not_minus_1: "\<not> sl_valid sl (-1)"
  by (simp add: sl_valid_def)

lemma get_segment_valid [simp]: "sl_valid sl i \<Longrightarrow> get_segment sl i = Some (sl_at sl i)"
  by (simp add: get_segment_def sl_valid_def vec_get_def sl_at_def)

lemma upd_segment_valid [simp]: "sl_valid sl i \<Longrightarrow> upd_segment sl i f = Some (sl_upd sl i f)"
  by (simp add: upd_segment_def sl_upd_def)

lemma sl_at_upd:
  "sl_valid sl i \<Longrightarrow> 0 \<le> j \<Longrightarrow> sl_at (sl_upd sl i f) j = (if j = i then f (sl_at sl i) else sl_at sl j)"
  by (auto simp: sl_at_def sl_upd_def sl_valid_def nth_list_update)

lemma sl_upd_upd [simp]:
  "sl_valid sl i \<Longrightarrow> sl_upd (sl_upd sl i f) i g = sl_upd sl i (\<lambda>s. g (f s))"
  by (simp add: sl_upd_def sl_at_def sl_valid_def)

lemma sl_upd_simps [simp]:
  "sl_valid (sl_upd sl i f) j = sl_valid sl j"
  "free_nodes (sl_upd sl i f) = free_nodes sl" "sl_head (sl_upd sl i f) = sl_head sl"
  "sl_tail (sl_upd sl i f) = sl_tail sl"
  by (simp_all add: sl_upd_def sl_valid_def)

lemma sl_update_simps [simp]:
  "sl_at (sl\<lparr>sl_head := h\<rparr>) j = sl_at sl j" "sl_at (sl\<lparr>sl_tail := h\<rparr>) j = sl_at sl j"
  "sl_at (sl\<lparr>free_nodes := fs\<rparr>) j = sl_at sl j"
  "sl_valid (sl\<lparr>sl_head := h\<rparr>) j = sl_valid sl j" "sl_valid (sl\<lparr>sl_tail := h\<rparr>) j = sl_valid sl j"
  "sl_valid (sl\<lparr>free_nodes := fs\<rparr>) j = sl_valid sl j"
  by (simp_all add: sl_at_def sl_valid_def)

lemma remove_node_valid:
  "sl_valid sl i \<Longrightarrow>
    remove_node sl i = Some (sl_upd sl i (\<lambda>s. s\<lparr>seg_length := 0\<rparr>) \<lparr>free_nodes := free_nodes sl @ [i]\<rparr>)"
  by (simp add: remove_node_def)

subsection \<open>Chains\<close>

lemma linked_append:
  "linked st p (xs @ ys) n \<longleftrightarrow> linked st p xs (hd_or ys n) \<and> linked st (last_or p xs) ys n"
  by (induction xs arbitrary: p) auto

lemma linked_cong:
  assumes "\<And>i. i \<in> set xs \<Longrightarrow> seg_prev (st' i) = seg_prev (st i) \<and> seg_next (st' i) = seg_next (st i)"
  shows "linked st' p xs n \<longleftrightarrow> linked st p xs n"
  using assms by (induction xs arbitrary: p) auto

lemma sl_nodesD:
  assumes "sl_nodes sl xs"
  shows "i \<in> set xs \<Longrightarrow> sl_valid sl i" "i \<in> set xs \<Longrightarrow> i \<noteq> -1" "i \<in> set xs \<Longrightarrow> 0 \<le> i"
    "i \<in> set xs \<Longrightarrow> i \<notin> set (free_nodes sl)" "distinct xs"
  using assms by (force simp: sl_nodes_def list_all_iff sl_valid_def)+

lemma sl_nodes_upd [simp]: "sl_nodes (sl_upd sl i f) xs = sl_nodes sl xs"
  by (simp add: sl_nodes_def list_all_iff)

lemma sl_nodes_update [simp]:
  "sl_nodes (sl\<lparr>sl_head := h\<rparr>) xs = sl_nodes sl xs" "sl_nodes (sl\<lparr>sl_tail := h\<rparr>) xs = sl_nodes sl xs"
  by (simp_all add: sl_nodes_def list_all_iff)

lemma sl_nodes_perm:
  "set xs = set ys \<Longrightarrow> distinct xs = distinct ys \<Longrightarrow> sl_nodes sl xs = sl_nodes sl ys"
  by (auto simp: sl_nodes_def list_all_iff)

lemma find_available_node_spec:
  assumes "sl_nodes sl xs"
  obtains idx sl' where "find_available_node sl = (idx, sl')" "sl_nodes sl' (idx # xs)"
    "\<And>i. sl_valid sl i \<Longrightarrow> sl_at sl' i = sl_at sl i" "sl_head sl' = sl_head sl" "sl_tail sl' = sl_tail sl"
proof (cases "free_nodes sl = []")
  case True
  let ?n = "int (length (storage sl))"
  show ?thesis
  proof (rule that)
    show "find_available_node sl = (?n, sl\<lparr>storage := storage sl @ [Segment_new ?n 0 0]\<rparr>)"
      using True by (simp add: find_available_node_def Let_def)
    show "sl_nodes (sl\<lparr>storage := storage sl @ [Segment_new ?n 0 0]\<rparr>) (?n # xs)"
      using assms True by (force simp: sl_nodes_def list_all_iff sl_valid_def)
  qed (simp_all add: sl_at_def sl_valid_def nth_append)
next
  case False
  then obtain fs f where fs: "free_nodes sl = fs @ [f]" by (cases "free_nodes sl" rule: rev_cases) auto
  show ?thesis
  proof (rule that)
    show "find_available_node sl = (f, sl\<lparr>free_nodes := fs\<rparr>)"
      by (simp add: find_available_node_def fs)
    show "sl_nodes (sl\<lparr>free_nodes := fs\<rparr>) (f # xs)"
      using assms by (auto simp: sl_nodes_def list_all_iff fs)
  qed simp_all
qed

text \<open>Two lists of nodes agree on everything but the given links.\<close>

lemma sl_ranges_cong:
  "(\<And>i. i \<in> set xs \<Longrightarrow> seg_seq (sl_at sl' i) = seg_seq (sl_at sl i) \<and>
      seg_length (sl_at sl' i) = seg_length (sl_at sl i)) \<Longrightarrow> sl_ranges sl' xs = sl_ranges sl xs"
  by (simp add: sl_ranges_def)

lemma sl_ranges_simps [simp]:
  "sl_ranges sl [] = []" "sl_ranges sl (xs @ ys) = sl_ranges sl xs @ sl_ranges sl ys"
  "sl_ranges sl (i # xs) = (seg_seq (sl_at sl i), seg_length (sl_at sl i)) # sl_ranges sl xs"
  "sl_ranges (sl\<lparr>sl_head := h\<rparr>) xs = sl_ranges sl xs" "sl_ranges (sl\<lparr>sl_tail := h\<rparr>) xs = sl_ranges sl xs"
  by (simp_all add: sl_ranges_def)

subsection \<open>Insertion of a node\<close>

lemma insert_first_spec:
  assumes wf: "sl_wf sl []"
  shows "\<exists>idx sl'. insert_segment sl seq len = Some (idx, sl') \<and> sl_wf sl' [idx] \<and>
    sl_ranges sl' [idx] = [(seq, len)]"
proof -
  have "sl_nodes sl []" "sl_head sl = -1" using wf by (simp_all add: sl_wf_def)
  from find_available_node_spec [OF this(1)] obtain idx sl1 where
    n: "find_available_node sl = (idx, sl1)" "sl_nodes sl1 [idx]" by metis
  have v: "sl_valid sl1 idx" "0 \<le> idx" using sl_nodesD [OF n(2)] by auto
  with n wf show ?thesis
    by (simp add: insert_segment_def insert_before_node_def \<open>sl_head sl = -1\<close> sl_at_upd sl_wf_def)
qed

text \<open>
  The store after a node \<open>idx\<close> was linked in between \<open>xs\<close> and \<open>n # ys\<close>: every other node keeps its
  range, and only the facing links of its two neighbours change.
\<close>

lemma linked_insert:
  assumes lk: "linked st p (xs @ n # ys) q" and dist: "distinct (idx # xs @ n # ys)"
    and idx: "seg_prev (st' idx) = last_or p xs" "seg_next (st' idx) = n"
    and n: "st' n = (st n)\<lparr>seg_prev := idx\<rparr>"
    and ys: "\<And>i. i \<in> set ys \<Longrightarrow> st' i = st i"
    and xs: "\<And>i. i \<in> set xs \<Longrightarrow> st' i = (if i = last xs then (st i)\<lparr>seg_next := idx\<rparr> else st i)"
  shows "linked st' p (xs @ idx # n # ys) q"
proof -
  have "linked st' n ys q" using lk ys by (simp add: linked_append cong: linked_cong)
  moreover have "linked st' p xs idx"
  proof (cases xs rule: rev_cases)
    case (snoc us u)
    have "linked st' p us u = linked st p us u"
      using xs dist by (intro linked_cong) (auto simp: snoc)
    then show ?thesis using lk xs by (simp add: snoc linked_append)
  qed simp
  ultimately show ?thesis using lk idx n by (simp add: linked_append)
qed

lemma insert_before_node_spec:
  assumes wf: "sl_wf sl (xs @ n # ys)"
  shows "\<exists>idx sl'. insert_before_node sl n seq len = Some (idx, sl') \<and> sl_wf sl' (xs @ idx # n # ys) \<and>
    sl_ranges sl' (xs @ idx # n # ys) = sl_ranges sl xs @ (seq, len) # sl_ranges sl (n # ys)"
proof -
  let ?zs = "xs @ n # ys"
  from wf have nodes: "sl_nodes sl ?zs" and lk: "linked (sl_at sl) (-1) ?zs (-1)"
    by (simp_all add: sl_wf_def)
  from find_available_node_spec [OF nodes] obtain idx sl1 where
    n1: "find_available_node sl = (idx, sl1)" "sl_nodes sl1 (idx # ?zs)"
      "\<And>i. sl_valid sl i \<Longrightarrow> sl_at sl1 i = sl_at sl i" "sl_head sl1 = sl_head sl" "sl_tail sl1 = sl_tail sl"
    by metis
  note D = sl_nodesD [OF n1(2)]
  have same: "\<And>i. i \<in> set ?zs \<Longrightarrow> sl_at sl1 i = sl_at sl i" using n1(3) sl_nodesD(1) [OF nodes] by blast
  let ?prev = "last_or (-1) xs"
  let ?new = "\<lambda>s. s\<lparr>seg_seq := seq, seg_length := len, seg_next := n, seg_prev := ?prev\<rparr>"
  define sl2 where "sl2 = sl_upd (sl_upd sl1 idx ?new) n (\<lambda>s. s\<lparr>seg_prev := idx\<rparr>)"
  define sl3 where "sl3 = (if xs = [] then sl2\<lparr>sl_head := idx\<rparr> else sl_upd sl2 ?prev (\<lambda>s. s\<lparr>seg_next := idx\<rparr>))"
  have v: "sl_valid sl1 idx" "sl_valid sl1 n" "idx \<noteq> n" "n \<noteq> idx" "0 \<le> idx" "0 \<le> n" "n \<noteq> -1"
    "sl_at sl1 n = sl_at sl n" "seg_prev (sl_at sl n) = ?prev"
    using D same lk by (auto simp: linked_append)
  have last_xs: "xs \<noteq> [] \<Longrightarrow> last xs \<in> set xs" by simp
  have pv: "sl_valid sl1 (last xs)" "last xs \<noteq> -1" "last xs \<noteq> idx" "last xs \<noteq> n" if "xs \<noteq> []"
    using D last_xs [OF that] by auto
  have ly: "xs \<noteq> [] \<Longrightarrow> last xs \<notin> set ys" using D(5) last_xs by (auto simp: disjoint_iff)
  have "insert_before_node sl n seq len = Some (idx, sl3)"
    using pv by (simp add: insert_before_node_def n1(1) v sl_at_upd sl3_def sl2_def last_or_def Let_def)
  moreover have at3: "sl_at sl3 i = (if i = idx then ?new (sl_at sl1 idx)
      else if i = n then (sl_at sl n)\<lparr>seg_prev := idx\<rparr>
      else if xs \<noteq> [] \<and> i = last xs then (sl_at sl i)\<lparr>seg_next := idx\<rparr> else sl_at sl i)"
    if "i \<in> set (idx # ?zs)" for i
    using that D(3) [OF that] v pv same by (auto simp: sl3_def sl2_def sl_at_upd last_or_def)
  have "linked (sl_at sl3) (-1) (xs @ idx # n # ys) (-1)"
    using lk D(5) v ly by (intro linked_insert [where st = "sl_at sl"]) (auto simp: at3)
  moreover have "sl_nodes sl3 (xs @ idx # n # ys)"
  proof -
    have "sl_nodes sl1 (xs @ idx # n # ys)"
      using n1(2) by (subst sl_nodes_perm [of _ "idx # ?zs"]) auto
    then show ?thesis by (auto simp: sl3_def sl2_def)
  qed
  moreover have "sl_head sl3 = hd_or (xs @ idx # n # ys) (-1)"
    using wf n1(4) by (cases xs) (simp_all add: sl3_def sl2_def sl_wf_def)
  moreover have "sl_ranges sl3 (xs @ idx # n # ys) = sl_ranges sl xs @ (seq, len) # sl_ranges sl (n # ys)"
    using D(5) v by (auto simp: at3 sl_ranges_def)
  ultimately show ?thesis by (simp add: sl_wf_def)
qed

lemma insert_at_tail_spec:
  assumes wf: "sl_wf sl (xs @ [t])" and tail: "sl_tail sl = t"
  shows "\<exists>idx sl'. insert_at_tail sl seq len = Some (idx, sl') \<and> sl_wf sl' (xs @ [t, idx]) \<and>
    sl_tail sl' = idx \<and> sl_ranges sl' (xs @ [t, idx]) = sl_ranges sl (xs @ [t]) @ [(seq, len)]"
proof -
  let ?zs = "xs @ [t]"
  from wf have nodes: "sl_nodes sl ?zs" and lk: "linked (sl_at sl) (-1) ?zs (-1)"
    by (simp_all add: sl_wf_def)
  from find_available_node_spec [OF nodes] obtain idx sl1 where
    n1: "find_available_node sl = (idx, sl1)" "sl_nodes sl1 (idx # ?zs)"
      "\<And>i. sl_valid sl i \<Longrightarrow> sl_at sl1 i = sl_at sl i" "sl_head sl1 = sl_head sl" "sl_tail sl1 = sl_tail sl"
    by metis
  note D = sl_nodesD [OF n1(2)]
  have same: "\<And>i. i \<in> set ?zs \<Longrightarrow> sl_at sl1 i = sl_at sl i" using n1(3) sl_nodesD(1) [OF nodes] by blast
  let ?new = "\<lambda>s. s\<lparr>seg_seq := seq, seg_length := len, seg_next := -1, seg_prev := t\<rparr>"
  define sl2 where "sl2 = sl_upd (sl_upd sl1 idx ?new) t (\<lambda>s. s\<lparr>seg_next := idx\<rparr>) \<lparr>sl_tail := idx\<rparr>"
  have v: "sl_valid sl1 idx" "sl_valid sl1 t" "idx \<noteq> t" "0 \<le> idx" "0 \<le> t" using D by auto
  have "insert_at_tail sl seq len = Some (idx, sl2)"
    by (simp add: insert_at_tail_def n1(1,5) v sl2_def tail)
  moreover have at2: "sl_at sl2 i = (if i = idx then ?new (sl_at sl1 idx)
      else if i = t then (sl_at sl t)\<lparr>seg_next := idx\<rparr> else sl_at sl i)" if "i \<in> set (idx # ?zs)" for i
    using that D(3) [OF that] v same by (auto simp: sl2_def sl_at_upd)
  have "linked (sl_at sl2) (-1) xs t = linked (sl_at sl) (-1) xs t"
    using D(5) by (intro linked_cong) (auto simp: at2)
  then have "linked (sl_at sl2) (-1) (xs @ [t, idx]) (-1)"
    using lk D(5) by (simp add: linked_append at2)
  moreover have "sl_nodes sl2 (xs @ [t, idx])"
  proof -
    have "sl_nodes sl1 (xs @ [t, idx])" using n1(2) by (subst sl_nodes_perm [of _ "idx # ?zs"]) auto
    then show ?thesis by (simp add: sl2_def)
  qed
  moreover have "sl_head sl2 = hd_or (xs @ [t, idx]) (-1)"
    using wf n1(4) by (simp add: sl2_def sl_wf_def)
  moreover have "sl_ranges sl2 (xs @ [t, idx]) = sl_ranges sl (xs @ [t]) @ [(seq, len)]"
    using D(5) by (auto simp: at2 sl_ranges_def)
  ultimately show ?thesis by (simp add: sl_wf_def sl2_def)
qed

subsection \<open>Clearing\<close>

lemma clear_loop:
  assumes "sl_nodes sl xs" and "linked (sl_at sl) p xs (-1)"
  shows "\<exists>sl'. rust_loop clear_step (sl, hd_or xs (-1)) = Some sl' \<and>
    free_nodes sl' = free_nodes sl @ xs \<and> length (storage sl') = length (storage sl)"
  using assms
proof (induction xs arbitrary: sl p)
  case Nil
  then show ?case by (simp add: rust_loop_break clear_step_def)
next
  case (Cons i xs)
  note D = sl_nodesD [OF Cons.prems(1)]
  define sl1 where "sl1 = sl_upd sl i (\<lambda>s. s\<lparr>seg_length := 0\<rparr>) \<lparr>free_nodes := free_nodes sl @ [i]\<rparr>"
  have v: "sl_valid sl i" "i \<noteq> -1" using D by auto
  have "clear_step (sl, i) = Some (Inl (sl1, hd_or xs (-1)))"
    using v Cons.prems(2) by (simp add: clear_step_def remove_node_valid sl1_def)
  moreover have "sl_nodes sl1 xs"
    using Cons.prems(1) by (auto simp: sl1_def sl_nodes_def list_all_iff)
  moreover have "linked (sl_at sl1) i xs (-1) = linked (sl_at sl) i xs (-1)"
    using D v by (intro linked_cong) (auto simp: sl1_def sl_at_upd)
  moreover have "free_nodes sl1 = free_nodes sl @ [i]" "length (storage sl1) = length (storage sl)"
    by (simp_all add: sl1_def sl_upd_def)
  ultimately show ?case
    using Cons.IH [of sl1 i] Cons.prems(2) by (simp add: rust_loop_continue)
qed

lemma sl_clear_spec:
  assumes "sl_wf sl xs"
  shows "\<exists>sl'. sl_clear sl = Some sl' \<and> sl_wf sl' [] \<and> free_nodes sl' = free_nodes sl @ xs"
proof -
  from assms have nodes: "sl_nodes sl xs" and lk: "linked (sl_at sl) (-1) xs (-1)"
    and h: "sl_head sl = hd_or xs (-1)" by (simp_all add: sl_wf_def)
  from clear_loop [OF nodes lk] obtain sl' where
    "rust_loop clear_step (sl, sl_head sl) = Some sl'" "free_nodes sl' = free_nodes sl @ xs"
    "length (storage sl') = length (storage sl)" by (auto simp: h)
  with nodes show ?thesis
    by (auto simp: sl_clear_def sl_wf_def sl_nodes_def list_all_iff sl_valid_def)
qed

subsection \<open>Merging\<close>

text \<open>
  The length a segment has after it absorbed the segments that follow it, when each of them starts at
  or before the end reached so far, ends at or after it, and the total stays below \<open>2^16\<close>.
\<close>

fun merged_len :: "u32 \<Rightarrow> nat \<Rightarrow> (u32 \<times> u16) list \<Rightarrow> nat option" where
  "merged_len seq len [] = (if len \<le> 65535 then Some len else None)"
| "merged_len seq len ((s, l) # rs) =
     (let e = seq + of_nat len; new_len = len + (unat l - unat (e - s)) in
      if s \<le> e \<and> unat (e - s) \<le> unat l \<and> new_len \<le> 65535 then merged_len seq new_len rs else None)"

lemma merged_len_bound: "merged_len seq len rs = Some n \<Longrightarrow> len \<le> n \<and> n \<le> 65535"
proof (induction rs arbitrary: len)
  case (Cons r rs)
  then show ?case by (cases r) (fastforce simp: Let_def split: if_splits)
qed (simp split: if_splits)

lemma ucast_u16_u32: "n \<le> 65535 \<Longrightarrow> (ucast (of_nat n :: u16) :: u32) = of_nat n"
  by (rule word_unat_eq_iff [THEN iffD2]) (simp add: unat_of_nat unsigned_ucast_eq take_bit_nat_eq_self)

lemma unat_max_u16: "unat (- 1 :: u16) = 65535"
  by (simp add: unsigned_minus_1_eq_mask mask_eq_exp_minus_1)

lemma merge_step_absorb:
  assumes nodes: "sl_nodes sl (i # j # ys)" and ij: "linked (sl_at sl) p (i # j # ys) (-1)"
    and seg: "seg_seq (sl_at sl i) = seq" "seg_length (sl_at sl i) = of_nat len" "len \<le> 65535"
    and nx: "seg_seq (sl_at sl j) = s" "seg_length (sl_at sl j) = l"
    and touch: "s \<le> seq + of_nat len" "unat (seq + of_nat len - s) \<le> unat l"
      "new_len = len + (unat l - unat (seq + of_nat len - s))" "new_len \<le> 65535"
  obtains sl' where "merge_step i (sl, j) = Some (Inl (sl', hd_or ys (-1)))" "sl_nodes sl' (i # ys)"
    "linked (sl_at sl') p (i # ys) (-1)" "seg_seq (sl_at sl' i) = seq"
    "seg_length (sl_at sl' i) = of_nat new_len" "sl_head sl' = sl_head sl"
    "\<And>k. 0 \<le> k \<Longrightarrow> k \<notin> {i, j} \<union> set ys \<Longrightarrow> sl_at sl' k = sl_at sl k"
    "\<And>k. 0 \<le> k \<Longrightarrow> k \<notin> {i, j} \<Longrightarrow> seg_seq (sl_at sl' k) = seg_seq (sl_at sl k) \<and>
       seg_length (sl_at sl' k) = seg_length (sl_at sl k)"
    "free_nodes sl' = free_nodes sl @ [j]" "sl_valid sl' = sl_valid sl"
proof -
  note D = sl_nodesD [OF nodes]
  let ?n = "hd_or ys (-1)"
  have v: "sl_valid sl i" "sl_valid sl j" "j \<noteq> -1" "i \<noteq> j" "j \<noteq> i" "0 \<le> i" "0 \<le> j"
    "seg_next (sl_at sl j) = ?n" using D ij by auto
  have hn: "?n \<noteq> -1 \<Longrightarrow> ?n \<in> set ys" using hd_or_in [of ys "-1"] by auto
  then have nv: "?n \<noteq> -1 \<Longrightarrow> sl_valid sl ?n" using D by auto
  define sl1 where "sl1 = sl_upd sl i (\<lambda>s. s\<lparr>seg_length := of_nat new_len, seg_next := ?n\<rparr>)"
  define sl2 where "sl2 = (if ?n \<noteq> -1 then sl_upd sl1 ?n (\<lambda>s. s\<lparr>seg_prev := i\<rparr>) else sl1)"
  define sl3 where "sl3 = sl_upd sl2 j (\<lambda>s. s\<lparr>seg_length := 0\<rparr>) \<lparr>free_nodes := free_nodes sl @ [j]\<rparr>"
  have at3: "sl_at sl3 k = (if k = i then (sl_at sl i)\<lparr>seg_length := of_nat new_len, seg_next := ?n\<rparr>
      else if k = j then (sl_at sl j)\<lparr>seg_length := 0\<rparr>
      else if k = ?n then (sl_at sl k)\<lparr>seg_prev := i\<rparr> else sl_at sl k)" if "0 \<le> k" for k
    using that v nv hn D(5) by (auto simp: sl3_def sl2_def sl1_def sl_at_upd)
  have e: "seg_seq (sl_at sl i) + ucast (seg_length (sl_at sl i)) = seq + of_nat len"
    and ul: "unat (seg_length (sl_at sl i)) = len"
    and total: "unat l - unat (seq + of_nat len - s) + len = new_len"
    using seg touch(3) by (simp_all add: ucast_u16_u32 unat_of_nat)
  show thesis
  proof (rule that)
    show "merge_step i (sl, j) = Some (Inl (sl3, ?n))"
      using v nv by (simp add: merge_step_def e ul checked_sub_def len_sub_def Let_def unat_max_u16
          touch(1,2,4) nx total sl_at_upd remove_node_valid sl3_def sl2_def sl1_def)
    show "sl_nodes sl3 (i # ys)"
      using nodes by (auto simp: sl_nodes_def list_all_iff sl3_def sl2_def sl1_def)
    have "linked (sl_at sl3) i ys (-1)"
    proof (cases ys)
      case (Cons y zs)
      have "linked (sl_at sl3) y zs (-1) = linked (sl_at sl) y zs (-1)"
        using D by (intro linked_cong) (auto simp: at3 Cons)
      then show ?thesis using ij D by (auto simp: at3 Cons)
    qed simp
    then show "linked (sl_at sl3) p (i # ys) (-1)" using ij v by (simp add: at3)
    show "sl_head sl3 = sl_head sl" "sl_valid sl3 = sl_valid sl" "free_nodes sl3 = free_nodes sl @ [j]"
      by (auto simp: sl3_def sl2_def sl1_def)
    show "sl_at sl3 k = sl_at sl k" if "0 \<le> k" "k \<notin> {i, j} \<union> set ys" for k
      using that hn by (auto simp: at3)
  qed (use v seg in \<open>auto simp: at3\<close>)
qed

lemma merge_loop:
  assumes "sl_nodes sl (i # ys)" and "linked (sl_at sl) p (i # ys) (-1)"
    and "seg_seq (sl_at sl i) = seq" and "seg_length (sl_at sl i) = of_nat len" and "len \<le> 65535"
    and "merged_len seq len (sl_ranges sl ys) = Some n"
  shows "\<exists>sl'. rust_loop (merge_step i) (sl, hd_or ys (-1)) = Some sl' \<and> sl_nodes sl' [i] \<and>
    linked (sl_at sl') p [i] (-1) \<and> seg_seq (sl_at sl' i) = seq \<and> seg_length (sl_at sl' i) = of_nat n \<and>
    sl_head sl' = sl_head sl \<and> free_nodes sl' = free_nodes sl @ ys \<and> sl_valid sl' = sl_valid sl \<and>
    (\<forall>k. 0 \<le> k \<longrightarrow> k \<notin> insert i (set ys) \<longrightarrow> sl_at sl' k = sl_at sl k)"
  using assms
proof (induction ys arbitrary: sl len)
  case Nil
  then show ?case by (simp add: rust_loop_break merge_step_def)
next
  case (Cons j ys)
  note D = sl_nodesD [OF Cons.prems(1)]
  let ?s = "seg_seq (sl_at sl j)" and ?l = "seg_length (sl_at sl j)"
  define new_len where "new_len = len + (unat ?l - unat (seq + of_nat len - ?s))"
  have touch: "?s \<le> seq + of_nat len" "unat (seq + of_nat len - ?s) \<le> unat ?l" "new_len \<le> 65535"
    "merged_len seq new_len (sl_ranges sl ys) = Some n"
    using Cons.prems(6) by (auto simp: Let_def new_len_def split: if_splits)
  obtain sl1 where sl1: "merge_step i (sl, j) = Some (Inl (sl1, hd_or ys (-1)))" "sl_nodes sl1 (i # ys)"
    "linked (sl_at sl1) p (i # ys) (-1)" "seg_seq (sl_at sl1 i) = seq"
    "seg_length (sl_at sl1 i) = of_nat new_len" "sl_head sl1 = sl_head sl"
    and frame: "\<And>k. 0 \<le> k \<Longrightarrow> k \<notin> {i, j} \<union> set ys \<Longrightarrow> sl_at sl1 k = sl_at sl k"
    and keep: "\<And>k. 0 \<le> k \<Longrightarrow> k \<notin> {i, j} \<Longrightarrow> seg_seq (sl_at sl1 k) = seg_seq (sl_at sl k) \<and>
       seg_length (sl_at sl1 k) = seg_length (sl_at sl k)"
    and free: "free_nodes sl1 = free_nodes sl @ [j]" "sl_valid sl1 = sl_valid sl"
    using merge_step_absorb [OF Cons.prems(1-5) refl refl touch(1,2) new_len_def touch(3)] by metis
  have "sl_ranges sl1 ys = sl_ranges sl ys"
    using D by (intro sl_ranges_cong keep) auto
  with Cons.IH [OF sl1(2-5) touch(3)] touch(4) sl1(1,6) free frame show ?case
    by (auto simp: rust_loop_continue)
qed

lemma merge_at_idx_spec:
  assumes wf: "sl_wf sl (xs @ i # ys)"
    and merge: "merged_len (seg_seq (sl_at sl i)) (unat (seg_length (sl_at sl i))) (sl_ranges sl ys) = Some n"
  shows "\<exists>sl'. merge_at_idx sl i = Some sl' \<and> sl_wf sl' (xs @ [i]) \<and>
    sl_ranges sl' (xs @ [i]) = sl_ranges sl xs @ [(seg_seq (sl_at sl i), of_nat n)] \<and>
    free_nodes sl' = free_nodes sl @ ys"
proof -
  from wf have nodes: "sl_nodes sl (xs @ i # ys)" and lk: "linked (sl_at sl) (-1) (xs @ i # ys) (-1)"
    and h: "sl_head sl = hd_or (xs @ i # ys) (-1)" by (simp_all add: sl_wf_def)
  note D = sl_nodesD [OF nodes]
  have "unat (seg_length (sl_at sl i)) \<le> 65535"
    using unsigned_less [of "seg_length (sl_at sl i)", where ?'a = nat] by simp
  moreover have "sl_nodes sl (i # ys)" using nodes by (auto simp: sl_nodes_def)
  moreover have "linked (sl_at sl) (last_or (-1) xs) (i # ys) (-1)" using lk by (simp add: linked_append)
  ultimately obtain sl' where sl': "rust_loop (merge_step i) (sl, hd_or ys (-1)) = Some sl'" "sl_nodes sl' [i]"
    "linked (sl_at sl') (last_or (-1) xs) [i] (-1)" "seg_seq (sl_at sl' i) = seg_seq (sl_at sl i)"
    "seg_length (sl_at sl' i) = of_nat n" "sl_head sl' = sl_head sl" "free_nodes sl' = free_nodes sl @ ys"
    "sl_valid sl' = sl_valid sl" "\<And>k. 0 \<le> k \<Longrightarrow> k \<notin> insert i (set ys) \<Longrightarrow> sl_at sl' k = sl_at sl k"
    using merge_loop [OF _ _ refl _ _ merge] by fastforce
  have same: "sl_at sl' k = sl_at sl k" if "k \<in> set xs" for k
    using that D(3,5) sl'(9) [of k] by (auto simp: disjoint_iff)
  have "linked (sl_at sl') (-1) xs i = linked (sl_at sl) (-1) xs i"
    by (intro linked_cong) (simp add: same)
  then have "linked (sl_at sl') (-1) (xs @ [i]) (-1)" using lk sl'(3) by (simp add: linked_append)
  moreover have "sl_nodes sl' (xs @ [i])"
    using nodes sl'(7,8) by (auto simp: sl_nodes_def list_all_iff)
  moreover have "sl_ranges sl' xs = sl_ranges sl xs" by (intro sl_ranges_cong) (simp add: same)
  moreover have "merge_at_idx sl i = Some sl'"
    using D(1) [of i] lk sl'(1) by (simp add: merge_at_idx_def linked_append)
  ultimately show ?thesis using sl' h by (simp add: sl_wf_def)
qed

subsection \<open>Insertion of a range\<close>

text \<open>
  The range that remains when a new range is inserted into a list of ranges and everything merges:
  the new range continues the first one, lies before it and touches it, or starts inside it.
\<close>

fun range_insert :: "(u32 \<times> u16) list \<Rightarrow> u32 \<Rightarrow> u16 \<Rightarrow> (u32 \<times> u16) option" where
  "range_insert [] seq len = Some (seq, len)"
| "range_insert ((s, l) # rs) seq len =
     (let e = seq + ucast len; se = s + ucast l in
      if se = seq then map_option (\<lambda>n. (s, of_nat n)) (merged_len s (unat l + unat len) rs)
      else if e \<le> s then map_option (\<lambda>n. (seq, of_nat n)) (merged_len seq (unat len) ((s, l) # rs))
      else if s \<le> seq then map_option (\<lambda>n. (s, of_nat n)) (merged_len s (unat (max se e - s)) rs)
      else None)"

lemma sl_wf_set_length:
  fixes v :: u16
  assumes wf: "sl_wf sl (i # ys)"
  defines "sl' \<equiv> sl_upd sl i (\<lambda>s. s\<lparr>seg_length := v\<rparr>)"
  shows "sl_wf sl' (i # ys)" "seg_seq (sl_at sl' i) = seg_seq (sl_at sl i)"
    "seg_length (sl_at sl' i) = v" "sl_ranges sl' ys = sl_ranges sl ys"
proof -
  from wf have nodes: "sl_nodes sl (i # ys)" by (simp add: sl_wf_def)
  note D = sl_nodesD [OF nodes]
  have at: "sl_at sl' k = (if k = i then (sl_at sl i)\<lparr>seg_length := v\<rparr> else sl_at sl k)"
    if "k \<in> set (i # ys)" for k using D(1) [of i] D(3) [OF that] by (simp add: sl'_def sl_at_upd)
  have "linked (sl_at sl') (-1) (i # ys) (-1) = linked (sl_at sl) (-1) (i # ys) (-1)"
    by (intro linked_cong) (simp add: at)
  then show "sl_wf sl' (i # ys)" using wf by (simp add: sl_wf_def) (simp add: sl'_def)
  show "sl_ranges sl' ys = sl_ranges sl ys" using D(5) by (intro sl_ranges_cong) (auto simp: at)
qed (use wf sl_nodesD(1,3) [of sl "i # ys"] in \<open>simp_all add: sl'_def sl_at_upd sl_wf_def\<close>)

lemma resize_and_merge:
  assumes wf: "sl_wf sl (i # ys)" and v: "unat v = m"
    and merge: "merged_len (seg_seq (sl_at sl i)) m (sl_ranges sl ys) = Some n"
  shows "\<exists>sl'. merge_at_idx (sl_upd sl i (\<lambda>s. s\<lparr>seg_length := v\<rparr>)) i = Some sl' \<and> sl_wf sl' [i] \<and>
    sl_ranges sl' [i] = [(seg_seq (sl_at sl i), of_nat n)]"
  using merge_at_idx_spec [of "sl_upd sl i (\<lambda>s. s\<lparr>seg_length := v\<rparr>)" "[]" i ys n]
    sl_wf_set_length [OF wf, of v] v merge by auto

lemma insert_segment_step:
  assumes wf: "sl_wf sl (i # ys)" and step: "insert_step seq len (sl, i) = Some (Inr (sl1, idx))"
    and idx: "idx \<noteq> -1" and merge: "merge_at_idx sl1 idx = Some sl2"
  shows "insert_segment sl seq len = Some (idx, sl2)"
proof -
  have "sl_head sl = i" "i \<noteq> -1"
    using wf sl_nodesD(2) [of sl "i # ys" i] by (simp_all add: sl_wf_def)
  then show ?thesis using step idx merge by (simp add: insert_segment_def rust_loop_break)
qed

lemma insert_segment_spec:
  assumes wf: "sl_wf sl xs" and r: "range_insert (sl_ranges sl xs) seq len = Some r"
  shows "\<exists>idx sl'. insert_segment sl seq len = Some (idx, sl') \<and> sl_wf sl' [idx] \<and> sl_ranges sl' [idx] = [r]"
proof (cases xs)
  case Nil
  with insert_first_spec [of sl seq len] wf r show ?thesis by auto
next
  case (Cons i ys)
  let ?s = "seg_seq (sl_at sl i)" and ?l = "seg_length (sl_at sl i)"
  let ?e = "seq + ucast len :: u32" and ?se = "?s + ucast ?l :: u32"
  have wf': "sl_wf sl (i # ys)" using wf Cons by simp
  then have v: "sl_valid sl i" "i \<noteq> -1" using sl_nodesD(1,2) [of sl "i # ys" i] by (simp_all add: sl_wf_def)
  consider (extend) n where "?se = seq" "r = (?s, of_nat n)"
      "merged_len ?s (unat ?l + unat len) (sl_ranges sl ys) = Some n"
    | (before) n where "?se \<noteq> seq" "?e \<le> ?s" "r = (seq, of_nat n)"
      "merged_len seq (unat len) ((?s, ?l) # sl_ranges sl ys) = Some n"
    | (inside) n where "?se \<noteq> seq" "\<not> ?e \<le> ?s" "?s \<le> seq" "r = (?s, of_nat n)"
      "merged_len ?s (unat (max ?se ?e - ?s)) (sl_ranges sl ys) = Some n"
    using r Cons by (auto simp: Let_def split: if_splits)
  then show ?thesis
  proof cases
    case extend
    have le: "unat ?l + unat len \<le> 65535" using merged_len_bound [OF extend(3)] by linarith
    then have u: "unat (of_nat (unat ?l + unat len) :: u16) = unat ?l + unat len"
      by (subst unat_of_nat) simp
    obtain sl2 where "merge_at_idx (sl_upd sl i (\<lambda>s. s\<lparr>seg_length := of_nat (unat ?l + unat len)\<rparr>)) i = Some sl2"
      "sl_wf sl2 [i]" "sl_ranges sl2 [i] = [r]"
      using resize_and_merge [OF wf' u extend(3)] extend(2) by auto
    moreover have "insert_step seq len (sl, i) =
        Some (Inr (sl_upd sl i (\<lambda>s. s\<lparr>seg_length := of_nat (unat ?l + unat len)\<rparr>), i))"
      using v extend(1) le by (simp add: insert_step_def Let_def unat_max_u16 del: of_nat_add)
    ultimately show ?thesis using insert_segment_step [OF wf' _ v(2)] by blast
  next
    case before
    from insert_before_node_spec [of sl "[]" i ys seq len] wf' obtain idx sl1 where
      ins: "insert_before_node sl i seq len = Some (idx, sl1)" "sl_wf sl1 (idx # i # ys)"
        "sl_ranges sl1 (idx # i # ys) = (seq, len) # sl_ranges sl (i # ys)" by auto
    have "idx \<noteq> -1" using ins(2) sl_nodesD(2) [of sl1 "idx # i # ys" idx] by (simp add: sl_wf_def)
    moreover have "insert_step seq len (sl, i) = Some (Inr (sl1, idx))"
      using v before(1,2) ins(1) by (simp add: insert_step_def Let_def)
    moreover have "\<exists>sl2. merge_at_idx sl1 idx = Some sl2 \<and> sl_wf sl2 [idx] \<and> sl_ranges sl2 [idx] = [r]"
    proof -
      have at: "seg_seq (sl_at sl1 idx) = seq" "seg_length (sl_at sl1 idx) = len"
        "sl_ranges sl1 (i # ys) = (?s, ?l) # sl_ranges sl ys" using ins(3) by simp_all
      have "\<exists>sl2. merge_at_idx sl1 idx = Some sl2 \<and> sl_wf sl2 ([] @ [idx]) \<and>
          sl_ranges sl2 ([] @ [idx]) = sl_ranges sl1 [] @ [(seg_seq (sl_at sl1 idx), of_nat n)] \<and>
          free_nodes sl2 = free_nodes sl1 @ i # ys"
        by (rule merge_at_idx_spec) (use ins(2) before(4) at in \<open>simp_all del: merged_len.simps sl_ranges_simps(3)\<close>)
      then show ?thesis using at before(3) by auto
    qed
    ultimately show ?thesis using insert_segment_step [OF wf'] by blast
  next
    case inside
    have le: "unat (max ?se ?e - ?s) \<le> 65535" using merged_len_bound [OF inside(5)] by linarith
    then have u: "unat (ucast (max ?se ?e - ?s) :: u16) = unat (max ?se ?e - ?s)"
      by (simp add: unsigned_ucast_eq take_bit_nat_eq_self)
    obtain sl2 where "merge_at_idx (sl_upd sl i (\<lambda>s. s\<lparr>seg_length := ucast (max ?se ?e - ?s)\<rparr>)) i = Some sl2"
      "sl_wf sl2 [i]" "sl_ranges sl2 [i] = [r]"
      using resize_and_merge [OF wf' u inside(5)] inside(4) by auto
    moreover have "insert_step seq len (sl, i) =
        Some (Inr (sl_upd sl i (\<lambda>s. s\<lparr>seg_length := ucast (max ?se ?e - ?s)\<rparr>), i))"
      using v inside(1-3) less_imp_le [of ?s ?e]
      by (auto simp: insert_step_def Let_def checked_sub_def le_max_iff_disj not_le)
    ultimately show ?thesis using insert_segment_step [OF wf' _ v(2)] by blast
  qed
qed

lemma SegmentList_new_wf: "sl_wf (SegmentList_new n) []"
  by (auto simp: SegmentList_new_def sl_wf_def sl_nodes_def list_all_iff sl_valid_def distinct_map)

text \<open>A gap behind the segment: the loop of \<open>merge_at_idx\<close> repeats its state.\<close>

lemma merge_step_gap:
  assumes "sl_valid sl i" and "sl_valid sl j"
    and "seg_seq (sl_at sl i) + ucast (seg_length (sl_at sl i)) < seg_seq (sl_at sl j)"
  shows "merge_step i (sl, j) = Some (Inl (sl, j))"
  using assms sl_valid_not_minus_1 by (auto simp: merge_step_def Let_def)

section \<open>Properties\<close>







lemma unat_u32_add: "unat a + n < 2 ^ 32 \<Longrightarrow> unat (a + of_nat n :: u32) = unat a + n"
  by (simp add: unat_word_ariths unat_of_nat)





text \<open>A range behind a gap is joined with the first segment, gap included.\<close>

lemma insert_segment_swallows_gap:
  assumes "sl_wf sl [i]" and "sl_ranges sl [i] = [(s, l)]" and "unat s + unat l < unat seq"
    and "unat seq + unat len < 2 ^ 32" and "unat seq + unat len \<le> unat s + 65535" and "0 < unat len"
  shows "\<exists>idx sl'. insert_segment sl seq len = Some (idx, sl') \<and> sl_ranges sl' [idx] = [(s, of_nat (unat seq + unat len - unat s))]"
proof -
  let ?e = "seq + ucast len :: u32" and ?se = "s + ucast l :: u32"
  have e: "unat ?e = unat seq + unat len" "unat ?se = unat s + unat l"
    using unat_u32_add [of seq "unat len"] unat_u32_add [of s "unat l"] assms(3,4) by simp_all
  have c: "?se \<noteq> seq" "\<not> ?e \<le> s" "s \<le> seq" "max ?se ?e = ?e" "s \<le> ?e"
    using assms(3,6) by (auto simp: word_unat_eq_iff word_le_nat_alt e max_def)
  then have "unat (max ?se ?e - s) = unat seq + unat len - unat s" by (simp only: unat_sub e)
  then have "range_insert (sl_ranges sl [i]) seq len = Some (s, of_nat (unat seq + unat len - unat s))"
    unfolding assms(2) using c assms(5) by (simp add: Let_def)
  from insert_segment_spec [OF assms(1) this] show ?thesis by blast
qed

text \<open>
  A node inserted in front of a node of a well-formed list is linked in at exactly that place, in
  both directions; every other node keeps its range.
\<close>
theorem insert_before_node_links:
  assumes "sl_wf sl (xs @ n # ys)"
  shows "\<exists>idx sl'. insert_before_node sl n seq len = Some (idx, sl') \<and> sl_wf sl' (xs @ idx # n # ys) \<and>
    sl_ranges sl' (xs @ idx # n # ys) = sl_ranges sl xs @ (seq, len) # sl_ranges sl (n # ys)"
  using assms by (rule insert_before_node_spec)

theorem insert_before_node_links_witness:
  "\<exists>idx sl'. insert_before_node
      \<lparr>storage = [Segment_new 0 0 0, Segment_new 1 100 20], free_nodes = [0], sl_head = 1, sl_tail = 1\<rparr>
      1 90 10 = Some (idx, sl') \<and> sl_wf sl' [idx, 1] \<and> sl_ranges sl' [idx, 1] = [(90, 10), (100, 20)]"
proof -
  let ?sl = "\<lparr>storage = [Segment_new 0 0 0, Segment_new 1 100 20], free_nodes = [0], sl_head = 1, sl_tail = 1\<rparr>"
  have "sl_wf ?sl ([] @ 1 # [])" by code_simp
  moreover have "sl_ranges ?sl [1] = [(100, 20)]" by code_simp
  ultimately show ?thesis using insert_before_node_links [of ?sl "[]" 1 "[]" 90 10] by auto
qed

text \<open>
  Clearing a well-formed list terminates, leaves an empty list, and returns every node of the list
  to the free nodes.
\<close>
theorem clear_returns_nodes:
  assumes "sl_wf sl xs"
  shows "\<exists>sl'. sl_clear sl = Some sl' \<and> sl_wf sl' [] \<and> free_nodes sl' = free_nodes sl @ xs"
  using assms by (rule sl_clear_spec)

theorem clear_returns_nodes_witness:
  "\<exists>sl'. sl_clear
      \<lparr>storage = [Segment_new 0 0 0, Segment_new 1 100 20], free_nodes = [0], sl_head = 1, sl_tail = 1\<rparr>
      = Some sl' \<and> sl_wf sl' [] \<and> free_nodes sl' = [0, 1]"
proof -
  let ?sl = "\<lparr>storage = [Segment_new 0 0 0, Segment_new 1 100 20], free_nodes = [0], sl_head = 1, sl_tail = 1\<rparr>"
  have "sl_wf ?sl [1]" by code_simp
  from clear_returns_nodes [OF this] show ?thesis by simp
qed

text \<open>
  \<open>merge_at_idx\<close> does not return when there is a gap between the segment and its successor: the
  iteration leaves the state as it was, so the loop repeats it forever.
\<close>
theorem merge_at_idx_gap_diverges:
  assumes "sl_valid sl i" and "sl_valid sl (seg_next (sl_at sl i))"
    and "seg_seq (sl_at sl i) + ucast (seg_length (sl_at sl i)) < seg_seq (sl_at sl (seg_next (sl_at sl i)))"
  shows "merge_step i (sl, seg_next (sl_at sl i)) = Some (Inl (sl, seg_next (sl_at sl i))) \<and>
    merge_at_idx sl i = None"
proof
  show step: "merge_step i (sl, seg_next (sl_at sl i)) = Some (Inl (sl, seg_next (sl_at sl i)))"
    using assms by (rule merge_step_gap)
  have "rust_loop (merge_step i) (sl, seg_next (sl_at sl i)) = None"
    by (rule rust_loop_diverges [where I = "\<lambda>s. s = (sl, seg_next (sl_at sl i))"]) (simp_all add: step)
  then show "merge_at_idx sl i = None" using assms(1) by (simp add: merge_at_idx_def)
qed

theorem merge_at_idx_gap_diverges_witness:
  "sl_wf \<lparr>storage = [(Segment_new 0 10 5)\<lparr>seg_next := 1\<rparr>, (Segment_new 1 20 5)\<lparr>seg_prev := 0\<rparr>],
      free_nodes = [], sl_head = 0, sl_tail = 1\<rparr> [0, 1] \<and>
   merge_at_idx \<lparr>storage = [(Segment_new 0 10 5)\<lparr>seg_next := 1\<rparr>, (Segment_new 1 20 5)\<lparr>seg_prev := 0\<rparr>],
      free_nodes = [], sl_head = 0, sl_tail = 1\<rparr> 0 = None"
proof
  let ?sl = "\<lparr>storage = [(Segment_new 0 10 5)\<lparr>seg_next := 1\<rparr>, (Segment_new 1 20 5)\<lparr>seg_prev := 0\<rparr>],
      free_nodes = [], sl_head = 0, sl_tail = 1\<rparr>"
  show "sl_wf ?sl [0, 1]" by code_simp
  have next1: "seg_next (sl_at ?sl 0) = 1" by code_simp
  show "merge_at_idx ?sl 0 = None"
  proof (rule merge_at_idx_gap_diverges [THEN conjunct2])
    show "sl_valid ?sl 0" by code_simp
  qed (unfold next1, code_simp+)
qed

end
