(* ===== verification/NB_ReorderedBuffer.thy ===== *)
theory NB_ReorderedBuffer
  imports NB_Utils NB_RingBuffer NB_SegmentList
begin

text \<open>
  \<open>ReorderedBuffer\<close> of \<open>framework/src/state/reordered_buffer/reordered_buffer.rs\<close>: the buffer that puts
  the payload of a TCP stream back in order.  In-order data goes straight to the ring buffer; once
  data arrives ahead of a gap the segment list records which ranges are present.
\<close>

section \<open>State and operations\<close>

datatype InsertionResult =
    Inserted (ir_written: nat) (ir_available: usize)
  | OutOfMemory (ir_written: nat) (ir_available: usize)

datatype State = Closed | Connected | ConnectedOutOfOrder

record ReorderedBuffer =
  ro_data :: RingBuffer
  segment_list :: SegmentList
  ro_buffer_size :: usize
  ro_state :: State
  head_seq :: u32
  tail_seq :: u32

definition buffer_size :: "ReorderedBuffer \<Rightarrow> usize" where
  "buffer_size ro = ro_buffer_size ro"

definition ro_available :: "ReorderedBuffer \<Rightarrow> usize" where
  "ro_available ro = rb_available (ro_data ro)"

definition new_with_segments :: "usize \<Rightarrow> usize \<Rightarrow> ReorderedBuffer result option" where
  "new_with_segments bytes segment_size = do {
     let rounded_bytes = round_to_power_of_2 bytes;
     r \<leftarrow> RingBuffer_new rounded_bytes;
     case r of
       Inl e \<Rightarrow> Some (Inl e)
     | Inr ring_buffer \<Rightarrow> Some (Inr \<lparr>ro_data = ring_buffer,
         segment_list = SegmentList_new (unat segment_size),
         ro_buffer_size = rounded_bytes, ro_state = Closed, head_seq = 0, tail_seq = 0\<rparr>)
   }"

definition ReorderedBuffer_new :: "usize \<Rightarrow> ReorderedBuffer result option" where
  "ReorderedBuffer_new bytes = new_with_segments bytes (bytes div 64)"

definition ro_reset :: "ReorderedBuffer \<Rightarrow> ReorderedBuffer option" where
  "ro_reset ro = do {
     sl \<leftarrow> sl_clear (segment_list ro);
     Some (ro\<lparr>ro_state := Closed, segment_list := sl, ro_data := rb_clear (ro_data ro)\<rparr>)
   }"

definition insertion_result :: "nat \<Rightarrow> nat \<Rightarrow> ReorderedBuffer \<Rightarrow> InsertionResult" where
  "insertion_result written len ro =
     (if written = len then Inserted written (ro_available ro) else OutOfMemory written (ro_available ro))"

definition fast_path_insert ::
  "ReorderedBuffer \<Rightarrow> u8 list \<Rightarrow> (InsertionResult \<times> ReorderedBuffer) option" where
  "fast_path_insert ro data = do {
     (written, rb) \<leftarrow> write_at_tail (ro_data ro) data;
     let ro = ro\<lparr>ro_data := rb, tail_seq := tail_seq ro + of_nat written\<rparr>;
     Some (insertion_result written (length data) ro, ro)
   }"

definition ro_seq :: "ReorderedBuffer \<Rightarrow> u32 \<Rightarrow> u8 list \<Rightarrow> (InsertionResult \<times> ReorderedBuffer) option" where
  "ro_seq ro seq data = (case ro_state ro of
     Closed \<Rightarrow> fast_path_insert (ro\<lparr>ro_state := Connected, head_seq := seq, tail_seq := seq\<rparr>) data
   | _ \<Rightarrow> None)"

text \<open>
  The loop that enters the in-order data into the segment list in pieces of at most \<open>u16::MAX\<close> bytes;
  it is bounded by the number of bytes left.
\<close>

function add_head_loop :: "SegmentList \<Rightarrow> nat \<Rightarrow> u32 \<Rightarrow> SegmentList option" where
  "add_head_loop sl to_insert seq =
     (if 0 < to_insert then do {
        let insert = min (unat (- 1 :: u16)) to_insert;
        (_, sl) \<leftarrow> insert_segment sl seq (of_nat insert);
        add_head_loop sl (to_insert - insert) (seq + of_nat insert)
      } else Some sl)"
  by auto
termination
  by (relation "measure (\<lambda>(_, n, _). n)") (auto simp: unat_max_u16)

definition add_head_to_seg_list :: "ReorderedBuffer \<Rightarrow> ReorderedBuffer option" where
  "add_head_to_seg_list ro = do {
     sl \<leftarrow> add_head_loop (segment_list ro) (unat (rb_available (ro_data ro))) (head_seq ro);
     Some (ro\<lparr>segment_list := sl\<rparr>)
   }"

partial_function (option) out_of_order_insert ::
  "ReorderedBuffer \<Rightarrow> u32 \<Rightarrow> u8 list \<Rightarrow> (InsertionResult \<times> ReorderedBuffer) option" where
  [code]: "out_of_order_insert ro seq data =
     (if tail_seq ro = seq then do {
        (written, rb) \<leftarrow> write_at_tail (ro_data ro) data;
        let ro = ro\<lparr>ro_data := rb, tail_seq := tail_seq ro + of_nat written\<rparr>;
        (segment, sl) \<leftarrow> insert_segment (segment_list ro) seq (of_nat written);
        let ro = ro\<lparr>segment_list := sl\<rparr>;
        _ \<leftarrow> rust_assert (is_head sl segment);
        seg \<leftarrow> get_segment sl segment;
        let seg_end = seg_seq seg + ucast (seg_length seg);
        let incr = seg_end - tail_seq ro;
        let written = (if (of_nat written :: u32) < incr then unat incr else written);
        let ro = ro\<lparr>tail_seq := seg_end, ro_data := seek_tail (ro_data ro) (ucast incr)\<rparr>;
        one \<leftarrow> one_segment (segment_list ro);
        ro \<leftarrow> (if one then do {
                  sl \<leftarrow> sl_clear (segment_list ro);
                  Some (ro\<lparr>segment_list := sl, ro_state := Connected\<rparr>)
                } else Some ro);
        Some (Inserted written (ro_available ro), ro)
      }
      else if tail_seq ro \<ge> seq then do {
        off \<leftarrow> checked_sub (tail_seq ro) seq;
        let offset = unat off;
        if length data > offset then do {
          rest \<leftarrow> slice_range offset (length data) data;
          out_of_order_insert ro (tail_seq ro) rest
        } else Some (Inserted 0 (ro_available ro), ro)
      }
      else do {
        off \<leftarrow> checked_sub seq (tail_seq ro);
        (written, rb) \<leftarrow> write_at_offset_from_tail (ro_data ro) (ucast off) data;
        (_, sl) \<leftarrow> insert_segment (segment_list ro) seq (of_nat written);
        let ro = ro\<lparr>ro_data := rb, segment_list := sl\<rparr>;
        Some (insertion_result written (length data) ro, ro)
      })"

definition slow_path_insert ::
  "ReorderedBuffer \<Rightarrow> u32 \<Rightarrow> u8 list \<Rightarrow> (InsertionResult \<times> ReorderedBuffer) option" where
  "slow_path_insert ro seq data = (
     let end_seq = seq + of_nat (length data) in
     if tail_seq ro > seq \<and> end_seq > tail_seq ro then do {
       begin \<leftarrow> checked_sub (tail_seq ro) seq;
       rest \<leftarrow> slice_range (unat begin) (length data) data;
       fast_path_insert ro rest
     }
     else if end_seq < tail_seq ro then Some (Inserted 0 (ro_available ro), ro)
     else do {
       ro \<leftarrow> add_head_to_seg_list (ro\<lparr>ro_state := ConnectedOutOfOrder\<rparr>);
       out_of_order_insert ro seq data
     })"

definition add_data :: "ReorderedBuffer \<Rightarrow> u32 \<Rightarrow> u8 list \<Rightarrow> (InsertionResult \<times> ReorderedBuffer) option" where
  "add_data ro seq data = (case ro_state ro of
     Connected \<Rightarrow> if seq = tail_seq ro then fast_path_insert ro data else slow_path_insert ro seq data
   | ConnectedOutOfOrder \<Rightarrow> out_of_order_insert ro seq data
   | Closed \<Rightarrow> None)"

definition read_data_common :: "ReorderedBuffer \<Rightarrow> u8 list \<Rightarrow> (nat \<times> u8 list \<times> ReorderedBuffer) option" where
  "read_data_common ro data = do {
     (n, data, rb) \<leftarrow> read_from_head (ro_data ro) data;
     Some (n, data, ro\<lparr>ro_data := rb, head_seq := head_seq ro + of_nat n\<rparr>)
   }"

definition read_data :: "ReorderedBuffer \<Rightarrow> u8 list \<Rightarrow> (nat \<times> u8 list \<times> ReorderedBuffer) option" where
  "read_data ro data = (case ro_state ro of
     Connected \<Rightarrow> read_data_common ro data
   | ConnectedOutOfOrder \<Rightarrow> do {
       let seq = head_seq ro;
       (n, data, ro) \<leftarrow> read_data_common ro data;
       (_, sl) \<leftarrow> consume_head_data (segment_list ro) seq (of_nat n);
       Some (n, data, ro\<lparr>segment_list := sl\<rparr>)
     }
   | Closed \<Rightarrow> Some (0, data, ro))"

definition is_established :: "ReorderedBuffer \<Rightarrow> bool" where
  "is_established ro = (case ro_state ro of Closed \<Rightarrow> False | _ \<Rightarrow> True)"

section \<open>In-order data\<close>

text \<open>
  The invariant of a buffer on the fast path: the ring buffer is well-formed, no segment is recorded,
  and the sequence numbers of head and tail are as far apart as there are bytes in the buffer.
\<close>

definition ro_inv :: "ReorderedBuffer \<Rightarrow> bool" where
  "ro_inv ro \<longleftrightarrow> ro_state ro = Connected \<and> rb_inv (ro_data ro) \<and> sl_wf (segment_list ro) [] \<and>
     tail_seq ro = head_seq ro + ucast (ro_available ro)"

definition ro_contents :: "ReorderedBuffer \<Rightarrow> u8 list" where
  "ro_contents ro = rb_contents (ro_data ro)"

definition ro_room :: "ReorderedBuffer \<Rightarrow> nat" where
  "ro_room ro = rb_room (ro_data ro)"

definition ro_push :: "ReorderedBuffer \<Rightarrow> u8 list \<Rightarrow> (nat \<times> ReorderedBuffer) option" where
  "ro_push ro data = do {
     (r, ro) \<leftarrow> add_data ro (tail_seq ro) data;
     Some (ir_written r, ro)
   }"

definition ro_pull :: "ReorderedBuffer \<Rightarrow> nat \<Rightarrow> (u8 list \<times> ReorderedBuffer) option" where
  "ro_pull ro n = do {
     (m, d, ro) \<leftarrow> read_data ro (replicate n 0);
     Some (take m d, ro)
   }"

lemma ucast_available:
  "rb_inv rb \<Longrightarrow> (ucast (rb_available rb) :: u32) = of_nat (length (rb_contents rb))"
  by simp

lemma fast_path_insert_spec:
  fixes data :: "u8 list"
  assumes "rb_inv (ro_data ro)"
  defines "w \<equiv> min (length data) (ro_room ro)"
  shows "\<exists>ro'. fast_path_insert ro data = Some (insertion_result w (length data) ro', ro') \<and>
    rb_inv (ro_data ro') \<and> ro_contents ro' = ro_contents ro @ take (ro_room ro) data \<and>
    ro_room ro' = ro_room ro - length data \<and> tail_seq ro' = tail_seq ro + of_nat w \<and>
    head_seq ro' = head_seq ro \<and> ro_state ro' = ro_state ro \<and> segment_list ro' = segment_list ro"
proof -
  from write_at_tail_spec [OF assms(1), of data] obtain rb' where
    "write_at_tail (ro_data ro) data = Some (min (length data) (rb_room (ro_data ro)), rb')" "rb_inv rb'"
    "rb_contents rb' = rb_contents (ro_data ro) @ take (rb_room (ro_data ro)) data"
    "rb_room rb' = rb_room (ro_data ro) - length data" by blast
  then show ?thesis by (simp add: fast_path_insert_def Let_def w_def ro_room_def ro_contents_def)
qed

lemma fast_path_keeps_inv:
  fixes data :: "u8 list"
  assumes "ro_inv ro"
  defines "w \<equiv> min (length data) (ro_room ro)"
  shows "\<exists>ro'. fast_path_insert ro data = Some (insertion_result w (length data) ro', ro') \<and>
    ro_inv ro' \<and> ro_contents ro' = ro_contents ro @ take (ro_room ro) data \<and>
    ro_room ro' = ro_room ro - length data \<and> head_seq ro' = head_seq ro"
proof -
  from assms have "rb_inv (ro_data ro)" by (simp add: ro_inv_def)
  from fast_path_insert_spec [OF this, of data] obtain ro' where
    ro': "fast_path_insert ro data = Some (insertion_result w (length data) ro', ro')" "rb_inv (ro_data ro')"
      "ro_contents ro' = ro_contents ro @ take (ro_room ro) data" "ro_room ro' = ro_room ro - length data"
      "tail_seq ro' = tail_seq ro + of_nat w" "head_seq ro' = head_seq ro" "ro_state ro' = ro_state ro"
      "segment_list ro' = segment_list ro" unfolding w_def by blast
  have "tail_seq ro' = head_seq ro' + ucast (ro_available ro')"
    using ro' assms(1) by (simp add: ro_inv_def ro_available_def ucast_available ro_contents_def w_def
        min.commute del: rb_contents_length)
  with ro' assms(1) show ?thesis by (simp add: ro_inv_def)
qed

lemma read_data_spec:
  fixes data :: "u8 list"
  assumes "ro_inv ro"
  defines "n \<equiv> min (length (ro_contents ro)) (length data)"
  shows "\<exists>ro'. read_data ro data = Some (n, take n (ro_contents ro) @ drop n data, ro') \<and> ro_inv ro' \<and>
    ro_contents ro' = drop (length data) (ro_contents ro) \<and> ro_room ro' = ro_room ro + n \<and>
    head_seq ro' = head_seq ro + of_nat n \<and> tail_seq ro' = tail_seq ro"
proof -
  from assms have inv: "rb_inv (ro_data ro)" by (simp add: ro_inv_def)
  from read_from_head_spec [OF inv, of data] obtain rb' where
    rb': "read_from_head (ro_data ro) data = Some (n, take n (ro_contents ro) @ drop n data, rb')" "rb_inv rb'"
      "rb_contents rb' = drop (length data) (ro_contents ro)" "rb_room rb' = ro_room ro + n"
    unfolding n_def ro_contents_def ro_room_def by auto
  have len: "length (ro_contents ro) = n + length (rb_contents rb')"
    using rb'(3) by (simp add: n_def)
  have "tail_seq ro = head_seq ro + of_nat n + ucast (rb_available rb')"
    using assms(1) rb'(2) len inv
    by (simp add: ro_inv_def ro_available_def ucast_available ro_contents_def del: rb_contents_length)
  with rb' assms(1) show ?thesis
    by (simp add: read_data_def read_data_common_def ro_inv_def ro_contents_def ro_room_def ro_available_def)
qed

interpretation roq: bounded_fifo ro_inv ro_contents ro_room ro_push ro_pull
proof
  fix q :: ReorderedBuffer and xs :: "u8 list" and n :: nat
  assume inv: "ro_inv q"
  then have "ro_state q = Connected" by (simp add: ro_inv_def)
  with fast_path_keeps_inv [OF inv, of xs]
  show "\<exists>q'. ro_push q xs = Some (min (length xs) (ro_room q), q') \<and> ro_inv q' \<and>
      ro_contents q' = ro_contents q @ take (ro_room q) xs \<and> ro_room q' = ro_room q - length xs"
    by (auto simp: ro_push_def add_data_def insertion_result_def)
  show "\<exists>q'. ro_pull q n = Some (take n (ro_contents q), q') \<and> ro_inv q' \<and>
      ro_contents q' = drop n (ro_contents q) \<and> ro_room q' = ro_room q + min n (length (ro_contents q))"
    using read_data_spec [OF inv, of "replicate n 0"]
    by (auto simp: ro_pull_def min.commute simp flip: take_take)
qed

section \<open>Creation, first segment and retransmissions\<close>

lemma new_with_segments_spec:
  assumes "0 < unat bytes" and "unat bytes \<le> 2 ^ 63"
  obtains k ro where "k < 64" "unat bytes \<le> 2 ^ k" "\<And>j. unat bytes \<le> 2 ^ j \<Longrightarrow> k \<le> j"
    "new_with_segments bytes n = Some (Inr ro)" "buffer_size ro = 2 ^ k" "ro_state ro = Closed"
    "rb_inv (ro_data ro)" "ro_contents ro = []" "ro_room ro = 2 ^ k - 1" "sl_wf (segment_list ro) []"
proof -
  from round_to_power_of_2_least [OF assms] obtain k where
    k: "k < 64" "round_to_power_of_2 bytes = 2 ^ k" "unat bytes \<le> 2 ^ k" "\<And>j. unat bytes \<le> 2 ^ j \<Longrightarrow> k \<le> j"
    by blast
  have pos: "(2 ^ k :: usize) \<noteq> 0" using k(1) unat_pow2 [of k, where ?'a = 64] by auto
  moreover have "\<exists>j<64. (2 ^ k :: usize) = 2 ^ j" using k(1) by blast
  ultimately obtain rb where rb: "RingBuffer_new (2 ^ k) = Some (Inr rb)"
    by (simp add: RingBuffer_new_spec)
  show thesis
    using RingBuffer_new_inv [OF rb] rb k
    by (intro that [OF k(1,3,4)]) (auto simp: new_with_segments_def Let_def buffer_size_def
        ro_contents_def ro_room_def SegmentList_new_wf unat_pow2)
qed

lemma ro_seq_spec:
  assumes "ro_state ro = Closed" and "rb_inv (ro_data ro)" and "ro_contents ro = []"
    and "sl_wf (segment_list ro) []"
  shows "\<exists>ro'. ro_seq ro seq data =
      Some (insertion_result (min (length data) (ro_room ro)) (length data) ro', ro') \<and> ro_inv ro' \<and>
    ro_contents ro' = take (ro_room ro) data \<and> ro_room ro' = ro_room ro - length data \<and> head_seq ro' = seq"
proof -
  let ?ro = "ro\<lparr>ro_state := Connected, head_seq := seq, tail_seq := seq\<rparr>"
  have "ro_inv ?ro"
    using assms ucast_available [of "ro_data ro"]
    by (simp add: ro_inv_def ro_available_def ro_contents_def del: rb_contents_length)
  from fast_path_keeps_inv [OF this, of data] assms(1,3) show ?thesis
    by (simp add: ro_seq_def ro_contents_def ro_room_def)
qed

lemma add_data_overlap:
  assumes inv: "ro_inv ro" and behind: "unat (tail_seq ro) = unat seq + length old" "old \<noteq> []"
    and nowrap: "unat (tail_seq ro) + length new < 2 ^ 32"
  shows "add_data ro seq (old @ new) =
    (if new = [] then add_data ro seq old else fast_path_insert ro new)"
proof (cases "new = []")
  case False
  have st: "ro_state ro = Connected" using inv by (simp add: ro_inv_def)
  have "seq \<noteq> tail_seq ro" "tail_seq ro > seq" using behind by (auto simp: word_less_nat_alt)
  moreover have "seq + of_nat (length (old @ new)) > tail_seq ro"
    using behind nowrap False by (auto simp: word_less_nat_alt unat_word_ariths unat_of_nat)
  moreover have "checked_sub (tail_seq ro) seq = Some (of_nat (length old))"
  proof -
    have "tail_seq ro - seq = of_nat (length old)"
      using behind nowrap by (intro word_unat_eq_iff [THEN iffD2])
        (simp add: unat_sub word_le_nat_alt unat_of_nat)
    then show ?thesis using \<open>tail_seq ro > seq\<close> by (simp add: checked_sub_def)
  qed
  moreover have "unat (of_nat (length old) :: u32) = length old"
    using behind(1) nowrap by (simp add: unat_of_nat)
  ultimately show ?thesis
    using False st by (simp add: add_data_def slow_path_insert_def slice_range_def Let_def)
qed simp

lemma add_data_duplicate:
  assumes inv: "ro_inv ro" and old: "unat seq + length data < unat (tail_seq ro)"
  shows "add_data ro seq data = Some (Inserted 0 (ro_available ro), ro)"
proof -
  have "unat (tail_seq ro) < 2 ^ 32" using unsigned_less [of "tail_seq ro", where ?'a = nat] by simp
  then have "unat (seq + of_nat (length data)) = unat seq + length data"
    using old by (simp add: unat_word_ariths unat_of_nat)
  then have "seq + of_nat (length data) < tail_seq ro" "seq \<noteq> tail_seq ro"
    using old by (auto simp: word_less_nat_alt)
  then show ?thesis using inv by (auto simp: add_data_def slow_path_insert_def ro_inv_def Let_def)
qed

lemma ro_reset_spec:
  assumes "rb_inv (ro_data ro)" and "sl_wf (segment_list ro) xs"
  shows "\<exists>ro'. ro_reset ro = Some ro' \<and> ro_state ro' = Closed \<and> rb_inv (ro_data ro') \<and>
    ro_contents ro' = [] \<and> sl_wf (segment_list ro') [] \<and> ro_room ro' = unat (rb_mask (ro_data ro))"
  using sl_clear_spec [OF assms(2)] rb_clear_spec [OF assms(1)]
  by (auto simp: ro_reset_def ro_contents_def ro_room_def)

section \<open>Out-of-order data\<close>

lemma unat_of_nat_u32: "n < 2 ^ 32 \<Longrightarrow> unat (of_nat n :: u32) = n"
  by (simp add: unat_of_nat)

lemma unat_of_nat_u16: "n \<le> 65535 \<Longrightarrow> unat (of_nat n :: u16) = n"
  by (simp add: unat_of_nat)

lemma of_nat_u32_less: "m < 2 ^ 32 \<Longrightarrow> n < 2 ^ 32 \<Longrightarrow> (of_nat m :: u32) < of_nat n \<longleftrightarrow> m < n"
  by (simp add: word_less_nat_alt unat_of_nat)

lemma of_nat_u32_le: "m < 2 ^ 32 \<Longrightarrow> n < 2 ^ 32 \<Longrightarrow> (of_nat m :: u32) \<le> of_nat n \<longleftrightarrow> m \<le> n"
  by (simp add: word_le_nat_alt unat_of_nat)

lemma of_nat_u32_eq: "m < 2 ^ 32 \<Longrightarrow> n < 2 ^ 32 \<Longrightarrow> (of_nat m :: u32) = of_nat n \<longleftrightarrow> m = n"
  by (metis unat_of_nat_u32)

lemmas u32_nat = of_nat_u32_less of_nat_u32_le of_nat_u32_eq unat_of_nat_u32 unat_of_nat_u16 ucast_u16_u32

text \<open>
  The ranges of a stream whose in-order part is \<open>[h, h + a)\<close>, that misses \<open>[h + a, h + a + g)\<close> and
  whose early data is \<open>[h + a + g, h + a + g + l)\<close>.
\<close>

lemma range_insert_beyond:
  assumes "0 < a" "0 < g" "h + a + g + l < 2 ^ 32" "a + g + l \<le> 65535"
  shows "range_insert [(of_nat h, of_nat a)] (of_nat (h + a + g)) (of_nat l) =
    Some (of_nat h, of_nat (a + g + l))"
proof -
  let ?u = "of_nat :: nat \<Rightarrow> u32"
  have e: "?u (h + a + g) + ucast (of_nat l :: u16) = ?u (h + a + g + l)"
    "?u h + ucast (of_nat a :: u16) = ?u (h + a)" using assms by (simp_all add: ucast_u16_u32)
  have "max (?u (h + a)) (?u (h + a + g + l)) = ?u (h + a + g + l)"
    using assms by (intro max_absorb2) (simp add: u32_nat del: of_nat_add)
  moreover have "?u (h + a + g + l) - ?u h = ?u (a + g + l)" by simp
  ultimately show ?thesis
    using assms unfolding range_insert.simps Let_def e by (simp add: u32_nat del: of_nat_add)
qed

lemma range_insert_touching:
  assumes "0 < l" "t + g + l < 2 ^ 32" "g + l \<le> 65535"
  shows "range_insert [(of_nat (t + g), of_nat l)] (of_nat t) (of_nat g) = Some (of_nat t, of_nat (g + l))"
proof -
  let ?u = "of_nat :: nat \<Rightarrow> u32"
  have e: "?u t + ucast (of_nat g :: u16) = ?u (t + g)"
    "?u (t + g) + ucast (of_nat l :: u16) = ?u (t + g + l)" "?u t + ?u g = ?u (t + g)"
    using assms by (simp_all add: ucast_u16_u32)
  show ?thesis
    using assms unfolding range_insert.simps merged_len.simps Let_def e
    by (simp add: u32_nat e(3) del: of_nat_add)
qed

lemma range_insert_covered:
  assumes "0 < a" "0 < l" "h + a + g + l < 2 ^ 32" "a + g + l \<le> 65535"
  shows "range_insert [(of_nat h, of_nat (a + g + l))] (of_nat (h + a)) (of_nat g) =
    Some (of_nat h, of_nat (a + g + l))"
proof -
  let ?u = "of_nat :: nat \<Rightarrow> u32"
  have e: "?u (h + a) + ucast (of_nat g :: u16) = ?u (h + a + g)"
    "?u h + ucast (of_nat (a + g + l) :: u16) = ?u (h + a + g + l)"
    using assms by (simp_all add: ucast_u16_u32 del: of_nat_add) simp_all
  have "max (?u (h + a + g + l)) (?u (h + a + g)) = ?u (h + a + g + l)"
    using assms by (intro max_absorb1) (simp add: u32_nat del: of_nat_add)
  moreover have "?u (h + a + g + l) - ?u h = ?u (a + g + l)" by simp
  ultimately show ?thesis
    using assms unfolding range_insert.simps Let_def e by (simp add: u32_nat del: of_nat_add)
qed

lemma add_head_loop_spec:
  assumes "sl_wf sl []" and "a \<le> 65535"
  shows "\<exists>sl' xs. add_head_loop sl a seq = Some sl' \<and> sl_wf sl' xs \<and>
    sl_ranges sl' xs = (if a = 0 then [] else [(seq, of_nat a)])"
proof (cases "a = 0")
  case True
  with assms(1) show ?thesis by (auto intro: exI [of _ "[]"])
next
  case False
  from insert_segment_spec [OF assms(1), of seq "of_nat a" "(seq, of_nat a)"] obtain idx sl' where
    "insert_segment sl seq (of_nat a) = Some (idx, sl')" "sl_wf sl' [idx]" "sl_ranges sl' [idx] = [(seq, of_nat a)]"
    by auto
  moreover from this False assms(2) have "add_head_loop sl a seq = Some sl'"
    by (subst add_head_loop.simps) (simp add: unat_max_u16 min_absorb2 Let_def)
  ultimately show ?thesis using False by auto
qed

text \<open>The single remaining segment is the head of the list and the list can be cleared.\<close>

lemma single_segment:
  assumes "sl_wf sl [idx]"
  shows "is_head sl idx" "get_segment sl idx = Some (sl_at sl idx)" "one_segment sl = Some True"
    "\<exists>sl'. sl_clear sl = Some sl' \<and> sl_wf sl' []"
proof -
  have "sl_nodes sl [idx]" using assms by (simp add: sl_wf_def)
  note v = sl_nodesD(1,2) [OF this, of idx]
  show "is_head sl idx" using assms by (simp add: sl_wf_def is_head_def)
  show "get_segment sl idx = Some (sl_at sl idx)" using v by simp
  show "one_segment sl = Some True" using assms v by (simp add: sl_wf_def one_segment_def)
  show "\<exists>sl'. sl_clear sl = Some sl' \<and> sl_wf sl' []" using sl_clear_spec [OF assms] by blast
qed

text \<open>
  Early data of length \<open>l\<close> that leaves a gap of \<open>g\<close> bytes after the \<open>a\<close> bytes of in-order data, which start
  at \<open>h\<close>.
\<close>

definition early_range :: "nat \<Rightarrow> nat \<Rightarrow> nat \<Rightarrow> nat \<Rightarrow> u32 \<times> u16" where
  "early_range h a g l = (if a = 0 then (of_nat (h + g), of_nat l) else (of_nat h, of_nat (a + g + l)))"

lemma add_data_early:
  assumes inv: "ro_inv ro" and a: "a = length (ro_contents ro)" and h: "h = unat (head_seq ro)"
    and g: "0 < g" and nowrap: "h + a + g + length late < 2 ^ 32" "a + g + length late \<le> 65535"
    and rb1: "write_at_offset_from_tail (ro_data ro) (of_nat g) late = Some (length late, rb1)"
      "rb_available rb1 = rb_available (ro_data ro)"
  shows "\<exists>ro1 idx. add_data ro (tail_seq ro + of_nat g) late = Some (Inserted (length late) (ro_available ro), ro1) \<and>
    ro_data ro1 = rb1 \<and> ro_state ro1 = ConnectedOutOfOrder \<and> head_seq ro1 = head_seq ro \<and>
    tail_seq ro1 = tail_seq ro \<and> sl_wf (segment_list ro1) [idx] \<and>
    sl_ranges (segment_list ro1) [idx] = [early_range h a g (length late)]"
proof -
  let ?l = "length late" and ?u = "of_nat :: nat \<Rightarrow> u32"
  from inv have st: "ro_state ro = Connected" and rbi: "rb_inv (ro_data ro)" and wf: "sl_wf (segment_list ro) []"
    and tl: "tail_seq ro = head_seq ro + ucast (ro_available ro)" by (simp_all add: ro_inv_def)
  have hd: "head_seq ro = ?u h" by (simp add: h)
  have t: "tail_seq ro = ?u (h + a)" using tl ucast_available [OF rbi] hd a
    by (simp add: ro_available_def ro_contents_def del: rb_contents_length)
  have av: "unat (rb_available (ro_data ro)) = a" using rbi by (simp add: a ro_contents_def)
  have seq: "tail_seq ro + of_nat g = ?u (h + a + g)" by (simp add: t)
  have e: "?u (h + a + g) + of_nat ?l = ?u (h + a + g + ?l)" by simp
  obtain sl1 xs where sl1: "add_head_loop (segment_list ro) a (head_seq ro) = Some sl1" "sl_wf sl1 xs"
    "sl_ranges sl1 xs = (if a = 0 then [] else [(?u h, of_nat a)])"
    using add_head_loop_spec [OF wf, of a "head_seq ro"] nowrap(2) hd by auto
  have "range_insert (sl_ranges sl1 xs) (?u (h + a + g)) (of_nat ?l) = Some (early_range h a g ?l)"
    using range_insert_beyond [of a g h ?l] nowrap g by (cases "a = 0") (simp_all add: sl1(3) early_range_def)
  from insert_segment_spec [OF sl1(2) this] obtain idx sl2 where
    sl2: "insert_segment sl1 (?u (h + a + g)) (of_nat ?l) = Some (idx, sl2)" "sl_wf sl2 [idx]"
      "sl_ranges sl2 [idx] = [early_range h a g ?l]" by blast
  define ro0 where "ro0 = ro\<lparr>ro_state := ConnectedOutOfOrder, segment_list := sl1\<rparr>"
  have off: "checked_sub (?u (h + a + g)) (?u (h + a)) = Some (?u g)"
    using nowrap by (simp add: checked_sub_def u32_nat del: of_nat_add) simp
  have ug: "(ucast (?u g) :: usize) = of_nat g" using nowrap by (simp add: unsigned_of_nat take_bit_nat_eq_self)
  have "out_of_order_insert ro0 (?u (h + a + g)) late =
      Some (Inserted ?l (ro_available ro), ro0\<lparr>ro_data := rb1, segment_list := sl2\<rparr>)"
    using nowrap g off rb1 sl2(1)
    by (subst out_of_order_insert.simps)
      (simp add: ro0_def t u32_nat ug insertion_result_def ro_available_def Let_def del: of_nat_add)
  moreover have "add_head_to_seg_list (ro\<lparr>ro_state := ConnectedOutOfOrder\<rparr>) = Some ro0"
    using sl1(1) by (simp add: add_head_to_seg_list_def av ro0_def)
  moreover have "\<not> ?u (h + a) > ?u (h + a + g)" "\<not> ?u (h + a + g + ?l) < ?u (h + a)" "?u (h + a + g) \<noteq> ?u (h + a)"
    using nowrap g by (simp_all add: u32_nat del: of_nat_add)
  ultimately have "add_data ro (tail_seq ro + of_nat g) late =
      Some (Inserted ?l (ro_available ro), ro0\<lparr>ro_data := rb1, segment_list := sl2\<rparr>)"
    unfolding seq add_data_def slow_path_insert_def e Let_def t st by simp
  then show ?thesis using sl2(2,3) by (auto simp: ro0_def)
qed

lemma add_data_fill:
  assumes st: "ro_state ro = ConnectedOutOfOrder" and t: "tail_seq ro = of_nat (h + a)"
    and wf: "sl_wf (segment_list ro) [idx]" "sl_ranges (segment_list ro) [idx] = [early_range h a (length gap) l]"
    and l: "0 < l" and gap: "gap \<noteq> []"
    and nowrap: "h + a + length gap + l < 2 ^ 32" "a + length gap + l \<le> 65535"
    and rb2: "write_at_tail (ro_data ro) gap = Some (length gap, rb2)"
  shows "\<exists>ro2. add_data ro (tail_seq ro) gap =
      Some (Inserted (max (length gap) l) (rb_available (seek_tail rb2 (of_nat l))), ro2) \<and>
    ro_data ro2 = seek_tail rb2 (of_nat l) \<and> ro_state ro2 = Connected \<and> head_seq ro2 = head_seq ro \<and>
    tail_seq ro2 = of_nat (h + a + length gap + l) \<and> sl_wf (segment_list ro2) []"
proof -
  let ?g = "length gap" and ?u = "of_nat :: nat \<Rightarrow> u32"
  define r where "r = (if a = 0 then (?u h, of_nat (?g + l) :: u16) else early_range h a ?g l)"
  have "range_insert [early_range h a ?g l] (?u (h + a)) (of_nat ?g) = Some r"
    using range_insert_touching [of l h ?g] range_insert_covered [of a l h ?g] nowrap l
    by (cases "a = 0") (simp_all add: r_def early_range_def)
  from insert_segment_spec [OF wf(1), unfolded wf(2), OF this] obtain idx2 sl2 where
    sl2: "insert_segment (segment_list ro) (?u (h + a)) (of_nat ?g) = Some (idx2, sl2)" "sl_wf sl2 [idx2]"
      "sl_ranges sl2 [idx2] = [r]" by blast
  note single = single_segment [OF sl2(2)]
  have ends: "seg_seq (sl_at sl2 idx2) + ucast (seg_length (sl_at sl2 idx2)) = ?u (h + a + ?g + l)"
    using sl2(3) nowrap by (cases "a = 0") (auto simp: r_def early_range_def ucast_u16_u32 add.assoc simp flip: of_nat_add)
  obtain sl3 where sl3: "sl_clear sl2 = Some sl3" "sl_wf sl3 []" using single(4) by blast
  have incr: "?u (h + a + ?g + l) - (?u (h + a) + ?u ?g) = ?u l" by simp
  have ul: "unat (?u l) = l" "(ucast (?u l) :: usize) = of_nat l" "?u ?g < ?u l \<longleftrightarrow> ?g < l"
    using nowrap by (simp_all add: u32_nat unsigned_of_nat take_bit_nat_eq_self)
  let ?ro2 = "ro\<lparr>ro_data := seek_tail rb2 (of_nat l), tail_seq := ?u (h + a + ?g + l),
    segment_list := sl3, ro_state := Connected\<rparr>"
  have mx: "(if ?g < l then l else ?g) = max ?g l" by simp
  have "out_of_order_insert ro (?u (h + a)) gap =
      Some (Inserted (max ?g l) (rb_available (seek_tail rb2 (of_nat l))), ?ro2)"
    by (subst out_of_order_insert.simps)
      (simp add: t rb2 sl2(1) single(1-3) ends incr ul sl3 mx ro_available_def Let_def del: of_nat_add)
  then show ?thesis using st sl3 by (simp add: add_data_def t)
qed

section \<open>Properties\<close>

text \<open>
  C3: The buffer turns a stream that arrives in order into a FIFO byte queue: after \<open>new\<close> and \<open>seq\<close>,
  every sequence of \<open>add_data\<close> at the expected sequence number and \<open>read_data\<close> runs without a panic,
  the bytes read followed by the bytes still buffered are exactly the accepted bytes in order, and
  the sequence numbers stay in step with the buffered bytes.
\<close>
theorem in_order_stream:
  assumes "0 < unat bytes" and "unat bytes \<le> 2 ^ 63"
  shows "\<exists>ro r ro1 outs ins ro2. new_with_segments bytes n = Some (Inr ro) \<and>
    ro_seq ro seq first = Some (r, ro1) \<and> head_seq ro1 = seq \<and>
    fifo_run ro_push ro_pull ops ro1 = Some (outs, ins, ro2) \<and>
    outs @ ro_contents ro2 = take (ir_written r) first @ ins \<and>
    tail_seq ro2 = head_seq ro2 + of_nat (length (ro_contents ro2)) \<and>
    length (ro_contents ro2) + ro_room ro2 + 1 = unat (buffer_size ro)"
proof -
  obtain k ro where ro: "k < 64" "new_with_segments bytes n = Some (Inr ro)" "buffer_size ro = 2 ^ k"
    "ro_state ro = Closed" "rb_inv (ro_data ro)" "ro_contents ro = []" "ro_room ro = 2 ^ k - 1"
    "sl_wf (segment_list ro) []" using new_with_segments_spec [OF assms, of n] by metis
  from ro_seq_spec [OF ro(4,5,6,8), of seq first] obtain ro1 where
    ro1: "ro_seq ro seq first = Some (insertion_result (min (length first) (ro_room ro)) (length first) ro1, ro1)"
      "ro_inv ro1" "ro_contents ro1 = take (ro_room ro) first" "ro_room ro1 = ro_room ro - length first"
      "head_seq ro1 = seq" by blast
  from roq.run_fifo [OF ro1(2), of ops] obtain outs ins ro2 where
    run: "fifo_run ro_push ro_pull ops ro1 = Some (outs, ins, ro2)" "ro_inv ro2"
      "outs @ ro_contents ro2 = ro_contents ro1 @ ins"
      "length (ro_contents ro2) + ro_room ro2 = length (ro_contents ro1) + ro_room ro1" by blast
  have w: "take (ir_written (insertion_result (min (length first) (ro_room ro)) (length first) ro1)) first =
      ro_contents ro1" using ro1(3) by (simp add: insertion_result_def min_def)
  have "tail_seq ro2 = head_seq ro2 + of_nat (length (ro_contents ro2))"
    using run(2) ucast_available [of "ro_data ro2"]
    by (simp add: ro_inv_def ro_available_def ro_contents_def del: rb_contents_length)
  moreover have "length (ro_contents ro2) + ro_room ro2 + 1 = unat (buffer_size ro)"
  proof -
    have "length (ro_contents ro1) + ro_room ro1 = ro_room ro" using ro1(3,4) by simp
    moreover have "ro_room ro + 1 = unat (buffer_size ro)" using ro(1,3,7) by (simp add: unat_pow2)
    ultimately show ?thesis using run(4) by simp
  qed
  ultimately show ?thesis using ro(2) ro1(1,5) run(1,3) w by metis
qed

theorem in_order_stream_witness:
  "\<exists>ro r ro1 outs ins ro2. new_with_segments 5 4 = Some (Inr ro) \<and>
    ro_seq ro (- 1) [1, 2] = Some (r, ro1) \<and> head_seq ro1 = - 1 \<and>
    fifo_run ro_push ro_pull [Push [3], Pull 2, Push [4, 5]] ro1 = Some (outs, ins, ro2) \<and>
    outs @ ro_contents ro2 = take (ir_written r) [1, 2] @ ins \<and>
    tail_seq ro2 = head_seq ro2 + of_nat (length (ro_contents ro2)) \<and>
    length (ro_contents ro2) + ro_room ro2 + 1 = unat (buffer_size ro)"
  by (rule in_order_stream) simp_all

text \<open>
  C8: One block of data that arrives ahead of a gap is held back, and the arrival of one block with exactly the missing bytes
  releases both: the buffer then delivers the old bytes, the missing bytes and the early bytes in order and is
  back on the fast path.  This is for a buffer on the fast path, with room for both blocks, at most 65535 bytes held or arriving,
  and sequence numbers that do not wrap around.  It does not extend to a gap that is filled in pieces, where the buffer
  releases the early block with the first piece (\<open>partial_fill_delivers_hole\<close> below).
\<close>
theorem out_of_order_gap_filled:
  assumes inv: "ro_inv ro" and gap: "gap \<noteq> []" and late: "late \<noteq> []"
    and room: "length gap + length late \<le> ro_room ro"
    and nowrap: "unat (head_seq ro) + length (ro_contents ro) + length gap + length late < 2 ^ 32"
    and small: "length (ro_contents ro) + length gap + length late \<le> 65535"
  shows "\<exists>ro1 r ro2.
    add_data ro (tail_seq ro + of_nat (length gap)) late = Some (Inserted (length late) (ro_available ro), ro1) \<and>
    ro_contents ro1 = ro_contents ro \<and> add_data ro1 (tail_seq ro) gap = Some (r, ro2) \<and>
    ro_inv ro2 \<and> ro_contents ro2 = ro_contents ro @ gap @ late"
proof -
  let ?h = "unat (head_seq ro)" and ?a = "length (ro_contents ro)"
  have rbi: "rb_inv (ro_data ro)" using inv by (simp add: ro_inv_def)
  from fill_gap [OF rbi, of gap late] room obtain rb1 rb2 where
    rb1: "write_at_offset_from_tail (ro_data ro) (of_nat (length gap)) late = Some (length late, rb1)"
      "rb_available rb1 = rb_available (ro_data ro)" "rb_contents rb1 = rb_contents (ro_data ro)"
    and rb2: "write_at_tail rb1 gap = Some (length gap, rb2)" "rb_inv (seek_tail rb2 (of_nat (length late)))"
      "rb_contents (seek_tail rb2 (of_nat (length late))) = rb_contents (ro_data ro) @ gap @ late"
    by (auto simp: ro_room_def)
  from add_data_early [OF inv refl refl _ nowrap small rb1(1,2)] gap obtain ro1 idx where
    ro1: "add_data ro (tail_seq ro + of_nat (length gap)) late = Some (Inserted (length late) (ro_available ro), ro1)"
      "ro_data ro1 = rb1" "ro_state ro1 = ConnectedOutOfOrder" "head_seq ro1 = head_seq ro"
      "tail_seq ro1 = tail_seq ro" "sl_wf (segment_list ro1) [idx]"
      "sl_ranges (segment_list ro1) [idx] = [early_range ?h ?a (length gap) (length late)]" by auto
  have t: "tail_seq ro1 = of_nat (?h + ?a)"
    using inv ro1(5) ucast_available [OF rbi]
    by (simp add: ro_inv_def ro_available_def ro_contents_def del: rb_contents_length)
  from add_data_fill [OF ro1(3) t ro1(6,7) _ gap nowrap small] late rb2(1) ro1(2,4,5) obtain r ro2 where
    ro2: "add_data ro1 (tail_seq ro) gap = Some (r, ro2)" "ro_data ro2 = seek_tail rb2 (of_nat (length late))"
      "ro_state ro2 = Connected" "head_seq ro2 = head_seq ro"
      "tail_seq ro2 = of_nat (?h + ?a + length gap + length late)" "sl_wf (segment_list ro2) []" by auto
  have "ro_inv ro2"
    using ro2 rb2(2,3) ucast_available [OF rb2(2)]
    by (simp add: ro_inv_def ro_available_def ro_contents_def del: rb_contents_length)
  then show ?thesis using ro1 rb1(3) ro2 rb2(3) by (auto simp: ro_contents_def)
qed

theorem out_of_order_gap_filled_witness:
  "\<exists>ro ro1 r ro2. ro_contents ro = [1, 2] \<and> ro_state ro = Connected \<and>
    add_data ro 13 [4, 5] = Some (Inserted 2 2, ro1) \<and> ro_contents ro1 = [1, 2] \<and>
    add_data ro1 12 [3] = Some (r, ro2) \<and> ro_inv ro2 \<and> ro_contents ro2 = [1, 2, 3, 4, 5]"
proof -
  define ro where "ro = \<lparr>ro_data = \<lparr>rb_head = 0, rb_tail = 2, rb_size = 8, rb_mask = 7, rb_vec = [1, 2, 0, 0, 0, 0, 0, 0]\<rparr>,
     segment_list = SegmentList_new 2, ro_buffer_size = 8, ro_state = Connected, head_seq = 10, tail_seq = 12\<rparr>"
  have inv: "ro_inv ro" unfolding ro_def by code_simp
  have c: "ro_contents ro = [1, 2]" "ro_room ro = 5" "ro_available ro = 2" unfolding ro_def by code_simp+
  have q: "tail_seq ro = 12" "unat (head_seq ro) = 10" "ro_state ro = Connected" by (simp_all add: ro_def)
  have "\<exists>ro1 r ro2. add_data ro 13 [4, 5] = Some (Inserted 2 2, ro1) \<and> ro_contents ro1 = [1, 2] \<and>
    add_data ro1 12 [3] = Some (r, ro2) \<and> ro_inv ro2 \<and> ro_contents ro2 = [1, 2, 3, 4, 5]"
    using out_of_order_gap_filled [OF inv, of "[3]" "[4, 5]"] by (simp add: c q flip: numeral_2_eq_2)
  with c(1) q(3) show ?thesis by blast
qed

text \<open>
  A retransmission that reaches beyond the data already received contributes exactly its new
  bytes, and one that lies entirely inside it changes nothing.
\<close>
theorem retransmission_ignored:
  assumes "ro_inv ro"
  shows "(unat (tail_seq ro) = unat seq + length old \<and> old \<noteq> [] \<and> new \<noteq> [] \<and>
      unat (tail_seq ro) + length new < 2 ^ 32 \<longrightarrow>
      (\<exists>r ro'. add_data ro seq (old @ new) = Some (r, ro') \<and> ro_inv ro' \<and>
         ir_written r = min (length new) (ro_room ro) \<and>
         ro_contents ro' = ro_contents ro @ take (ro_room ro) new)) \<and>
    (unat seq + length data < unat (tail_seq ro) \<longrightarrow>
      add_data ro seq data = Some (Inserted 0 (ro_available ro), ro))"
  using add_data_overlap [OF assms, of seq old new] fast_path_keeps_inv [OF assms, of new]
    add_data_duplicate [OF assms, of seq data]
  by (auto simp: insertion_result_def)

theorem retransmission_ignored_witness:
  "\<exists>ro r ro'. ro_contents ro = [1, 2] \<and> add_data ro 11 ([2] @ [3]) = Some (r, ro') \<and> ir_written r = 1 \<and>
    ro_contents ro' = [1, 2, 3] \<and> add_data ro 10 [1] = Some (Inserted 0 2, ro)"
proof -
  define ro where "ro = \<lparr>ro_data = \<lparr>rb_head = 0, rb_tail = 2, rb_size = 8, rb_mask = 7, rb_vec = [1, 2, 0, 0, 0, 0, 0, 0]\<rparr>,
     segment_list = SegmentList_new 2, ro_buffer_size = 8, ro_state = Connected, head_seq = 10, tail_seq = 12\<rparr>"
  have inv: "ro_inv ro" unfolding ro_def by code_simp
  have c: "ro_contents ro = [1, 2]" "ro_room ro = 5" "ro_available ro = 2" unfolding ro_def by code_simp+
  have q: "unat (tail_seq ro) = 12" by (simp add: ro_def)
  show ?thesis
    using retransmission_ignored [OF inv, of 11 "[2]" "[3]" "[]"]
      retransmission_ignored [OF inv, of 10 "[]" "[]" "[1]"]
    by - (rule exI [of _ ro], auto simp: c q)
qed

text \<open>
  \<open>reset\<close> terminates and makes the buffer ready for a new connection: closed, empty and with an
  empty segment list, whatever segments were recorded.
\<close>
theorem reset_ready:
  assumes "rb_inv (ro_data ro)" and "sl_wf (segment_list ro) xs"
  shows "\<exists>ro'. ro_reset ro = Some ro' \<and> ro_state ro' = Closed \<and> rb_inv (ro_data ro') \<and>
    ro_contents ro' = [] \<and> sl_wf (segment_list ro') [] \<and> ro_room ro' = unat (rb_mask (ro_data ro))"
  using assms by (rule ro_reset_spec)

theorem reset_ready_witness:
  "\<exists>ro ro'. ro_contents ro = [1, 2] \<and> ro_reset ro = Some ro' \<and> ro_state ro' = Closed \<and> ro_contents ro' = [] \<and>
    ro_room ro' = 7"
proof -
  define ro where "ro = \<lparr>ro_data = \<lparr>rb_head = 0, rb_tail = 2, rb_size = 8, rb_mask = 7, rb_vec = [1, 2, 0, 0, 0, 0, 0, 0]\<rparr>,
     segment_list = SegmentList_new 2, ro_buffer_size = 8, ro_state = Connected, head_seq = 10, tail_seq = 12\<rparr>"
  have h: "rb_inv (ro_data ro)" "sl_wf (segment_list ro) []" and c: "ro_contents ro = [1, 2]"
    unfolding ro_def by code_simp+
  have "unat (rb_mask (ro_data ro)) = 7" by (simp add: ro_def)
  with reset_ready [OF h] c show ?thesis by - (rule exI [of _ ro], auto)
qed

text \<open>
  When only the first of two missing bytes arrives, the buffer makes the data behind the gap
  readable although the byte with sequence number 13 was never received: in its place the reader gets
  whatever the ring buffer held (0 here).  The segment list recorded the early range as a
  continuation of the head segment.
\<close>
theorem partial_fill_delivers_hole:
  "(do {
      r \<leftarrow> ReorderedBuffer_new 64;
      case r of Inl e \<Rightarrow> None | Inr ro \<Rightarrow> do {
        (_, ro) \<leftarrow> ro_seq ro 10 [1, 2];
        (_, ro) \<leftarrow> add_data ro 14 [4, 5];
        (_, ro) \<leftarrow> add_data ro 12 [3];
        (n, data, ro) \<leftarrow> read_data ro (replicate 8 255);
        Some (n, data, head_seq ro, tail_seq ro, ro_state ro)
      }
    }) = Some (6, [1, 2, 3, 0, 4, 5, 255, 255], 16, 16, Connected)"
  by code_simp

end
