(* ===== verification/NB_Headers.thy ===== *)
theory NB_Headers
  imports NB_Prelude
begin

text \<open>
  The protocol headers of \<open>framework/src/headers\<close>: \<open>NullHeader\<close>, \<open>MacHeader\<close>, \<open>IpHeader\<close>, \<open>TcpHeader\<close> and
  \<open>UdpHeader\<close> with all their accessors, and the trait \<open>EndOffset\<close> as a locale that each of them
  interprets.  The structs are packed and are laid over the bytes of a frame, so each record comes with
  its memory image (\<open>..._to_bytes\<close>, \<open>..._of_bytes\<close>); the accessors are related to the fields a protocol
  standard defines on these bytes (\<open>..._view\<close>).  The build is the default one, without the
  \<open>performance\<close> feature.
\<close>

section \<open>Memory images of machine words\<close>

definition le16_bytes :: "u16 \<Rightarrow> u8 list" where
  "le16_bytes w = [ucast w, ucast (drop_bit 8 w)]"

definition le32_bytes :: "u32 \<Rightarrow> u8 list" where
  "le32_bytes w = [ucast w, ucast (drop_bit 8 w), ucast (drop_bit 16 w), ucast (drop_bit 24 w)]"

definition le16 :: "u8 \<Rightarrow> u8 \<Rightarrow> u16" where
  "le16 a b = ucast a OR push_bit 8 (ucast b)"

definition le32 :: "u8 \<Rightarrow> u8 \<Rightarrow> u8 \<Rightarrow> u8 \<Rightarrow> u32" where
  "le32 a b c d = ucast a OR push_bit 8 (ucast b) OR push_bit 16 (ucast c) OR push_bit 24 (ucast d)"

definition le64_bytes :: "u64 \<Rightarrow> u8 list" where
  "le64_bytes w = map (\<lambda>i. ucast (drop_bit (8 * i) w)) [0..<8]"

definition le64 :: "u8 list \<Rightarrow> u64" where
  "le64 bs = foldr (\<lambda>b w. ucast b OR push_bit 8 w) bs 0"

text \<open>Network order: the most significant byte comes first.\<close>

abbreviation be16 :: "u8 \<Rightarrow> u8 \<Rightarrow> u16" where "be16 a b \<equiv> le16 b a"
abbreviation be32 :: "u8 \<Rightarrow> u8 \<Rightarrow> u8 \<Rightarrow> u8 \<Rightarrow> u32" where "be32 a b c d \<equiv> le32 d c b a"

lemma le16_bytes_le16 [simp]: "le16_bytes (le16 a b) = [a, b]"
  by (simp add: le16_bytes_def le16_def word_blast bit_simps)

lemma le32_bytes_le32 [simp]: "le32_bytes (le32 a b c d) = [a, b, c, d]"
  by (simp add: le32_bytes_def le32_def word_blast bit_simps)

lemma le16_le16_bytes [simp]: "le16 (ucast w) (ucast (drop_bit 8 w)) = w"
  by (simp add: le16_def word_blast bit_simps)

lemma le32_le32_bytes [simp]:
  "le32 (ucast w) (ucast (drop_bit 8 w)) (ucast (drop_bit 16 w)) (ucast (drop_bit 24 w)) = w"
  by (simp add: le32_def word_blast bit_simps)

text \<open>Code equations over the integers, so that concrete headers evaluate quickly.\<close>

lemma le16_code [code]: "le16 a b = word_of_int (uint a + 256 * uint b)"
proof -
  have "ucast a OR push_bit 8 (ucast b) = ucast a + push_bit 8 (ucast b :: u16)"
    by (intro disjunctive_add_eq_or [symmetric]) (simp add: word_blast bit_simps)
  then show ?thesis by (simp add: le16_def push_bit_eq_mult mult.commute)
qed

lemma le32_code [code]: "le32 a b c d = word_of_int (uint a + 256 * uint b + 65536 * uint c + 16777216 * uint d)"
proof -
  have "le32 a b c d = ucast a + push_bit 8 (ucast b) + push_bit 16 (ucast c) + push_bit 24 (ucast d)"
    unfolding le32_def
    by (subst disjunctive_add_eq_or, simp add: word_blast bit_simps)+ (simp add: or.assoc)
  then show ?thesis by (simp add: push_bit_eq_mult mult.commute)
qed

lemma byte_of_word:
  fixes x :: "'a::len word"
  shows "uint (ucast (drop_bit n x) :: u8) = uint x div 2 ^ n mod 256"
proof -
  have "uint x mod 2 ^ LENGTH('a) = uint x"
    by (rule mod_pos_pos_trivial) (simp, rule order_less_le_trans [OF unsigned_less], simp)
  then show ?thesis unfolding unsigned_ucast_eq unsigned_drop_bit_eq by (simp add: take_bit_eq_mod drop_bit_eq_div)
qed

lemma u16_swap_code [code]: "u16_swap x = (let n = uint x in word_of_int (n div 256 mod 256 + 256 * (n mod 256)))"
proof -
  have "u16_swap x = le16 (ucast (drop_bit 8 x)) (ucast (drop_bit 0 x))"
    by (simp add: word_blast bit_simps u16_swap_def le16_def)
  then show ?thesis by (simp only: le16_code byte_of_word Let_def) simp
qed

lemma u32_swap_code [code]:
  "u32_swap x = (let n = uint x in word_of_int (n div 16777216 mod 256 + 256 * (n div 65536 mod 256) +
    65536 * (n div 256 mod 256) + 16777216 * (n mod 256)))"
proof -
  have "u32_swap x = le32 (ucast (drop_bit 24 x)) (ucast (drop_bit 16 x)) (ucast (drop_bit 8 x)) (ucast (drop_bit 0 x))"
    by (simp add: word_blast bit_simps u32_swap_def le32_def)
  then show ?thesis by (simp only: le32_code byte_of_word Let_def) simp
qed

lemma length_le64_bytes [simp]: "length (le64_bytes w) = 8"
  by (simp add: le64_bytes_def)

lemma bit_le64:
  "bit (le64 bs) n \<longleftrightarrow> n < 64 \<and> n div 8 < length bs \<and> bit (bs ! (n div 8)) (n mod 8)"
proof (induction bs arbitrary: n)
  case (Cons b bs)
  show ?case
  proof (cases "n < 8")
    case True
    then show ?thesis by (auto simp: le64_def bit_simps)
  next
    case False
    then have "n div 8 = Suc ((n - 8) div 8)" "n mod 8 = (n - 8) mod 8"
      by (simp_all add: le_div_geq le_mod_geq)
    with False Cons.IH [of "n - 8"] show ?thesis
      using no_bit8 [of n b] by (auto simp: le64_def bit_simps)
  qed
qed (simp add: le64_def)

lemma le64_le64_bytes [simp]: "le64 (le64_bytes w) = w"
proof (rule bit_word_eqI)
  fix n assume "n < LENGTH(64)"
  then have "n div 8 < 8" by simp
  then show "bit (le64 (le64_bytes w)) n = bit w n"
    using \<open>n < LENGTH(64)\<close> by (simp add: bit_le64 le64_bytes_def bit_simps)
qed

section \<open>The trait EndOffset\<close>

text \<open>
  What a header promises to the packet code: the header of \<open>offset h\<close> bytes and its payload together
  fill the frame (or the length the header itself announces), and a frame that is too short makes
  \<open>payload_size\<close> underflow.
\<close>

locale end_offset =
  fixes offset :: "'h \<Rightarrow> nat"
    and payload_size :: "'h \<Rightarrow> nat \<Rightarrow> nat option"
    and total :: "'h \<Rightarrow> nat \<Rightarrow> nat"
  assumes payload_size: "payload_size h hint = len_sub (total h hint) (offset h)"
begin

lemma payload_fills_frame: "payload_size h hint = Some p \<longleftrightarrow> offset h + p = total h hint"
  by (auto simp: payload_size len_sub_def)

lemma payload_size_panics: "payload_size h hint = None \<longleftrightarrow> total h hint < offset h"
  by (auto simp: payload_size len_sub_def)

end

section \<open>NullHeader\<close>

datatype NullHeader = NullHeader

definition null_offset :: "NullHeader \<Rightarrow> nat" where
  "null_offset h = 0"

definition null_size :: nat where
  "null_size = 0"

definition null_payload_size :: "NullHeader \<Rightarrow> nat \<Rightarrow> nat option" where
  "null_payload_size h hint = Some hint"

definition null_check_correct :: "NullHeader \<Rightarrow> NullHeader \<Rightarrow> bool" where
  "null_check_correct h prev = True"

interpretation null_end: end_offset null_offset null_payload_size "\<lambda>h hint. hint"
  by unfold_locales (simp add: null_payload_size_def null_offset_def len_sub_def)

section \<open>MacHeader\<close>

record MacAddress =
  addr :: "u8 list"

definition MacAddress_new :: "u8 \<Rightarrow> u8 \<Rightarrow> u8 \<Rightarrow> u8 \<Rightarrow> u8 \<Rightarrow> u8 \<Rightarrow> MacAddress" where
  "MacAddress_new a b c d e f = \<lparr>addr = [a, b, c, d, e, f]\<rparr>"

definition MacAddress_new_from_slice :: "u8 list \<Rightarrow> MacAddress option" where
  "MacAddress_new_from_slice bs = do {
     a \<leftarrow> vec_get bs 0; b \<leftarrow> vec_get bs 1; c \<leftarrow> vec_get bs 2;
     d \<leftarrow> vec_get bs 3; e \<leftarrow> vec_get bs 4; f \<leftarrow> vec_get bs 5;
     Some \<lparr>addr = [a, b, c, d, e, f]\<rparr>
   }"

definition copy_address :: "MacAddress \<Rightarrow> MacAddress \<Rightarrow> MacAddress" where
  "copy_address self other = self\<lparr>addr := addr other\<rparr>"

definition MacAddress_default :: MacAddress where
  "MacAddress_default = \<lparr>addr = [0, 0, 0, 0, 0, 0]\<rparr>"

definition MacAddress_clone :: "MacAddress \<Rightarrow> MacAddress" where
  "MacAddress_clone self = copy_address MacAddress_default self"

definition MacAddress_eq :: "MacAddress \<Rightarrow> MacAddress \<Rightarrow> bool" where
  "MacAddress_eq self other \<longleftrightarrow> addr self = addr other"

text \<open>\<open>{:02x}\<close> and \<open>Display for MacAddress\<close>.\<close>

definition hex_digit :: "nat \<Rightarrow> char" where
  "hex_digit n = ''0123456789abcdef'' ! n"

definition hex2 :: "u8 \<Rightarrow> string" where
  "hex2 b = [hex_digit (unat b div 16), hex_digit (unat b mod 16)]"

definition MacAddress_fmt :: "MacAddress \<Rightarrow> string option" where
  "MacAddress_fmt self = do {
     a \<leftarrow> vec_get (addr self) 0; b \<leftarrow> vec_get (addr self) 1; c \<leftarrow> vec_get (addr self) 2;
     d \<leftarrow> vec_get (addr self) 3; e \<leftarrow> vec_get (addr self) 4; f \<leftarrow> vec_get (addr self) 5;
     Some (hex2 a @ '':'' @ hex2 b @ '':'' @ hex2 c @ '':'' @ hex2 d @ '':'' @ hex2 e @ '':'' @ hex2 f)
   }"

record MacHeader =
  mac_dst :: MacAddress
  mac_src :: MacAddress
  mac_etype_raw :: u16

definition MacHeader_new :: MacHeader where
  "MacHeader_new = \<lparr>mac_dst = MacAddress_default, mac_src = MacAddress_default, mac_etype_raw = 0\<rparr>"

definition HDR_SIZE :: nat where "HDR_SIZE = 14"
definition HDR_SIZE_802_1Q :: nat where "HDR_SIZE_802_1Q = HDR_SIZE + 4"
definition HDR_SIZE_802_1AD :: nat where "HDR_SIZE_802_1AD = HDR_SIZE_802_1Q + 4"

definition mac_offset :: "MacHeader \<Rightarrow> nat" where
  "mac_offset h =
     (if mac_etype_raw h = 0x8100 then HDR_SIZE_802_1Q
      else if mac_etype_raw h = 0x9100 then HDR_SIZE_802_1AD
      else HDR_SIZE)"

definition mac_size :: nat where
  "mac_size = HDR_SIZE"

definition mac_payload_size :: "MacHeader \<Rightarrow> nat \<Rightarrow> nat option" where
  "mac_payload_size h hint = len_sub hint (mac_offset h)"

definition mac_check_correct :: "MacHeader \<Rightarrow> NullHeader \<Rightarrow> bool" where
  "mac_check_correct h prev = True"

definition mac_etype :: "MacHeader \<Rightarrow> u16" where
  "mac_etype h = u16_from_be (mac_etype_raw h)"

definition mac_set_etype :: "MacHeader \<Rightarrow> u16 \<Rightarrow> MacHeader" where
  "mac_set_etype h etype = h\<lparr>mac_etype_raw := u16_to_be etype\<rparr>"

definition swap_addresses :: "MacHeader \<Rightarrow> MacHeader" where
  "swap_addresses h =
     (let src = copy_address MacAddress_default (mac_src h);
          h = h\<lparr>mac_src := copy_address (mac_src h) (mac_dst h)\<rparr>
      in h\<lparr>mac_dst := copy_address (mac_dst h) src\<rparr>)"

text \<open>The struct over the first 14 bytes of a frame.\<close>

definition MacHeader_of_bytes :: "u8 list \<Rightarrow> MacHeader" where
  "MacHeader_of_bytes bs = \<lparr>mac_dst = \<lparr>addr = take 6 bs\<rparr>, mac_src = \<lparr>addr = take 6 (drop 6 bs)\<rparr>,
     mac_etype_raw = le16 (bs ! 12) (bs ! 13)\<rparr>"

definition MacHeader_to_bytes :: "MacHeader \<Rightarrow> u8 list" where
  "MacHeader_to_bytes h = addr (mac_dst h) @ addr (mac_src h) @ le16_bytes (mac_etype_raw h)"

interpretation mac_end: end_offset mac_offset mac_payload_size "\<lambda>h hint. hint"
  by unfold_locales (simp add: mac_payload_size_def)

section \<open>IpHeader\<close>

record IpHeader =
  version_to_len :: u32
  id_to_foffset :: u32
  ttl_to_csum :: u32
  ip_src_raw :: u32
  ip_dst_raw :: u32

definition IpHeader_new :: IpHeader where
  "IpHeader_new = \<lparr>version_to_len = 0, id_to_foffset = 0, ttl_to_csum = 0, ip_src_raw = 0, ip_dst_raw = 0\<rparr>"

definition ip_src :: "IpHeader \<Rightarrow> u32" where
  "ip_src h = u32_from_be (ip_src_raw h)"

definition ip_set_src :: "IpHeader \<Rightarrow> u32 \<Rightarrow> IpHeader" where
  "ip_set_src h src = h\<lparr>ip_src_raw := u32_to_be src\<rparr>"

definition ip_dst :: "IpHeader \<Rightarrow> u32" where
  "ip_dst h = u32_from_be (ip_dst_raw h)"

definition ip_set_dst :: "IpHeader \<Rightarrow> u32 \<Rightarrow> IpHeader" where
  "ip_set_dst h dst = h\<lparr>ip_dst_raw := u32_to_be dst\<rparr>"

definition ip_ttl :: "IpHeader \<Rightarrow> u8" where
  "ip_ttl h = ucast (ttl_to_csum h AND 0x000000ff)"

definition ip_set_ttl :: "IpHeader \<Rightarrow> u8 \<Rightarrow> IpHeader" where
  "ip_set_ttl h ttl =
     (let blanked = ttl_to_csum h AND NOT 0x000000ff in h\<lparr>ttl_to_csum := blanked OR ucast ttl\<rparr>)"

definition ip_protocol :: "IpHeader \<Rightarrow> u8" where
  "ip_protocol h = ucast (drop_bit 8 (ttl_to_csum h AND 0xff00))"

definition ip_set_protocol :: "IpHeader \<Rightarrow> u8 \<Rightarrow> IpHeader" where
  "ip_set_protocol h protocol =
     (let blanked = ttl_to_csum h AND NOT 0xff00
      in h\<lparr>ttl_to_csum := blanked OR push_bit 8 (ucast protocol)\<rparr>)"

definition ip_csum :: "IpHeader \<Rightarrow> u16" where
  "ip_csum h = ucast (drop_bit 16 (ttl_to_csum h AND 0xffff0000))"

definition ip_set_csum :: "IpHeader \<Rightarrow> u16 \<Rightarrow> IpHeader" where
  "ip_set_csum h csum =
     (let blanked = ttl_to_csum h AND NOT 0xffff0000
      in h\<lparr>ttl_to_csum := blanked OR push_bit 16 (ucast (u16_to_be csum))\<rparr>)"

definition ip_id :: "IpHeader \<Rightarrow> u16" where
  "ip_id h = u16_from_be (ucast (id_to_foffset h AND 0xffff))"

definition ip_set_id :: "IpHeader \<Rightarrow> u16 \<Rightarrow> IpHeader" where
  "ip_set_id h i =
     (let blanked = id_to_foffset h AND NOT 0xffff in h\<lparr>id_to_foffset := blanked OR ucast (u16_to_be i)\<rparr>)"

definition ip_flags :: "IpHeader \<Rightarrow> u8" where
  "ip_flags h = (let flag_fragment = ucast (drop_bit 21 (id_to_foffset h)) :: u16
     in ucast (flag_fragment AND 0x7))"

definition ip_set_flags :: "IpHeader \<Rightarrow> u8 \<Rightarrow> IpHeader" where
  "ip_set_flags h flags = h\<lparr>id_to_foffset :=
     (id_to_foffset h AND NOT 0x00e00000) OR push_bit (16 + 5) (ucast (flags AND 0x7))\<rparr>"

definition ip_fragment_offset :: "IpHeader \<Rightarrow> u16" where
  "ip_fragment_offset h = (let flag_fragment = ucast (id_to_foffset h AND 0xffff) :: u16
     in u16_from_be (drop_bit 3 (flag_fragment AND NOT 0xe)))"

definition ip_set_fragment_offset :: "IpHeader \<Rightarrow> u16 \<Rightarrow> IpHeader" where
  "ip_set_fragment_offset h offset =
     (let offset_correct = ucast offset; id_to_offset_le = u32_from_be (id_to_foffset h)
      in h\<lparr>id_to_foffset := u32_to_be ((id_to_offset_le AND NOT 0x1fff) OR offset_correct)\<rparr>)"

definition ip_version :: "IpHeader \<Rightarrow> u8" where
  "ip_version h = drop_bit 4 (ucast (version_to_len h AND 0xf0))"

definition ip_set_version :: "IpHeader \<Rightarrow> u8 \<Rightarrow> IpHeader" where
  "ip_set_version h version = h\<lparr>version_to_len :=
     (version_to_len h AND NOT 0xf0) OR push_bit 4 (ucast (version AND 0xf))\<rparr>"

definition ip_ihl :: "IpHeader \<Rightarrow> u8" where
  "ip_ihl h = ucast (version_to_len h AND 0x0f)"

definition ip_set_ihl :: "IpHeader \<Rightarrow> u8 \<Rightarrow> IpHeader" where
  "ip_set_ihl h ihl = h\<lparr>version_to_len := (version_to_len h AND NOT 0x0f) OR ucast (ihl AND 0x0f)\<rparr>"

definition ip_dscp :: "IpHeader \<Rightarrow> u8" where
  "ip_dscp h = ucast (drop_bit 10 (version_to_len h AND 0xfc00))"

definition ip_set_dscp :: "IpHeader \<Rightarrow> u8 \<Rightarrow> IpHeader" where
  "ip_set_dscp h dscp = h\<lparr>version_to_len :=
     (version_to_len h AND NOT 0xfc00) OR push_bit 10 (ucast (dscp AND 0x3f))\<rparr>"

definition ip_ecn :: "IpHeader \<Rightarrow> u8" where
  "ip_ecn h = ucast (drop_bit 8 (version_to_len h AND 0x0300))"

definition ip_set_ecn :: "IpHeader \<Rightarrow> u8 \<Rightarrow> IpHeader" where
  "ip_set_ecn h ecn = h\<lparr>version_to_len :=
     (version_to_len h AND NOT 0x0300) OR push_bit 8 (ucast (ecn AND 0x03))\<rparr>"

definition ip_length :: "IpHeader \<Rightarrow> u16" where
  "ip_length h = u16_from_be (ucast (drop_bit 16 (version_to_len h AND 0xffff0000)))"

definition ip_set_length :: "IpHeader \<Rightarrow> u16 \<Rightarrow> IpHeader" where
  "ip_set_length h len = h\<lparr>version_to_len :=
     (version_to_len h AND NOT 0xffff0000) OR push_bit 16 (ucast (u16_to_be len))\<rparr>"

definition ip_offset :: "IpHeader \<Rightarrow> nat" where
  "ip_offset h = unat (ip_ihl h) * 4"

definition ip_size :: nat where
  "ip_size = 20"

definition ip_payload_size :: "IpHeader \<Rightarrow> nat \<Rightarrow> nat option" where
  "ip_payload_size h hint = len_sub (unat (ip_length h)) (ip_offset h)"

definition ip_check_correct :: "IpHeader \<Rightarrow> MacHeader \<Rightarrow> bool" where
  "ip_check_correct h prev = True"

interpretation ip_end: end_offset ip_offset ip_payload_size "\<lambda>h hint. unat (ip_length h)"
  by unfold_locales (simp add: ip_payload_size_def)

text \<open>The struct over 20 bytes of a frame.\<close>

definition IpHeader_of_bytes :: "u8 list \<Rightarrow> IpHeader" where
  "IpHeader_of_bytes bs = \<lparr>
     version_to_len = le32 (bs ! 0) (bs ! 1) (bs ! 2) (bs ! 3),
     id_to_foffset = le32 (bs ! 4) (bs ! 5) (bs ! 6) (bs ! 7),
     ttl_to_csum = le32 (bs ! 8) (bs ! 9) (bs ! 10) (bs ! 11),
     ip_src_raw = le32 (bs ! 12) (bs ! 13) (bs ! 14) (bs ! 15),
     ip_dst_raw = le32 (bs ! 16) (bs ! 17) (bs ! 18) (bs ! 19)\<rparr>"

definition IpHeader_to_bytes :: "IpHeader \<Rightarrow> u8 list" where
  "IpHeader_to_bytes h = le32_bytes (version_to_len h) @ le32_bytes (id_to_foffset h) @
     le32_bytes (ttl_to_csum h) @ le32_bytes (ip_src_raw h) @ le32_bytes (ip_dst_raw h)"

text \<open>The fields of an IPv4 header as RFC 791 and RFC 3168 lay them out on the wire.\<close>

record ip_fields =
  f_version :: u8
  f_ihl :: u8
  f_dscp :: u8
  f_ecn :: u8
  f_length :: u16
  f_id :: u16
  f_flags :: u8
  f_fragment :: u16
  f_ttl :: u8
  f_protocol :: u8
  f_csum :: u16
  f_src :: u32
  f_dst :: u32

definition ip_view :: "IpHeader \<Rightarrow> ip_fields" where
  "ip_view h = (let b = (\<lambda>i. IpHeader_to_bytes h ! i) in \<lparr>
     f_version = drop_bit 4 (b 0), f_ihl = b 0 AND 0xf, f_dscp = drop_bit 2 (b 1), f_ecn = b 1 AND 3,
     f_length = be16 (b 2) (b 3), f_id = be16 (b 4) (b 5), f_flags = drop_bit 5 (b 6),
     f_fragment = be16 (b 6) (b 7) AND 0x1fff, f_ttl = b 8, f_protocol = b 9, f_csum = be16 (b 10) (b 11),
     f_src = be32 (b 12) (b 13) (b 14) (b 15), f_dst = be32 (b 16) (b 17) (b 18) (b 19)\<rparr>)"

subsection \<open>Accessors and the wire format\<close>

lemmas ip_bytes_defs = ip_view_def IpHeader_to_bytes_def le32_bytes_def le16_def le32_def Let_def
lemmas ip_getter_defs = ip_src_def ip_dst_def ip_ttl_def ip_protocol_def ip_csum_def ip_id_def ip_flags_def
  ip_version_def ip_ihl_def ip_dscp_def ip_ecn_def ip_length_def u16_swap_def u32_swap_def
lemmas ip_setter_defs = ip_set_src_def ip_set_dst_def ip_set_ttl_def ip_set_protocol_def ip_set_csum_def
  ip_set_id_def ip_set_flags_def ip_set_fragment_offset_def ip_set_version_def ip_set_ihl_def ip_set_dscp_def
  ip_set_ecn_def ip_set_length_def u16_swap_def u32_swap_def

lemma ip_get_version: "ip_version h = f_version (ip_view h)"
  by (simp add: ip_bytes_defs ip_getter_defs word_blast bit_simps)

lemma ip_get_ihl: "ip_ihl h = f_ihl (ip_view h)"
  by (simp add: ip_bytes_defs ip_getter_defs word_blast bit_simps)

lemma ip_get_dscp: "ip_dscp h = f_dscp (ip_view h)"
  by (simp add: ip_bytes_defs ip_getter_defs word_blast bit_simps)

lemma ip_get_ecn: "ip_ecn h = f_ecn (ip_view h)"
  by (simp add: ip_bytes_defs ip_getter_defs word_blast bit_simps)

lemma ip_get_length: "ip_length h = f_length (ip_view h)"
  by (simp add: ip_bytes_defs ip_getter_defs word_blast bit_simps)

lemma ip_get_id: "ip_id h = f_id (ip_view h)"
  by (simp add: ip_bytes_defs ip_getter_defs word_blast bit_simps)

lemma ip_get_flags: "ip_flags h = f_flags (ip_view h)"
  by (simp add: ip_bytes_defs ip_getter_defs word_blast bit_simps)

lemma ip_get_ttl: "ip_ttl h = f_ttl (ip_view h)"
  by (simp add: ip_bytes_defs ip_getter_defs word_blast bit_simps)

lemma ip_get_protocol: "ip_protocol h = f_protocol (ip_view h)"
  by (simp add: ip_bytes_defs ip_getter_defs word_blast bit_simps)

lemma ip_get_csum: "ip_csum h = u16_swap (f_csum (ip_view h))"
  by (simp add: ip_bytes_defs ip_getter_defs word_blast bit_simps)

lemma ip_get_src: "ip_src h = f_src (ip_view h)"
  by (simp add: ip_bytes_defs ip_getter_defs word_blast bit_simps)

lemma ip_get_dst: "ip_dst h = f_dst (ip_view h)"
  by (simp add: ip_bytes_defs ip_getter_defs word_blast bit_simps)

lemma ip_view_set_src: "ip_view (ip_set_src h v) = (ip_view h)\<lparr>f_src := v\<rparr>"
  by (simp add: ip_bytes_defs ip_setter_defs word_blast bit_simps)

lemma ip_view_set_dst: "ip_view (ip_set_dst h v) = (ip_view h)\<lparr>f_dst := v\<rparr>"
  by (simp add: ip_bytes_defs ip_setter_defs word_blast bit_simps)

lemma ip_view_set_ttl: "ip_view (ip_set_ttl h v) = (ip_view h)\<lparr>f_ttl := v\<rparr>"
  by (simp add: ip_bytes_defs ip_setter_defs word_blast bit_simps)

lemma ip_view_set_protocol: "ip_view (ip_set_protocol h v) = (ip_view h)\<lparr>f_protocol := v\<rparr>"
  by (simp add: ip_bytes_defs ip_setter_defs word_blast bit_simps)

lemma ip_view_set_csum: "ip_view (ip_set_csum h w) = (ip_view h)\<lparr>f_csum := w\<rparr>"
  by (simp add: ip_bytes_defs ip_setter_defs word_blast bit_simps)

lemma ip_view_set_id: "ip_view (ip_set_id h w) = (ip_view h)\<lparr>f_id := w\<rparr>"
  by (simp add: ip_bytes_defs ip_setter_defs word_blast bit_simps)

lemma ip_view_set_flags: "ip_view (ip_set_flags h v) = (ip_view h)\<lparr>f_flags := v AND 7\<rparr>"
  by (simp add: ip_bytes_defs ip_setter_defs word_blast bit_simps)

lemma ip_view_set_fragment_offset:
  "ip_view (ip_set_fragment_offset h w) =
    (ip_view h)\<lparr>f_fragment := w AND 0x1fff, f_flags := f_flags (ip_view h) OR ucast (drop_bit 13 w)\<rparr>"
  by (simp add: ip_bytes_defs ip_setter_defs word_blast bit_simps)

lemma ip_view_set_version: "ip_view (ip_set_version h v) = (ip_view h)\<lparr>f_version := v AND 0xf\<rparr>"
  by (simp add: ip_bytes_defs ip_setter_defs word_blast bit_simps)

lemma ip_view_set_ihl: "ip_view (ip_set_ihl h v) = (ip_view h)\<lparr>f_ihl := v AND 0xf\<rparr>"
  by (simp add: ip_bytes_defs ip_setter_defs word_blast bit_simps)

lemma ip_view_set_dscp: "ip_view (ip_set_dscp h v) = (ip_view h)\<lparr>f_dscp := v AND 0x3f\<rparr>"
  by (simp add: ip_bytes_defs ip_setter_defs word_blast bit_simps)

lemma ip_view_set_ecn: "ip_view (ip_set_ecn h v) = (ip_view h)\<lparr>f_ecn := v AND 3\<rparr>"
  by (simp add: ip_bytes_defs ip_setter_defs word_blast bit_simps)

lemma ip_view_set_length: "ip_view (ip_set_length h w) = (ip_view h)\<lparr>f_length := w\<rparr>"
  by (simp add: ip_bytes_defs ip_setter_defs word_blast bit_simps)

text \<open>The fields determine the header.\<close>

definition ip_of_fields :: "ip_fields \<Rightarrow> IpHeader" where
  "ip_of_fields f = \<lparr>
     version_to_len = le32 (push_bit 4 (f_version f) OR f_ihl f) (push_bit 2 (f_dscp f) OR f_ecn f)
       (ucast (drop_bit 8 (f_length f))) (ucast (f_length f)),
     id_to_foffset = le32 (ucast (drop_bit 8 (f_id f))) (ucast (f_id f))
       (push_bit 5 (f_flags f) OR ucast (drop_bit 8 (f_fragment f))) (ucast (f_fragment f)),
     ttl_to_csum = le32 (f_ttl f) (f_protocol f) (ucast (drop_bit 8 (f_csum f))) (ucast (f_csum f)),
     ip_src_raw = u32_swap (f_src f), ip_dst_raw = u32_swap (f_dst f)\<rparr>"

lemma ip_of_fields_view: "ip_of_fields (ip_view h) = h"
  by (cases h) (simp add: ip_bytes_defs ip_of_fields_def u32_swap_def word_blast bit_simps)

section \<open>Properties\<close>

text \<open>
  C37: Every setter of \<open>IpHeader\<close> but \<open>set_fragment_offset\<close> changes exactly the field of the IPv4 wire format it is named
  after (cut to the width of the field) and no other field.  \<open>set_fragment_offset\<close> sets the field to the low 13 bits of its
  argument and adds the upper three bits to the flags, so it changes only its field exactly when these bits are
  set in the flags already.  The fields determine the header.
\<close>
theorem ip_setters_refine_wire:
  "ip_view (ip_set_src h a) = (ip_view h)\<lparr>f_src := a\<rparr> \<and>
   ip_view (ip_set_dst h a) = (ip_view h)\<lparr>f_dst := a\<rparr> \<and>
   ip_view (ip_set_ttl h v) = (ip_view h)\<lparr>f_ttl := v\<rparr> \<and>
   ip_view (ip_set_protocol h v) = (ip_view h)\<lparr>f_protocol := v\<rparr> \<and>
   ip_view (ip_set_csum h w) = (ip_view h)\<lparr>f_csum := w\<rparr> \<and>
   ip_view (ip_set_id h w) = (ip_view h)\<lparr>f_id := w\<rparr> \<and>
   ip_view (ip_set_flags h v) = (ip_view h)\<lparr>f_flags := v AND 7\<rparr> \<and>
   ip_view (ip_set_version h v) = (ip_view h)\<lparr>f_version := v AND 0xf\<rparr> \<and>
   ip_view (ip_set_ihl h v) = (ip_view h)\<lparr>f_ihl := v AND 0xf\<rparr> \<and>
   ip_view (ip_set_dscp h v) = (ip_view h)\<lparr>f_dscp := v AND 0x3f\<rparr> \<and>
   ip_view (ip_set_ecn h v) = (ip_view h)\<lparr>f_ecn := v AND 3\<rparr> \<and>
   ip_view (ip_set_length h w) = (ip_view h)\<lparr>f_length := w\<rparr> \<and>
   ip_view (ip_set_fragment_offset h w) =
     (ip_view h)\<lparr>f_fragment := w AND 0x1fff, f_flags := f_flags (ip_view h) OR ucast (drop_bit 13 w)\<rparr> \<and>
   ip_of_fields (ip_view h) = h"
  by (intro conjI ip_view_set_fragment_offset ip_view_set_src ip_view_set_dst ip_view_set_ttl ip_view_set_protocol ip_view_set_csum
      ip_view_set_id ip_view_set_flags ip_view_set_version ip_view_set_ihl ip_view_set_dscp ip_view_set_ecn
      ip_view_set_length ip_of_fields_view)

text \<open>
  The getters of \<open>IpHeader\<close> return the fields of the IPv4 wire format, and the offset of the next
  header is four bytes per unit of the IHL field.
\<close>
theorem ip_getters_read_wire:
  "ip_version h = f_version (ip_view h) \<and> ip_ihl h = f_ihl (ip_view h) \<and> ip_dscp h = f_dscp (ip_view h) \<and>
   ip_ecn h = f_ecn (ip_view h) \<and> ip_length h = f_length (ip_view h) \<and> ip_id h = f_id (ip_view h) \<and>
   ip_flags h = f_flags (ip_view h) \<and> ip_ttl h = f_ttl (ip_view h) \<and> ip_protocol h = f_protocol (ip_view h) \<and>
   ip_src h = f_src (ip_view h) \<and> ip_dst h = f_dst (ip_view h) \<and> ip_offset h = 4 * unat (f_ihl (ip_view h))"
  by (intro conjI ip_get_version ip_get_ihl ip_get_dscp ip_get_ecn ip_get_length ip_get_id ip_get_flags
      ip_get_ttl ip_get_protocol ip_get_src ip_get_dst) (simp add: ip_offset_def ip_get_ihl)

text \<open>
  \<open>csum\<close> does not convert from network order although \<open>set_csum\<close> converts to it: reading back a
  checksum gives it with its bytes exchanged.  \<open>set_fragment_offset\<close> stores the low 13 bits at the right
  place, but merges the upper bits of its argument into the flags.
\<close>
theorem ip_csum_and_fragment:
  "ip_csum (ip_set_csum h w) = u16_swap w \<and> ip_csum (ip_set_csum h 0x1234) = 0x3412 \<and>
   ip_view (ip_set_fragment_offset h w) =
     (ip_view h)\<lparr>f_fragment := w AND 0x1fff, f_flags := f_flags (ip_view h) OR ucast (drop_bit 13 w)\<rparr> \<and>
   ip_fragment_offset (ip_set_fragment_offset IpHeader_new 1) = 0"
  by (intro conjI ip_view_set_fragment_offset) (simp add: ip_get_csum ip_view_set_csum,
      simp add: ip_get_csum ip_view_set_csum u16_swap_def, code_simp)

text \<open>
  \<open>swap_addresses\<close> exchanges source and destination and nothing else, twice is the identity, and the
  EtherType reads back as it was set.
\<close>
theorem mac_accessors_correct:
  "mac_src (swap_addresses h) = mac_dst h \<and> mac_dst (swap_addresses h) = mac_src h \<and>
   mac_etype (swap_addresses h) = mac_etype h \<and> swap_addresses (swap_addresses h) = h \<and>
   mac_etype (mac_set_etype h e) = e \<and> mac_src (mac_set_etype h e) = mac_src h \<and>
   mac_dst (mac_set_etype h e) = mac_dst h"
  by (simp add: swap_addresses_def copy_address_def mac_etype_def mac_set_etype_def Let_def)

text \<open>
  \<open>MacHeader::offset\<close> compares the EtherType in memory order with the VLAN values, so a frame
  with EtherType 0x8100 or 0x9100 is treated as untagged, and one with 0x0081 or 0x0091 as tagged.
\<close>
theorem mac_offset_misses_vlan:
  "mac_offset (mac_set_etype h 0x8100) = 14 \<and> mac_offset (mac_set_etype h 0x9100) = 14 \<and>
   mac_offset (mac_set_etype h 0x0081) = 18 \<and> mac_offset (mac_set_etype h 0x0091) = 22"
  by (simp add: mac_offset_def mac_set_etype_def u16_swap_def HDR_SIZE_def HDR_SIZE_802_1Q_def HDR_SIZE_802_1AD_def)

end
