(* ===== verification/NB_MBuf.thy ===== *)
theory NB_MBuf
  imports NB_Headers
begin

text \<open>
  \<open>MBuf\<close> of \<open>framework/src/native/zcsi/mbuf.rs\<close>: the DPDK packet buffer descriptor with the operations
  that grow and shrink the packet inside its buffer.  Two fields are not in the struct but in the memory
  around it: \<open>mb_buf\<close>, the bytes at \<open>buf_addr\<close>, and \<open>mb_meta\<close>, the bytes that follow the descriptor, which
  are used as slots of eight bytes.
  Addresses are natural numbers; \<open>0\<close> is the null pointer.
\<close>

section \<open>State and operations\<close>

record MBuf =
  buf_addr :: nat
  phys_addr :: usize
  data_off :: u16
  mb_refcnt :: u16
  nb_segs :: u8
  mb_port :: u8
  ol_flags :: u64
  packet_type :: u32
  mb_pkt_len :: u32
  mb_data_len :: u16
  vlan_tci :: u16
  mb_hash :: u64
  vlan_tci_outer :: u32
  mb_buf_len :: u16
  timestamp :: u64
  userdata :: u64
  pool :: u64
  mb_next :: nat
  tx_offload :: u64
  priv_size :: u16
  timesync :: u16
  seqn :: u32
  mb_buf :: "u8 list"
  mb_meta :: "u8 list"

definition read_metadata_slot :: "MBuf \<Rightarrow> nat \<Rightarrow> usize option" where
  "read_metadata_slot m slot = do {
     bs \<leftarrow> slice_range (8 * slot) (8 * slot + 8) (mb_meta m);
     Some (le64 bs)
   }"

definition write_metadata_slot :: "MBuf \<Rightarrow> nat \<Rightarrow> usize \<Rightarrow> MBuf option" where
  "write_metadata_slot m slot v = do {
     _ \<leftarrow> slice_range (8 * slot) (8 * slot + 8) (mb_meta m);
     Some (m\<lparr>mb_meta := blit (8 * slot) (le64_bytes v) (mb_meta m)\<rparr>)
   }"

text \<open>\<open>metadata_as\<close> and \<open>mut_metadata_as\<close>: the memory from a slot on, read and written as a value of a
  given size.\<close>

definition metadata_as :: "MBuf \<Rightarrow> nat \<Rightarrow> nat \<Rightarrow> u8 list option" where
  "metadata_as m slot size_of = slice_range (8 * slot) (8 * slot + size_of) (mb_meta m)"

definition mut_metadata_as :: "MBuf \<Rightarrow> nat \<Rightarrow> u8 list \<Rightarrow> MBuf option" where
  "mut_metadata_as m slot v = do {
     _ \<leftarrow> slice_range (8 * slot) (8 * slot + length v) (mb_meta m);
     Some (m\<lparr>mb_meta := blit (8 * slot) v (mb_meta m)\<rparr>)
   }"

definition data_address :: "MBuf \<Rightarrow> nat \<Rightarrow> nat" where
  "data_address m offset = buf_addr m + (unat (data_off m) + offset)"

definition buf_len :: "MBuf \<Rightarrow> nat" where
  "buf_len m = unat (mb_buf_len m)"

definition data_len :: "MBuf \<Rightarrow> nat" where
  "data_len m = unat (mb_data_len m)"

definition pkt_len :: "MBuf \<Rightarrow> nat" where
  "pkt_len m = unat (mb_pkt_len m)"

definition pkt_headroom :: "MBuf \<Rightarrow> nat" where
  "pkt_headroom m = unat (data_off m)"

definition pkt_tailroom :: "MBuf \<Rightarrow> nat option" where
  "pkt_tailroom m = do {
     r \<leftarrow> len_sub (buf_len m) (unat (data_off m));
     len_sub r (data_len m)
   }"

definition add_data_beginning :: "MBuf \<Rightarrow> nat \<Rightarrow> (nat \<times> MBuf) option" where
  "add_data_beginning m len =
     (if len > pkt_headroom m then Some (0, m)
      else do {
        off \<leftarrow> checked_sub (data_off m) (of_nat len);
        dl \<leftarrow> checked_add (mb_data_len m) (of_nat len);
        pl \<leftarrow> checked_add (mb_pkt_len m) (of_nat len);
        Some (len, m\<lparr>data_off := off, mb_data_len := dl, mb_pkt_len := pl\<rparr>)
      })"

definition add_data_end :: "MBuf \<Rightarrow> nat \<Rightarrow> (nat \<times> MBuf) option" where
  "add_data_end m len = do {
     room \<leftarrow> pkt_tailroom m;
     if len > room then Some (0, m)
     else do {
       dl \<leftarrow> checked_add (mb_data_len m) (of_nat len);
       pl \<leftarrow> checked_add (mb_pkt_len m) (of_nat len);
       Some (len, m\<lparr>mb_data_len := dl, mb_pkt_len := pl\<rparr>)
     }
   }"

definition remove_data_beginning :: "MBuf \<Rightarrow> nat \<Rightarrow> (nat \<times> MBuf) option" where
  "remove_data_beginning m len =
     (if len > data_len m then Some (0, m)
      else do {
        off \<leftarrow> checked_add (data_off m) (of_nat len);
        dl \<leftarrow> checked_sub (mb_data_len m) (of_nat len);
        pl \<leftarrow> checked_sub (mb_pkt_len m) (of_nat len);
        Some (len, m\<lparr>data_off := off, mb_data_len := dl, mb_pkt_len := pl\<rparr>)
      })"

definition remove_data_end :: "MBuf \<Rightarrow> nat \<Rightarrow> (nat \<times> MBuf) option" where
  "remove_data_end m len =
     (if len > data_len m then Some (0, m)
      else do {
        dl \<leftarrow> checked_sub (mb_data_len m) (of_nat len);
        pl \<leftarrow> checked_sub (mb_pkt_len m) (of_nat len);
        Some (len, m\<lparr>mb_data_len := dl, mb_pkt_len := pl\<rparr>)
      })"

definition refcnt :: "MBuf \<Rightarrow> u16" where
  "refcnt m = mb_refcnt m"

definition reference :: "MBuf \<Rightarrow> MBuf option" where
  "reference m = do {
     r \<leftarrow> checked_add (mb_refcnt m) 1;
     Some (m\<lparr>mb_refcnt := r\<rparr>)
   }"

section \<open>Invariant\<close>

text \<open>
  A single-segment packet that lies inside its buffer, with the sixteen metadata slots of a packet
  behind the descriptor.
\<close>

definition mbuf_wf :: "MBuf \<Rightarrow> bool" where
  "mbuf_wf m \<longleftrightarrow> 0 < buf_addr m \<and> length (mb_buf m) = buf_len m \<and>
     unat (data_off m) + data_len m \<le> buf_len m \<and> pkt_len m = data_len m \<and> length (mb_meta m) = 128"

text \<open>The bytes of the packet.\<close>

definition mb_data :: "MBuf \<Rightarrow> u8 list" where
  "mb_data m = take (data_len m) (drop (unat (data_off m)) (mb_buf m))"

lemma unat_len_u16: "n \<le> unat (x :: u16) \<Longrightarrow> unat (of_nat n :: u16) = n"
  using unsigned_less [of x, where ?'a = nat] by (simp add: unat_of_nat)

lemma unat_len_u32: "n \<le> unat (x :: u16) \<Longrightarrow> unat (of_nat n :: u32) = n"
  using unsigned_less [of x, where ?'a = nat] by (simp add: unat_of_nat)

lemma mb_data_length: "mbuf_wf m \<Longrightarrow> length (mb_data m) = data_len m"
  by (auto simp: mbuf_wf_def mb_data_def)

lemma buf_len_bound: "buf_len m < 2 ^ 16"
  using unsigned_less [of "mb_buf_len m", where ?'a = nat] by (simp add: buf_len_def)

lemmas mbuf_unfold = mbuf_wf_def mb_data_def data_len_def pkt_len_def buf_len_def pkt_headroom_def

lemma pkt_tailroom_wf:
  "mbuf_wf m \<Longrightarrow> pkt_tailroom m = Some (buf_len m - unat (data_off m) - data_len m)"
  by (auto simp: pkt_tailroom_def mbuf_wf_def len_sub_def)

text \<open>Growing and shrinking by a length that fits.\<close>

lemma grow_lens:
  assumes wf: "mbuf_wf m" and fits: "data_len m + n \<le> buf_len m"
  obtains dl pl where "checked_add (mb_data_len m) (of_nat n) = Some dl" "unat dl = data_len m + n"
    "checked_add (mb_pkt_len m) (of_nat n) = Some pl" "unat pl = data_len m + n"
proof -
  have lt: "data_len m + n < 2 ^ 16" using fits buf_len_bound [of m] by linarith
  then have n: "unat (of_nat n :: u16) = n" "unat (of_nat n :: u32) = n" by (simp_all add: unat_of_nat)
  have pl: "unat (mb_pkt_len m) = data_len m" using wf by (simp add: mbuf_wf_def pkt_len_def)
  show thesis
    by (rule that [of "mb_data_len m + of_nat n" "mb_pkt_len m + of_nat n"])
      (use lt n pl in \<open>simp_all add: checked_add_def unat_word_ariths data_len_def\<close>)
qed

lemma shrink_lens:
  assumes wf: "mbuf_wf m" and fits: "n \<le> data_len m"
  obtains dl pl where "checked_sub (mb_data_len m) (of_nat n) = Some dl" "unat dl = data_len m - n"
    "checked_sub (mb_pkt_len m) (of_nat n) = Some pl" "unat pl = data_len m - n"
proof -
  have n: "unat (of_nat n :: u16) = n" "unat (of_nat n :: u32) = n"
    using fits unat_len_u16 unat_len_u32 by (auto simp: data_len_def)
  have pl: "unat (mb_pkt_len m) = data_len m" using wf by (simp add: mbuf_wf_def pkt_len_def)
  show thesis
    by (rule that [of "mb_data_len m - of_nat n" "mb_pkt_len m - of_nat n"])
      (use fits n pl in \<open>simp_all add: checked_sub_def unat_sub word_le_nat_alt data_len_def\<close>)
qed

lemma add_data_end_spec:
  assumes wf: "mbuf_wf m"
  shows "if n \<le> buf_len m - unat (data_off m) - data_len m
    then \<exists>m'. add_data_end m n = Some (n, m') \<and> mbuf_wf m' \<and> data_len m' = data_len m + n \<and>
      mb_buf m' = mb_buf m \<and> data_off m' = data_off m \<and> buf_addr m' = buf_addr m \<and> buf_len m' = buf_len m \<and>
      mb_meta m' = mb_meta m \<and> take (data_len m) (mb_data m') = mb_data m
    else add_data_end m n = Some (0, m)"
proof (cases "n \<le> buf_len m - unat (data_off m) - data_len m")
  case True
  have fits: "data_len m + n \<le> buf_len m" "unat (data_off m) + (data_len m + n) \<le> buf_len m"
    using True wf by (auto simp: mbuf_wf_def)
  obtain dl pl where "checked_add (mb_data_len m) (of_nat n) = Some dl" "unat dl = data_len m + n"
    "checked_add (mb_pkt_len m) (of_nat n) = Some pl" "unat pl = data_len m + n"
    using grow_lens [OF wf fits(1)] .
  with True fits wf show ?thesis
    by (simp add: add_data_end_def pkt_tailroom_wf [OF wf] mbuf_unfold min_def)
qed (simp add: add_data_end_def pkt_tailroom_wf [OF wf])

lemma add_data_beginning_spec:
  assumes wf: "mbuf_wf m"
  shows "if n \<le> pkt_headroom m
    then \<exists>m'. add_data_beginning m n = Some (n, m') \<and> mbuf_wf m' \<and> data_len m' = data_len m + n \<and>
      mb_buf m' = mb_buf m \<and> unat (data_off m') + n = unat (data_off m) \<and> drop n (mb_data m') = mb_data m
    else add_data_beginning m n = Some (0, m)"
proof (cases "n \<le> pkt_headroom m")
  case True
  have fits: "data_len m + n \<le> buf_len m" using True wf by (auto simp: mbuf_wf_def pkt_headroom_def)
  obtain dl pl where dl: "checked_add (mb_data_len m) (of_nat n) = Some dl" "unat dl = data_len m + n"
    "checked_add (mb_pkt_len m) (of_nat n) = Some pl" "unat pl = data_len m + n"
    using grow_lens [OF wf fits] .
  have n: "unat (of_nat n :: u16) = n" using True unat_len_u16 by (auto simp: pkt_headroom_def)
  then have off: "checked_sub (data_off m) (of_nat n) = Some (data_off m - of_nat n)"
    "unat (data_off m - of_nat n) = unat (data_off m) - n"
    using True by (simp_all add: checked_sub_def word_le_nat_alt pkt_headroom_def unat_sub)
  have "mbuf_wf (m\<lparr>data_off := data_off m - of_nat n, mb_data_len := dl, mb_pkt_len := pl\<rparr>)"
    using True wf dl off by (simp add: mbuf_unfold)
  with True dl off wf show ?thesis
    by (simp add: add_data_beginning_def) (auto simp: mbuf_unfold drop_take)
qed (simp add: add_data_beginning_def)

lemma remove_data_end_spec:
  assumes wf: "mbuf_wf m"
  shows "if n \<le> data_len m
    then \<exists>m'. remove_data_end m n = Some (n, m') \<and> mbuf_wf m' \<and> data_len m' = data_len m - n \<and>
      mb_buf m' = mb_buf m \<and> data_off m' = data_off m \<and> buf_addr m' = buf_addr m \<and>
      mb_meta m' = mb_meta m \<and> mb_data m' = take (data_len m - n) (mb_data m)
    else remove_data_end m n = Some (0, m)"
proof (cases "n \<le> data_len m")
  case True
  obtain dl pl where dl: "checked_sub (mb_data_len m) (of_nat n) = Some dl" "unat dl = data_len m - n"
    "checked_sub (mb_pkt_len m) (of_nat n) = Some pl" "unat pl = data_len m - n"
    using shrink_lens [OF wf True] .
  with True wf show ?thesis by (simp add: remove_data_end_def) (auto simp: mbuf_unfold min_def)
qed (simp add: remove_data_end_def)

lemma remove_data_beginning_spec:
  assumes wf: "mbuf_wf m"
  shows "if n \<le> data_len m
    then \<exists>m'. remove_data_beginning m n = Some (n, m') \<and> mbuf_wf m' \<and> data_len m' = data_len m - n \<and>
      mb_buf m' = mb_buf m \<and> unat (data_off m') = unat (data_off m) + n \<and> buf_addr m' = buf_addr m \<and>
      mb_meta m' = mb_meta m \<and> mb_data m' = drop n (mb_data m)
    else remove_data_beginning m n = Some (0, m)"
proof (cases "n \<le> data_len m")
  case True
  obtain dl pl where dl: "checked_sub (mb_data_len m) (of_nat n) = Some dl" "unat dl = data_len m - n"
    "checked_sub (mb_pkt_len m) (of_nat n) = Some pl" "unat pl = data_len m - n"
    using shrink_lens [OF wf True] .
  have lt: "unat (data_off m) + n < 2 ^ 16"
    using True wf buf_len_bound [of m] by (simp add: mbuf_wf_def)
  then have "unat (of_nat n :: u16) = n" by (simp add: unat_of_nat)
  with lt have off: "checked_add (data_off m) (of_nat n) = Some (data_off m + of_nat n)"
    "unat (data_off m + of_nat n) = unat (data_off m) + n"
    by (simp_all add: checked_add_def unat_word_ariths)
  from True dl off wf show ?thesis
    by (simp add: remove_data_beginning_def) (auto simp: mbuf_unfold drop_take add.commute)
qed (simp add: remove_data_beginning_def)

lemma slice_blit_other_same:
  "slice_range a b (blit a v xs) = Some v" if "b = a + length v" "b \<le> length xs"
  using that by (simp add: slice_range_def slice_of_blit)

lemma metadata_slot_roundtrip:
  assumes "write_metadata_slot m slot v = Some m'"
  shows "read_metadata_slot m' slot = Some v"
  using assms
  by (auto simp: write_metadata_slot_def read_metadata_slot_def slice_blit_other_same slice_range_def
      bind_eq_Some_conv split: if_splits) (simp add: slice_of_blit [of _ "le64_bytes v", simplified])

lemma metadata_slot_other:
  assumes "write_metadata_slot m slot v = Some m'" and "slot' \<noteq> slot"
  shows "read_metadata_slot m' slot' = read_metadata_slot m slot'"
proof -
  have b: "8 * slot + 8 \<le> length (mb_meta m)" and m': "m' = m\<lparr>mb_meta := blit (8 * slot) (le64_bytes v) (mb_meta m)\<rparr>"
    using assms(1) by (auto simp: write_metadata_slot_def slice_range_def bind_eq_Some_conv split: if_splits)
  have "take 8 (drop (8 * slot') (blit (8 * slot) (le64_bytes v) (mb_meta m))) = take 8 (drop (8 * slot') (mb_meta m))"
    using b assms(2) by (intro nth_equalityI) (auto simp: nth_blit)
  then show ?thesis using b by (simp add: read_metadata_slot_def m' slice_range_def)
qed

section \<open>Properties\<close>

text \<open>A fresh single-segment buffer, as the allocator of the native library hands it out.\<close>

definition fresh_mbuf :: "nat \<Rightarrow> u8 list \<Rightarrow> u16 \<Rightarrow> u16 \<Rightarrow> MBuf" where
  "fresh_mbuf a buf off len = \<lparr>buf_addr = a, phys_addr = 0, data_off = off, mb_refcnt = 1, nb_segs = 1,
     mb_port = 0, ol_flags = 0, packet_type = 0, mb_pkt_len = ucast len, mb_data_len = len, vlan_tci = 0,
     mb_hash = 0, vlan_tci_outer = 0, mb_buf_len = of_nat (length buf), timestamp = 0, userdata = 0, pool = 0,
     mb_next = 0, tx_offload = 0, priv_size = 0, timesync = 0, seqn = 0, mb_buf = buf, mb_meta = replicate 128 0\<rparr>"

text \<open>
  C34: The four operations that resize a packet inside its buffer never overflow their 16- and 32-bit
  counters on a well-formed buffer.  Each either succeeds, keeps the buffer well-formed and adds or
  removes exactly the requested bytes at its end of the packet, or reports 0 and changes nothing.
\<close>
theorem mbuf_resize_correct:
  assumes wf: "mbuf_wf m"
  shows "(if n \<le> pkt_headroom m
      then \<exists>m'. add_data_beginning m n = Some (n, m') \<and> mbuf_wf m' \<and> drop n (mb_data m') = mb_data m \<and>
        data_len m' = data_len m + n
      else add_data_beginning m n = Some (0, m)) \<and>
    (if n \<le> buf_len m - unat (data_off m) - data_len m
      then \<exists>m'. add_data_end m n = Some (n, m') \<and> mbuf_wf m' \<and> take (data_len m) (mb_data m') = mb_data m \<and>
        data_len m' = data_len m + n
      else add_data_end m n = Some (0, m)) \<and>
    (if n \<le> data_len m
      then (\<exists>m'. remove_data_beginning m n = Some (n, m') \<and> mbuf_wf m' \<and> mb_data m' = drop n (mb_data m)) \<and>
        (\<exists>m'. remove_data_end m n = Some (n, m') \<and> mbuf_wf m' \<and> mb_data m' = take (data_len m - n) (mb_data m))
      else remove_data_beginning m n = Some (0, m) \<and> remove_data_end m n = Some (0, m))"
  using add_data_beginning_spec [OF wf, of n] add_data_end_spec [OF wf, of n]
    remove_data_beginning_spec [OF wf, of n] remove_data_end_spec [OF wf, of n]
  by (auto split: if_splits)

theorem mbuf_resize_correct_witness:
  "\<exists>m m'. mb_data m = [1, 2, 3] \<and> remove_data_beginning m 2 = Some (2, m') \<and> mb_data m' = [3] \<and>
    add_data_end m 4 = Some (0, m)"
proof -
  define m where "m = fresh_mbuf 4096 [0, 0, 1, 2, 3, 0] 2 3"
  have wf: "mbuf_wf m" unfolding m_def by code_simp
  have c: "mb_data m = [1, 2, 3]" "data_len m = 3" "buf_len m = 6" "unat (data_off m) = 2"
    unfolding m_def by code_simp+
  show ?thesis
    using mbuf_resize_correct [OF wf, of 2] mbuf_resize_correct [OF wf, of 4]
    by - (rule exI [of _ m], auto simp: c)
qed

end
