(* ===== verification/NB_Tcp_Udp.thy ===== *)
theory NB_Tcp_Udp
  imports NB_Headers
begin

text \<open>
  \<open>TcpHeader\<close> and \<open>UdpHeader\<close> of \<open>framework/src/headers/tcp.rs\<close> and \<open>udp.rs\<close>, in the style of \<open>NB_Headers\<close>.
\<close>

section \<open>TcpHeader\<close>

record TcpHeader =
  tcp_src_port_raw :: u16
  tcp_dst_port_raw :: u16
  tcp_seq_raw :: u32
  tcp_ack_raw :: u32
  offset_to_ns :: u8
  tcp_flags :: u8
  tcp_window_raw :: u16
  tcp_csum_raw :: u16
  tcp_urgent_raw :: u16

definition CWR :: u8 where "CWR = 0x80"
definition ECE :: u8 where "ECE = 0x40"
definition URG :: u8 where "URG = 0x20"
definition ACK :: u8 where "ACK = 0x10"
definition PSH :: u8 where "PSH = 0x08"
definition RST :: u8 where "RST = 0x04"
definition SYN :: u8 where "SYN = 0x02"
definition FIN :: u8 where "FIN = 0x01"

definition TcpHeader_new :: TcpHeader where
  "TcpHeader_new = \<lparr>tcp_src_port_raw = 0, tcp_dst_port_raw = 0, tcp_seq_raw = 0, tcp_ack_raw = 0,
     offset_to_ns = 0, tcp_flags = 0, tcp_window_raw = 0, tcp_csum_raw = 0, tcp_urgent_raw = 0\<rparr>"

definition tcp_src_port :: "TcpHeader \<Rightarrow> u16" where
  "tcp_src_port h = u16_from_be (tcp_src_port_raw h)"

definition tcp_set_src_port :: "TcpHeader \<Rightarrow> u16 \<Rightarrow> TcpHeader" where
  "tcp_set_src_port h v = h\<lparr>tcp_src_port_raw := u16_to_be v\<rparr>"

definition tcp_dst_port :: "TcpHeader \<Rightarrow> u16" where
  "tcp_dst_port h = u16_from_be (tcp_dst_port_raw h)"

definition tcp_set_dst_port :: "TcpHeader \<Rightarrow> u16 \<Rightarrow> TcpHeader" where
  "tcp_set_dst_port h v = h\<lparr>tcp_dst_port_raw := u16_to_be v\<rparr>"

definition tcp_seq_num :: "TcpHeader \<Rightarrow> u32" where
  "tcp_seq_num h = u32_from_be (tcp_seq_raw h)"

definition tcp_set_seq_num :: "TcpHeader \<Rightarrow> u32 \<Rightarrow> TcpHeader" where
  "tcp_set_seq_num h v = h\<lparr>tcp_seq_raw := u32_to_be v\<rparr>"

definition tcp_ack_num :: "TcpHeader \<Rightarrow> u32" where
  "tcp_ack_num h = u32_from_be (tcp_ack_raw h)"

definition tcp_set_ack_num :: "TcpHeader \<Rightarrow> u32 \<Rightarrow> TcpHeader" where
  "tcp_set_ack_num h v = h\<lparr>tcp_ack_raw := u32_to_be v\<rparr>"

definition tcp_window_size :: "TcpHeader \<Rightarrow> u16" where
  "tcp_window_size h = u16_from_be (tcp_window_raw h)"

definition tcp_set_window_size :: "TcpHeader \<Rightarrow> u16 \<Rightarrow> TcpHeader" where
  "tcp_set_window_size h v = h\<lparr>tcp_window_raw := u16_to_be v\<rparr>"

definition tcp_checksum :: "TcpHeader \<Rightarrow> u16" where
  "tcp_checksum h = u16_from_be (tcp_csum_raw h)"

definition tcp_set_checksum :: "TcpHeader \<Rightarrow> u16 \<Rightarrow> TcpHeader" where
  "tcp_set_checksum h v = h\<lparr>tcp_csum_raw := u16_to_be v\<rparr>"

definition tcp_urgent :: "TcpHeader \<Rightarrow> u16" where
  "tcp_urgent h = u16_from_be (tcp_urgent_raw h)"

definition tcp_set_urgent :: "TcpHeader \<Rightarrow> u16 \<Rightarrow> TcpHeader" where
  "tcp_set_urgent h v = h\<lparr>tcp_urgent_raw := u16_to_be v\<rparr>"

definition tcp_data_offset :: "TcpHeader \<Rightarrow> u8" where
  "tcp_data_offset h = drop_bit 4 (offset_to_ns h AND 0xf0)"

definition tcp_set_data_offset :: "TcpHeader \<Rightarrow> u8 \<Rightarrow> TcpHeader" where
  "tcp_set_data_offset h offset = h\<lparr>offset_to_ns := (offset_to_ns h AND 0x0f) OR push_bit 4 offset\<rparr>"

definition ns_flag :: "TcpHeader \<Rightarrow> bool" where
  "ns_flag h \<longleftrightarrow> offset_to_ns h AND 0x01 = 1"

definition set_ns :: "TcpHeader \<Rightarrow> TcpHeader" where
  "set_ns h = h\<lparr>offset_to_ns := offset_to_ns h OR 1\<rparr>"

definition unset_ns :: "TcpHeader \<Rightarrow> TcpHeader" where
  "unset_ns h = h\<lparr>offset_to_ns := offset_to_ns h AND NOT 0x1\<rparr>"

definition cwr_flag :: "TcpHeader \<Rightarrow> bool" where
  "cwr_flag h \<longleftrightarrow> tcp_flags h AND CWR \<noteq> 0"

definition set_cwr_flag :: "TcpHeader \<Rightarrow> TcpHeader" where
  "set_cwr_flag h = h\<lparr>tcp_flags := tcp_flags h OR CWR\<rparr>"

definition unset_cwr_flag :: "TcpHeader \<Rightarrow> TcpHeader" where
  "unset_cwr_flag h = h\<lparr>tcp_flags := tcp_flags h AND NOT CWR\<rparr>"

definition ece_flag :: "TcpHeader \<Rightarrow> bool" where
  "ece_flag h \<longleftrightarrow> tcp_flags h AND ECE \<noteq> 0"

definition set_ece_flag :: "TcpHeader \<Rightarrow> TcpHeader" where
  "set_ece_flag h = h\<lparr>tcp_flags := tcp_flags h OR ECE\<rparr>"

definition unset_ece_flag :: "TcpHeader \<Rightarrow> TcpHeader" where
  "unset_ece_flag h = h\<lparr>tcp_flags := tcp_flags h AND NOT ECE\<rparr>"

definition urg_flag :: "TcpHeader \<Rightarrow> bool" where
  "urg_flag h \<longleftrightarrow> tcp_flags h AND URG \<noteq> 0"

definition set_urg_flag :: "TcpHeader \<Rightarrow> TcpHeader" where
  "set_urg_flag h = h\<lparr>tcp_flags := tcp_flags h OR URG\<rparr>"

definition unset_urg_flag :: "TcpHeader \<Rightarrow> TcpHeader" where
  "unset_urg_flag h = h\<lparr>tcp_flags := tcp_flags h AND NOT URG\<rparr>"

definition ack_flag :: "TcpHeader \<Rightarrow> bool" where
  "ack_flag h \<longleftrightarrow> tcp_flags h AND ACK \<noteq> 0"

definition set_ack_flag :: "TcpHeader \<Rightarrow> TcpHeader" where
  "set_ack_flag h = h\<lparr>tcp_flags := tcp_flags h OR ACK\<rparr>"

definition unset_ack_flag :: "TcpHeader \<Rightarrow> TcpHeader" where
  "unset_ack_flag h = h\<lparr>tcp_flags := tcp_flags h AND NOT ACK\<rparr>"

definition psh_flag :: "TcpHeader \<Rightarrow> bool" where
  "psh_flag h \<longleftrightarrow> tcp_flags h AND PSH \<noteq> 0"

definition set_psh_flag :: "TcpHeader \<Rightarrow> TcpHeader" where
  "set_psh_flag h = h\<lparr>tcp_flags := tcp_flags h OR PSH\<rparr>"

definition unset_psh_flag :: "TcpHeader \<Rightarrow> TcpHeader" where
  "unset_psh_flag h = h\<lparr>tcp_flags := tcp_flags h AND NOT PSH\<rparr>"

definition rst_flag :: "TcpHeader \<Rightarrow> bool" where
  "rst_flag h \<longleftrightarrow> tcp_flags h AND RST \<noteq> 0"

definition set_rst_flag :: "TcpHeader \<Rightarrow> TcpHeader" where
  "set_rst_flag h = h\<lparr>tcp_flags := tcp_flags h OR RST\<rparr>"

definition unset_rst_flag :: "TcpHeader \<Rightarrow> TcpHeader" where
  "unset_rst_flag h = h\<lparr>tcp_flags := tcp_flags h AND NOT RST\<rparr>"

definition syn_flag :: "TcpHeader \<Rightarrow> bool" where
  "syn_flag h \<longleftrightarrow> tcp_flags h AND SYN \<noteq> 0"

definition set_syn_flag :: "TcpHeader \<Rightarrow> TcpHeader" where
  "set_syn_flag h = h\<lparr>tcp_flags := tcp_flags h OR SYN\<rparr>"

definition unset_syn_flag :: "TcpHeader \<Rightarrow> TcpHeader" where
  "unset_syn_flag h = h\<lparr>tcp_flags := tcp_flags h AND NOT SYN\<rparr>"

definition fin_flag :: "TcpHeader \<Rightarrow> bool" where
  "fin_flag h \<longleftrightarrow> tcp_flags h AND FIN \<noteq> 0"

definition set_fin_flag :: "TcpHeader \<Rightarrow> TcpHeader" where
  "set_fin_flag h = h\<lparr>tcp_flags := tcp_flags h OR FIN\<rparr>"

definition unset_fin_flag :: "TcpHeader \<Rightarrow> TcpHeader" where
  "unset_fin_flag h = h\<lparr>tcp_flags := tcp_flags h AND NOT FIN\<rparr>"

text \<open>What \<open>fmt_flags\<close> writes, in the order of the source.\<close>

definition fmt_flags :: "TcpHeader \<Rightarrow> string" where
  "fmt_flags h = ''| '' @ (if ns_flag h then ''NS '' else []) @ (if cwr_flag h then ''CWR '' else []) @
     (if ece_flag h then ''ECE '' else []) @ (if urg_flag h then ''URG '' else []) @
     (if ack_flag h then ''ACK '' else []) @ (if psh_flag h then ''PSH '' else []) @
     (if rst_flag h then ''RST '' else []) @ (if syn_flag h then ''SYN '' else []) @
     (if fin_flag h then ''FIN '' else []) @ ''|''"

text \<open>The product is computed in \<open>u8\<close>; the data offset has four bits, so it cannot overflow.\<close>

definition tcp_offset :: "TcpHeader \<Rightarrow> nat" where
  "tcp_offset h = unat (tcp_data_offset h * 4)"

definition tcp_size :: nat where
  "tcp_size = 20"

definition tcp_payload_size :: "TcpHeader \<Rightarrow> nat \<Rightarrow> nat option" where
  "tcp_payload_size h frame_size = len_sub frame_size (tcp_offset h)"

definition tcp_check_correct :: "TcpHeader \<Rightarrow> IpHeader \<Rightarrow> bool" where
  "tcp_check_correct h prev = True"

interpretation tcp_end: end_offset tcp_offset tcp_payload_size "\<lambda>h frame_size. frame_size"
  by unfold_locales (simp add: tcp_payload_size_def)

definition TcpHeader_of_bytes :: "u8 list \<Rightarrow> TcpHeader" where
  "TcpHeader_of_bytes bs = \<lparr>
     tcp_src_port_raw = le16 (bs ! 0) (bs ! 1), tcp_dst_port_raw = le16 (bs ! 2) (bs ! 3),
     tcp_seq_raw = le32 (bs ! 4) (bs ! 5) (bs ! 6) (bs ! 7),
     tcp_ack_raw = le32 (bs ! 8) (bs ! 9) (bs ! 10) (bs ! 11),
     offset_to_ns = bs ! 12, tcp_flags = bs ! 13, tcp_window_raw = le16 (bs ! 14) (bs ! 15),
     tcp_csum_raw = le16 (bs ! 16) (bs ! 17), tcp_urgent_raw = le16 (bs ! 18) (bs ! 19)\<rparr>"

definition TcpHeader_to_bytes :: "TcpHeader \<Rightarrow> u8 list" where
  "TcpHeader_to_bytes h = le16_bytes (tcp_src_port_raw h) @ le16_bytes (tcp_dst_port_raw h) @
     le32_bytes (tcp_seq_raw h) @ le32_bytes (tcp_ack_raw h) @ [offset_to_ns h, tcp_flags h] @
     le16_bytes (tcp_window_raw h) @ le16_bytes (tcp_csum_raw h) @ le16_bytes (tcp_urgent_raw h)"

text \<open>The fields of a TCP header as RFC 793 and RFC 3540 lay them out on the wire.\<close>

record tcp_fields =
  t_src_port :: u16
  t_dst_port :: u16
  t_seq :: u32
  t_ack :: u32
  t_data_offset :: u8
  t_reserved :: u8
  t_ns :: bool
  t_flags :: u8
  t_window :: u16
  t_csum :: u16
  t_urgent :: u16

definition tcp_view :: "TcpHeader \<Rightarrow> tcp_fields" where
  "tcp_view h = (let b = (\<lambda>i. TcpHeader_to_bytes h ! i) in \<lparr>
     t_src_port = be16 (b 0) (b 1), t_dst_port = be16 (b 2) (b 3),
     t_seq = be32 (b 4) (b 5) (b 6) (b 7), t_ack = be32 (b 8) (b 9) (b 10) (b 11),
     t_data_offset = drop_bit 4 (b 12), t_reserved = drop_bit 1 (b 12) AND 7, t_ns = bit (b 12) 0,
     t_flags = b 13, t_window = be16 (b 14) (b 15), t_csum = be16 (b 16) (b 17), t_urgent = be16 (b 18) (b 19)\<rparr>)"

section \<open>UdpHeader\<close>

record UdpHeader =
  udp_src_port_raw :: u16
  udp_dst_port_raw :: u16
  udp_len_raw :: u16
  udp_csum_raw :: u16

definition UdpHeader_new :: UdpHeader where
  "UdpHeader_new = \<lparr>udp_src_port_raw = 0, udp_dst_port_raw = 0, udp_len_raw = 0, udp_csum_raw = 0\<rparr>"

definition udp_src_port :: "UdpHeader \<Rightarrow> u16" where
  "udp_src_port h = u16_from_be (udp_src_port_raw h)"

definition udp_set_src_port :: "UdpHeader \<Rightarrow> u16 \<Rightarrow> UdpHeader" where
  "udp_set_src_port h v = h\<lparr>udp_src_port_raw := u16_to_be v\<rparr>"

definition udp_dst_port :: "UdpHeader \<Rightarrow> u16" where
  "udp_dst_port h = u16_from_be (udp_dst_port_raw h)"

definition udp_set_dst_port :: "UdpHeader \<Rightarrow> u16 \<Rightarrow> UdpHeader" where
  "udp_set_dst_port h v = h\<lparr>udp_dst_port_raw := u16_to_be v\<rparr>"

definition udp_length :: "UdpHeader \<Rightarrow> u16" where
  "udp_length h = u16_from_be (udp_len_raw h)"

definition udp_set_length :: "UdpHeader \<Rightarrow> u16 \<Rightarrow> UdpHeader" where
  "udp_set_length h v = h\<lparr>udp_len_raw := u16_to_be v\<rparr>"

definition udp_checksum :: "UdpHeader \<Rightarrow> u16" where
  "udp_checksum h = u16_from_be (udp_csum_raw h)"

definition udp_set_checksum :: "UdpHeader \<Rightarrow> u16 \<Rightarrow> UdpHeader" where
  "udp_set_checksum h v = h\<lparr>udp_csum_raw := u16_to_be v\<rparr>"

definition udp_offset :: "UdpHeader \<Rightarrow> nat" where
  "udp_offset h = 8"

definition udp_size :: nat where
  "udp_size = 8"

definition udp_payload_size :: "UdpHeader \<Rightarrow> nat \<Rightarrow> nat option" where
  "udp_payload_size h hint = len_sub (unat (udp_length h)) (udp_offset h)"

definition udp_check_correct :: "UdpHeader \<Rightarrow> IpHeader \<Rightarrow> bool" where
  "udp_check_correct h prev = True"

interpretation udp_end: end_offset udp_offset udp_payload_size "\<lambda>h hint. unat (udp_length h)"
  by unfold_locales (simp add: udp_payload_size_def)

definition UdpHeader_of_bytes :: "u8 list \<Rightarrow> UdpHeader" where
  "UdpHeader_of_bytes bs = \<lparr>udp_src_port_raw = le16 (bs ! 0) (bs ! 1), udp_dst_port_raw = le16 (bs ! 2) (bs ! 3),
     udp_len_raw = le16 (bs ! 4) (bs ! 5), udp_csum_raw = le16 (bs ! 6) (bs ! 7)\<rparr>"

definition UdpHeader_to_bytes :: "UdpHeader \<Rightarrow> u8 list" where
  "UdpHeader_to_bytes h = le16_bytes (udp_src_port_raw h) @ le16_bytes (udp_dst_port_raw h) @
     le16_bytes (udp_len_raw h) @ le16_bytes (udp_csum_raw h)"

record udp_fields =
  u_src_port :: u16
  u_dst_port :: u16
  u_length :: u16
  u_csum :: u16

definition udp_view :: "UdpHeader \<Rightarrow> udp_fields" where
  "udp_view h = (let b = (\<lambda>i. UdpHeader_to_bytes h ! i) in \<lparr>
     u_src_port = be16 (b 0) (b 1), u_dst_port = be16 (b 2) (b 3), u_length = be16 (b 4) (b 5),
     u_csum = be16 (b 6) (b 7)\<rparr>)"

section \<open>Accessors and the wire format\<close>

lemmas tcp_bytes_defs = tcp_view_def TcpHeader_to_bytes_def le32_bytes_def le16_bytes_def le16_def le32_def Let_def
lemmas tcp_access_defs = tcp_src_port_def tcp_dst_port_def tcp_seq_num_def tcp_ack_num_def tcp_window_size_def
  tcp_checksum_def tcp_urgent_def tcp_data_offset_def tcp_set_src_port_def tcp_set_dst_port_def
  tcp_set_seq_num_def tcp_set_ack_num_def tcp_set_window_size_def tcp_set_checksum_def tcp_set_urgent_def
  tcp_set_data_offset_def ns_flag_def set_ns_def unset_ns_def u16_swap_def u32_swap_def
lemmas flag_defs = cwr_flag_def ece_flag_def urg_flag_def ack_flag_def psh_flag_def rst_flag_def syn_flag_def
  fin_flag_def CWR_def ECE_def URG_def ACK_def PSH_def RST_def SYN_def FIN_def
lemmas set_flag_defs = set_cwr_flag_def set_ece_flag_def set_urg_flag_def set_ack_flag_def set_psh_flag_def
  set_rst_flag_def set_syn_flag_def set_fin_flag_def unset_cwr_flag_def unset_ece_flag_def unset_urg_flag_def
  unset_ack_flag_def unset_psh_flag_def unset_rst_flag_def unset_syn_flag_def unset_fin_flag_def

lemma tcp_getters_view:
  "tcp_src_port h = t_src_port (tcp_view h)" "tcp_dst_port h = t_dst_port (tcp_view h)"
  "tcp_seq_num h = t_seq (tcp_view h)" "tcp_ack_num h = t_ack (tcp_view h)"
  "tcp_data_offset h = t_data_offset (tcp_view h)" "ns_flag h = t_ns (tcp_view h)"
  "tcp_window_size h = t_window (tcp_view h)" "tcp_checksum h = t_csum (tcp_view h)"
  "tcp_urgent h = t_urgent (tcp_view h)"
  by (simp_all add: tcp_bytes_defs tcp_access_defs word_blast bit_simps)

lemma tcp_setters_view:
  "tcp_view (tcp_set_src_port h p) = (tcp_view h)\<lparr>t_src_port := p\<rparr>"
  "tcp_view (tcp_set_dst_port h p) = (tcp_view h)\<lparr>t_dst_port := p\<rparr>"
  "tcp_view (tcp_set_seq_num h n) = (tcp_view h)\<lparr>t_seq := n\<rparr>"
  "tcp_view (tcp_set_ack_num h n) = (tcp_view h)\<lparr>t_ack := n\<rparr>"
  "tcp_view (tcp_set_window_size h p) = (tcp_view h)\<lparr>t_window := p\<rparr>"
  "tcp_view (tcp_set_checksum h p) = (tcp_view h)\<lparr>t_csum := p\<rparr>"
  "tcp_view (tcp_set_urgent h p) = (tcp_view h)\<lparr>t_urgent := p\<rparr>"
  by (simp_all add: tcp_bytes_defs tcp_access_defs word_blast bit_simps)

lemma tcp_offset_setters_view:
  "tcp_view (tcp_set_data_offset h v) = (tcp_view h)\<lparr>t_data_offset := v AND 0xf\<rparr>"
  "tcp_view (set_ns h) = (tcp_view h)\<lparr>t_ns := True\<rparr>"
  "tcp_view (unset_ns h) = (tcp_view h)\<lparr>t_ns := False\<rparr>"
  by (simp_all add: tcp_bytes_defs tcp_access_defs word_blast bit_simps)

lemma udp_view_accessors:
  "udp_src_port h = u_src_port (udp_view h)" "udp_dst_port h = u_dst_port (udp_view h)"
  "udp_length h = u_length (udp_view h)" "udp_checksum h = u_csum (udp_view h)"
  "udp_view (udp_set_src_port h p) = (udp_view h)\<lparr>u_src_port := p\<rparr>"
  "udp_view (udp_set_dst_port h p) = (udp_view h)\<lparr>u_dst_port := p\<rparr>"
  "udp_view (udp_set_length h p) = (udp_view h)\<lparr>u_length := p\<rparr>"
  "udp_view (udp_set_checksum h p) = (udp_view h)\<lparr>u_csum := p\<rparr>"
  by (simp_all add: udp_view_def UdpHeader_to_bytes_def le16_bytes_def le16_def Let_def udp_src_port_def
      udp_dst_port_def udp_length_def udp_checksum_def udp_set_src_port_def udp_set_dst_port_def
      udp_set_length_def udp_set_checksum_def u16_swap_def word_blast bit_simps)

lemma tcp_flags_bits:
  "cwr_flag h = bit (t_flags (tcp_view h)) 7" "ece_flag h = bit (t_flags (tcp_view h)) 6"
  "urg_flag h = bit (t_flags (tcp_view h)) 5" "ack_flag h = bit (t_flags (tcp_view h)) 4"
  "psh_flag h = bit (t_flags (tcp_view h)) 3" "rst_flag h = bit (t_flags (tcp_view h)) 2"
  "syn_flag h = bit (t_flags (tcp_view h)) 1" "fin_flag h = bit (t_flags (tcp_view h)) 0"
  by (simp_all add: tcp_bytes_defs flag_defs word_blast bit_simps)

lemma tcp_set_flags_bits:
  "tcp_view (set_cwr_flag h) = (tcp_view h)\<lparr>t_flags := set_bit 7 (t_flags (tcp_view h))\<rparr>"
  "tcp_view (set_ece_flag h) = (tcp_view h)\<lparr>t_flags := set_bit 6 (t_flags (tcp_view h))\<rparr>"
  "tcp_view (set_urg_flag h) = (tcp_view h)\<lparr>t_flags := set_bit 5 (t_flags (tcp_view h))\<rparr>"
  "tcp_view (set_ack_flag h) = (tcp_view h)\<lparr>t_flags := set_bit 4 (t_flags (tcp_view h))\<rparr>"
  "tcp_view (set_psh_flag h) = (tcp_view h)\<lparr>t_flags := set_bit 3 (t_flags (tcp_view h))\<rparr>"
  "tcp_view (set_rst_flag h) = (tcp_view h)\<lparr>t_flags := set_bit 2 (t_flags (tcp_view h))\<rparr>"
  "tcp_view (set_syn_flag h) = (tcp_view h)\<lparr>t_flags := set_bit 1 (t_flags (tcp_view h))\<rparr>"
  "tcp_view (set_fin_flag h) = (tcp_view h)\<lparr>t_flags := set_bit 0 (t_flags (tcp_view h))\<rparr>"
  by (simp_all add: tcp_bytes_defs flag_defs set_flag_defs word_blast bit_simps)

lemma tcp_unset_flags_bits:
  "tcp_view (unset_cwr_flag h) = (tcp_view h)\<lparr>t_flags := unset_bit 7 (t_flags (tcp_view h))\<rparr>"
  "tcp_view (unset_ece_flag h) = (tcp_view h)\<lparr>t_flags := unset_bit 6 (t_flags (tcp_view h))\<rparr>"
  "tcp_view (unset_urg_flag h) = (tcp_view h)\<lparr>t_flags := unset_bit 5 (t_flags (tcp_view h))\<rparr>"
  "tcp_view (unset_ack_flag h) = (tcp_view h)\<lparr>t_flags := unset_bit 4 (t_flags (tcp_view h))\<rparr>"
  "tcp_view (unset_psh_flag h) = (tcp_view h)\<lparr>t_flags := unset_bit 3 (t_flags (tcp_view h))\<rparr>"
  "tcp_view (unset_rst_flag h) = (tcp_view h)\<lparr>t_flags := unset_bit 2 (t_flags (tcp_view h))\<rparr>"
  "tcp_view (unset_syn_flag h) = (tcp_view h)\<lparr>t_flags := unset_bit 1 (t_flags (tcp_view h))\<rparr>"
  "tcp_view (unset_fin_flag h) = (tcp_view h)\<lparr>t_flags := unset_bit 0 (t_flags (tcp_view h))\<rparr>"
  by (simp_all add: tcp_bytes_defs flag_defs set_flag_defs word_blast bit_simps)

lemma tcp_offset_eq: "tcp_offset h = 4 * unat (tcp_data_offset h)" "tcp_offset h \<le> 60"
proof -
  have "tcp_data_offset h = tcp_data_offset h AND 2 ^ 4 - 1"
    by (simp add: tcp_data_offset_def word_blast bit_simps)
  then have "unat (tcp_data_offset h) = unat (tcp_data_offset h) mod 2 ^ 4"
    using unat_and_pow2_minus_1 [of 4 "tcp_data_offset h"] by simp
  then have "unat (tcp_data_offset h) \<le> 15" by simp
  then show "tcp_offset h = 4 * unat (tcp_data_offset h)" "tcp_offset h \<le> 60"
    by (simp_all add: tcp_offset_def unat_word_ariths)
qed

section \<open>Properties\<close>

text \<open>
  C38: The accessors of \<open>TcpHeader\<close> read and write exactly the fields of the TCP wire format, and the
  header length computed from the data offset never overflows.
\<close>
theorem tcp_accessors_refine_wire:
  "tcp_src_port h = t_src_port (tcp_view h) \<and> tcp_dst_port h = t_dst_port (tcp_view h) \<and>
   tcp_seq_num h = t_seq (tcp_view h) \<and> tcp_ack_num h = t_ack (tcp_view h) \<and>
   tcp_data_offset h = t_data_offset (tcp_view h) \<and> tcp_window_size h = t_window (tcp_view h) \<and>
   tcp_checksum h = t_csum (tcp_view h) \<and> tcp_urgent h = t_urgent (tcp_view h) \<and>
   tcp_view (tcp_set_src_port h p) = (tcp_view h)\<lparr>t_src_port := p\<rparr> \<and>
   tcp_view (tcp_set_dst_port h p) = (tcp_view h)\<lparr>t_dst_port := p\<rparr> \<and>
   tcp_view (tcp_set_seq_num h n) = (tcp_view h)\<lparr>t_seq := n\<rparr> \<and>
   tcp_view (tcp_set_ack_num h n) = (tcp_view h)\<lparr>t_ack := n\<rparr> \<and>
   tcp_view (tcp_set_data_offset h v) = (tcp_view h)\<lparr>t_data_offset := v AND 0xf\<rparr> \<and>
   tcp_view (tcp_set_window_size h p) = (tcp_view h)\<lparr>t_window := p\<rparr> \<and>
   tcp_view (tcp_set_checksum h p) = (tcp_view h)\<lparr>t_csum := p\<rparr> \<and>
   tcp_view (tcp_set_urgent h p) = (tcp_view h)\<lparr>t_urgent := p\<rparr> \<and>
   tcp_offset h = 4 * unat (t_data_offset (tcp_view h)) \<and> tcp_offset h \<le> 60"
  by (intro conjI tcp_getters_view tcp_setters_view tcp_offset_setters_view tcp_offset_eq)
    (simp add: tcp_offset_eq tcp_getters_view)

text \<open>
  Each control-bit accessor of \<open>TcpHeader\<close> reads, sets or clears its own bit of the flags byte (the
  NS bit is in the byte before it) and touches no other field or bit.
\<close>
theorem tcp_flags_refine_wire:
  "ns_flag h = t_ns (tcp_view h) \<and> tcp_view (set_ns h) = (tcp_view h)\<lparr>t_ns := True\<rparr> \<and>
   tcp_view (unset_ns h) = (tcp_view h)\<lparr>t_ns := False\<rparr> \<and>
   map (\<lambda>f. f h) [fin_flag, syn_flag, rst_flag, psh_flag, ack_flag, urg_flag, ece_flag, cwr_flag] =
     map (bit (t_flags (tcp_view h))) [0..<8] \<and>
   map (\<lambda>f. tcp_view (f h)) [set_fin_flag, set_syn_flag, set_rst_flag, set_psh_flag, set_ack_flag,
       set_urg_flag, set_ece_flag, set_cwr_flag] =
     map (\<lambda>k. (tcp_view h)\<lparr>t_flags := set_bit k (t_flags (tcp_view h))\<rparr>) [0..<8] \<and>
   map (\<lambda>f. tcp_view (f h)) [unset_fin_flag, unset_syn_flag, unset_rst_flag, unset_psh_flag, unset_ack_flag,
       unset_urg_flag, unset_ece_flag, unset_cwr_flag] =
     map (\<lambda>k. (tcp_view h)\<lparr>t_flags := unset_bit k (t_flags (tcp_view h))\<rparr>) [0..<8]"
  by (simp add: tcp_flags_bits tcp_set_flags_bits tcp_unset_flags_bits tcp_getters_view tcp_offset_setters_view
      upto8 del: upt_Suc)

text \<open>
  The accessors of \<open>UdpHeader\<close> read and write exactly the fields of the UDP wire format.
\<close>
theorem udp_accessors_refine_wire:
  "udp_src_port h = u_src_port (udp_view h) \<and> udp_dst_port h = u_dst_port (udp_view h) \<and>
   udp_length h = u_length (udp_view h) \<and> udp_checksum h = u_csum (udp_view h) \<and>
   udp_view (udp_set_src_port h p) = (udp_view h)\<lparr>u_src_port := p\<rparr> \<and>
   udp_view (udp_set_dst_port h p) = (udp_view h)\<lparr>u_dst_port := p\<rparr> \<and>
   udp_view (udp_set_length h p) = (udp_view h)\<lparr>u_length := p\<rparr> \<and>
   udp_view (udp_set_checksum h p) = (udp_view h)\<lparr>u_csum := p\<rparr>"
  by (intro conjI udp_view_accessors)

end
