(* ===== verification/NB_Packet.thy ===== *)
theory NB_Packet
  imports NB_MBuf NB_Tcp_Udp
begin

text \<open>
  \<open>Packet\<close> of \<open>framework/src/interface/packet.rs\<close> (default build, without the \<open>packet_offset\<close> feature).
  The mbufs live in a heap indexed by their address; a packet holds the address of its mbuf, the
  address of its current header and the offset of that header from the start of the data.  The phantom
  type parameter of the header is the field \<open>pkt_type\<close>.  The native allocator is a parameter.

  Raw memory accesses are checked in the model: an access outside the buffer of the mbuf, a null or
  dangling mbuf and a \<open>copy_nonoverlapping\<close> of overlapping ranges are undefined behaviour in the source
  and \<open>None\<close> here, so a theorem that concludes \<open>Some\<close> also shows memory safety.
\<close>

section \<open>Header types\<close>

datatype header_type = HNull | HMac | HIp | HTcp | HUdp

definition hdr_size :: "header_type \<Rightarrow> nat" where
  "hdr_size t = (case t of HNull \<Rightarrow> null_size | HMac \<Rightarrow> mac_size | HIp \<Rightarrow> ip_size | HTcp \<Rightarrow> tcp_size | HUdp \<Rightarrow> udp_size)"

definition previous_header :: "header_type \<Rightarrow> header_type" where
  "previous_header t = (case t of HNull \<Rightarrow> HNull | HMac \<Rightarrow> HNull | HIp \<Rightarrow> HMac | HTcp \<Rightarrow> HIp | HUdp \<Rightarrow> HIp)"

text \<open>\<open>offset()\<close> of the struct that is laid over the given memory.\<close>

definition hdr_offset :: "header_type \<Rightarrow> u8 list \<Rightarrow> nat option" where
  "hdr_offset t mem =
     (if length mem < hdr_size t then None
      else Some (case t of
          HNull \<Rightarrow> null_offset NullHeader
        | HMac \<Rightarrow> mac_offset (MacHeader_of_bytes mem)
        | HIp \<Rightarrow> ip_offset (IpHeader_of_bytes mem)
        | HTcp \<Rightarrow> tcp_offset (TcpHeader_of_bytes mem)
        | HUdp \<Rightarrow> udp_offset (UdpHeader_of_bytes mem)))"

section \<open>Memory\<close>

type_synonym heap = "nat \<rightharpoonup> MBuf"

definition mem_at :: "MBuf \<Rightarrow> nat \<Rightarrow> nat \<Rightarrow> u8 list option" where
  "mem_at m a n = (if buf_addr m \<le> a then slice_range (a - buf_addr m) (a - buf_addr m + n) (mb_buf m) else None)"

definition mem_write :: "MBuf \<Rightarrow> nat \<Rightarrow> u8 list \<Rightarrow> MBuf option" where
  "mem_write m a bs = do {
     _ \<leftarrow> mem_at m a (length bs);
     Some (m\<lparr>mb_buf := blit (a - buf_addr m) bs (mb_buf m)\<rparr>)
   }"

definition copy_nonoverlapping :: "MBuf \<Rightarrow> nat \<Rightarrow> nat \<Rightarrow> nat \<Rightarrow> MBuf option" where
  "copy_nonoverlapping m src dst n = do {
     bs \<leftarrow> mem_at m src n;
     _ \<leftarrow> rust_assert (src + n \<le> dst \<or> dst + n \<le> src);
     mem_write m dst bs
   }"

section \<open>Packets\<close>

record Packet =
  pkt_mbuf :: nat
  pkt_header :: nat
  pkt_offset :: nat
  pkt_type :: header_type

definition create_packet :: "nat \<Rightarrow> nat \<Rightarrow> nat \<Rightarrow> header_type \<Rightarrow> Packet" where
  "create_packet mbuf hdr offset t = \<lparr>pkt_mbuf = mbuf, pkt_header = hdr, pkt_offset = offset, pkt_type = t\<rparr>"

definition deref :: "heap \<Rightarrow> nat \<Rightarrow> MBuf option" where
  "deref h a = (if a = 0 then None else h a)"

definition reference_mbuf :: "heap \<Rightarrow> nat \<Rightarrow> heap option" where
  "reference_mbuf h a = do {
     m \<leftarrow> deref h a;
     m \<leftarrow> reference m;
     Some (h(a \<mapsto> m))
   }"

definition METADATA_SLOTS :: nat where "METADATA_SLOTS = 16"
definition HEADER_SLOT :: nat where "HEADER_SLOT = 0"
definition OFFSET_SLOT :: nat where "OFFSET_SLOT = HEADER_SLOT + 1"
definition STACK_DEPTH_SLOT :: nat where "STACK_DEPTH_SLOT = OFFSET_SLOT + 1"
definition STACK_OFFSET_SLOT :: nat where "STACK_OFFSET_SLOT = STACK_DEPTH_SLOT + 1"
definition STACK_SIZE :: nat where "STACK_SIZE = 0"
definition END_OF_STACK_SLOT :: nat where "END_OF_STACK_SLOT = STACK_OFFSET_SLOT + STACK_SIZE"
definition FREEFORM_METADATA_SLOT :: nat where "FREEFORM_METADATA_SLOT = END_OF_STACK_SLOT"
definition FREEFORM_METADATA_SIZE :: nat where
  "FREEFORM_METADATA_SIZE = (METADATA_SLOTS - FREEFORM_METADATA_SLOT) * 8"

definition packet_from_mbuf_no_increment :: "heap \<Rightarrow> nat \<Rightarrow> nat \<Rightarrow> header_type \<Rightarrow> Packet option" where
  "packet_from_mbuf_no_increment h mbuf offset t = do {
     m \<leftarrow> deref h mbuf;
     let header = data_address m offset;
     Some (create_packet mbuf header offset t)
   }"

definition packet_from_mbuf :: "heap \<Rightarrow> nat \<Rightarrow> nat \<Rightarrow> header_type \<Rightarrow> (Packet \<times> heap) option" where
  "packet_from_mbuf h mbuf offset t = do {
     h \<leftarrow> reference_mbuf h mbuf;
     p \<leftarrow> packet_from_mbuf_no_increment h mbuf offset t;
     Some (p, h)
   }"

definition packet_from_mbuf_no_free :: "heap \<Rightarrow> nat \<Rightarrow> nat \<Rightarrow> header_type \<Rightarrow> Packet option" where
  "packet_from_mbuf_no_free h mbuf offset t = packet_from_mbuf_no_increment h mbuf offset t"

text \<open>\<open>mbuf_alloc\<close> gives an address, 0 on failure, and the new heap.\<close>

definition new_packet :: "(heap \<Rightarrow> nat \<times> heap) \<Rightarrow> heap \<Rightarrow> (Packet option \<times> heap) option" where
  "new_packet mbuf_alloc h = do {
     let (mbuf, h) = mbuf_alloc h;
     if mbuf = 0 then Some (None, h)
     else do {
       p \<leftarrow> packet_from_mbuf_no_increment h mbuf 0 HNull;
       Some (Some p, h)
     }
   }"

fun packets_from_mbufs :: "heap \<Rightarrow> nat list \<Rightarrow> Packet list option" where
  "packets_from_mbufs h [] = Some []"
| "packets_from_mbufs h (m # ms) = do {
     p \<leftarrow> packet_from_mbuf_no_increment h m 0 HNull;
     ps \<leftarrow> packets_from_mbufs h ms;
     Some (p # ps)
   }"

text \<open>\<open>mbuf_alloc_bulk\<close> gives its return code and the addresses it stored in the array.\<close>

definition new_packet_array ::
  "(heap \<Rightarrow> nat \<Rightarrow> int \<times> nat list \<times> heap) \<Rightarrow> heap \<Rightarrow> nat \<Rightarrow> (Packet list \<times> heap) option" where
  "new_packet_array mbuf_alloc_bulk h count = do {
     let (alloc_ret, array, h) = mbuf_alloc_bulk h count;
     let array = (if alloc_ret = 0 then array else []);
     ps \<leftarrow> packets_from_mbufs h array;
     Some (ps, h)
   }"

definition header :: "Packet \<Rightarrow> nat" where
  "header p = pkt_header p"

definition header_u8 :: "Packet \<Rightarrow> nat" where
  "header_u8 p = pkt_header p"

definition offset :: "Packet \<Rightarrow> nat" where
  "offset p = pkt_offset p"

definition read_slot :: "heap \<Rightarrow> Packet \<Rightarrow> nat \<Rightarrow> usize option" where
  "read_slot h p slot = do {
     m \<leftarrow> deref h (pkt_mbuf p);
     read_metadata_slot m slot
   }"

definition write_slot :: "heap \<Rightarrow> Packet \<Rightarrow> nat \<Rightarrow> usize \<Rightarrow> heap option" where
  "write_slot h p slot v = do {
     m \<leftarrow> deref h (pkt_mbuf p);
     m \<leftarrow> write_metadata_slot m slot v;
     Some (h(pkt_mbuf p \<mapsto> m))
   }"

definition read_stack_depth :: "heap \<Rightarrow> Packet \<Rightarrow> usize option" where
  "read_stack_depth h p = read_slot h p STACK_DEPTH_SLOT"

definition write_stack_depth :: "heap \<Rightarrow> Packet \<Rightarrow> usize \<Rightarrow> heap option" where
  "write_stack_depth h p new_depth = write_slot h p STACK_DEPTH_SLOT new_depth"

definition read_stack_offset :: "heap \<Rightarrow> Packet \<Rightarrow> usize \<Rightarrow> usize option" where
  "read_stack_offset h p depth = read_slot h p (STACK_OFFSET_SLOT + unat depth)"

definition write_stack_offset :: "heap \<Rightarrow> Packet \<Rightarrow> usize \<Rightarrow> usize \<Rightarrow> heap option" where
  "write_stack_offset h p depth off = write_slot h p (STACK_OFFSET_SLOT + unat depth) off"

definition reset_stack_offset :: "heap \<Rightarrow> Packet \<Rightarrow> heap option" where
  "reset_stack_offset h p = write_stack_depth h p 0"

definition push_offset :: "heap \<Rightarrow> Packet \<Rightarrow> usize \<Rightarrow> (usize option \<times> heap) option" where
  "push_offset h p off = do {
     depth \<leftarrow> read_stack_depth h p;
     if unat depth < STACK_SIZE then do {
       depth1 \<leftarrow> checked_add depth 1;
       h \<leftarrow> write_stack_depth h p depth1;
       h \<leftarrow> write_stack_offset h p depth off;
       Some (Some depth1, h)
     } else Some (None, h)
   }"

definition pop_offset :: "heap \<Rightarrow> Packet \<Rightarrow> (usize option \<times> heap) option" where
  "pop_offset h p = do {
     depth \<leftarrow> read_stack_depth h p;
     if depth > 0 then do {
       h \<leftarrow> write_stack_depth h p (depth - 1);
       off \<leftarrow> read_stack_offset h p (depth - 1);
       Some (Some off, h)
     } else Some (None, h)
   }"

definition free_packet :: "(heap \<Rightarrow> nat \<Rightarrow> heap) \<Rightarrow> heap \<Rightarrow> Packet \<Rightarrow> heap" where
  "free_packet mbuf_free h p = (if pkt_mbuf p \<noteq> 0 then mbuf_free h (pkt_mbuf p) else h)"

definition update_ptrs :: "heap \<Rightarrow> Packet \<Rightarrow> nat \<Rightarrow> nat \<Rightarrow> heap option" where
  "update_ptrs h p hdr off = do {
     h \<leftarrow> write_slot h p HEADER_SLOT (of_nat hdr);
     write_slot h p OFFSET_SLOT (of_nat off)
   }"

definition save_header_and_offset :: "heap \<Rightarrow> Packet \<Rightarrow> heap option" where
  "save_header_and_offset h p = update_ptrs h p (header_u8 p) (offset p)"

definition read_header :: "heap \<Rightarrow> Packet \<Rightarrow> nat option" where
  "read_header h p = map_option unat (read_slot h p HEADER_SLOT)"

definition read_offset_slot :: "heap \<Rightarrow> Packet \<Rightarrow> nat option" where
  "read_offset_slot h p = map_option unat (read_slot h p OFFSET_SLOT)"

definition payload_offset :: "heap \<Rightarrow> Packet \<Rightarrow> nat option" where
  "payload_offset h p = do {
     m \<leftarrow> deref h (pkt_mbuf p);
     hdr \<leftarrow> mem_at m (header p) (hdr_size (pkt_type p));
     hdr_offset (pkt_type p) hdr
   }"

definition payload :: "heap \<Rightarrow> Packet \<Rightarrow> nat option" where
  "payload h p = do {
     po \<leftarrow> payload_offset h p;
     Some (header_u8 p + po)
   }"

definition data_base :: "heap \<Rightarrow> Packet \<Rightarrow> nat option" where
  "data_base h p = do {
     m \<leftarrow> deref h (pkt_mbuf p);
     Some (data_address m 0)
   }"

definition pkt_data_len :: "heap \<Rightarrow> Packet \<Rightarrow> nat option" where
  "pkt_data_len h p = do {
     m \<leftarrow> deref h (pkt_mbuf p);
     Some (data_len m)
   }"

text \<open>A subtraction of two \<open>usize\<close> values in the release build, the one that \<open>build.sh\<close> makes: it wraps around.\<close>

definition wrapping_len_sub :: "nat \<Rightarrow> nat \<Rightarrow> nat" where
  "wrapping_len_sub a b = unat (of_nat a - of_nat b :: usize)"

definition payload_size :: "heap \<Rightarrow> Packet \<Rightarrow> nat option" where
  "payload_size h p = do {
     dl \<leftarrow> pkt_data_len h p;
     po \<leftarrow> payload_offset h p;
     Some (wrapping_len_sub (wrapping_len_sub dl (offset p)) po)
   }"

definition get_header :: "heap \<Rightarrow> Packet \<Rightarrow> u8 list option" where
  "get_header h p = do {
     m \<leftarrow> deref h (pkt_mbuf p);
     mem_at m (header p) (hdr_size (pkt_type p))
   }"

text \<open>A store through the reference that \<open>get_mut_header\<close> returns.\<close>

definition get_mut_header :: "heap \<Rightarrow> Packet \<Rightarrow> (u8 list \<Rightarrow> u8 list) \<Rightarrow> heap option" where
  "get_mut_header h p f = do {
     m \<leftarrow> deref h (pkt_mbuf p);
     hdr \<leftarrow> mem_at m (header p) (hdr_size (pkt_type p));
     m \<leftarrow> mem_write m (header p) (f hdr);
     Some (h(pkt_mbuf p \<mapsto> m))
   }"

definition read_metadata :: "heap \<Rightarrow> Packet \<Rightarrow> nat \<Rightarrow> u8 list option" where
  "read_metadata h p size_of = do {
     _ \<leftarrow> rust_assert (size_of < FREEFORM_METADATA_SIZE);
     m \<leftarrow> deref h (pkt_mbuf p);
     metadata_as m FREEFORM_METADATA_SLOT size_of
   }"

definition write_metadata :: "heap \<Rightarrow> Packet \<Rightarrow> u8 list \<Rightarrow> (unit result \<times> heap) option" where
  "write_metadata h p metadata =
     (if length metadata \<ge> FREEFORM_METADATA_SIZE then Some (Inl MetadataTooLarge, h)
      else do {
        m \<leftarrow> deref h (pkt_mbuf p);
        m \<leftarrow> mut_metadata_as m FREEFORM_METADATA_SLOT metadata;
        Some (Inr (), h(pkt_mbuf p \<mapsto> m))
      })"

text \<open>Metadata types are not represented, so reinterpreting them keeps the packet.\<close>

definition reinterpret_metadata :: "Packet \<Rightarrow> Packet" where
  "reinterpret_metadata p = create_packet (pkt_mbuf p) (header p) (offset p) (pkt_type p)"

text \<open>\<open>hdr\<close> is the memory image of the header that is pushed, \<open>t\<close> its type.\<close>

definition push_header ::
  "heap \<Rightarrow> Packet \<Rightarrow> header_type \<Rightarrow> u8 list \<Rightarrow> (Packet option \<times> heap) option" where
  "push_header h p t hdr = do {
     len \<leftarrow> pkt_data_len h p;
     size \<leftarrow> hdr_offset t hdr;
     m \<leftarrow> deref h (pkt_mbuf p);
     (added, m) \<leftarrow> add_data_end m size;
     let h = h(pkt_mbuf p \<mapsto> m);
     po \<leftarrow> payload_offset h p;
     let off = offset p + po;
     if added \<ge> size then do {
       dst \<leftarrow> payload h p;
       m \<leftarrow> (if len \<noteq> off then do {
               to_move \<leftarrow> len_sub len off;
               copy_nonoverlapping m dst (dst + size) to_move
             } else Some m);
       m \<leftarrow> mem_write m dst hdr;
       Some (Some (create_packet (pkt_mbuf p) dst off t), h(pkt_mbuf p \<mapsto> m))
     } else Some (None, h)
   }"

definition remove_from_payload_head :: "heap \<Rightarrow> Packet \<Rightarrow> nat \<Rightarrow> (unit result \<times> heap) option" where
  "remove_from_payload_head h p n = do {
     src \<leftarrow> data_base h p;
     let dst = src + n;
     m \<leftarrow> deref h (pkt_mbuf p);
     m \<leftarrow> copy_nonoverlapping m src dst n;
     (_, m) \<leftarrow> remove_data_beginning m n;
     Some (Inr (), h(pkt_mbuf p \<mapsto> m))
   }"

definition add_to_payload_head :: "heap \<Rightarrow> Packet \<Rightarrow> nat \<Rightarrow> (unit result \<times> heap) option" where
  "add_to_payload_head h p n = do {
     m \<leftarrow> deref h (pkt_mbuf p);
     (added, m) \<leftarrow> add_data_end m n;
     let h = h(pkt_mbuf p \<mapsto> m);
     if added \<ge> n then do {
       src \<leftarrow> payload h p;
       let dst = src + n;
       m \<leftarrow> copy_nonoverlapping m src dst n;
       Some (Inr (), h(pkt_mbuf p \<mapsto> m))
     } else Some (Inl FailedAllocation, h)
   }"

definition remove_from_payload_tail :: "heap \<Rightarrow> Packet \<Rightarrow> nat \<Rightarrow> (unit result \<times> heap) option" where
  "remove_from_payload_tail h p n = do {
     m \<leftarrow> deref h (pkt_mbuf p);
     (_, m) \<leftarrow> remove_data_end m n;
     Some (Inr (), h(pkt_mbuf p \<mapsto> m))
   }"

definition add_to_payload_tail :: "heap \<Rightarrow> Packet \<Rightarrow> nat \<Rightarrow> (unit result \<times> heap) option" where
  "add_to_payload_tail h p n = do {
     m \<leftarrow> deref h (pkt_mbuf p);
     (added, m) \<leftarrow> add_data_end m n;
     let h = h(pkt_mbuf p \<mapsto> m);
     Some (if added \<ge> n then Inr () else Inl FailedAllocation, h)
   }"

definition write_header :: "heap \<Rightarrow> Packet \<Rightarrow> u8 list \<Rightarrow> nat \<Rightarrow> (unit result \<times> heap) option" where
  "write_header h p hdr off = do {
     ps \<leftarrow> payload_size h p;
     if off > ps then Some (Inl (BadOffset off), h)
     else do {
       dst \<leftarrow> payload h p;
       m \<leftarrow> deref h (pkt_mbuf p);
       m \<leftarrow> mem_write m (dst + off) hdr;
       Some (Inr (), h(pkt_mbuf p \<mapsto> m))
     }
   }"

definition parse_header :: "heap \<Rightarrow> Packet \<Rightarrow> header_type \<Rightarrow> Packet option" where
  "parse_header h p t = do {
     ps \<leftarrow> payload_size h p;
     _ \<leftarrow> rust_assert (ps > hdr_size t);
     hdr \<leftarrow> payload h p;
     po \<leftarrow> payload_offset h p;
     Some (create_packet (pkt_mbuf p) hdr (offset p + po) t)
   }"

definition parse_header_and_record :: "heap \<Rightarrow> Packet \<Rightarrow> header_type \<Rightarrow> (Packet \<times> heap) option" where
  "parse_header_and_record h p t = do {
     ps \<leftarrow> payload_size h p;
     _ \<leftarrow> rust_assert (ps > hdr_size t);
     hdr \<leftarrow> payload h p;
     po \<leftarrow> payload_offset h p;
     let off = offset p + po;
     (r, h) \<leftarrow> push_offset h p (of_nat po);
     _ \<leftarrow> r;
     Some (create_packet (pkt_mbuf p) hdr off t, h)
   }"

definition restore_saved_header :: "heap \<Rightarrow> Packet \<Rightarrow> header_type \<Rightarrow> Packet option option" where
  "restore_saved_header h p t = do {
     hdr \<leftarrow> read_header h p;
     if hdr = 0 then Some None
     else do {
       off \<leftarrow> read_offset_slot h p;
       Some (Some (create_packet (pkt_mbuf p) hdr off t))
     }
   }"

definition replace_header :: "heap \<Rightarrow> Packet \<Rightarrow> u8 list \<Rightarrow> heap option" where
  "replace_header h p hdr = do {
     m \<leftarrow> deref h (pkt_mbuf p);
     m \<leftarrow> mem_write m (header p) hdr;
     Some (h(pkt_mbuf p \<mapsto> m))
   }"

definition deparse_header :: "Packet \<Rightarrow> nat \<Rightarrow> Packet option" where
  "deparse_header p off = do {
     let hdr = header_u8 p - off;
     new_offset \<leftarrow> len_sub (offset p) off;
     Some (create_packet (pkt_mbuf p) hdr new_offset (previous_header (pkt_type p)))
   }"

definition deparse_header_stack :: "heap \<Rightarrow> Packet \<Rightarrow> (Packet option \<times> heap) option" where
  "deparse_header_stack h p = do {
     (r, h) \<leftarrow> pop_offset h p;
     case r of
       None \<Rightarrow> Some (None, h)
     | Some off \<Rightarrow> do {
         q \<leftarrow> deparse_header p (unat off);
         Some (Some q, h)
       }
   }"

definition packet_reset :: "heap \<Rightarrow> Packet \<Rightarrow> Packet option" where
  "packet_reset h p = do {
     hdr \<leftarrow> data_base h p;
     Some (create_packet (pkt_mbuf p) hdr 0 HNull)
   }"

definition get_payload :: "heap \<Rightarrow> Packet \<Rightarrow> u8 list option" where
  "get_payload h p = do {
     len \<leftarrow> payload_size h p;
     ptr \<leftarrow> payload h p;
     m \<leftarrow> deref h (pkt_mbuf p);
     mem_at m ptr len
   }"

text \<open>A store through the slice that \<open>get_mut_payload\<close> returns; the closure keeps its length.\<close>

definition get_mut_payload :: "heap \<Rightarrow> Packet \<Rightarrow> (u8 list \<Rightarrow> u8 list) \<Rightarrow> heap option" where
  "get_mut_payload h p f = do {
     len \<leftarrow> payload_size h p;
     ptr \<leftarrow> payload h p;
     m \<leftarrow> deref h (pkt_mbuf p);
     bs \<leftarrow> mem_at m ptr len;
     m \<leftarrow> mem_write m ptr (f bs);
     Some (h(pkt_mbuf p \<mapsto> m))
   }"

definition increase_payload_size :: "heap \<Rightarrow> Packet \<Rightarrow> nat \<Rightarrow> (nat \<times> heap) option" where
  "increase_payload_size h p increase_by = do {
     m \<leftarrow> deref h (pkt_mbuf p);
     (n, m) \<leftarrow> add_data_end m increase_by;
     Some (n, h(pkt_mbuf p \<mapsto> m))
   }"

definition trim_payload_size :: "heap \<Rightarrow> Packet \<Rightarrow> nat \<Rightarrow> (nat \<times> heap) option" where
  "trim_payload_size h p trim_by = do {
     m \<leftarrow> deref h (pkt_mbuf p);
     (n, m) \<leftarrow> remove_data_end m trim_by;
     Some (n, h(pkt_mbuf p \<mapsto> m))
   }"

definition copy_payload :: "heap \<Rightarrow> Packet \<Rightarrow> Packet \<Rightarrow> (nat \<times> heap) option" where
  "copy_payload h p other = do {
     copy_len \<leftarrow> payload_size h other;
     dst \<leftarrow> payload h p;
     src \<leftarrow> payload h other;
     ps \<leftarrow> payload_size h p;
     (should_copy, h) \<leftarrow> (if ps < copy_len then do {
         (n, h) \<leftarrow> increase_payload_size h p (copy_len - ps);
         Some (ps + n, h)
       } else Some (copy_len, h));
     mo \<leftarrow> deref h (pkt_mbuf other);
     bs \<leftarrow> mem_at mo src should_copy;
     m \<leftarrow> deref h (pkt_mbuf p);
     _ \<leftarrow> rust_assert (pkt_mbuf p = pkt_mbuf other \<longrightarrow> src + should_copy \<le> dst \<or> dst + should_copy \<le> src);
     m \<leftarrow> mem_write m dst bs;
     Some (should_copy, h(pkt_mbuf p \<mapsto> m))
   }"

definition pkt_refcnt :: "heap \<Rightarrow> Packet \<Rightarrow> u16 option" where
  "pkt_refcnt h p = do {
     m \<leftarrow> deref h (pkt_mbuf p);
     Some (refcnt m)
   }"

text \<open>\<open>get_mbuf_ref\<close> takes the mbuf out of the packet and leaves a null pointer.\<close>

definition get_mbuf_ref :: "Packet \<Rightarrow> nat \<times> Packet" where
  "get_mbuf_ref p = (pkt_mbuf p, p\<lparr>pkt_mbuf := 0\<rparr>)"

definition get_mbuf :: "Packet \<Rightarrow> nat" where
  "get_mbuf p = fst (get_mbuf_ref p)"

section \<open>Well-formed packets\<close>

text \<open>
  The mbuf is alive and well-formed, and the current header lies inside the data at the recorded
  offset.  \<open>frame\<close> is the data of the packet.
\<close>

definition pkt_wf :: "heap \<Rightarrow> Packet \<Rightarrow> bool" where
  "pkt_wf h p \<longleftrightarrow> (case deref h (pkt_mbuf p) of None \<Rightarrow> False | Some m \<Rightarrow>
     mbuf_wf m \<and> pkt_header p = data_address m (pkt_offset p) \<and>
     pkt_offset p + hdr_size (pkt_type p) \<le> data_len m)"

definition frame :: "heap \<Rightarrow> Packet \<Rightarrow> u8 list" where
  "frame h p = (case deref h (pkt_mbuf p) of None \<Rightarrow> [] | Some m \<Rightarrow> mb_data m)"

lemma pkt_wfE:
  assumes "pkt_wf h p"
  obtains m where "deref h (pkt_mbuf p) = Some m" "mbuf_wf m" "pkt_header p = data_address m (pkt_offset p)"
    "pkt_offset p + hdr_size (pkt_type p) \<le> data_len m" "frame h p = mb_data m" "length (frame h p) = data_len m"
  using assms by (auto simp: pkt_wf_def frame_def mb_data_length split: option.splits)

lemma pkt_wfI:
  "deref h (pkt_mbuf p) = Some m \<Longrightarrow> mbuf_wf m \<Longrightarrow> pkt_header p = data_address m (pkt_offset p) \<Longrightarrow>
    pkt_offset p + hdr_size (pkt_type p) \<le> data_len m \<Longrightarrow> pkt_wf h p"
  by (simp add: pkt_wf_def)

lemma create_packet_simps [simp]:
  "pkt_mbuf (create_packet m hdr off t) = m" "pkt_header (create_packet m hdr off t) = hdr"
  "pkt_offset (create_packet m hdr off t) = off" "pkt_type (create_packet m hdr off t) = t"
  by (simp_all add: create_packet_def)

lemma accessor_simps [simp]: "header p = pkt_header p" "header_u8 p = pkt_header p" "offset p = pkt_offset p"
  by (simp_all add: header_def header_u8_def offset_def)

lemma deref_update [simp]: "deref (h(a \<mapsto> m)) b = (if b = 0 then None else if b = a then Some m else h b)"
  by (simp add: deref_def)

lemma deref_Some: "deref h a = Some m \<Longrightarrow> a \<noteq> 0 \<and> h a = Some m"
  by (simp add: deref_def split: if_splits)

lemma mem_at_data:
  assumes "mbuf_wf m" and "k + n \<le> data_len m"
  shows "mem_at m (data_address m k) n = Some (take n (drop k (mb_data m)))"
proof -
  let ?o = "unat (data_off m) + k"
  have "?o + n \<le> length (mb_buf m)" using assms by (simp add: mbuf_wf_def)
  moreover have "take n (drop k (mb_data m)) = take n (drop ?o (mb_buf m))"
    using assms(2) by (simp add: mb_data_def drop_take add.commute min_def)
  ultimately show ?thesis by (simp add: mem_at_def data_address_def slice_range_def)
qed

text \<open>What a store into the data of a packet leaves alone.\<close>

definition same_shape :: "MBuf \<Rightarrow> MBuf \<Rightarrow> bool" where
  "same_shape m m' \<longleftrightarrow> buf_addr m' = buf_addr m \<and> data_off m' = data_off m \<and> data_len m' = data_len m \<and>
     mb_meta m' = mb_meta m \<and> buf_len m' = buf_len m"

lemma same_shape_address: "same_shape m m' \<Longrightarrow> data_address m' k = data_address m k"
  by (simp add: same_shape_def data_address_def)

lemma mem_write_data:
  assumes wf: "mbuf_wf m" and fits: "k + length bs \<le> data_len m"
  shows "\<exists>m'. mem_write m (data_address m k) bs = Some m' \<and> mbuf_wf m' \<and> same_shape m m' \<and>
    mb_data m' = blit k bs (mb_data m)"
proof -
  let ?o = "unat (data_off m) + k"
  define m' where "m' = m\<lparr>mb_buf := blit ?o bs (mb_buf m)\<rparr>"
  have len: "?o + length bs \<le> length (mb_buf m)" "unat (data_off m) + data_len m \<le> length (mb_buf m)"
    using assms by (simp_all add: mbuf_wf_def)
  have "mem_write m (data_address m k) bs = Some m'"
    using mem_at_data [OF wf fits] by (simp add: mem_write_def m'_def data_address_def)
  moreover have "mbuf_wf m'" "same_shape m m'"
    using wf len(1) by (simp_all add: mbuf_unfold m'_def same_shape_def)
  moreover have "mb_data m' = blit k bs (mb_data m)"
  proof (rule nth_equalityI)
    show "length (mb_data m') = length (blit k bs (mb_data m))"
      using wf fits \<open>mbuf_wf m'\<close> by (simp add: mb_data_length) (simp add: m'_def data_len_def)
    fix i assume "i < length (mb_data m')"
    then have "i < data_len m" using \<open>mbuf_wf m'\<close> by (simp add: mb_data_length) (simp add: m'_def data_len_def)
    then show "mb_data m' ! i = blit k bs (mb_data m) ! i"
      using len fits wf by (auto simp: mb_data_def m'_def nth_blit mb_data_length data_len_def)
  qed
  ultimately show ?thesis by blast
qed

text \<open>The offset of the payload relative to the current header.\<close>

lemma payload_offset_wf:
  assumes "pkt_wf h p"
  shows "payload_offset h p =
    hdr_offset (pkt_type p) (take (hdr_size (pkt_type p)) (drop (pkt_offset p) (frame h p)))"
    "\<exists>po. payload_offset h p = Some po"
proof -
  obtain m where m: "deref h (pkt_mbuf p) = Some m" "mbuf_wf m" "pkt_header p = data_address m (pkt_offset p)"
    "pkt_offset p + hdr_size (pkt_type p) \<le> data_len m" "frame h p = mb_data m" "length (frame h p) = data_len m"
    using assms by (rule pkt_wfE)
  show eq: "payload_offset h p =
      hdr_offset (pkt_type p) (take (hdr_size (pkt_type p)) (drop (pkt_offset p) (frame h p)))"
    using m mem_at_data [OF m(2,4)] by (simp add: payload_offset_def)
  show "\<exists>po. payload_offset h p = Some po" unfolding eq using m by (simp add: hdr_offset_def)
qed

lemma wrapping_len_sub_simp:
  assumes "a < 2 ^ 64" and "b < 2 ^ 64"
  shows "wrapping_len_sub a b = (if b \<le> a then a - b else 2 ^ 64 + a - b)"
  using assms by (auto simp: wrapping_len_sub_def unat_sub_if' unat_of_nat)

lemma hdr_offset_bound: "hdr_offset t mem = Some po \<Longrightarrow> po \<le> 1020"
proof -
  have u8: "unat x < 256" for x :: u8 by (rule order_less_le_trans [OF unsigned_less]) simp
  have "unat (ip_ihl h) * 4 \<le> 1020" for h using u8 [of "ip_ihl h"] by simp
  moreover have "unat (tcp_data_offset h * 4) \<le> 1020" for h using u8 [of "tcp_data_offset h * 4"] by simp
  moreover assume "hdr_offset t mem = Some po"
  ultimately show ?thesis
    by (auto simp: hdr_offset_def null_offset_def mac_offset_def ip_offset_def tcp_offset_def udp_offset_def HDR_SIZE_def
        HDR_SIZE_802_1Q_def HDR_SIZE_802_1AD_def split: if_splits header_type.splits)
qed

lemma hdr_size_bound: "hdr_size t \<le> 20"
  by (cases t) (simp_all add: hdr_size_def null_size_def mac_size_def ip_size_def tcp_size_def udp_size_def HDR_SIZE_def)

lemma payload_bounds:
  assumes "pkt_wf h p" and "payload_offset h p = Some po"
  shows "pkt_offset p \<le> length (frame h p)" "length (frame h p) < 65536" "po \<le> 1020"
proof -
  obtain m where m: "pkt_offset p + hdr_size (pkt_type p) \<le> data_len m" "length (frame h p) = data_len m"
    using assms(1) by (rule pkt_wfE)
  have "data_len m < 65536" unfolding data_len_def by (rule order_less_le_trans [OF unsigned_less]) simp
  with m show "pkt_offset p \<le> length (frame h p)" "length (frame h p) < 65536" by simp_all
  show "po \<le> 1020" using payload_offset_wf(1) [OF assms(1)] assms(2) hdr_offset_bound by metis
qed

lemma payload_size_wf:
  assumes "pkt_wf h p" and "payload_offset h p = Some po"
  shows "payload_size h p = Some (if pkt_offset p + po \<le> length (frame h p) then length (frame h p) - (pkt_offset p + po)
    else 2 ^ 64 + length (frame h p) - (pkt_offset p + po))"
proof -
  note b = payload_bounds [OF assms]
  have "pkt_data_len h p = Some (length (frame h p))" using assms(1) by (rule pkt_wfE) (simp add: pkt_data_len_def)
  with b show ?thesis by (simp add: payload_size_def assms(2) wrapping_len_sub_simp)
qed

lemma get_payload_wf:
  assumes wf: "pkt_wf h p" and po: "payload_offset h p = Some po"
  shows "get_payload h p =
    (if pkt_offset p + po \<le> length (frame h p) then Some (drop (pkt_offset p + po) (frame h p)) else None)"
proof -
  obtain m where m: "deref h (pkt_mbuf p) = Some m" "mbuf_wf m" "pkt_header p = data_address m (pkt_offset p)"
    "pkt_offset p + hdr_size (pkt_type p) \<le> data_len m" "frame h p = mb_data m" "length (frame h p) = data_len m"
    using wf by (rule pkt_wfE)
  have adr: "pkt_header p + po = data_address m (pkt_offset p + po)" by (simp add: m(3) data_address_def)
  show ?thesis
  proof (cases "pkt_offset p + po \<le> length (frame h p)")
    case True
    with adr m mem_at_data [OF m(2), of "pkt_offset p + po" "data_len m - (pkt_offset p + po)"] show ?thesis
      by (simp add: get_payload_def payload_size_wf [OF wf po] payload_def po)
  next
    case False
    have "length (mb_buf m) < 65536" using m(2) unsigned_less [of "mb_buf_len m"] by (simp add: mbuf_wf_def buf_len_def)
    moreover have "65536 < 2 ^ 64 + length (frame h p) - (pkt_offset p + po)" using payload_bounds [OF wf po] by simp
    ultimately have "mem_at m a (2 ^ 64 + length (frame h p) - (pkt_offset p + po)) = None" for a
      by (auto simp: mem_at_def slice_range_def)
    with False m(1) show ?thesis by (simp add: get_payload_def payload_size_wf [OF wf po] payload_def po)
  qed
qed

lemma parse_header_wf:
  assumes wf: "pkt_wf h p" and po: "payload_offset h p = Some po"
  shows "parse_header h p t =
    (if pkt_offset p + po + hdr_size t < length (frame h p) \<or> length (frame h p) < pkt_offset p + po
     then Some (create_packet (pkt_mbuf p) (pkt_header p + po) (pkt_offset p + po) t) else None)"
  using payload_bounds [OF wf po] hdr_size_bound [of t] by (auto simp: parse_header_def payload_size_wf [OF wf po] payload_def po)

lemma parsed_packet_wf:
  assumes wf: "pkt_wf h p" and po: "payload_offset h p = Some po" and "pkt_offset p + po + hdr_size t < length (frame h p)"
  defines "q \<equiv> create_packet (pkt_mbuf p) (pkt_header p + po) (pkt_offset p + po) t"
  shows "pkt_wf h q \<and> frame h q = frame h p"
proof -
  obtain m where m: "deref h (pkt_mbuf p) = Some m" "mbuf_wf m" "pkt_header p = data_address m (pkt_offset p)"
    "pkt_offset p + hdr_size (pkt_type p) \<le> data_len m" "frame h p = mb_data m" "length (frame h p) = data_len m"
    using wf by (rule pkt_wfE)
  with assms(3) show ?thesis by (auto intro!: pkt_wfI [of _ _ m] simp: q_def frame_def data_address_def)
qed

lemma get_header_wf:
  assumes "pkt_wf h p"
  shows "get_header h p = Some (take (hdr_size (pkt_type p)) (drop (pkt_offset p) (frame h p)))"
  using assms by (rule pkt_wfE) (simp add: get_header_def mem_at_data)

lemma deparse_parse:
  assumes wf: "pkt_wf h p" and q: "parse_header h p t = Some q" and po: "payload_offset h p = Some po"
    and prev: "previous_header t = pkt_type p"
  shows "deparse_header q po = Some p"
  using q prev by (auto simp: parse_header_wf [OF wf po] deparse_header_def len_sub_def create_packet_def
      split: if_splits)

subsection \<open>Pushing a header\<close>

lemma grown_packet:
  assumes wf: "pkt_wf h p" and m: "deref h (pkt_mbuf p) = Some m"
    and m1: "mbuf_wf m1" "buf_addr m1 = buf_addr m" "data_off m1 = data_off m"
      "data_len m \<le> data_len m1" "take (data_len m) (mb_data m1) = mb_data m"
  shows "pkt_wf (h(pkt_mbuf p \<mapsto> m1)) p" "payload_offset (h(pkt_mbuf p \<mapsto> m1)) p = payload_offset h p"
proof -
  from wf m have a: "mbuf_wf m" "pkt_header p = data_address m (pkt_offset p)"
    "pkt_offset p + hdr_size (pkt_type p) \<le> data_len m" "frame h p = mb_data m"
    by (auto elim: pkt_wfE)
  show wf1: "pkt_wf (h(pkt_mbuf p \<mapsto> m1)) p"
    using a m1 deref_Some [OF m] by (intro pkt_wfI [of _ _ m1]) (auto simp: data_address_def)
  have "frame (h(pkt_mbuf p \<mapsto> m1)) p = mb_data m1" using deref_Some [OF m] by (simp add: frame_def)
  moreover have "take (hdr_size (pkt_type p)) (drop (pkt_offset p) (mb_data m1)) =
      take (hdr_size (pkt_type p)) (drop (pkt_offset p) (mb_data m))"
    using a(3) by (simp flip: m1(5)) (simp add: drop_take min_def)
  ultimately show "payload_offset (h(pkt_mbuf p \<mapsto> m1)) p = payload_offset h p"
    by (simp add: payload_offset_wf(1) [OF wf1] payload_offset_wf(1) [OF wf] a(4))
qed

text \<open>Moving the rest of the data down and writing the header in front of it.\<close>

lemma insert_block:
  assumes wf: "mbuf_wf m" and n: "n = data_len m - (off + length hdr)" "off + length hdr \<le> data_len m"
    and small: "n \<le> length hdr"
  shows "\<exists>m'. (do {
      m1 \<leftarrow> copy_nonoverlapping m (data_address m off) (data_address m off + length hdr) n;
      mem_write m1 (data_address m off) hdr
    }) = Some m' \<and> mbuf_wf m' \<and> same_shape m m' \<and>
    mb_data m' = take off (mb_data m) @ hdr @ take n (drop off (mb_data m))"
proof -
  let ?x = "take n (drop off (mb_data m))"
  have len: "length ?x = n" "length (mb_data m) = off + length hdr + n"
    using n small wf by (simp_all add: mb_data_length)
  have at: "mem_at m (data_address m off) n = Some ?x" using mem_at_data [OF wf, of off n] n small by simp
  have dst: "data_address m off + length hdr = data_address m (off + length hdr)" by (simp add: data_address_def)
  from mem_write_data [OF wf, of "off + length hdr" ?x] obtain m1 where
    m1: "mem_write m (data_address m (off + length hdr)) ?x = Some m1" "mbuf_wf m1" "same_shape m m1"
      "mb_data m1 = blit (off + length hdr) ?x (mb_data m)" using len n by auto
  have "data_len m1 = data_len m" using m1(3) by (simp add: same_shape_def)
  with mem_write_data [OF m1(2), of off hdr] n(2) obtain m2 where
    m2: "mem_write m1 (data_address m1 off) hdr = Some m2" "mbuf_wf m2" "same_shape m1 m2"
      "mb_data m2 = blit off hdr (mb_data m1)" by auto
  have "mb_data m2 = take off (mb_data m) @ hdr @ ?x" using len by (simp add: m2(4) m1(4) blit_def)
  moreover have "same_shape m m2" using m1(3) m2(3) by (simp add: same_shape_def)
  moreover have "copy_nonoverlapping m (data_address m off) (data_address m off + length hdr) n = Some m1"
    using at m1(1) small by (simp add: copy_nonoverlapping_def dst) (simp add: data_address_def)
  ultimately show ?thesis using m2(1,2) same_shape_address [OF m1(3)] by simp
qed

lemma append_block:
  assumes wf: "mbuf_wf m" and n: "off + length hdr = data_len m"
  shows "\<exists>m'. mem_write m (data_address m off) hdr = Some m' \<and> mbuf_wf m' \<and> same_shape m m' \<and>
    mb_data m' = take off (mb_data m) @ hdr"
  using mem_write_data [OF wf, of off hdr] n wf by (auto simp: blit_def mb_data_length)

lemma push_header_spec:
  assumes wf: "pkt_wf h p" and po: "payload_offset h p = Some po"
    and inside: "pkt_offset p + po \<le> length (frame h p)"
    and hdr: "length hdr = hdr_size t" "hdr_offset t hdr = Some (hdr_size t)"
    and m: "deref h (pkt_mbuf p) = Some m"
    and room: "hdr_size t \<le> buf_len m - unat (data_off m) - data_len m"
    and small: "length (frame h p) - (pkt_offset p + po) \<le> hdr_size t"
  shows "\<exists>q h'. push_header h p t hdr = Some (Some q, h') \<and> pkt_wf h' q \<and>
    frame h' q = take (pkt_offset p + po) (frame h p) @ hdr @ drop (pkt_offset p + po) (frame h p) \<and>
    pkt_offset q = pkt_offset p + po \<and> get_header h' q = Some hdr"
proof -
  let ?a = "pkt_mbuf p" and ?off = "pkt_offset p + po" and ?n = "hdr_size t"
  from wf m have a: "mbuf_wf m" "pkt_header p = data_address m (pkt_offset p)" "frame h p = mb_data m"
    "length (mb_data m) = data_len m" by (auto elim: pkt_wfE)
  from add_data_end_spec [OF a(1), of ?n] room obtain m1 where
    m1: "add_data_end m ?n = Some (?n, m1)" "mbuf_wf m1" "data_len m1 = data_len m + ?n"
      "data_off m1 = data_off m" "buf_addr m1 = buf_addr m" "take (data_len m) (mb_data m1) = mb_data m" by auto
  have po1: "payload_offset (h(?a \<mapsto> m1)) p = Some po"
    using grown_packet(2) [OF wf m m1(2,5,4) _ m1(6)] m1(3) po by simp
  have adr: "pkt_header p + po = data_address m1 ?off"
    using m1(4,5) by (simp add: a(2) data_address_def)
  have old: "take ?off (mb_data m1) = take ?off (mb_data m)"
    "take (data_len m - ?off) (drop ?off (mb_data m1)) = drop ?off (mb_data m)"
    using inside a(3,4) by (simp_all flip: m1(6)) (simp_all add: min_def drop_take)
  define body where "body = (do {
      m \<leftarrow> (if data_len m \<noteq> ?off then do {
             to_move \<leftarrow> len_sub (data_len m) ?off;
             copy_nonoverlapping m1 (data_address m1 ?off) (data_address m1 ?off + ?n) to_move
           } else Some m1);
      mem_write m (data_address m1 ?off) hdr
    })"
  have "\<exists>m2. body = Some m2 \<and> mbuf_wf m2 \<and> same_shape m1 m2 \<and>
      mb_data m2 = take ?off (mb_data m) @ hdr @ drop ?off (mb_data m)"
  proof (cases "data_len m = ?off")
    case True
    with append_block [OF m1(2), of ?off hdr] m1(3) hdr(1) old(1) a(4) show ?thesis by (simp add: body_def)
  next
    case False
    with insert_block [OF m1(2), of "data_len m - ?off" ?off hdr] m1(3) hdr(1) old small inside a(3,4)
    show ?thesis by (simp add: body_def len_sub_def)
  qed
  then obtain m2 where m2: "body = Some m2" "mbuf_wf m2" "same_shape m1 m2"
    "mb_data m2 = take ?off (mb_data m) @ hdr @ drop ?off (mb_data m)" by blast
  let ?q = "create_packet ?a (data_address m1 ?off) ?off t" and ?h = "h(?a \<mapsto> m2)"
  have "push_header h p t hdr = Some (Some ?q, ?h)"
    using m2(1) m1(1) m po1 hdr(2) adr
    by (auto simp: push_header_def pkt_data_len_def payload_def body_def bind_eq_Some_conv Let_def
        split: if_splits)
  moreover have wfq: "pkt_wf ?h ?q"
    using m2(2,3) deref_Some [OF m] same_shape_address [OF m2(3)] m1(3) inside a(3,4)
    by (intro pkt_wfI [of _ _ m2]) (simp_all add: same_shape_def)
  moreover have fr: "frame ?h ?q = take ?off (frame h p) @ hdr @ drop ?off (frame h p)"
    using deref_Some [OF m] by (simp add: frame_def [of ?h] m2(4) a(3))
  moreover have "get_header ?h ?q = Some hdr"
    using get_header_wf [OF wfq] fr inside hdr(1) by simp
  ultimately show ?thesis by auto
qed

lemma push_header_overlaps:
  assumes wf: "pkt_wf h p" and po: "payload_offset h p = Some po"
    and hdr: "hdr_offset t hdr = Some n" and m: "deref h (pkt_mbuf p) = Some m"
    and room: "n \<le> buf_len m - unat (data_off m) - data_len m"
    and long: "n < length (frame h p) - (pkt_offset p + po)"
  shows "push_header h p t hdr = None"
proof -
  let ?a = "pkt_mbuf p" and ?off = "pkt_offset p + po"
  from wf m have a: "mbuf_wf m" "length (frame h p) = data_len m" by (auto elim: pkt_wfE)
  from add_data_end_spec [OF a(1), of n] room obtain m1 where
    m1: "add_data_end m n = Some (n, m1)" "mbuf_wf m1" "data_len m1 = data_len m + n"
      "data_off m1 = data_off m" "buf_addr m1 = buf_addr m" "take (data_len m) (mb_data m1) = mb_data m" by auto
  have po1: "payload_offset (h(?a \<mapsto> m1)) p = Some po"
    using grown_packet(2) [OF wf m m1(2,5,4) _ m1(6)] m1(3) po by simp
  have "copy_nonoverlapping m1 d (d + n) (data_len m - ?off) = None" for d
    using long a(2) by (auto simp: copy_nonoverlapping_def bind_eq_None_conv)
  with long a(2) m1(1) m po1 hdr show ?thesis
    by (auto simp: push_header_def pkt_data_len_def payload_def Let_def len_sub_def)
qed

lemma push_header_full:
  assumes wf: "pkt_wf h p" and hdr: "hdr_offset t hdr = Some n" and m: "deref h (pkt_mbuf p) = Some m"
    and full: "buf_len m - unat (data_off m) - data_len m < n"
  shows "push_header h p t hdr = Some (None, h)"
proof -
  from wf m have a: "mbuf_wf m" by (auto elim: pkt_wfE)
  from payload_offset_wf(2) [OF wf] obtain po where po: "payload_offset h p = Some po" by blast
  have "h(pkt_mbuf p \<mapsto> m) = h" using deref_Some [OF m] by auto
  moreover have "add_data_end m n = Some (0, m)" using add_data_end_spec [OF a, of n] full by simp
  ultimately show ?thesis using hdr m po full by (simp add: push_header_def pkt_data_len_def)
qed

subsection \<open>Metadata\<close>

lemma slot_consts: "HEADER_SLOT = 0" "OFFSET_SLOT = 1" "STACK_DEPTH_SLOT = 2" "STACK_OFFSET_SLOT = 3" "STACK_SIZE = 0"
  "FREEFORM_METADATA_SLOT = 3" "FREEFORM_METADATA_SIZE = 104"
  by (simp_all add: HEADER_SLOT_def OFFSET_SLOT_def STACK_DEPTH_SLOT_def STACK_OFFSET_SLOT_def STACK_SIZE_def
      FREEFORM_METADATA_SLOT_def FREEFORM_METADATA_SIZE_def END_OF_STACK_SLOT_def METADATA_SLOTS_def)

lemma write_slot_spec:
  assumes wf: "pkt_wf h p" and slot: "slot < 16"
  shows "\<exists>h'. write_slot h p slot v = Some h' \<and> pkt_wf h' p \<and> frame h' p = frame h p \<and>
    read_slot h' p slot = Some v \<and> (\<forall>s. s \<noteq> slot \<longrightarrow> read_slot h' p s = read_slot h p s)"
proof -
  obtain m where m: "deref h (pkt_mbuf p) = Some m" "mbuf_wf m" "pkt_header p = data_address m (pkt_offset p)"
    "pkt_offset p + hdr_size (pkt_type p) \<le> data_len m" "frame h p = mb_data m" "length (frame h p) = data_len m"
    using wf by (rule pkt_wfE)
  define m' where "m' = m\<lparr>mb_meta := blit (8 * slot) (le64_bytes v) (mb_meta m)\<rparr>"
  have len: "8 * slot + 8 \<le> length (mb_meta m)" using m(2) slot by (simp add: mbuf_wf_def)
  have w: "write_metadata_slot m slot v = Some m'"
    using len by (simp add: write_metadata_slot_def slice_range_def m'_def)
  have sh: "mbuf_wf m'" "mb_data m' = mb_data m" "data_address m' k = data_address m k" "data_len m' = data_len m" for k
    using m(2) len by (simp_all add: mbuf_unfold m'_def data_address_def)
  have na: "pkt_mbuf p \<noteq> 0" using deref_Some [OF m(1)] by simp
  have "pkt_wf (h(pkt_mbuf p \<mapsto> m')) p"
    using m sh na by (intro pkt_wfI [of _ _ m']) simp_all
  then show ?thesis
    using m(1,5) w sh(2) na metadata_slot_roundtrip [OF w] metadata_slot_other [OF w]
    by (simp add: write_slot_def read_slot_def frame_def)
qed

lemma save_restore_spec:
  assumes wf: "pkt_wf h p" and addr: "pkt_header p < 2 ^ 64"
  shows "\<exists>h'. save_header_and_offset h p = Some h' \<and> pkt_wf h' p \<and> frame h' p = frame h p \<and>
    (\<forall>q t. pkt_mbuf q = pkt_mbuf p \<longrightarrow> restore_saved_header h' q t = Some (Some (p\<lparr>pkt_type := t\<rparr>)))"
proof -
  obtain m where m: "deref h (pkt_mbuf p) = Some m" "mbuf_wf m" "pkt_header p = data_address m (pkt_offset p)"
    "pkt_offset p + hdr_size (pkt_type p) \<le> data_len m"
    using wf by (rule pkt_wfE)
  from write_slot_spec [OF wf, of 0 "of_nat (pkt_header p)"] obtain h1 where
    h1: "write_slot h p 0 (of_nat (pkt_header p)) = Some h1" "pkt_wf h1 p" "frame h1 p = frame h p"
      "read_slot h1 p 0 = Some (of_nat (pkt_header p))" by auto
  from write_slot_spec [OF h1(2), of 1 "of_nat (pkt_offset p)"] obtain h2 where
    h2: "write_slot h1 p 1 (of_nat (pkt_offset p)) = Some h2" "pkt_wf h2 p" "frame h2 p = frame h1 p"
      "read_slot h2 p 1 = Some (of_nat (pkt_offset p))" "read_slot h2 p 0 = Some (of_nat (pkt_header p))"
    using h1(4) by auto
  have off: "pkt_offset p < 2 ^ 64"
    using m(2,4) buf_len_bound [of m] by (simp add: mbuf_wf_def)
  have u: "unat (of_nat (pkt_header p) :: usize) = pkt_header p" "unat (of_nat (pkt_offset p) :: usize) = pkt_offset p"
    using addr off by (simp_all add: unat_of_nat)
  have nz: "pkt_header p \<noteq> 0" using m(2,3) by (simp add: mbuf_wf_def data_address_def)
  have same: "read_slot h2 q s = read_slot h2 p s" if "pkt_mbuf q = pkt_mbuf p" for q s
    using that by (simp add: read_slot_def)
  have "save_header_and_offset h p = Some h2"
    using h1(1) h2(1) by (simp add: save_header_and_offset_def update_ptrs_def slot_consts)
  moreover have "restore_saved_header h2 q t = Some (Some (p\<lparr>pkt_type := t\<rparr>))" if "pkt_mbuf q = pkt_mbuf p" for q t
    using h2(4,5) u nz that
    unfolding restore_saved_header_def read_header_def read_offset_slot_def same [OF that]
    by (simp add: slot_consts create_packet_def)
  ultimately show ?thesis using h2(2,3) h1(3) by auto
qed

lemma metadata_roundtrip_spec:
  assumes wf: "pkt_wf h p" and small: "length bs < 104"
  shows "\<exists>h'. write_metadata h p bs = Some (Inr (), h') \<and> pkt_wf h' p \<and> frame h' p = frame h p \<and>
    read_metadata h' p (length bs) = Some bs"
proof -
  obtain m where m: "deref h (pkt_mbuf p) = Some m" "mbuf_wf m" "pkt_header p = data_address m (pkt_offset p)"
    "pkt_offset p + hdr_size (pkt_type p) \<le> data_len m" "frame h p = mb_data m" "length (frame h p) = data_len m"
    using wf by (rule pkt_wfE)
  define m' where "m' = m\<lparr>mb_meta := blit 24 bs (mb_meta m)\<rparr>"
  have len: "24 + length bs \<le> length (mb_meta m)" using m(2) small by (simp add: mbuf_wf_def)
  have w: "mut_metadata_as m 3 bs = Some m'" "metadata_as m' 3 (length bs) = Some bs"
    using len slice_of_blit [OF len] by (simp_all add: mut_metadata_as_def metadata_as_def slice_range_def m'_def)
  have sh: "mbuf_wf m'" "mb_data m' = mb_data m" "data_address m' k = data_address m k" "data_len m' = data_len m" for k
    using m(2) len by (simp_all add: mbuf_unfold m'_def data_address_def)
  have na: "pkt_mbuf p \<noteq> 0" using deref_Some [OF m(1)] by simp
  have "pkt_wf (h(pkt_mbuf p \<mapsto> m')) p" using m sh na by (intro pkt_wfI [of _ _ m']) simp_all
  then show ?thesis
    using m(1,5) w sh(2) na small
    by (simp add: write_metadata_def read_metadata_def slot_consts frame_def)
qed

lemma push_offset_None: "push_offset h p off = Some (r, h') \<Longrightarrow> r = None"
  by (auto simp: push_offset_def slot_consts bind_eq_Some_conv)

lemma remove_from_payload_head_spec:
  assumes wf: "pkt_wf h p" and n: "2 * n \<le> length (frame h p)"
  shows "\<exists>h'. remove_from_payload_head h p n = Some (Inr (), h') \<and>
    frame h' p = take n (frame h p) @ drop (2 * n) (frame h p)"
proof -
  obtain m where m: "deref h (pkt_mbuf p) = Some m" "mbuf_wf m" "frame h p = mb_data m" "length (frame h p) = data_len m"
    using wf by (rule pkt_wfE)
  let ?x = "take n (mb_data m)"
  have at: "mem_at m (data_address m 0) n = Some ?x" using mem_at_data [OF m(2), of 0 n] n m(4) by simp
  have dst: "data_address m 0 + n = data_address m n" by (simp add: data_address_def)
  from mem_write_data [OF m(2), of n ?x] n m(3,4) obtain m1 where
    m1: "mem_write m (data_address m n) ?x = Some m1" "mbuf_wf m1" "same_shape m m1" "mb_data m1 = blit n ?x (mb_data m)"
    by auto
  have "copy_nonoverlapping m (data_address m 0) (data_address m n) n = Some m1"
    using at m1(1) by (simp add: copy_nonoverlapping_def) (simp add: data_address_def)
  moreover from remove_data_beginning_spec [OF m1(2), of n] m1(3) n m(4) obtain m2 where
    m2: "remove_data_beginning m1 n = Some (n, m2)" "mb_data m2 = drop n (mb_data m1)"
    by (auto simp: same_shape_def)
  moreover have "drop n (mb_data m1) = ?x @ drop (2 * n) (mb_data m)"
    using n m(3,4) by (simp add: m1(4) blit_def mult_2)
  ultimately show ?thesis
    using m(1,3) deref_Some [OF m(1)] by (simp add: remove_from_payload_head_def data_base_def dst frame_def)
qed

section \<open>Properties\<close>

text \<open>
  C32: Parsing the next header of a well-formed packet, in the release build.  When the payload is longer than the header to be
  parsed, the new packet is well-formed over the same bytes, its header is the front of the old payload, and
  \<open>deparse_header\<close> with the payload offset gives the original packet back.  When the payload is there but not longer than the
  header, it panics.  When the current header claims to be longer than the rest of the packet, the size of the payload
  wraps around, the assertion passes, and the new header lies outside the packet.
\<close>
theorem parse_header_correct:
  assumes "pkt_wf h p" and "payload_offset h p = Some po" and "previous_header t = pkt_type p"
  shows "if pkt_offset p + po + hdr_size t < length (frame h p)
    then \<exists>q pay. parse_header h p t = Some q \<and> get_payload h p = Some pay \<and> pkt_wf h q \<and>
      frame h q = frame h p \<and> get_header h q = Some (take (hdr_size t) pay) \<and> hdr_size t < length pay \<and>
      deparse_header q po = Some p
    else if pkt_offset p + po \<le> length (frame h p) then parse_header h p t = None
    else \<exists>q. parse_header h p t = Some q \<and> length (frame h p) < pkt_offset q \<and> \<not> pkt_wf h q"
proof -
  let ?q = "create_packet (pkt_mbuf p) (pkt_header p + po) (pkt_offset p + po) t"
  consider (fits) "pkt_offset p + po + hdr_size t < length (frame h p)"
    | (short) "\<not> pkt_offset p + po + hdr_size t < length (frame h p)" "pkt_offset p + po \<le> length (frame h p)"
    | (wraps) "length (frame h p) < pkt_offset p + po" by linarith
  then show ?thesis
  proof cases
    case fits
    then have q: "parse_header h p t = Some ?q" by (simp add: parse_header_wf [OF assms(1,2)])
    note wfq = parsed_packet_wf [OF assms(1,2) fits]
    have "get_payload h p = Some (drop (pkt_offset p + po) (frame h p))"
      using fits by (simp add: get_payload_wf [OF assms(1,2)])
    moreover have "get_header h ?q = Some (take (hdr_size t) (drop (pkt_offset p + po) (frame h p)))"
      using get_header_wf [of h ?q] wfq by simp
    ultimately show ?thesis
      using fits q wfq deparse_parse [OF assms(1) q assms(2,3)] by simp
  next
    case short
    then show ?thesis by (simp add: parse_header_wf [OF assms(1,2)])
  next
    case wraps
    then have "\<not> pkt_wf h ?q" by (auto simp: pkt_wf_def frame_def mb_data_length split: option.splits)
    with wraps show ?thesis by (simp add: parse_header_wf [OF assms(1,2)])
  qed
qed

definition example_frame :: "u8 list" where
  "example_frame = [1, 2, 3, 4, 5, 6, 7, 8, 9, 10, 11, 12, 8, 0,
     0x45, 0, 0, 42, 0, 0, 0, 0, 64, 6, 0, 0, 10, 0, 0, 1, 10, 0, 0, 2,
     0, 80, 1, 0, 0, 0, 0, 1, 0, 0, 0, 2, 0x50, 16, 0, 0, 0, 0, 0, 0, 42, 43]"

definition example_heap :: heap where
  "example_heap = [1 \<mapsto> fresh_mbuf 4096 ([0, 0] @ example_frame @ replicate 22 0) 2 56]"

definition example_packet :: Packet where
  "example_packet = create_packet 1 4098 0 HNull"

lemma example_wf: "pkt_wf example_heap example_packet" "frame example_heap example_packet = example_frame"
  "payload_offset example_heap example_packet = Some 0"
  by code_simp+

theorem parse_header_correct_witness:
  "\<exists>q. parse_header example_heap example_packet HMac = Some q \<and> pkt_wf example_heap q \<and>
     get_header example_heap q = Some (take 14 example_frame) \<and> deparse_header q 0 = Some example_packet"
proof -
  have t: "previous_header HMac = pkt_type example_packet" "hdr_size HMac = 14" by code_simp+
  have c: "pkt_offset example_packet = 0" "length example_frame = 56" by code_simp+
  have "get_payload example_heap example_packet = Some example_frame" by code_simp
  then show ?thesis
    using parse_header_correct [OF example_wf(1,3) t(1)] by (auto simp: example_wf(2) c t(2))
qed

text \<open>
  C33: \<open>push_header\<close> with a header whose own length field is its size.  When the buffer has no room left nothing changes.  When it has
  room and the payload is not longer than the header, the header is inserted between the bytes in front of the payload and the
  payload, and the result is a well-formed packet positioned at the new header.  When the payload is longer than the
  header, the source calls \<open>copy_nonoverlapping\<close> on overlapping memory, which is undefined.
\<close>
theorem push_header_inserts:
  assumes "pkt_wf h p" and "payload_offset h p = Some po" and "pkt_offset p + po \<le> length (frame h p)"
    and "length hdr = hdr_size t" and "hdr_offset t hdr = Some (hdr_size t)" and "deref h (pkt_mbuf p) = Some m"
  shows "if buf_len m - unat (data_off m) - data_len m < hdr_size t then push_header h p t hdr = Some (None, h)
    else if length (frame h p) - (pkt_offset p + po) \<le> hdr_size t
    then \<exists>q h'. push_header h p t hdr = Some (Some q, h') \<and> pkt_wf h' q \<and>
      frame h' q = take (pkt_offset p + po) (frame h p) @ hdr @ drop (pkt_offset p + po) (frame h p) \<and>
      pkt_offset q = pkt_offset p + po \<and> get_header h' q = Some hdr
    else push_header h p t hdr = None"
  using push_header_spec [OF assms] push_header_full [OF assms(1,5,6)] push_header_overlaps [OF assms(1,2,5,6)]
  by (simp add: not_less not_le)

theorem push_header_inserts_witness:
  "\<exists>q h'. push_header [1 \<mapsto> fresh_mbuf 64 [9, 9, 0, 0, 0, 0, 0, 0, 0, 0, 0] 1 1] (create_packet 1 65 0 HNull) HUdp
      [1, 2, 3, 4, 5, 6, 7, 8] = Some (Some q, h') \<and> pkt_wf h' q \<and> frame h' q = [1, 2, 3, 4, 5, 6, 7, 8, 9]"
proof -
  define h where "h = [1::nat \<mapsto> fresh_mbuf 64 [9, 9, 0, 0, 0, 0, 0, 0, 0, 0, 0] 1 1]"
  define m where "m = fresh_mbuf 64 [9, 9, 0, 0, 0, 0, 0, 0, 0, 0, 0] 1 1"
  define p where "p = create_packet 1 65 0 HNull"
  have a: "pkt_wf h p" "payload_offset h p = Some 0" "pkt_offset p + 0 \<le> length (frame h p)"
    unfolding h_def p_def by code_simp+
  have b: "length [1, 2, 3, 4, 5, 6, 7, 8 :: u8] = hdr_size HUdp"
    "hdr_offset HUdp [1, 2, 3, 4, 5, 6, 7, 8] = Some (hdr_size HUdp)" by code_simp+
  have m: "deref h (pkt_mbuf p) = Some m" by (simp add: h_def m_def p_def deref_def)
  have c: "length (frame h p) - (pkt_offset p + 0) \<le> hdr_size HUdp" unfolding h_def p_def by code_simp
  have d: "hdr_size HUdp \<le> buf_len m - unat (data_off m) - data_len m" unfolding m_def by code_simp
  have e: "take (pkt_offset p + 0) (frame h p) @ [1, 2, 3, 4, 5, 6, 7, 8] @ drop (pkt_offset p + 0) (frame h p) =
    [1, 2, 3, 4, 5, 6, 7, 8, 9]" unfolding h_def p_def by code_simp
  from push_header_inserts [OF a b m] c d show ?thesis unfolding e unfolding h_def p_def by auto
qed

text \<open>
  After \<open>save_header_and_offset\<close> any packet over the same mbuf, however deep it was parsed, gets back
  to the saved header and offset with \<open>restore_saved_header\<close>; the data is not touched.
\<close>
theorem save_restore_roundtrip:
  assumes "pkt_wf h p" and "pkt_header p < 2 ^ 64"
  shows "\<exists>h'. save_header_and_offset h p = Some h' \<and> pkt_wf h' p \<and> frame h' p = frame h p \<and>
    (\<forall>q t. pkt_mbuf q = pkt_mbuf p \<longrightarrow> restore_saved_header h' q t = Some (Some (p\<lparr>pkt_type := t\<rparr>)))"
  using assms by (rule save_restore_spec)

theorem save_restore_roundtrip_witness:
  "\<exists>h'. save_header_and_offset example_heap example_packet = Some h' \<and>
     restore_saved_header h' (create_packet 1 4112 14 HIp) HNull = Some (Some example_packet)"
proof -
  have "pkt_header example_packet < 2 ^ 64" by code_simp
  moreover have "pkt_mbuf (create_packet 1 4112 14 HIp) = pkt_mbuf example_packet"
    "example_packet\<lparr>pkt_type := HNull\<rparr> = example_packet" by (simp_all add: example_packet_def create_packet_def)
  ultimately show ?thesis using save_restore_roundtrip [OF example_wf(1)] by metis
qed

text \<open>
  C36: Metadata of less than 104 bytes written to a packet reads back unchanged and leaves the packet
  data alone; larger metadata is rejected without any change.
\<close>
theorem metadata_roundtrip:
  assumes "pkt_wf h p"
  shows "if length bs < 104
    then \<exists>h'. write_metadata h p bs = Some (Inr (), h') \<and> pkt_wf h' p \<and> frame h' p = frame h p \<and>
      read_metadata h' p (length bs) = Some bs
    else write_metadata h p bs = Some (Inl MetadataTooLarge, h) \<and> read_metadata h p (length bs) = None"
  using metadata_roundtrip_spec [OF assms] by (simp add: write_metadata_def read_metadata_def slot_consts)

theorem metadata_roundtrip_witness:
  "\<exists>h'. write_metadata example_heap example_packet [1, 2, 3] = Some (Inr (), h') \<and>
     frame h' example_packet = example_frame \<and> read_metadata h' example_packet 3 = Some [1, 2, 3]"
  using metadata_roundtrip [OF example_wf(1), of "[1, 2, 3]"] by (auto simp: example_wf(2) numeral_3_eq_3)

text \<open>
  The offset stack has no slots (\<open>STACK_SIZE\<close> is 0), so recording an offset always fails and
  \<open>parse_header_and_record\<close> never returns a packet.
\<close>
theorem parse_header_and_record_panics:
  "parse_header_and_record h p t = None"
proof (rule ccontr)
  assume "parse_header_and_record h p t \<noteq> None"
  then obtain off r h' where "push_offset h p off = Some (r, h')" "r \<noteq> None"
    by (auto simp: parse_header_and_record_def bind_eq_Some_conv split: if_splits)
  with push_offset_None show False by blast
qed

text \<open>
  \<open>remove_from_payload_head\<close> with \<open>n\<close> bytes keeps the first \<open>n\<close> bytes of the packet and removes the
  \<open>n\<close> bytes behind them, whatever the current header is; so it removes the head of the payload only when
  the payload starts \<open>n\<close> bytes into the packet.
\<close>
theorem remove_from_payload_head_effect:
  assumes "pkt_wf h p" and "2 * n \<le> length (frame h p)"
  shows "\<exists>h'. remove_from_payload_head h p n = Some (Inr (), h') \<and>
    frame h' p = take n (frame h p) @ drop (2 * n) (frame h p)"
  using assms by (rule remove_from_payload_head_spec)

theorem remove_from_payload_head_effect_witness:
  "\<exists>h'. remove_from_payload_head example_heap example_packet 14 = Some (Inr (), h') \<and>
    frame h' example_packet = take 14 example_frame @ drop 28 example_frame"
proof -
  have "2 * 14 \<le> length (frame example_heap example_packet)" by code_simp
  from remove_from_payload_head_effect [OF example_wf(1) this] show ?thesis by (simp add: example_wf(2))
qed

text \<open>
  \<open>add_to_payload_head\<close> moves only as many bytes as it adds: in a packet with six bytes of payload,
  making room for two bytes overwrites the third and fourth byte and leaves the last two in place.
\<close>
theorem add_to_payload_head_overwrites:
  "map_option (\<lambda>(r, h). (r, frame h (create_packet 1 64 0 HNull)))
     (add_to_payload_head [1 \<mapsto> fresh_mbuf 64 [1, 2, 3, 4, 5, 6, 0, 0, 0] 0 6] (create_packet 1 64 0 HNull) 2) =
   Some (Inr (), [1, 2, 1, 2, 5, 6, 0, 0])"
  by code_simp

end
