(* ===== verification/NB_MpscQueue.thy ===== *)
theory NB_MpscQueue
  imports NB_Fifo NB_Utils NB_Packet
begin

text \<open>
  The multi-producer single-consumer queue of mbufs of \<open>framework/src/queues/mpsc_mbuf_queue.rs\<close>: its
  record and operations, run by one thread at a time, and the refinement to a bounded FIFO queue.  The
  interleaving of several producers with the consumer is the subject of \<open>NB_MpscConcurrent\<close>.
\<close>

section \<open>State and operations\<close>

record QueueMetadata =
  qm_head :: usize
  qm_tail :: usize

record MpscQueue =
  mq_slots :: usize
  mq_mask :: usize
  producer :: QueueMetadata
  consumer :: QueueMetadata
  mq_queue :: "nat list"
  n_producers :: usize

definition MpscQueue_new :: "usize \<Rightarrow> MpscQueue option" where
  "MpscQueue_new sz = do {
     m \<leftarrow> checked_sub sz 1;
     let slots = (if sz AND m \<noteq> 0 then round_to_power_of_2 sz else sz);
     mask \<leftarrow> checked_sub slots 1;
     Some \<lparr>mq_slots = slots, mq_mask = mask, producer = \<lparr>qm_head = 0, qm_tail = 0\<rparr>,
       consumer = \<lparr>qm_head = 0, qm_tail = 0\<rparr>, mq_queue = replicate (unat slots) 0, n_producers = 0\<rparr>
   }"

definition reference_producers :: "MpscQueue \<Rightarrow> MpscQueue" where
  "reference_producers q = q\<lparr>n_producers := n_producers q + 1\<rparr>"

text \<open>\<open>n\<close> iterations of the loop that stores \<open>mbufs[mbuf_idx]\<close> to \<open>queue[queue_idx]\<close>.\<close>

fun store_n :: "nat \<Rightarrow> nat list \<Rightarrow> nat \<Rightarrow> nat \<Rightarrow> nat list \<Rightarrow> (nat list \<times> nat) option" where
  "store_n 0 queue queue_idx mbuf_idx mbufs = Some (queue, mbuf_idx)"
| "store_n (Suc n) queue queue_idx mbuf_idx mbufs = do {
     v \<leftarrow> vec_get mbufs mbuf_idx;
     queue \<leftarrow> vec_set queue queue_idx v;
     store_n n queue (queue_idx + 1) (mbuf_idx + 1) mbufs
   }"

definition enqueue_mbufs :: "MpscQueue \<Rightarrow> usize \<Rightarrow> nat \<Rightarrow> nat list \<Rightarrow> MpscQueue option" where
  "enqueue_mbufs q start enqueue mbufs = do {
     let len = unat (mq_slots q);
     let queue_idx = unat (start AND mq_mask q);
     (queue, mbuf_idx, queue_idx) \<leftarrow>
       (if queue_idx + enqueue \<ge> len then do {
          (queue, mbuf_idx) \<leftarrow> store_n (len - queue_idx) (mq_queue q) queue_idx 0 mbufs;
          Some (queue, mbuf_idx, 0)
        } else Some (mq_queue q, 0, queue_idx));
     (queue, _) \<leftarrow> store_n (enqueue - mbuf_idx) queue queue_idx mbuf_idx mbufs;
     Some (q\<lparr>mq_queue := queue\<rparr>)
   }"

definition enqueue_sp :: "MpscQueue \<Rightarrow> nat list \<Rightarrow> (nat \<times> MpscQueue) option" where
  "enqueue_sp q mbufs = do {
     let producer_head = qm_head (producer q);
     let consumer_tail = qm_tail (consumer q);
     let free = mq_mask q + consumer_tail - producer_head;
     let insert = min (unat free) (length mbufs);
     if insert > 0 then do {
       let producer_next = producer_head + of_nat insert;
       let q = q\<lparr>producer := (producer q)\<lparr>qm_head := producer_next\<rparr>\<rparr>;
       d \<leftarrow> slice_range 0 insert mbufs;
       q \<leftarrow> enqueue_mbufs q producer_head insert d;
       Some (insert, q\<lparr>producer := (producer q)\<lparr>qm_tail := producer_next\<rparr>\<rparr>)
     } else Some (0, q)
   }"

text \<open>
  The multi-producer version without interference: the compare-and-exchange on the head just read
  succeeds, and the spin on \<open>producer.tail\<close> ends at once or never.
\<close>

definition enqueue_mp :: "MpscQueue \<Rightarrow> nat list \<Rightarrow> (nat \<times> MpscQueue) option" where
  "enqueue_mp q mbufs = do {
     let producer_head = qm_head (producer q);
     let consumer_tail = qm_tail (consumer q);
     let free = mq_mask q + consumer_tail - producer_head;
     let insert = min (unat free) (length mbufs);
     if insert > 0 then do {
       let end_idx = producer_head + of_nat insert;
       let q = q\<lparr>producer := (producer q)\<lparr>qm_head := end_idx\<rparr>\<rparr>;
       d \<leftarrow> slice_range 0 insert mbufs;
       q \<leftarrow> enqueue_mbufs q producer_head insert d;
       _ \<leftarrow> rust_loop (\<lambda>_. Some (if qm_tail (producer q) \<noteq> producer_head then Inl () else Inr ())) ();
       Some (insert, q\<lparr>producer := (producer q)\<lparr>qm_tail := end_idx\<rparr>\<rparr>)
     } else Some (0, q)
   }"

definition enqueue :: "MpscQueue \<Rightarrow> nat list \<Rightarrow> (nat \<times> MpscQueue) option" where
  "enqueue q mbufs = do {
     let producers = n_producers q;
     _ \<leftarrow> rust_assert (producers \<ge> 1);
     if producers = 1 then enqueue_sp q mbufs else enqueue_mp q mbufs
   }"

definition enqueue_one :: "MpscQueue \<Rightarrow> nat \<Rightarrow> (bool \<times> MpscQueue) option" where
  "enqueue_one q mbuf = do {
     (n, q) \<leftarrow> enqueue q [mbuf];
     Some (n = 1, q)
   }"

text \<open>\<open>n\<close> iterations of the loop that loads \<open>queue[queue_idx]\<close> into \<open>mbufs[mbuf_idx]\<close>.\<close>

fun load_n :: "nat \<Rightarrow> nat list \<Rightarrow> nat \<Rightarrow> nat \<Rightarrow> nat list \<Rightarrow> (nat list \<times> nat) option" where
  "load_n 0 queue queue_idx mbuf_idx mbufs = Some (mbufs, mbuf_idx)"
| "load_n (Suc n) queue queue_idx mbuf_idx mbufs = do {
     v \<leftarrow> vec_get queue queue_idx;
     mbufs \<leftarrow> vec_set mbufs mbuf_idx v;
     load_n n queue (queue_idx + 1) (mbuf_idx + 1) mbufs
   }"

definition dequeue_mbufs :: "MpscQueue \<Rightarrow> usize \<Rightarrow> nat \<Rightarrow> nat list \<Rightarrow> nat list option" where
  "dequeue_mbufs q start dequeue mbufs = do {
     let len = unat (mq_slots q);
     let queue_idx = unat (start AND mq_mask q);
     (mbufs, mbuf_idx, queue_idx) \<leftarrow>
       (if queue_idx + dequeue \<ge> len then do {
          (mbufs, mbuf_idx) \<leftarrow> load_n (len - queue_idx) (mq_queue q) queue_idx 0 mbufs;
          Some (mbufs, mbuf_idx, 0)
        } else Some (mbufs, 0, queue_idx));
     (mbufs, _) \<leftarrow> load_n (dequeue - mbuf_idx) (mq_queue q) queue_idx mbuf_idx mbufs;
     Some mbufs
   }"

definition dequeue :: "MpscQueue \<Rightarrow> nat list \<Rightarrow> (nat \<times> nat list \<times> MpscQueue) option" where
  "dequeue q mbufs = do {
     let consumer_head = qm_head (consumer q);
     let producer_tail = qm_tail (producer q);
     let available_entries = producer_tail - consumer_head;
     let dequeue = min (length mbufs) (unat available_entries);
     if dequeue > 0 then do {
       let consumer_next = consumer_head + of_nat dequeue;
       let q = q\<lparr>consumer := (consumer q)\<lparr>qm_head := consumer_next\<rparr>\<rparr>;
       mbufs \<leftarrow> dequeue_mbufs q consumer_head dequeue mbufs;
       Some (dequeue, mbufs, q\<lparr>consumer := (consumer q)\<lparr>qm_tail := consumer_next\<rparr>\<rparr>)
     } else Some (dequeue, mbufs, q)
   }"

text \<open>The two ends of the queue.  The \<open>Arc\<close> that they share is the queue itself.\<close>

definition MpscProducer_clone :: "MpscQueue \<Rightarrow> MpscQueue" where
  "MpscProducer_clone q = reference_producers q"

text \<open>\<open>drain(..)\<close> empties the caller's vector whatever is enqueued.\<close>

definition MpscProducer_enqueue :: "MpscQueue \<Rightarrow> Packet list \<Rightarrow> (nat \<times> Packet list \<times> MpscQueue) option" where
  "MpscProducer_enqueue q packets = do {
     let mbufs = map get_mbuf packets;
     (n, q) \<leftarrow> enqueue q mbufs;
     Some (n, [], q)
   }"

definition MpscProducer_enqueue_one :: "MpscQueue \<Rightarrow> Packet \<Rightarrow> (bool \<times> MpscQueue) option" where
  "MpscProducer_enqueue_one q packet = enqueue_one q (get_mbuf packet)"

definition MpscConsumer_recv :: "MpscQueue \<Rightarrow> nat list \<Rightarrow> (u32 result \<times> nat list \<times> MpscQueue) option" where
  "MpscConsumer_recv q mbufs = do {
     (n, mbufs, q) \<leftarrow> dequeue q mbufs;
     Some (Inr (of_nat n), mbufs, q)
   }"

definition new_mpsc_queue_pair_with_size :: "usize \<Rightarrow> MpscQueue option" where
  "new_mpsc_queue_pair_with_size sz = do {
     q \<leftarrow> MpscQueue_new sz;
     Some (reference_producers q)
   }"

definition DEFAULT_QUEUE_SIZE :: usize where
  "DEFAULT_QUEUE_SIZE = 1024"

definition new_mpsc_queue_pair :: "MpscQueue option" where
  "new_mpsc_queue_pair = new_mpsc_queue_pair_with_size DEFAULT_QUEUE_SIZE"

section \<open>The circular accesses\<close>

lemma store_n_blit:
  "queue_idx + n \<le> length queue \<Longrightarrow> mbuf_idx + n \<le> length mbufs \<Longrightarrow>
    store_n n queue queue_idx mbuf_idx mbufs =
      Some (blit queue_idx (take n (drop mbuf_idx mbufs)) queue, mbuf_idx + n)"
proof (induction n arbitrary: queue queue_idx mbuf_idx)
  case (Suc n)
  have "blit (Suc queue_idx) (take n (drop (Suc mbuf_idx) mbufs)) (queue[queue_idx := mbufs ! mbuf_idx]) =
      blit queue_idx (take (Suc n) (drop mbuf_idx mbufs)) queue"
    using Suc.prems by (intro nth_equalityI) (auto simp: nth_blit nth_list_update nth_Cons' not_less_eq_eq Suc_diff_Suc)
  with Suc show ?case by (simp add: vec_get_def vec_set_def)
qed simp

lemma load_n_blit:
  "queue_idx + n \<le> length queue \<Longrightarrow> mbuf_idx + n \<le> length mbufs \<Longrightarrow>
    load_n n queue queue_idx mbuf_idx mbufs =
      Some (blit mbuf_idx (take n (drop queue_idx queue)) mbufs, mbuf_idx + n)"
proof (induction n arbitrary: mbufs queue_idx mbuf_idx)
  case (Suc n)
  have "blit (Suc mbuf_idx) (take n (drop (Suc queue_idx) queue)) (mbufs[mbuf_idx := queue ! queue_idx]) =
      blit mbuf_idx (take (Suc n) (drop queue_idx queue)) mbufs"
    using Suc.prems by (intro nth_equalityI) (auto simp: nth_blit nth_list_update nth_Cons' not_less_eq_eq Suc_diff_Suc)
  with Suc show ?case by (simp add: vec_get_def vec_set_def)
qed simp

lemma enqueue_mbufs_eq:
  assumes "length (mq_queue q) = unat (mq_slots q)" and "unat (start AND mq_mask q) < unat (mq_slots q)"
    and "length mbufs = n" and "n \<le> unat (mq_slots q)"
  shows "enqueue_mbufs q start n mbufs =
    Some (q\<lparr>mq_queue := ring_write (mq_queue q) (unat (start AND mq_mask q)) mbufs\<rparr>)"
proof (cases "unat (start AND mq_mask q) + n \<ge> unat (mq_slots q)")
  case True
  let ?i = "unat (start AND mq_mask q)" and ?len = "unat (mq_slots q)"
  have "blit 0 (drop (?len - ?i) mbufs) (blit ?i (take (?len - ?i) mbufs) (mq_queue q)) =
      ring_write (mq_queue q) ?i mbufs"
    using assms True by (intro nth_equalityI) (auto simp: nth_blit nth_ring_write_direct ac_simps)
  with assms True show ?thesis by (simp add: enqueue_mbufs_def store_n_blit Let_def)
next
  case False
  with assms ring_write_nowrap [of "unat (start AND mq_mask q)" "mq_queue q" mbufs] show ?thesis
    by (simp add: enqueue_mbufs_def store_n_blit Let_def)
qed

lemma dequeue_mbufs_eq:
  assumes "length (mq_queue q) = unat (mq_slots q)" and "unat (start AND mq_mask q) < unat (mq_slots q)"
    and "n \<le> length mbufs" and "n \<le> unat (mq_slots q)"
  shows "dequeue_mbufs q start n mbufs =
    Some (ring_slice (mq_queue q) (unat (start AND mq_mask q)) n @ drop n mbufs)"
proof (cases "unat (start AND mq_mask q) + n \<ge> unat (mq_slots q)")
  case True
  let ?i = "unat (start AND mq_mask q)" and ?len = "unat (mq_slots q)"
  have "blit (?len - ?i) (take (n - (?len - ?i)) (mq_queue q)) (blit 0 (drop ?i (mq_queue q)) mbufs) =
      ring_slice (mq_queue q) ?i n @ drop n mbufs"
  proof (rule nth_equalityI)
    fix j assume "j < length (blit (?len - ?i) (take (n - (?len - ?i)) (mq_queue q)) (blit 0 (drop ?i (mq_queue q)) mbufs))"
    then have j: "j < length mbufs" using assms True by (simp split: if_splits)
    show "blit (?len - ?i) (take (n - (?len - ?i)) (mq_queue q)) (blit 0 (drop ?i (mq_queue q)) mbufs) ! j =
        (ring_slice (mq_queue q) ?i n @ drop n mbufs) ! j"
      using assms True j by (auto simp: nth_blit nth_append le_mod_geq add.commute)
  qed (use assms True in simp)
  with assms True show ?thesis by (simp add: dequeue_mbufs_def load_n_blit Let_def)
next
  case False
  with assms ring_slice_nowrap [of "unat (start AND mq_mask q)" n "mq_queue q"] show ?thesis
    by (simp add: dequeue_mbufs_def load_n_blit Let_def blit_def)
qed

section \<open>Invariant and abstraction\<close>

text \<open>
  Between the calls of one thread both heads equal their tails.  \<open>mq_shape\<close> is the part of the
  invariant that no operation changes.
\<close>

definition mq_shape :: "nat \<Rightarrow> MpscQueue \<Rightarrow> bool" where
  "mq_shape k q \<longleftrightarrow> k < 64 \<and> mq_slots q = 2 ^ k \<and> mq_mask q = 2 ^ k - 1 \<and> length (mq_queue q) = 2 ^ k"

definition mq_available :: "MpscQueue \<Rightarrow> nat" where
  "mq_available q = unat (qm_tail (producer q) - qm_head (consumer q))"

definition mq_inv :: "MpscQueue \<Rightarrow> bool" where
  "mq_inv q \<longleftrightarrow> (\<exists>k\<in>{..<64}. mq_shape k q) \<and> qm_head (producer q) = qm_tail (producer q) \<and>
     qm_head (consumer q) = qm_tail (consumer q) \<and> mq_available q < length (mq_queue q) \<and>
     1 \<le> n_producers q"

definition mq_contents :: "MpscQueue \<Rightarrow> nat list" where
  "mq_contents q = ring_slice (mq_queue q) (unat (qm_head (consumer q))) (mq_available q)"

definition mq_room :: "MpscQueue \<Rightarrow> nat" where
  "mq_room q = length (mq_queue q) - 1 - mq_available q"

lemma mq_contents_length [simp]: "length (mq_contents q) = mq_available q"
  by (simp add: mq_contents_def)

lemma mq_shape_unat:
  assumes "mq_shape k q"
  shows "unat (mq_slots q) = length (mq_queue q)" and "unat (mq_mask q) = length (mq_queue q) - 1"
    and "unat (c AND mq_mask q) = unat c mod length (mq_queue q)"
    and "unat (c AND mq_mask q) < unat (mq_slots q)"
  using assms by (simp_all add: mq_shape_def unat_pow2 unat_pow2_minus_1 unat_and_pow2_minus_1)

text \<open>The circular accesses at a free-running counter.\<close>

lemma enqueue_mbufs_shape:
  assumes "mq_shape k q" and "length mbufs = n" and "n \<le> length (mq_queue q)"
  shows "enqueue_mbufs q start n mbufs = Some (q\<lparr>mq_queue := ring_write (mq_queue q) (unat start) mbufs\<rparr>)"
  using assms mq_shape_unat(4) [OF assms(1)] by (subst enqueue_mbufs_eq) (simp_all add: mq_shape_unat(1-3) ring_write_mod)

lemma dequeue_mbufs_shape:
  assumes "mq_shape k q" and "n \<le> length mbufs" and "n \<le> length (mq_queue q)"
  shows "dequeue_mbufs q start n mbufs = Some (ring_slice (mq_queue q) (unat start) n @ drop n mbufs)"
  using assms mq_shape_unat(4) [OF assms(1)] by (subst dequeue_mbufs_eq) (simp_all add: mq_shape_unat(1-3) ring_slice_mod)

lemma mq_free_eq:
  assumes "mq_shape k q" and "unat (h - c) < length (mq_queue q)"
  shows "unat (mq_mask q + c - h) = length (mq_queue q) - 1 - unat (h - c)"
proof -
  have "mq_mask q + c - h = mq_mask q - (h - c)" by simp
  moreover have "h - c \<le> mq_mask q"
    using assms by (simp add: word_le_nat_alt mq_shape_unat)
  ultimately show ?thesis using assms(1) by (simp only: unat_sub mq_shape_unat)
qed

section \<open>Refinement to a bounded FIFO queue\<close>

lemma spin_done: "rust_loop (\<lambda>_. Some (Inr r)) s = Some r"
  by (rule rust_loop_break) simp

text \<open>Without interference the two versions of \<open>enqueue\<close> do the same.\<close>

lemma enqueue_mp_eq_sp:
  assumes "qm_head (producer q) = qm_tail (producer q)"
  shows "enqueue_mp q mbufs = enqueue_sp q mbufs"
proof -
  have "qm_tail (producer q2) = qm_tail (producer q1)" if "enqueue_mbufs q1 s n d = Some q2" for q1 q2 s n d
    using that by (auto simp: enqueue_mbufs_def bind_eq_Some_conv Let_def split: if_splits)
  then show ?thesis
    using assms by (auto simp: enqueue_mp_def enqueue_sp_def Let_def spin_done split: Option.bind_split)
qed

lemma enqueue_spec:
  assumes inv: "mq_inv q"
  shows "\<exists>q'. enqueue q xs = Some (min (length xs) (mq_room q), q') \<and> mq_inv q' \<and>
    mq_contents q' = mq_contents q @ take (mq_room q) xs \<and> mq_room q' = mq_room q - length xs"
proof -
  from inv obtain k where k: "mq_shape k q" and heads: "qm_head (producer q) = qm_tail (producer q)"
      "qm_head (consumer q) = qm_tail (consumer q)" and av: "mq_available q < length (mq_queue q)"
    and np: "1 \<le> n_producers q" by (auto simp: mq_inv_def)
  let ?w = "min (length xs) (mq_room q)"
  let ?pt = "qm_tail (producer q)" and ?ch = "qm_head (consumer q)"
  define vec where "vec = ring_write (mq_queue q) (unat ?pt) (take ?w xs)"
  define q' where "q' = q\<lparr>producer := \<lparr>qm_head = ?pt + of_nat ?w, qm_tail = ?pt + of_nat ?w\<rparr>, mq_queue := vec\<rparr>"
  have k64: "k < 64" and len: "length (mq_queue q) = 2 ^ k" using k by (simp_all add: mq_shape_def)
  have p64: "(2::nat) ^ k < 2 ^ 64" using k64 by (intro power_strict_increasing) simp_all
  have aw: "mq_available q + ?w < length (mq_queue q)" using av by (simp add: mq_room_def)
  have av': "mq_available q' = mq_available q + ?w"
  proof -
    have "mq_available q' = unat ((?pt - ?ch) + of_nat ?w)"
      by (simp add: mq_available_def q'_def diff_add_eq)
    also have "\<dots> = mq_available q + ?w"
      using aw len p64 by (subst unat_advance) (simp_all add: mq_available_def)
    finally show ?thesis .
  qed
  have free: "unat (mq_mask q + qm_tail (consumer q) - ?pt) = mq_room q"
    using mq_free_eq [OF k, of ?pt ?ch] av heads by (simp add: mq_room_def mq_available_def)
  have "enqueue_sp q xs = Some (?w, q')"
  proof (cases "?w = 0")
    case True
    then have "q' = q" by (simp add: q'_def vec_def heads(1))
    with True show ?thesis by (auto simp: enqueue_sp_def Let_def heads(1) free min_def split: if_splits)
  next
    case False
    let ?q = "q\<lparr>producer := (producer q)\<lparr>qm_head := ?pt + of_nat ?w\<rparr>\<rparr>"
    have "enqueue_mbufs ?q ?pt ?w (take ?w xs) = Some (?q\<lparr>mq_queue := vec\<rparr>)"
      using k aw by (subst enqueue_mbufs_shape [of k]) (simp_all add: mq_shape_def vec_def)
    with False show ?thesis
      by (simp add: enqueue_sp_def Let_def heads(1) free slice_range_def min.commute q'_def)
  qed
  then have "enqueue q xs = Some (?w, q')"
    using np by (simp add: enqueue_def rust_assert_def Let_def enqueue_mp_eq_sp [OF heads(1)])
  moreover have "mq_inv q'"
    using k aw av' np heads by (auto simp: mq_inv_def mq_shape_def q'_def vec_def)
  moreover have "mq_contents q' = mq_contents q @ take (mq_room q) xs"
  proof -
    have pt: "?pt = ?ch + of_nat (mq_available q)" by (simp add: mq_available_def)
    have "vec = ring_write (mq_queue q) (unat ?ch + mq_available q) (take ?w xs)"
      unfolding vec_def by (subst pt) (rule ring_write_counter [OF k64 len])
    moreover have "mq_contents q' = ring_slice vec (unat ?ch) (mq_available q + ?w)"
      by (simp add: mq_contents_def av') (simp add: q'_def)
    moreover have "length (take ?w xs) = ?w" by simp
    moreover have "take ?w xs = take (mq_room q) xs" by (simp add: min_def)
    ultimately show ?thesis
      using ring_push [of "mq_available q" "take ?w xs" "mq_queue q" "unat ?ch"] aw
      by (simp only: mq_contents_def less_imp_le)
  qed
  moreover have "mq_room q' = mq_room q - length xs"
    using av' by (simp add: mq_room_def) (simp add: q'_def vec_def min_def)
  ultimately show ?thesis by blast
qed

lemma dequeue_spec:
  fixes buf :: "nat list"
  assumes inv: "mq_inv q"
  defines "n \<equiv> min (length buf) (mq_available q)"
  shows "\<exists>q'. dequeue q buf = Some (n, take n (mq_contents q) @ drop n buf, q') \<and> mq_inv q' \<and>
    mq_contents q' = drop n (mq_contents q) \<and> mq_room q' = mq_room q + n"
proof -
  from inv obtain k where k: "mq_shape k q" and heads: "qm_head (producer q) = qm_tail (producer q)"
      "qm_head (consumer q) = qm_tail (consumer q)" and av: "mq_available q < length (mq_queue q)"
    and np: "1 \<le> n_producers q" by (auto simp: mq_inv_def)
  let ?ch = "qm_head (consumer q)"
  define q' where "q' = q\<lparr>consumer := \<lparr>qm_head = ?ch + of_nat n, qm_tail = ?ch + of_nat n\<rparr>\<rparr>"
  have k64: "k < 64" and len: "length (mq_queue q) = 2 ^ k" using k by (simp_all add: mq_shape_def)
  have p64: "(2::nat) ^ k < 2 ^ 64" using k64 by (intro power_strict_increasing) simp_all
  have na: "n \<le> mq_available q" "n < length (mq_queue q)" using av by (auto simp: n_def)
  have n64: "unat (of_nat n :: usize) = n" using na len p64 by (simp add: unat_of_nat)
  have av': "mq_available q' = mq_available q - n"
  proof -
    have "of_nat n \<le> qm_tail (producer q) - ?ch"
      using na(1) n64 by (simp add: word_le_nat_alt mq_available_def)
    then have "unat (qm_tail (producer q) - ?ch - of_nat n) = mq_available q - n"
      by (simp only: unat_sub n64 mq_available_def)
    then show ?thesis by (simp add: mq_available_def q'_def diff_diff_eq)
  qed
  have "dequeue q buf = Some (n, take n (mq_contents q) @ drop n buf, q')"
  proof (cases "n = 0")
    case True
    then have "q' = q" by (simp add: q'_def heads)
    with True show ?thesis by (auto simp: dequeue_def Let_def n_def mq_available_def min_def split: if_splits)
  next
    case False
    let ?q = "q\<lparr>consumer := (consumer q)\<lparr>qm_head := ?ch + of_nat n\<rparr>\<rparr>"
    have "dequeue_mbufs ?q ?ch n buf = Some (ring_slice (mq_queue q) (unat ?ch) n @ drop n buf)"
      using k na by (subst dequeue_mbufs_shape [of k]) (simp_all add: mq_shape_def n_def)
    moreover have "ring_slice (mq_queue q) (unat ?ch) n = take n (mq_contents q)"
      using na(1) by (simp add: mq_contents_def take_ring_slice)
    moreover have "min (length buf) (unat (qm_tail (producer q) - ?ch)) = n"
      by (simp add: n_def mq_available_def)
    ultimately show ?thesis
      using False by (simp add: dequeue_def Let_def q'_def del: min_less_iff_conj)
  qed
  moreover have "mq_inv q'"
    using k av av' np heads by (auto simp: mq_inv_def mq_shape_def q'_def)
  moreover have "mq_contents q' = drop n (mq_contents q)"
    using na(1) ring_slice_counter [OF k64 len, of ?ch n]
    by (simp add: mq_contents_def av' drop_ring_slice) (simp add: q'_def)
  moreover have "mq_room q' = mq_room q + n"
    using av' av na(1) by (simp add: mq_room_def) (simp add: q'_def)
  ultimately show ?thesis by blast
qed

text \<open>The receiving end as the client sees it: it passes a slice and gets the front part of it filled.\<close>

definition mq_pull :: "MpscQueue \<Rightarrow> nat \<Rightarrow> (nat list \<times> MpscQueue) option" where
  "mq_pull q n = map_option (\<lambda>(m, buf, q). (take m buf, q)) (dequeue q (replicate n 0))"

interpretation mpq: bounded_fifo mq_inv mq_contents mq_room enqueue mq_pull
proof unfold_locales
  fix q n assume "mq_inv q"
  from dequeue_spec [OF this, of "replicate n 0"]
  show "\<exists>q'. mq_pull q n = Some (take n (mq_contents q), q') \<and> mq_inv q' \<and>
      mq_contents q' = drop n (mq_contents q) \<and> mq_room q' = mq_room q + min n (length (mq_contents q))"
    by (auto simp: mq_pull_def min_def)
qed (rule enqueue_spec)

lemma reference_producers_inv:
  assumes "mq_inv q" and "n_producers q \<noteq> - 1"
  shows "mq_inv (reference_producers q)" and "mq_contents (reference_producers q) = mq_contents q"
proof -
  have "1 \<le> n_producers q + 1"
    using assms(2) by (simp add: word_le_nat_alt Suc_le_eq unat_gt_0 eq_neg_iff_add_eq_0)
  with assms(1) show "mq_inv (reference_producers q)"
    by (auto simp: mq_inv_def mq_shape_def reference_producers_def mq_available_def)
qed (simp add: mq_contents_def reference_producers_def mq_available_def)

lemma new_mpsc_queue_pair_eq:
  assumes "0 < unat sz" and "unat sz \<le> 2 ^ 63"
  obtains k where "k < 64" "round_to_power_of_2 sz = 2 ^ k"
    "new_mpsc_queue_pair_with_size sz = Some \<lparr>mq_slots = 2 ^ k, mq_mask = 2 ^ k - 1,
      producer = \<lparr>qm_head = 0, qm_tail = 0\<rparr>, consumer = \<lparr>qm_head = 0, qm_tail = 0\<rparr>,
      mq_queue = replicate (2 ^ k) 0, n_producers = 1\<rparr>"
proof -
  obtain k where k: "k < 64" "round_to_power_of_2 sz = 2 ^ k" "unat sz \<le> 2 ^ k" "\<forall>j. unat sz \<le> 2 ^ j \<longrightarrow> k \<le> j"
    using round_to_power_of_2_least [OF assms] by blast
  have nz: "sz \<noteq> 0" "1 \<le> sz" using assms(1) by (auto simp: word_le_nat_alt)
  have slots: "(if sz AND (sz - 1) \<noteq> 0 then round_to_power_of_2 sz else sz) = 2 ^ k"
  proof (cases "sz AND (sz - 1) = 0")
    case True
    then obtain j where j: "j < 64" "sz = 2 ^ j" using and_minus_1_eq_0_iff [OF nz(1)] by auto
    then have "unat sz = 2 ^ j" by (simp add: unat_pow2)
    with k(3,4) have "k = j" by (intro le_antisym) simp_all
    with j True show ?thesis by simp
  qed (simp add: k(2))
  have "(1::usize) \<le> 2 ^ k" using k(1) by (simp add: word_le_nat_alt unat_pow2)
  then show thesis
    using nz k(1) by (intro that [OF k(1,2)])
      (simp add: new_mpsc_queue_pair_with_size_def MpscQueue_new_def checked_sub_def slots
        reference_producers_def unat_pow2 Let_def)
qed

lemma MpscQueue_new_spec:
  assumes "0 < unat sz" and "unat sz \<le> 2 ^ 63"
  shows "\<exists>q. new_mpsc_queue_pair_with_size sz = Some q \<and> mq_inv q \<and> mq_contents q = [] \<and>
    mq_room q = unat (round_to_power_of_2 sz) - 1 \<and> n_producers q = 1"
  using assms by (rule new_mpsc_queue_pair_eq)
    (auto simp: mq_inv_def mq_shape_def mq_available_def mq_contents_def mq_room_def unat_pow2)

text \<open>Further producers, as \<open>MpscProducer::clone\<close> makes them, switch \<open>enqueue\<close> to \<open>enqueue_mp\<close> and change nothing else.\<close>

lemma reference_producers_repeat:
  assumes "mq_inv q" and "unat (n_producers q) + k < 2 ^ 64"
  shows "mq_inv ((reference_producers ^^ k) q) \<and> mq_contents ((reference_producers ^^ k) q) = mq_contents q \<and>
    mq_room ((reference_producers ^^ k) q) = mq_room q \<and> unat (n_producers ((reference_producers ^^ k) q)) = unat (n_producers q) + k"
  using assms(2)
proof (induction k)
  case (Suc k)
  let ?q = "(reference_producers ^^ k) q"
  have IH: "mq_inv ?q" "mq_contents ?q = mq_contents q" "mq_room ?q = mq_room q" "unat (n_producers ?q) = unat (n_producers q) + k"
    using Suc by auto
  have lt: "unat (n_producers ?q) + 1 < 2 ^ 64" using IH(4) Suc.prems by simp
  have one: "unat (n_producers ?q + 1) = unat (n_producers ?q) + 1" using lt by (simp add: unat_word_ariths)
  then have "n_producers ?q \<noteq> - 1" by auto
  moreover note one
  ultimately show ?case
    using IH reference_producers_inv [OF IH(1)]
    by (simp add: mq_room_def mq_available_def) (simp add: reference_producers_def)
qed (use assms(1) in simp)

text \<open>
  C15: A queue made by \<open>new_mpsc_queue_pair_with_size\<close>, with any number \<open>k\<close> of further producers and used by one thread at a
  time, is a first-in first-out queue of mbufs whose capacity is one less than the least power of two that is not below the size.
  Every sequence of enqueue and dequeue calls runs without a panic and without spinning forever, and every call returns what it
  returns on a list of at most that many mbufs: an enqueue accepts exactly as many mbufs as fit, a dequeue delivers
  the oldest ones.
\<close>
theorem mpsc_queue_fifo:
  assumes "0 < unat sz" and "unat sz \<le> 2 ^ 63" and "k + 1 < 2 ^ 64"
  shows "\<exists>j q rs q'. unat sz \<le> 2 ^ j \<and> (\<forall>i. unat sz \<le> 2 ^ i \<longrightarrow> j \<le> i) \<and> new_mpsc_queue_pair_with_size sz = Some q \<and>
    fifo_trace enqueue mq_pull ops ((reference_producers ^^ k) q) = Some (rs, q') \<and> queue_trace (2 ^ j - 1) ops [] = (rs, mq_contents q')"
proof -
  obtain j where j: "j < 64" "round_to_power_of_2 sz = 2 ^ j" "unat sz \<le> 2 ^ j" "\<forall>i. unat sz \<le> 2 ^ i \<longrightarrow> j \<le> i"
    using round_to_power_of_2_least [OF assms(1,2)] by blast
  obtain q where q: "new_mpsc_queue_pair_with_size sz = Some q" "mq_inv q" "mq_contents q = []"
    "mq_room q = unat (round_to_power_of_2 sz) - 1" "n_producers q = 1"
    using MpscQueue_new_spec [OF assms(1,2)] by blast
  have r: "mq_inv ((reference_producers ^^ k) q)" "mq_contents ((reference_producers ^^ k) q) = []"
    "mq_room ((reference_producers ^^ k) q) = 2 ^ j - 1"
    using reference_producers_repeat [OF q(2), of k] q(3-5) assms(3) j(1,2) by (auto simp: unat_pow2)
  obtain rs q' where "fifo_trace enqueue mq_pull ops ((reference_producers ^^ k) q) = Some (rs, q')"
    "queue_trace (2 ^ j - 1) ops [] = (rs, mq_contents q')"
    using mpq.run_trace [OF r(1), of ops] r(2,3) by auto
  then show ?thesis using j(3,4) q(1) by blast
qed

theorem mpsc_queue_fifo_witness:
  "\<exists>q q'. new_mpsc_queue_pair_with_size 3 = Some q \<and>
    fifo_trace enqueue mq_pull [Push [10, 20], Pull 1, Push [30, 40, 50], Pull 9] (reference_producers q) =
      Some ([Inl 2, Inr [10], Inl 2, Inr [20, 30, 40]], q') \<and> mq_contents q' = []"
proof -
  obtain j q rs q' where j: "3 \<le> (2 :: nat) ^ j" "\<forall>i. 3 \<le> (2 :: nat) ^ i \<longrightarrow> j \<le> i" and q: "new_mpsc_queue_pair_with_size 3 = Some q"
    "fifo_trace enqueue mq_pull [Push [10, 20], Pull 1, Push [30, 40, 50], Pull 9] ((reference_producers ^^ 1) q) = Some (rs, q')"
    "queue_trace (2 ^ j - 1) [Push [10, 20], Pull 1, Push [30, 40, 50], Pull 9] [] = (rs, mq_contents q')"
    using mpsc_queue_fifo [of 3 1 "[Push [10, 20], Pull 1, Push [30, 40, 50], Pull 9]"]
    by (auto simp del: fifo_trace.simps queue_trace.simps)
  have "j \<le> 2" using j(2) [rule_format, of 2] by simp
  moreover have "j \<noteq> 0" "j \<noteq> 1" using j(1) by (intro notI, simp)+
  ultimately have j2: "j = 2" by linarith
  have "queue_trace 3 [Push [10, 20], Pull 1, Push [30, 40, 50], Pull 9] [] =
      ([Inl 2, Inr [10], Inl 2, Inr [20, 30, 40]], [] :: nat list)" by code_simp
  with q(3) j2 have "rs = [Inl 2, Inr [10], Inl 2, Inr [20, 30, 40]]" "mq_contents q' = []" by auto
  with q(1,2) show ?thesis by (auto simp del: fifo_trace.simps)
qed

text \<open>
  \<open>MpscProducer::enqueue\<close> empties the vector of packets whatever happens: the packets that do not fit
  are in neither the queue nor the vector, and their mbufs are never freed.
\<close>
theorem mpsc_enqueue_drops_excess:
  assumes "mq_inv q"
  shows "\<exists>q'. MpscProducer_enqueue q packets = Some (min (length packets) (mq_room q), [], q') \<and>
    mq_contents q' = mq_contents q @ map pkt_mbuf (take (mq_room q) packets)"
  using enqueue_spec [OF assms, of "map get_mbuf packets"]
  by (auto simp: MpscProducer_enqueue_def take_map get_mbuf_def get_mbuf_ref_def)

theorem mpsc_enqueue_drops_excess_witness:
  "\<exists>q q'. new_mpsc_queue_pair_with_size 2 = Some q \<and>
    MpscProducer_enqueue q [create_packet 7 64 0 HNull, create_packet 8 128 0 HNull] = Some (1, [], q') \<and>
    mq_contents q' = [7]"
proof -
  obtain q where q: "new_mpsc_queue_pair_with_size 2 = Some q" "mq_inv q" "mq_contents q = []"
    "mq_room q = unat (round_to_power_of_2 2) - 1"
    using MpscQueue_new_spec [of 2] by auto
  have "mq_room q = 1" unfolding q(4) by code_simp
  with mpsc_enqueue_drops_excess [OF q(2), of "[create_packet 7 64 0 HNull, create_packet 8 128 0 HNull]"] q
  show ?thesis by (auto simp: create_packet_def)
qed

end
