(* ===== verification/NB_MpscConcurrent.thy ===== *)
theory NB_MpscConcurrent
  imports NB_MpscQueue
begin

text \<open>
  The queue of \<open>framework/src/queues/mpsc_mbuf_queue.rs\<close> under interleaving: any number of producers run
  \<open>enqueue_sp\<close> or \<open>enqueue_mp\<close> and one consumer runs \<open>dequeue\<close>, one atomic access at a time.  Every load,
  store and compare-and-exchange of the code is one step of its thread; the accesses are acquire/release
  operations and the model interleaves them (sequential consistency).  Two ghost fields record what
  happened: \<open>mc_hist\<close>, the mbufs in the order in which their slots were reserved, and \<open>mc_out\<close>, the mbufs
  handed out by completed \<open>dequeue\<close> calls.
\<close>

section \<open>Threads and their steps\<close>

text \<open>
  Where a producer is in \<open>enqueue\<close>: before loading \<open>producer.head\<close>, before loading \<open>consumer.tail\<close>, before
  reserving \<open>insert\<close> slots, storing mbuf \<open>mbuf_idx\<close> to slot \<open>queue_idx\<close> (or, when all are stored, waiting to
  commit), or outside of a call that returned a number.
\<close>

datatype prod_pc =
    PReturn nat
  | PLoadHead "nat list"
  | PLoadTail "nat list" usize
  | PReserve "nat list" usize nat
  | PStore "nat list" usize nat nat nat

text \<open>The same for the consumer in \<open>dequeue\<close>.\<close>

datatype cons_pc =
    CReturn nat "nat list"
  | CLoadHead "nat list"
  | CLoadTail "nat list" usize
  | CReserve "nat list" usize nat
  | CLoad "nat list" usize nat nat nat

record mpsc_state =
  mc_slots :: nat
  mc_mask :: usize
  mc_phead :: usize
  mc_ptail :: usize
  mc_chead :: usize
  mc_ctail :: usize
  mc_queue :: "nat list"
  mc_producers :: nat
  mc_pcs :: "nat \<Rightarrow> prod_pc"
  mc_cpc :: cons_pc
  mc_hist :: "nat list"
  mc_out :: "nat list"

definition set_pc :: "nat \<Rightarrow> prod_pc \<Rightarrow> mpsc_state \<Rightarrow> mpsc_state" where
  "set_pc i pc s = s\<lparr>mc_pcs := (mc_pcs s)(i := pc)\<rparr>"

definition next_idx :: "mpsc_state \<Rightarrow> nat \<Rightarrow> nat" where
  "next_idx s queue_idx = (if queue_idx + 1 = mc_slots s then 0 else queue_idx + 1)"

text \<open>
  One step of producer \<open>i\<close>.  With one producer the head is stored and the tail committed
  unconditionally; otherwise a failed compare-and-exchange starts over, and a producer whose
  predecessors have not committed yet waits (\<open>None\<close>).
\<close>

definition prod_step :: "nat \<Rightarrow> mpsc_state \<Rightarrow> mpsc_state option" where
  "prod_step i s = (case mc_pcs s i of
     PReturn n \<Rightarrow> None
   | PLoadHead mbufs \<Rightarrow> Some (set_pc i (PLoadTail mbufs (mc_phead s)) s)
   | PLoadTail mbufs producer_head \<Rightarrow>
       (let free = mc_mask s + mc_ctail s - producer_head;
            ins = min (unat free) (length mbufs)
        in Some (set_pc i (if ins = 0 then PReturn 0 else PReserve mbufs producer_head ins) s))
   | PReserve mbufs producer_head ins \<Rightarrow>
       Some (if mc_producers s = 1 \<or> mc_phead s = producer_head
         then set_pc i (PStore mbufs producer_head ins 0 (unat (producer_head AND mc_mask s)))
           (s\<lparr>mc_phead := producer_head + of_nat ins, mc_hist := mc_hist s @ take ins mbufs\<rparr>)
         else set_pc i (PLoadHead mbufs) s)
   | PStore mbufs producer_head ins mbuf_idx queue_idx \<Rightarrow>
       if mbuf_idx < ins then do {
         v \<leftarrow> vec_get mbufs mbuf_idx;
         queue \<leftarrow> vec_set (mc_queue s) queue_idx v;
         Some (set_pc i (PStore mbufs producer_head ins (mbuf_idx + 1) (next_idx s queue_idx)) (s\<lparr>mc_queue := queue\<rparr>))
       }
       else if mc_producers s = 1 \<or> mc_ptail s = producer_head
         then Some (set_pc i (PReturn ins) (s\<lparr>mc_ptail := producer_head + of_nat ins\<rparr>))
         else None)"

definition cons_step :: "mpsc_state \<Rightarrow> mpsc_state option" where
  "cons_step s = (case mc_cpc s of
     CReturn n mbufs \<Rightarrow> None
   | CLoadHead mbufs \<Rightarrow> Some (s\<lparr>mc_cpc := CLoadTail mbufs (mc_chead s)\<rparr>)
   | CLoadTail mbufs consumer_head \<Rightarrow>
       (let deq = min (length mbufs) (unat (mc_ptail s - consumer_head))
        in Some (s\<lparr>mc_cpc := (if deq > 0 then CReserve mbufs consumer_head deq else CReturn 0 mbufs)\<rparr>))
   | CReserve mbufs consumer_head deq \<Rightarrow>
       Some (s\<lparr>mc_chead := consumer_head + of_nat deq,
         mc_cpc := CLoad mbufs consumer_head deq 0 (unat (consumer_head AND mc_mask s))\<rparr>)
   | CLoad mbufs consumer_head deq mbuf_idx queue_idx \<Rightarrow>
       if mbuf_idx < deq then do {
         v \<leftarrow> vec_get (mc_queue s) queue_idx;
         mbufs \<leftarrow> vec_set mbufs mbuf_idx v;
         Some (s\<lparr>mc_cpc := CLoad mbufs consumer_head deq (mbuf_idx + 1) (next_idx s queue_idx)\<rparr>)
       }
       else Some (s\<lparr>mc_ctail := consumer_head + of_nat deq, mc_cpc := CReturn deq mbufs,
         mc_out := mc_out s @ take deq mbufs\<rparr>))"

text \<open>The calls, and the steps of the calls in progress.\<close>

datatype mpsc_event = Enqueue nat "nat list" | Prod nat | Dequeue "nat list" | Cons

fun exec_event :: "mpsc_event \<Rightarrow> mpsc_state \<Rightarrow> mpsc_state option" where
  "exec_event (Enqueue i mbufs) s =
     (case mc_pcs s i of PReturn _ \<Rightarrow> if i < mc_producers s then Some (set_pc i (PLoadHead mbufs) s) else None
      | _ \<Rightarrow> None)"
| "exec_event (Prod i) s = prod_step i s"
| "exec_event (Dequeue mbufs) s =
     (case mc_cpc s of CReturn _ _ \<Rightarrow> Some (s\<lparr>mc_cpc := CLoadHead mbufs\<rparr>) | _ \<Rightarrow> None)"
| "exec_event Cons s = cons_step s"

text \<open>A queue made by \<open>MpscQueue::new\<close> with a number of registered producers, all threads outside of calls.\<close>

definition mpsc_init :: "nat \<Rightarrow> MpscQueue \<Rightarrow> mpsc_state" where
  "mpsc_init np q = \<lparr>mc_slots = unat (mq_slots q), mc_mask = mq_mask q, mc_phead = qm_head (producer q),
     mc_ptail = qm_tail (producer q), mc_chead = qm_head (consumer q), mc_ctail = qm_tail (consumer q),
     mc_queue = mq_queue q, mc_producers = np, mc_pcs = (\<lambda>_. PReturn 0), mc_cpc = CReturn 0 [],
     mc_hist = [], mc_out = []\<rparr>"

inductive reach :: "mpsc_state \<Rightarrow> mpsc_state \<Rightarrow> bool" for s0 where
  reach_refl: "reach s0 s0"
| reach_step: "reach s0 s \<Longrightarrow> exec_event e s = Some s' \<Longrightarrow> reach s0 s'"

fun run_events :: "mpsc_event list \<Rightarrow> mpsc_state \<Rightarrow> mpsc_state option" where
  "run_events [] s = Some s"
| "run_events (e # es) s = exec_event e s \<bind> run_events es"

lemma reach_run:
  "run_events es s = Some s' \<Longrightarrow> reach s0 s \<Longrightarrow> reach s0 s'"
  by (induction es arbitrary: s) (auto simp: bind_eq_Some_conv intro: reach_step)

section \<open>The invariant\<close>

abbreviation n_hist :: "mpsc_state \<Rightarrow> nat" where "n_hist s \<equiv> length (mc_hist s)"
abbreviation n_ptail :: "mpsc_state \<Rightarrow> nat" where "n_ptail s \<equiv> unat (mc_ptail s)"
abbreviation n_ctail :: "mpsc_state \<Rightarrow> nat" where "n_ctail s \<equiv> unat (mc_ctail s)"

fun prod_range :: "prod_pc \<Rightarrow> nat set" where
  "prod_range (PStore mbufs h n j qi) = {unat h..<unat h + n}"
| "prod_range _ = {}"

fun prod_ok :: "mpsc_state \<Rightarrow> prod_pc \<Rightarrow> bool" where
  "prod_ok s (PReturn n) \<longleftrightarrow> True"
| "prod_ok s (PLoadHead mbufs) \<longleftrightarrow> True"
| "prod_ok s (PLoadTail mbufs h) \<longleftrightarrow> unat h \<le> n_hist s \<and> (mc_producers s = 1 \<longrightarrow> unat h = n_hist s)"
| "prod_ok s (PReserve mbufs h n) \<longleftrightarrow> unat h \<le> n_hist s \<and> (mc_producers s = 1 \<longrightarrow> unat h = n_hist s) \<and> 0 < n \<and>
     n \<le> length mbufs \<and> (unat h = n_hist s \<longrightarrow> n_hist s + n < n_ctail s + mc_slots s)"
| "prod_ok s (PStore mbufs h n j qi) \<longleftrightarrow> n_ptail s \<le> unat h \<and> unat h + n \<le> n_hist s \<and> 0 < n \<and> n \<le> length mbufs \<and>
     j \<le> n \<and> qi = (unat h + j) mod mc_slots s \<and> take n (drop (unat h) (mc_hist s)) = take n mbufs \<and>
     (\<forall>x. unat h \<le> x \<and> x < unat h + j \<longrightarrow> mc_queue s ! (x mod mc_slots s) = mc_hist s ! x)"

fun cons_pc_ok :: "mpsc_state \<Rightarrow> cons_pc \<Rightarrow> bool" where
  "cons_pc_ok s (CReturn n mbufs) \<longleftrightarrow> mc_chead s = mc_ctail s"
| "cons_pc_ok s (CLoadHead mbufs) \<longleftrightarrow> mc_chead s = mc_ctail s"
| "cons_pc_ok s (CLoadTail mbufs h) \<longleftrightarrow> mc_chead s = mc_ctail s \<and> h = mc_chead s"
| "cons_pc_ok s (CReserve mbufs h d) \<longleftrightarrow> mc_chead s = mc_ctail s \<and> h = mc_chead s \<and> 0 < d \<and> d \<le> length mbufs \<and>
     unat h + d \<le> n_ptail s"
| "cons_pc_ok s (CLoad mbufs h d j qi) \<longleftrightarrow> h = mc_ctail s \<and> mc_chead s = h + of_nat d \<and> 0 < d \<and> d \<le> length mbufs \<and>
     unat h + d \<le> n_ptail s \<and> j \<le> d \<and> qi = (unat h + j) mod mc_slots s \<and>
     take j mbufs = take j (drop (unat h) (mc_hist s))"

text \<open>The counters, the committed part of the ring, and the threads.\<close>

definition counters_ok :: "mpsc_state \<Rightarrow> bool" where
  "counters_ok s \<longleftrightarrow> (\<exists>k<64. mc_slots s = 2 ^ k \<and> mc_mask s = 2 ^ k - 1) \<and> length (mc_queue s) = mc_slots s \<and>
     0 < mc_producers s \<and> n_hist s < 2 ^ 64 \<and> unat (mc_phead s) = n_hist s \<and>
     n_ctail s \<le> n_ptail s \<and> n_ptail s \<le> n_hist s \<and> n_hist s < n_ctail s + mc_slots s \<and>
     mc_out s = take (n_ctail s) (mc_hist s) \<and>
     (\<forall>x. n_ctail s \<le> x \<and> x < n_ptail s \<longrightarrow> mc_queue s ! (x mod mc_slots s) = mc_hist s ! x)"

definition prods_ok :: "mpsc_state \<Rightarrow> bool" where
  "prods_ok s \<longleftrightarrow> (\<forall>i. prod_ok s (mc_pcs s i)) \<and> (\<forall>i\<ge>mc_producers s. mc_pcs s i = PReturn 0) \<and>
     (\<forall>i j. i \<noteq> j \<longrightarrow> prod_range (mc_pcs s i) \<inter> prod_range (mc_pcs s j) = {}) \<and>
     {n_ptail s..<n_hist s} \<subseteq> (\<Union>i. prod_range (mc_pcs s i))"

definition mpsc_inv :: "mpsc_state \<Rightarrow> bool" where
  "mpsc_inv s \<longleftrightarrow> counters_ok s \<and> prods_ok s \<and> cons_pc_ok s (mc_cpc s)"

section \<open>Preservation\<close>

lemma ring_positions_differ:
  fixes x y c l :: nat
  assumes "c \<le> x" "x < c + l" "c \<le> y" "y < c + l" "x \<noteq> y"
  shows "x mod l \<noteq> y mod l"
proof -
  have *: "a mod l \<noteq> b mod l" if "c \<le> a" "a < b" "b < c + l" for a b
  proof
    assume "a mod l = b mod l"
    then have "l dvd b - a" using that by (metis mod_eq_dvd_iff_nat less_imp_le)
    moreover have "0 < b - a" "b - a < l" using that by auto
    ultimately show False using dvd_imp_le by fastforce
  qed
  from assms *[of x y] *[of y x] show ?thesis by (cases "x < y") auto
qed

lemma next_idx_mod:
  assumes "0 < mc_slots s"
  shows "next_idx s (x mod mc_slots s) = (x + 1) mod mc_slots s"
  using assms by (simp add: next_idx_def mod_Suc)

lemma set_pc_simps [simp]:
  "mc_pcs (set_pc i pc s) = (mc_pcs s)(i := pc)" "mc_slots (set_pc i pc s) = mc_slots s"
  "mc_mask (set_pc i pc s) = mc_mask s" "mc_phead (set_pc i pc s) = mc_phead s"
  "mc_ptail (set_pc i pc s) = mc_ptail s" "mc_chead (set_pc i pc s) = mc_chead s"
  "mc_ctail (set_pc i pc s) = mc_ctail s" "mc_queue (set_pc i pc s) = mc_queue s"
  "mc_producers (set_pc i pc s) = mc_producers s" "mc_cpc (set_pc i pc s) = mc_cpc s"
  "mc_hist (set_pc i pc s) = mc_hist s" "mc_out (set_pc i pc s) = mc_out s"
  by (simp_all add: set_pc_def)

lemma counters_ok_set_pc [simp]: "counters_ok (set_pc i pc s) = counters_ok s"
  by (simp add: counters_ok_def)

lemma prod_ok_set_pc [simp]: "prod_ok (set_pc i pc s) p = prod_ok s p"
  by (cases p) simp_all

lemma cons_pc_ok_set_pc [simp]: "cons_pc_ok (set_pc i pc s) c = cons_pc_ok s c"
  by (cases c) simp_all

lemma all_prods_ok:
  assumes "prod_ok s' (mc_pcs s' i)" and "\<And>j. j \<noteq> i \<Longrightarrow> prod_ok s' (mc_pcs s j)"
    and "\<And>j. j \<noteq> i \<Longrightarrow> mc_pcs s' j = mc_pcs s j"
  shows "prod_ok s' (mc_pcs s' j)"
  using assms by (cases "j = i") simp_all

text \<open>A producer moves without reserving, storing or committing.\<close>

lemma inv_set_pc:
  assumes inv: "mpsc_inv s" and ok: "prod_ok s pc" and r: "prod_range pc = prod_range (mc_pcs s i)"
    and i: "i < mc_producers s"
  shows "mpsc_inv (set_pc i pc s)"
proof -
  have "prod_range (((mc_pcs s)(i := pc)) j) = prod_range (mc_pcs s j)" for j using r by simp
  then have "prods_ok (set_pc i pc s)" using inv ok i by (simp add: mpsc_inv_def prods_ok_def)
  then show ?thesis using inv by (simp add: mpsc_inv_def)
qed

text \<open>The slots are reserved.\<close>

lemma inv_reserve:
  assumes inv: "mpsc_inv s" and pc: "mc_pcs s i = PReserve mbufs h n" and "mc_producers s = 1 \<or> mc_phead s = h"
    and s': "s' = set_pc i (PStore mbufs h n 0 (unat (h AND mc_mask s)))
      (s\<lparr>mc_phead := h + of_nat n, mc_hist := mc_hist s @ take n mbufs\<rparr>)" and max: "n_hist s' < 2 ^ 64"
  shows "mpsc_inv s'"
proof -
  have P: "prod_ok s (mc_pcs s j)" for j using inv by (simp add: mpsc_inv_def prods_ok_def)
  have C: "counters_ok s" using inv by (simp add: mpsc_inv_def)
  have h: "unat h = n_hist s" and n: "0 < n" "n \<le> length mbufs" "n_hist s + n < n_ctail s + mc_slots s"
    using P [of i] C assms(3) unfolding pc by (auto simp: counters_ok_def)
  have len: "n_hist s' = n_hist s + n" using n by (simp add: s')
  have pos: "unat (h AND mc_mask s) = n_hist s mod mc_slots s"
    using C h by (auto simp: counters_ok_def unat_and_pow2_minus_1)
  have one: "j = i" if "mc_producers s = 1" "mc_pcs s j \<noteq> PReturn 0" for j
    using inv that pc unfolding mpsc_inv_def prods_ok_def by (metis One_nat_def less_Suc0 not_le prod_pc.distinct(5))
  have other: "prod_ok s' (mc_pcs s j)" if "j \<noteq> i" for j
    using P [of j] n len one [of j] that by (cases "mc_pcs s j") (auto simp: s' nth_append)
  have new: "prod_ok s' (mc_pcs s' i)"
    using C n len h pos by (simp add: s' counters_ok_def)
  have "counters_ok s'"
    using C n len h max by (auto simp: counters_ok_def s' unat_advance nth_append)
  moreover have "cons_pc_ok s' (mc_cpc s')"
    using inv C len by (cases "mc_cpc s") (auto simp: mpsc_inv_def s' counters_ok_def)
  moreover have "prods_ok s'"
  proof -
    have r: "prod_range (mc_pcs s' j) = (if j = i then {n_hist s..<n_hist s + n} else prod_range (mc_pcs s j))" for j
      using h by (simp add: s')
    have below: "prod_range (mc_pcs s j) \<subseteq> {..<n_hist s}" for j
      using P [of j] by (cases "mc_pcs s j") auto
    have "prod_range (mc_pcs s' j) \<inter> prod_range (mc_pcs s' l) = {}" if "j \<noteq> l" for j l
      using inv below [of j] below [of l] that unfolding r by (auto simp: mpsc_inv_def prods_ok_def)
    moreover have "{n_ptail s'..<n_hist s'} \<subseteq> (\<Union>j. prod_range (mc_pcs s' j))"
    proof
      fix x assume x: "x \<in> {n_ptail s'..<n_hist s'}"
      show "x \<in> (\<Union>j. prod_range (mc_pcs s' j))"
      proof (cases "x < n_hist s")
        case True
        with x have "x \<in> {n_ptail s..<n_hist s}" by (simp add: s')
        with inv obtain j where j: "x \<in> prod_range (mc_pcs s j)"
          unfolding mpsc_inv_def prods_ok_def by blast
        then have "j \<noteq> i" using pc by auto
        with j r show ?thesis by auto
      next
        case False
        with x len r [of i] show ?thesis by auto
      qed
    qed
    moreover have "\<forall>j\<ge>mc_producers s'. mc_pcs s' j = PReturn 0"
      using inv pc by (auto simp: mpsc_inv_def prods_ok_def s')
    moreover have "prod_ok s' (mc_pcs s' j)" for j
      by (rule all_prods_ok [of s' i s]) (rule new, erule other, simp add: s')
    ultimately show ?thesis by (simp add: prods_ok_def)
  qed
  ultimately show ?thesis by (simp add: mpsc_inv_def)
qed

text \<open>A reserved slot is filled.\<close>

lemma inv_store:
  assumes inv: "mpsc_inv s" and pc: "mc_pcs s i = PStore mbufs h n j qi" and j: "j < n"
    and s': "s' = set_pc i (PStore mbufs h n (j + 1) (next_idx s qi)) (s\<lparr>mc_queue := (mc_queue s)[qi := mbufs ! j]\<rparr>)"
  shows "mpsc_inv s'"
proof -
  have P: "prod_ok s (mc_pcs s l)" for l using inv by (simp add: mpsc_inv_def prods_ok_def)
  have C: "counters_ok s" using inv by (simp add: mpsc_inv_def)
  let ?L = "mc_slots s" and ?x = "unat h + j"
  have L: "0 < ?L" using C by (auto simp: counters_ok_def)
  have h: "n_ptail s \<le> unat h" "unat h + n \<le> n_hist s" "n \<le> length mbufs" "qi = ?x mod ?L"
    "take n (drop (unat h) (mc_hist s)) = take n mbufs"
    and stored: "\<And>x. unat h \<le> x \<Longrightarrow> x < ?x \<Longrightarrow> mc_queue s ! (x mod ?L) = mc_hist s ! x"
    using P [of i] unfolding pc by auto
  have win: "n_ctail s \<le> n_ptail s" "n_hist s < n_ctail s + ?L" "length (mc_queue s) = ?L"
    using C by (auto simp: counters_ok_def)
  have val: "mbufs ! j = mc_hist s ! ?x"
    using h(2,3,5) j by (metis add.commute nth_drop nth_take add_leD1 le_trans nat_le_linear)
  have same: "mc_queue s' ! (x mod ?L) = mc_queue s ! (x mod ?L)"
    if "n_ctail s \<le> x" "x < n_hist s" "x \<noteq> ?x" for x
    using ring_positions_differ [of "n_ctail s" x ?L ?x] that h(1,2) win j by (simp add: s' h(4))
  have at: "mc_queue s' ! (?x mod ?L) = mc_hist s ! ?x"
    using win(3) L by (simp add: s' h(4) val)
  have r: "prod_range (mc_pcs s' l) = prod_range (mc_pcs s l)" for l by (simp add: s' pc)
  have new: "prod_ok s' (mc_pcs s' i)"
  proof -
    have "mc_queue s' ! (x mod ?L) = mc_hist s ! x" if "unat h \<le> x" "x < ?x + 1" for x
      using that at same [of x] stored [of x] h(1,2) win(1) j by (cases "x = ?x") auto
    then show ?thesis using P [of i] j L by (simp add: s' pc next_idx_mod)
  qed
  have other: "prod_ok s' (mc_pcs s l)" if "l \<noteq> i" for l
  proof (cases "mc_pcs s l")
    case (PStore m' h' n' j' qi')
    have "?x \<notin> prod_range (mc_pcs s l)"
      using inv that j pc unfolding mpsc_inv_def prods_ok_def by fastforce
    then have "mc_queue s' ! (x mod ?L) = mc_queue s ! (x mod ?L)" if "unat h' \<le> x" "x < unat h' + j'" for x
      using P [of l] that PStore win by (intro same) auto
    then show ?thesis using P [of l] by (simp add: PStore s')
  qed (use P [of l] in \<open>simp_all add: s'\<close>)
  have "counters_ok s'"
    using C same h(1) by (auto simp: counters_ok_def) (simp_all add: s')
  moreover have "cons_pc_ok s' (mc_cpc s')"
    using inv by (cases "mc_cpc s") (auto simp: mpsc_inv_def s')
  moreover have "prods_ok s'"
  proof -
    have "prod_ok s' (mc_pcs s' l)" for l
      by (rule all_prods_ok [of s' i s]) (rule new, erule other, simp add: s')
    moreover have "\<forall>l\<ge>mc_producers s'. mc_pcs s' l = PReturn 0"
      using inv pc by (auto simp: mpsc_inv_def prods_ok_def s')
    moreover have "n_ptail s' = n_ptail s" "n_hist s' = n_hist s" by (simp_all add: s')
    ultimately show ?thesis using inv unfolding mpsc_inv_def prods_ok_def r by simp
  qed
  ultimately show ?thesis by (simp add: mpsc_inv_def)
qed

text \<open>The filled slots are committed.  The producer that commits is the one whose slots are next.\<close>

lemma commit_first:
  assumes inv: "mpsc_inv s" and pc: "mc_pcs s i = PStore mbufs h n j qi" and "mc_producers s = 1 \<or> mc_ptail s = h"
  shows "n_ptail s = unat h"
proof (rule ccontr)
  assume ne: "n_ptail s \<noteq> unat h"
  with assms(3) have one: "mc_producers s = 1" by auto
  have "prod_ok s (mc_pcs s i)" using inv by (simp add: mpsc_inv_def prods_ok_def)
  with ne pc have "n_ptail s < unat h" "unat h \<le> n_hist s" by auto
  then have "n_ptail s \<in> {n_ptail s..<n_hist s}" by simp
  with inv obtain l where l: "n_ptail s \<in> prod_range (mc_pcs s l)"
    unfolding mpsc_inv_def prods_ok_def by blast
  moreover have "l < 1" "i < 1"
    using inv one l pc unfolding mpsc_inv_def prods_ok_def
    by (metis not_le prod_range.simps(2) empty_iff, metis not_le prod_pc.distinct(7))
  ultimately show False using pc \<open>n_ptail s < unat h\<close> by simp
qed

lemma inv_commit:
  assumes inv: "mpsc_inv s" and pc: "mc_pcs s i = PStore mbufs h n n qi" and "mc_producers s = 1 \<or> mc_ptail s = h"
    and s': "s' = set_pc i (PReturn n) (s\<lparr>mc_ptail := h + of_nat n\<rparr>)"
  shows "mpsc_inv s'"
proof -
  have P: "prod_ok s (mc_pcs s l)" for l using inv by (simp add: mpsc_inv_def prods_ok_def)
  have C: "counters_ok s" using inv by (simp add: mpsc_inv_def)
  have T: "n_ptail s = unat h" using commit_first [OF inv pc assms(3)] .
  have h: "unat h + n \<le> n_hist s" "0 < n" "n_hist s < 2 ^ 64"
    and stored: "\<And>x. unat h \<le> x \<Longrightarrow> x < unat h + n \<Longrightarrow> mc_queue s ! (x mod mc_slots s) = mc_hist s ! x"
    using P [of i] C unfolding pc by (auto simp: counters_ok_def)
  have T': "n_ptail s' = unat h + n" using h by (simp add: s' unat_advance)
  have r: "prod_range (mc_pcs s' l) = (if l = i then {} else prod_range (mc_pcs s l))" for l by (simp add: s')
  have other: "prod_ok s' (mc_pcs s l)" if "l \<noteq> i" for l
  proof (cases "mc_pcs s l")
    case (PStore m' h' n' j' qi')
    have "unat h' \<notin> prod_range (mc_pcs s i)"
      using inv that P [of l] PStore unfolding mpsc_inv_def prods_ok_def by fastforce
    then have "unat h + n \<le> unat h'" using P [of l] PStore T pc by auto
    then show ?thesis using P [of l] T' by (simp add: PStore) (simp add: s')
  qed (use P [of l] in \<open>simp_all add: s'\<close>)
  have "counters_ok s'"
  proof -
    have "mc_queue s ! (x mod mc_slots s) = mc_hist s ! x" if "n_ctail s \<le> x" "x < unat h + n" for x
      using C stored [of x] T that by (cases "x < unat h") (auto simp: counters_ok_def)
    then show ?thesis unfolding counters_ok_def T' using C h T by (auto simp: counters_ok_def s')
  qed
  moreover have "cons_pc_ok s' (mc_cpc s')"
    using inv T T' by (cases "mc_cpc s") (auto simp: mpsc_inv_def s')
  moreover have "prods_ok s'"
  proof -
    have "prod_ok s' (mc_pcs s' l)" for l
      by (rule all_prods_ok [of s' i s]) (simp add: s', erule other, simp add: s')
    moreover have "\<forall>l\<ge>mc_producers s'. mc_pcs s' l = PReturn 0"
      using inv pc by (auto simp: mpsc_inv_def prods_ok_def s')
    moreover have "{n_ptail s'..<n_hist s'} \<subseteq> (\<Union>l. prod_range (mc_pcs s' l))"
    proof
      fix x assume x: "x \<in> {n_ptail s'..<n_hist s'}"
      then have "x \<in> {n_ptail s..<n_hist s}" using T T' by (simp add: s')
      with inv obtain l where l: "x \<in> prod_range (mc_pcs s l)"
        unfolding mpsc_inv_def prods_ok_def by blast
      moreover have "l \<noteq> i" using l x T' pc by auto
      ultimately show "x \<in> (\<Union>l. prod_range (mc_pcs s' l))" using r by auto
    qed
    moreover have "prod_range (mc_pcs s' a) \<inter> prod_range (mc_pcs s' b) = {}" if "a \<noteq> b" for a b
      using inv that unfolding r by (auto simp: mpsc_inv_def prods_ok_def)
    ultimately show ?thesis by (simp add: prods_ok_def)
  qed
  ultimately show ?thesis by (simp add: mpsc_inv_def)
qed

text \<open>The consumer.\<close>

lemma inv_cons:
  assumes "mpsc_inv s" and "s' = s\<lparr>mc_cpc := mc_cpc s', mc_chead := mc_chead s'\<rparr>" and "cons_pc_ok s' (mc_cpc s')"
  shows "mpsc_inv s'"
proof -
  have f: "mc_slots s' = mc_slots s" "mc_mask s' = mc_mask s" "mc_queue s' = mc_queue s" "mc_pcs s' = mc_pcs s"
    "mc_producers s' = mc_producers s" "mc_hist s' = mc_hist s" "mc_phead s' = mc_phead s" "mc_out s' = mc_out s"
    "mc_ptail s' = mc_ptail s" "mc_ctail s' = mc_ctail s"
    by (subst assms(2), simp)+
  have "prod_ok s' p = prod_ok s p" for p by (cases p) (simp_all add: f)
  with assms(1,3) show ?thesis by (simp add: mpsc_inv_def counters_ok_def prods_ok_def f)
qed

lemma inv_cons_step:
  assumes inv: "mpsc_inv s" and step: "cons_step s = Some s'"
  shows "mpsc_inv s'"
proof (cases "mc_cpc s")
  case (CReturn n mbufs)
  with step show ?thesis by (simp add: cons_step_def)
next
  case (CLoadHead mbufs)
  with step inv show ?thesis by (intro inv_cons [OF inv]) (auto simp: cons_step_def mpsc_inv_def)
next
  case (CLoadTail mbufs h)
  with step inv show ?thesis
    by (intro inv_cons [OF inv]) (auto simp: cons_step_def mpsc_inv_def Let_def counters_ok_def unat_sub word_le_nat_alt)
next
  case (CReserve mbufs h d)
  with step inv show ?thesis
    by (intro inv_cons [OF inv]) (auto simp: cons_step_def mpsc_inv_def counters_ok_def unat_and_pow2_minus_1)
next
  case (CLoad mbufs h d j qi)
  have C: "counters_ok s" and c: "cons_pc_ok s (CLoad mbufs h d j qi)"
    using inv unfolding mpsc_inv_def CLoad by blast+
  let ?L = "mc_slots s" and ?x = "unat h + j"
  have L: "0 < ?L" "length (mc_queue s) = ?L" using C by (auto simp: counters_ok_def)
  show ?thesis
  proof (cases "j < d")
    case True
    have v: "mc_queue s ! (?x mod ?L) = mc_hist s ! ?x" and x: "?x < n_hist s"
      using C c True by (auto simp: counters_ok_def)
    let ?m = "mbufs[j := mc_hist s ! ?x]"
    have s': "s' = s\<lparr>mc_cpc := CLoad ?m h d (j + 1) (next_idx s qi)\<rparr>"
      using step CLoad True c L v by (auto simp: cons_step_def vec_get_def vec_set_def)
    have "take (Suc j) ?m = take (Suc j) (drop (unat h) (mc_hist s))"
      using c True x by (simp add: take_Suc_conv_app_nth)
    then show ?thesis using inv c True L by (intro inv_cons [OF inv]) (auto simp: s' next_idx_mod)
  next
    case False
    have s': "s' = s\<lparr>mc_ctail := h + of_nat d, mc_cpc := CReturn d mbufs, mc_out := mc_out s @ take d mbufs\<rparr>"
      using step CLoad False by (auto simp: cons_step_def)
    have ct: "n_ctail s' = n_ctail s + d"
      using c C unat_advance [of "mc_ctail s" d] by (auto simp: s' counters_ok_def)
    have "prod_ok s (mc_pcs s i)" for i using inv by (simp add: mpsc_inv_def prods_ok_def)
    moreover have "prod_ok s' p" if "prod_ok s p" for p
      using that ct by (cases p) (auto simp: s')
    moreover have "counters_ok s'"
      unfolding counters_ok_def ct using C c False by (auto simp: counters_ok_def s' take_add)
    ultimately show ?thesis
      using inv c False by (simp add: mpsc_inv_def prods_ok_def s')
  qed
qed

lemma hist_grows:
  "exec_event e s = Some s' \<Longrightarrow> n_hist s \<le> n_hist s' \<and> mc_producers s' = mc_producers s"
  by (cases e) (auto simp: prod_step_def cons_step_def Let_def bind_eq_Some_conv
      split: prod_pc.splits cons_pc.splits if_splits)

lemma reach_grows: "reach s s' \<Longrightarrow> n_hist s \<le> n_hist s' \<and> mc_producers s' = mc_producers s"
proof (induction rule: reach.induct)
  case (reach_step s1 e s2)
  with hist_grows [OF reach_step.hyps(2)] show ?case by simp
qed simp

lemma active_producer:
  "mpsc_inv s \<Longrightarrow> mc_pcs s i \<noteq> PReturn 0 \<Longrightarrow> i < mc_producers s"
  unfolding mpsc_inv_def prods_ok_def by (metis not_le)

lemma inv_prod_step:
  assumes inv: "mpsc_inv s" and step: "prod_step i s = Some s'" and max: "n_hist s' < 2 ^ 64"
  shows "mpsc_inv s'"
proof (cases "mc_pcs s i")
  case (PReturn n)
  with step show ?thesis by (simp add: prod_step_def)
next
  case (PLoadHead mbufs)
  then have s': "s' = set_pc i (PLoadTail mbufs (mc_phead s)) s" using step by (simp add: prod_step_def)
  show ?thesis
    unfolding s' using inv active_producer [OF inv, of i] PLoadHead
    by (intro inv_set_pc) (auto simp: mpsc_inv_def counters_ok_def)
next
  case (PLoadTail mbufs h)
  let ?ins = "min (unat (mc_mask s + mc_ctail s - h)) (length mbufs)"
  have s': "s' = set_pc i (if ?ins = 0 then PReturn 0 else PReserve mbufs h ?ins) s"
    using step PLoadTail by (simp add: prod_step_def Let_def)
  have C: "counters_ok s" and p: "prod_ok s (PLoadTail mbufs h)"
    using inv PLoadTail unfolding mpsc_inv_def prods_ok_def by metis+
  have "n_hist s + ?ins < n_ctail s + mc_slots s" if "unat h = n_hist s"
  proof -
    let ?d = "h - mc_ctail s"
    have "mc_ctail s \<le> h" using C that by (simp add: counters_ok_def word_le_nat_alt)
    then have d: "unat ?d = n_hist s - n_ctail s" using that by (simp add: unat_sub)
    from C obtain k where k: "k < 64" "mc_slots s = 2 ^ k" "mc_mask s = 2 ^ k - 1" by (auto simp: counters_ok_def)
    then have m: "unat (mc_mask s) = mc_slots s - 1" by (simp add: unat_pow2_minus_1)
    have le: "?d \<le> mc_mask s" using C d m by (auto simp: word_le_nat_alt counters_ok_def)
    have "unat (mc_mask s + mc_ctail s - h) = unat (mc_mask s - ?d)" by (simp add: algebra_simps)
    also have "\<dots> = mc_slots s - 1 - (n_hist s - n_ctail s)" by (simp only: unat_sub [OF le] m d)
    finally show ?thesis using C by (auto simp: counters_ok_def)
  qed
  then show ?thesis
    unfolding s' using inv active_producer [OF inv, of i] PLoadTail p
    by (intro inv_set_pc) (auto simp: min_def split: if_splits)
next
  case (PReserve mbufs h n)
  show ?thesis
  proof (cases "mc_producers s = 1 \<or> mc_phead s = h")
    case True
    show ?thesis
      using inv_reserve [OF inv PReserve True _ max] step PReserve True by (simp add: prod_step_def)
  next
    case False
    then have s': "s' = set_pc i (PLoadHead mbufs) s" using step PReserve by (simp add: prod_step_def)
    show ?thesis
      unfolding s' using inv active_producer [OF inv, of i] PReserve by (intro inv_set_pc) simp_all
  qed
next
  case (PStore mbufs h n j qi)
  have C: "counters_ok s" and p: "prod_ok s (PStore mbufs h n j qi)"
    using inv PStore unfolding mpsc_inv_def prods_ok_def by metis+
  have "qi < length (mc_queue s)" using C p by (auto simp: counters_ok_def)
  with p step PStore have "j < n \<and> s' = set_pc i (PStore mbufs h n (j + 1) (next_idx s qi))
        (s\<lparr>mc_queue := (mc_queue s)[qi := mbufs ! j]\<rparr>) \<or>
      j = n \<and> (mc_producers s = 1 \<or> mc_ptail s = h) \<and> s' = set_pc i (PReturn n) (s\<lparr>mc_ptail := h + of_nat n\<rparr>)"
    by (auto simp: prod_step_def vec_get_def vec_set_def split: if_splits)
  then show ?thesis using inv_store [OF inv PStore] inv_commit [OF inv] PStore by blast
qed

lemma inv_event:
  assumes "mpsc_inv s" and "exec_event e s = Some s'" and "n_hist s' < 2 ^ 64"
  shows "mpsc_inv s'"
proof (cases e)
  case (Enqueue i mbufs)
  with assms show ?thesis by (auto intro!: inv_set_pc split: prod_pc.splits if_splits)
next
  case (Prod i)
  with assms show ?thesis by (auto intro: inv_prod_step)
next
  case (Dequeue mbufs)
  with assms(1,2) have "s' = s\<lparr>mc_cpc := CLoadHead mbufs\<rparr>" "mc_chead s = mc_ctail s"
    by (auto simp: mpsc_inv_def split: cons_pc.splits)
  then show ?thesis by (intro inv_cons [OF assms(1)]) simp_all
next
  case Cons
  with assms show ?thesis by (auto intro: inv_cons_step)
qed

lemma inv_reach:
  "reach s s' \<Longrightarrow> mpsc_inv s \<Longrightarrow> n_hist s' < 2 ^ 64 \<Longrightarrow> mpsc_inv s'"
proof (induction rule: reach.induct)
  case (reach_step s1 e s2)
  with hist_grows [OF reach_step.hyps(2)] inv_event [OF _ reach_step.hyps(2)] show ?case by simp
qed simp

lemma inv_init:
  assumes "0 < unat sz" and "unat sz \<le> 2 ^ 63" and "new_mpsc_queue_pair_with_size sz = Some q" and "0 < np"
  shows "mpsc_inv (mpsc_init np q)"
  using assms(1,2) by (rule new_mpsc_queue_pair_eq)
    (use assms(3,4) in \<open>auto simp: mpsc_inv_def counters_ok_def prods_ok_def mpsc_init_def unat_pow2\<close>)

section \<open>Progress\<close>

text \<open>The calls in progress are continued, and the consumer may start further ones, but no producer starts one.\<close>

fun continues :: "mpsc_event \<Rightarrow> bool" where
  "continues (Enqueue i mbufs) = False"
| "continues _ = True"

inductive cont :: "mpsc_state \<Rightarrow> mpsc_state \<Rightarrow> bool" for s0 where
  cont_refl: "cont s0 s0"
| cont_step: "cont s0 s \<Longrightarrow> exec_event e s = Some s' \<Longrightarrow> continues e \<Longrightarrow> cont s0 s'"

lemma cont_trans: "cont t u \<Longrightarrow> cont s t \<Longrightarrow> cont s u"
  by (induction rule: cont.induct) (auto intro: cont_step)

lemma cont_then: "exec_event e s = Some t \<Longrightarrow> cont t u \<Longrightarrow> continues e \<Longrightarrow> cont s u"
  using cont_trans cont_step [OF cont_refl] by blast

lemma cont_reach: "cont s t \<Longrightarrow> reach s t"
  by (induction rule: cont.induct) (auto intro: reach.intros)

text \<open>The producers inside of a call; continuing never adds one.\<close>

definition in_call :: "mpsc_state \<Rightarrow> nat set" where
  "in_call s = {i. \<forall>n. mc_pcs s i \<noteq> PReturn n}"

lemma continue_in_call:
  "exec_event e s = Some s' \<Longrightarrow> continues e \<Longrightarrow> in_call s' \<subseteq> in_call s \<and> mc_slots s' = mc_slots s \<and> mc_hist s = take (n_hist s) (mc_hist s')"
  by (cases e) (auto simp: in_call_def prod_step_def cons_step_def Let_def bind_eq_Some_conv
      split: prod_pc.splits cons_pc.splits if_splits)

lemma cont_in_call:
  "cont s s' \<Longrightarrow> in_call s' \<subseteq> in_call s \<and> mc_slots s' = mc_slots s \<and> mc_hist s = take (n_hist s) (mc_hist s')"
proof (induction rule: cont.induct)
  case (cont_step s1 e s2)
  note step = continue_in_call [OF cont_step.hyps(2,3)]
  have "n_hist s \<le> n_hist s1" using cont_step.IH by (metis length_take min.cobounded1 min.commute)
  then have "take (n_hist s) (mc_hist s1) = take (n_hist s) (mc_hist s2)" using step by (metis min.absorb1 take_take)
  with step cont_step.IH show ?case by auto
qed simp

lemma inv_cont: "cont s s' \<Longrightarrow> mpsc_inv s \<Longrightarrow> n_hist s' < 2 ^ 64 \<Longrightarrow> mpsc_inv s'"
  by (rule inv_reach [OF cont_reach])

lemma inv_same_hist:
  "mpsc_inv s \<Longrightarrow> cont s s' \<Longrightarrow> mc_hist s' = mc_hist s \<Longrightarrow> mpsc_inv s'"
  by (rule inv_cont [of s]) (simp_all add: mpsc_inv_def counters_ok_def)

text \<open>The producer whose slots are next stores what is left and commits.\<close>

lemma store_progress:
  assumes "mpsc_inv s" and "mc_pcs s i = PStore mbufs (mc_ptail s) n j qi"
  shows "\<exists>s'. cont s s' \<and> mc_hist s' = mc_hist s \<and> mc_cpc s' = mc_cpc s \<and> n_ptail s' = n_ptail s + n \<and> mc_pcs s' i = PReturn n"
  using assms
proof (induction "n - j" arbitrary: s j qi)
  case 0
  have C: "counters_ok s" and p: "prod_ok s (PStore mbufs (mc_ptail s) n j qi)"
    using 0(2,3) unfolding mpsc_inv_def prods_ok_def by metis+
  let ?s = "set_pc i (PReturn n) (s\<lparr>mc_ptail := mc_ptail s + of_nat n\<rparr>)"
  have "exec_event (Prod i) s = Some ?s" using 0 p by (simp add: prod_step_def)
  moreover have "n_ptail ?s = n_ptail s + n"
    using C p unat_advance [of "mc_ptail s" n] by (auto simp: counters_ok_def)
  moreover have "cont s ?s" by (rule cont_then [OF calculation(1) cont_refl]) simp
  ultimately show ?case by (intro exI [of _ ?s]) simp
next
  case (Suc m)
  have C: "counters_ok s" and p: "prod_ok s (PStore mbufs (mc_ptail s) n j qi)"
    using Suc.prems unfolding mpsc_inv_def prods_ok_def by metis+
  let ?s = "set_pc i (PStore mbufs (mc_ptail s) n (j + 1) (next_idx s qi)) (s\<lparr>mc_queue := (mc_queue s)[qi := mbufs ! j]\<rparr>)"
  have j: "j < n" using Suc(2) by simp
  have step: "exec_event (Prod i) s = Some ?s"
    using Suc.prems p C j by (auto simp: prod_step_def vec_get_def vec_set_def counters_ok_def)
  have "mpsc_inv ?s" by (rule inv_store [OF Suc.prems j refl])
  then obtain s' where "cont ?s s'" "mc_hist s' = mc_hist ?s" "mc_cpc s' = mc_cpc ?s" "n_ptail s' = n_ptail ?s + n" "mc_pcs s' i = PReturn n"
    using Suc(1) [of "j + 1" ?s "next_idx s qi"] Suc(2) by fastforce
  then show ?case using cont_then [OF step] by auto
qed

lemma next_producer:
  assumes inv: "mpsc_inv s" and "n_ptail s < n_hist s"
  obtains i mbufs n j qi where "mc_pcs s i = PStore mbufs (mc_ptail s) n j qi" "0 < n" "n_ptail s + n \<le> n_hist s"
proof -
  have "n_ptail s \<in> {n_ptail s..<n_hist s}" using assms(2) by simp
  with inv obtain i where i: "n_ptail s \<in> prod_range (mc_pcs s i)"
    unfolding mpsc_inv_def prods_ok_def by blast
  moreover have "prod_ok s (mc_pcs s i)" using inv by (simp add: mpsc_inv_def prods_ok_def)
  ultimately show thesis
    using that [of i] by (cases "mc_pcs s i") (auto simp: word_unat_eq_iff le_antisym)
qed

lemma commit_all:
  "mpsc_inv s \<Longrightarrow> \<exists>s'. cont s s' \<and> mc_hist s' = mc_hist s \<and> mc_cpc s' = mc_cpc s \<and> n_ptail s' = n_hist s"
proof (induction "n_hist s - n_ptail s" arbitrary: s rule: less_induct)
  case less
  show ?case
  proof (cases "n_ptail s < n_hist s")
    case True
    then obtain i mbufs n j qi where p: "mc_pcs s i = PStore mbufs (mc_ptail s) n j qi" "0 < n" "n_ptail s + n \<le> n_hist s"
      by (rule next_producer [OF less.prems])
    obtain t where t: "cont s t" "mc_hist t = mc_hist s" "mc_cpc t = mc_cpc s" "n_ptail t = n_ptail s + n"
      using store_progress [OF less.prems p(1)] by blast
    have "mpsc_inv t" using less.prems t(1,2) by (rule inv_same_hist)
    moreover have "n_hist t - n_ptail t < n_hist s - n_ptail s" using t p True by simp
    ultimately obtain u where "cont t u" "mc_hist u = mc_hist t" "mc_cpc u = mc_cpc t" "n_ptail u = n_hist t"
      using less.hyps by blast
    with t show ?thesis using cont_trans [OF _ t(1)] by auto
  next
    case False
    with less.prems have "n_ptail s = n_hist s" by (auto simp: mpsc_inv_def counters_ok_def)
    then show ?thesis using cont_refl by blast
  qed
qed

text \<open>A call of \<open>dequeue\<close> runs to its end whatever the producers do, and takes all it can.\<close>

lemma load_progress:
  assumes "mpsc_inv s" and "mc_cpc s = CLoad mbufs h d j qi"
  shows "\<exists>s' b. cont s s' \<and> mc_hist s' = mc_hist s \<and> mc_ptail s' = mc_ptail s \<and> mc_cpc s' = CReturn d b \<and>
    n_ctail s' = unat h + d"
  using assms
proof (induction "d - j" arbitrary: s mbufs j qi)
  case 0
  have C: "counters_ok s" and c: "cons_pc_ok s (CLoad mbufs h d j qi)"
    using 0(2,3) unfolding mpsc_inv_def by metis+
  let ?s = "s\<lparr>mc_ctail := h + of_nat d, mc_cpc := CReturn d mbufs, mc_out := mc_out s @ take d mbufs\<rparr>"
  have "exec_event Cons s = Some ?s" using 0 c by (simp add: cons_step_def)
  then have "cont s ?s" by (rule cont_then [OF _ cont_refl]) simp
  moreover have "n_ctail ?s = unat h + d"
    using C c unat_advance [of "mc_ctail s" d] by (auto simp: counters_ok_def)
  ultimately show ?case by (intro exI [of _ ?s]) simp
next
  case (Suc m)
  have C: "counters_ok s" and c: "cons_pc_ok s (CLoad mbufs h d j qi)"
    using Suc.prems unfolding mpsc_inv_def by metis+
  let ?m = "mbufs[j := mc_queue s ! qi]"
  define t where "t = s\<lparr>mc_cpc := CLoad ?m h d (j + 1) (next_idx s qi)\<rparr>"
  have "0 < mc_slots s" "length (mc_queue s) = mc_slots s" using C by (auto simp: counters_ok_def)
  then have "qi < length (mc_queue s)" using c by simp
  moreover have j: "j < d" using Suc(2) by simp
  ultimately have step: "exec_event Cons s = Some t"
    using Suc.prems c by (simp add: cons_step_def vec_get_def vec_set_def t_def)
  have "mpsc_inv t" using step by (intro inv_cons_step [OF Suc.prems(1)]) simp
  then obtain s' b where "cont t s'" "mc_hist s' = mc_hist t" "mc_ptail s' = mc_ptail t" "mc_cpc s' = CReturn d b"
    "n_ctail s' = unat h + d"
    using Suc(1) [of "j + 1" t ?m "next_idx s qi"] Suc(2) by (fastforce simp: t_def)
  then show ?case using cont_then [OF step] continues.simps(4) by (auto simp: t_def)
qed

lemma reserve_progress:
  assumes "mpsc_inv s" and "mc_cpc s = CReserve mbufs h d"
  shows "\<exists>s' b. cont s s' \<and> mc_hist s' = mc_hist s \<and> mc_ptail s' = mc_ptail s \<and> mc_cpc s' = CReturn d b \<and>
    n_ctail s' = unat h + d"
proof -
  let ?t = "s\<lparr>mc_chead := h + of_nat d, mc_cpc := CLoad mbufs h d 0 (unat (h AND mc_mask s))\<rparr>"
  have step: "exec_event Cons s = Some ?t" using assms(2) by (simp add: cons_step_def)
  then have "mpsc_inv ?t" by (intro inv_cons_step [OF assms(1)]) simp
  then show ?thesis using load_progress [of ?t mbufs h d 0] cont_then [OF step] continues.simps(4) by fastforce
qed

lemma load_tail_progress:
  assumes inv: "mpsc_inv s" and cpc: "mc_cpc s = CLoadTail mbufs h"
  shows "\<exists>s' n b. cont s s' \<and> mc_hist s' = mc_hist s \<and> mc_ptail s' = mc_ptail s \<and> mc_cpc s' = CReturn n b \<and>
    n_ctail s' = n_ctail s + min (length mbufs) (n_ptail s - n_ctail s)"
proof -
  have h: "h = mc_ctail s" and "mc_ctail s \<le> mc_ptail s"
    using inv cpc by (auto simp: mpsc_inv_def counters_ok_def word_le_nat_alt)
  then have av: "unat (mc_ptail s - h) = n_ptail s - n_ctail s" by (simp add: unat_sub)
  let ?d = "min (length mbufs) (n_ptail s - n_ctail s)"
  let ?t = "s\<lparr>mc_cpc := (if ?d > 0 then CReserve mbufs h ?d else CReturn 0 mbufs)\<rparr>"
  have step: "exec_event Cons s = Some ?t" using cpc av by (simp add: cons_step_def Let_def)
  then have t: "mpsc_inv ?t" by (intro inv_cons_step [OF inv]) simp
  show ?thesis
  proof (cases "?d > 0")
    case True
    with reserve_progress [OF t, of mbufs h ?d] h show ?thesis using cont_then [OF step] continues.simps(4) by fastforce
  next
    case False
    then show ?thesis using cont_then [OF step cont_refl] continues.simps(4) by (intro exI [of _ ?t]) auto
  qed
qed

lemma load_head_progress:
  assumes inv: "mpsc_inv s" and cpc: "mc_cpc s = CLoadHead mbufs"
  shows "\<exists>s' n b. cont s s' \<and> mc_hist s' = mc_hist s \<and> mc_ptail s' = mc_ptail s \<and> mc_cpc s' = CReturn n b \<and>
    n_ctail s' = n_ctail s + min (length mbufs) (n_ptail s - n_ctail s)"
proof -
  let ?t = "s\<lparr>mc_cpc := CLoadTail mbufs (mc_chead s)\<rparr>"
  have step: "exec_event Cons s = Some ?t" using cpc by (simp add: cons_step_def)
  then have "mpsc_inv ?t" by (intro inv_cons_step [OF inv]) simp
  from load_tail_progress [OF this, of mbufs "mc_chead s"] show ?thesis
    using cont_then [OF step] continues.simps(4) by fastforce
qed

lemma finish_dequeue:
  assumes "mpsc_inv s"
  shows "\<exists>s' n b. cont s s' \<and> mc_hist s' = mc_hist s \<and> mc_ptail s' = mc_ptail s \<and> mc_cpc s' = CReturn n b"
proof (cases "mc_cpc s")
  case (CReturn n b)
  then show ?thesis using cont_refl by blast
next
  case (CLoadHead mbufs)
  then show ?thesis using load_head_progress [OF assms] by blast
next
  case (CLoadTail mbufs h)
  then show ?thesis using load_tail_progress [OF assms] by blast
next
  case (CReserve mbufs h d)
  then show ?thesis using reserve_progress [OF assms] by blast
next
  case (CLoad mbufs h d j qi)
  then show ?thesis using load_progress [OF assms] by blast
qed

lemma deliver_all:
  assumes inv: "mpsc_inv s"
  shows "\<exists>s'. cont s s' \<and> mc_hist s' = mc_hist s \<and> mc_out s' = mc_hist s \<and> n_ptail s' = n_hist s \<and> (\<exists>n b. mc_cpc s' = CReturn n b)"
proof -
  obtain t n b where t: "cont s t" "mc_hist t = mc_hist s" "mc_cpc t = CReturn n b"
    using finish_dequeue [OF inv] by blast
  obtain u where u: "cont t u" "mc_hist u = mc_hist t" "mc_cpc u = mc_cpc t" "n_ptail u = n_hist t"
    using commit_all [OF inv_same_hist [OF inv t(1,2)]] by blast
  have su: "cont s u" "mc_hist u = mc_hist s" using cont_trans [OF u(1) t(1)] u(2) t(2) by simp_all
  let ?v = "u\<lparr>mc_cpc := CLoadHead (replicate (n_hist s) 0)\<rparr>"
  have step: "exec_event (Dequeue (replicate (n_hist s) 0)) u = Some ?v" using u(3) t(3) by simp
  then have sv: "cont s ?v" "mc_hist ?v = mc_hist s" using cont_step [OF su(1) step] su(2) by simp_all
  have v: "mpsc_inv ?v" using inv sv by (rule inv_same_hist)
  obtain w m c where w: "cont ?v w" "mc_hist w = mc_hist ?v" "mc_ptail w = mc_ptail ?v" "mc_cpc w = CReturn m c" "n_ctail w = n_ctail ?v + min (n_hist s) (n_ptail ?v - n_ctail ?v)"
    using load_head_progress [OF v, of "replicate (n_hist s) 0"] by fastforce
  have sw: "cont s w" "mc_hist w = mc_hist s" using cont_trans [OF w(1) sv(1)] w(2) sv(2) by simp_all
  have "n_ctail ?v \<le> n_hist s" "n_ptail ?v = n_hist s"
    using v u(4) t(2) su(2) by (auto simp: mpsc_inv_def counters_ok_def)
  then have "n_ctail w = n_hist s" using w(5) by simp
  moreover have "mc_out w = take (n_ctail w) (mc_hist w)"
    using inv_same_hist [OF inv sw] by (simp add: mpsc_inv_def counters_ok_def)
  ultimately show ?thesis using sw w(3,4) \<open>n_ptail ?v = n_hist s\<close> by (intro exI [of _ w]) simp
qed

text \<open>
  When everything reserved has been committed, a producer inside of a call can run to its end: a failed
  compare-and-exchange is followed by one that succeeds if nobody else moves.
\<close>

abbreviation finishes :: "nat \<Rightarrow> mpsc_state \<Rightarrow> bool" where
  "finishes i s \<equiv> \<exists>t. cont s t \<and> i \<notin> in_call t \<and> n_hist t < n_hist s + mc_slots s"

abbreviation settled :: "mpsc_state \<Rightarrow> bool" where
  "settled s \<equiv> mpsc_inv s \<and> n_ptail s = n_hist s \<and> n_hist s + mc_slots s < 2 ^ 64"

lemma slots_positive: "mpsc_inv s \<Longrightarrow> 0 < mc_slots s"
  by (auto simp: mpsc_inv_def counters_ok_def)

lemma prod_ok_inv: "mpsc_inv s \<Longrightarrow> mc_pcs s i = pc \<Longrightarrow> prod_ok s pc"
  by (auto simp: mpsc_inv_def prods_ok_def)

lemma finishes_after:
  assumes "settled s" and step: "prod_step i s = Some (set_pc i pc s)" and "settled (set_pc i pc s) \<Longrightarrow> finishes i (set_pc i pc s)"
  shows "finishes i s"
proof -
  have "n_hist (set_pc i pc s) < 2 ^ 64" using assms(1) by simp
  then have "mpsc_inv (set_pc i pc s)" by (rule inv_prod_step [OF conjunct1 [OF assms(1)] step])
  then have "settled (set_pc i pc s)" using assms(1) by simp
  from assms(3) [OF this] obtain t where t: "cont (set_pc i pc s) t" "i \<notin> in_call t" "n_hist t < n_hist s + mc_slots s" by auto
  have "exec_event (Prod i) s = Some (set_pc i pc s)" using step by simp
  then have "cont s t" using t(1) by (rule cont_then) simp
  with t(2,3) show ?thesis by blast
qed

lemma finishes_return: "settled s \<Longrightarrow> mc_pcs s i = PReturn n \<Longrightarrow> finishes i s"
  using slots_positive by (intro exI [of _ s]) (auto simp: in_call_def cont_refl)

lemma finishes_reserve:
  assumes s: "settled s" and pc: "mc_pcs s i = PReserve mbufs (mc_phead s) n"
  shows "finishes i s"
proof -
  let ?t = "set_pc i (PStore mbufs (mc_phead s) n 0 (unat (mc_phead s AND mc_mask s)))
      (s\<lparr>mc_phead := mc_phead s + of_nat n, mc_hist := mc_hist s @ take n mbufs\<rparr>)"
  have C: "counters_ok s" using s by (simp add: mpsc_inv_def)
  have n: "n \<le> length mbufs" "n < mc_slots s" using prod_ok_inv [OF _ pc] s C by (auto simp: counters_ok_def)
  then have len: "n_hist ?t = n_hist s + n" by simp
  have step: "exec_event (Prod i) s = Some ?t" using pc by (simp add: prod_step_def)
  have t: "mpsc_inv ?t" by (rule inv_reserve [OF _ pc _ refl]) (use s n len in auto)
  have "mc_ptail s = mc_phead s" using s C by (simp add: counters_ok_def word_unat_eq_iff)
  then have "mc_pcs ?t i = PStore mbufs (mc_ptail ?t) n 0 (unat (mc_phead s AND mc_mask s))" by simp
  from store_progress [OF t this] obtain u where "cont ?t u" "mc_hist u = mc_hist ?t" "mc_pcs u i = PReturn n" by blast
  with len n show ?thesis using cont_then [OF step] by (intro exI [of _ u]) (auto simp: in_call_def)
qed

lemma finishes_load_tail:
  assumes s: "settled s" and pc: "mc_pcs s i = PLoadTail mbufs h"
    and go: "\<And>t n. settled t \<Longrightarrow> mc_pcs t i = PReserve mbufs h n \<Longrightarrow> mc_phead t = mc_phead s \<Longrightarrow> finishes i t"
  shows "finishes i s"
proof -
  define ins where "ins = min (unat (mc_mask s + mc_ctail s - h)) (length mbufs)"
  define pc' where "pc' = (if ins = 0 then PReturn 0 else PReserve mbufs h ins)"
  show ?thesis
  proof (rule finishes_after [OF s])
    show "prod_step i s = Some (set_pc i pc' s)" by (simp only: prod_step_def pc prod_pc.case Let_def ins_def pc'_def)
    assume t: "settled (set_pc i pc' s)"
    show "finishes i (set_pc i pc' s)"
    proof (cases "ins = 0")
      case True
      then show ?thesis by (intro finishes_return [OF t, of i 0]) (simp add: pc'_def)
    next
      case False
      then show ?thesis by (intro go [OF t, of ins]) (simp_all add: pc'_def)
    qed
  qed
qed

lemma finishes_load_head:
  assumes s: "settled s" and pc: "mc_pcs s i = PLoadHead mbufs"
  shows "finishes i s"
proof (rule finishes_after [OF s])
  let ?t = "set_pc i (PLoadTail mbufs (mc_phead s)) s"
  show "prod_step i s = Some ?t" using pc by (simp add: prod_step_def)
  show "finishes i ?t" if "settled ?t"
    by (rule finishes_load_tail [OF that]) (auto intro: finishes_reserve)
qed

lemma finishes_reserve_any:
  assumes s: "settled s" and pc: "mc_pcs s i = PReserve mbufs h n"
  shows "finishes i s"
proof (cases "mc_phead s = h")
  case True
  with finishes_reserve [OF s] pc show ?thesis by simp
next
  case False
  have "mc_producers s \<noteq> 1"
    using False prod_ok_inv [OF _ pc] s by (auto simp: mpsc_inv_def counters_ok_def word_unat_eq_iff)
  with False pc have "prod_step i s = Some (set_pc i (PLoadHead mbufs) s)" by (simp add: prod_step_def)
  then show ?thesis by (rule finishes_after [OF s]) (rule finishes_load_head, assumption, simp)
qed

lemma finishes_any:
  assumes "settled s"
  shows "finishes i s"
proof (cases "mc_pcs s i")
  case (PStore mbufs h n j qi)
  then show ?thesis using prod_ok_inv [OF _ PStore] assms by auto
next
  case (PLoadTail mbufs h)
  then show ?thesis by (rule finishes_load_tail [OF assms]) (rule finishes_reserve_any)
qed (use assms in \<open>blast intro: finishes_return finishes_load_head finishes_reserve_any\<close>)+

text \<open>One producer after the other returns, and everything accepted is delivered.\<close>

lemma finish_all:
  assumes "mpsc_inv s" and "finite (in_call s)" and "n_hist s + (card (in_call s) + 1) * mc_slots s < 2 ^ 64"
  shows "\<exists>t. cont s t \<and> in_call t = {} \<and> (\<exists>n b. mc_cpc t = CReturn n b) \<and> mc_out t = mc_hist t"
  using assms
proof (induction "card (in_call s)" arbitrary: s rule: less_induct)
  case less
  obtain t where t: "cont s t" "mc_hist t = mc_hist s" "mc_out t = mc_hist s" "n_ptail t = n_hist s" "\<exists>n b. mc_cpc t = CReturn n b"
    using deliver_all [OF less.prems(1)] by blast
  have inv: "mpsc_inv t" by (rule inv_same_hist [OF less.prems(1) t(1,2)])
  note st = cont_in_call [OF t(1)]
  show ?case
  proof (cases "in_call t = {}")
    case False
    then obtain i where i: "i \<in> in_call t" by blast
    have "settled t" using inv t(2,4) st less.prems(3) by simp
    from finishes_any [OF this] obtain u where u: "cont t u" "i \<notin> in_call u" "n_hist u < n_hist t + mc_slots t" by blast
    note tu = cont_in_call [OF u(1)]
    have sub: "in_call u \<subset> in_call s" using st tu i u(2) by blast
    then have card: "card (in_call u) < card (in_call s)" using less.prems(2) by (rule psubset_card_mono [rotated])
    then have "(card (in_call u) + 2) * mc_slots s \<le> (card (in_call s) + 1) * mc_slots s" by (intro mult_right_mono) simp_all
    then have max: "n_hist u + (card (in_call u) + 1) * mc_slots u < 2 ^ 64" using u(3) t(2) st tu less.prems(3) by (simp add: algebra_simps)
    moreover have "mpsc_inv u" by (rule inv_cont [OF u(1) inv]) (use max in linarith)
    moreover have "finite (in_call u)" using sub less.prems(2) finite_subset by blast
    ultimately obtain v where "cont u v" "in_call v = {}" "\<exists>n b. mc_cpc v = CReturn n b" "mc_out v = mc_hist v"
      using less.hyps [OF card] by blast
    then show ?thesis using cont_trans [OF _ cont_trans [OF u(1) t(1)]] by blast
  qed (use t in auto)
qed

lemma in_call_producers: "mpsc_inv s \<Longrightarrow> in_call s \<subseteq> {..<mc_producers s}"
  using active_producer by (auto simp: in_call_def)

section \<open>Safety and delivery\<close>

text \<open>
  C1: However the producers and the consumer interleave, the mbufs that \<open>dequeue\<close> has handed out are the
  first ones that were accepted, in the order in which the producers reserved their slots: none is lost,
  duplicated, reordered or overwritten.  Fewer mbufs than slots are ever in flight, and when no producer is
  inside a call everything accepted is visible to the consumer.  (The 64-bit counters are assumed not to
  have wrapped around: otherwise a producer that sleeps for exactly that long can be fooled by the
  compare-and-exchange.)
\<close>
theorem mpsc_concurrent_safe:
  assumes "0 < unat sz" and "unat sz \<le> 2 ^ 63" and "new_mpsc_queue_pair_with_size sz = Some q" and "0 < np"
    and "reach (mpsc_init np q) s" and "length (mc_hist s) < 2 ^ 64"
  shows "mc_out s = take (length (mc_out s)) (mc_hist s) \<and>
    length (mc_hist s) - length (mc_out s) < mc_slots s \<and>
    ((\<forall>i<np. \<exists>n. mc_pcs s i = PReturn n) \<longrightarrow> unat (mc_ptail s) = length (mc_hist s))"
proof -
  have inv: "mpsc_inv s"
    using inv_reach [OF assms(5) inv_init [OF assms(1-4)] assms(6)] .
  then have C: "mc_out s = take (n_ctail s) (mc_hist s)" "n_ctail s \<le> n_ptail s" "n_ptail s \<le> n_hist s"
    "n_hist s < n_ctail s + mc_slots s" by (auto simp: mpsc_inv_def counters_ok_def)
  have np: "mc_producers s = np" using reach_grows [OF assms(5)] by (simp add: mpsc_init_def)
  have "n_ptail s = n_hist s" if idle: "\<forall>i<np. \<exists>n. mc_pcs s i = PReturn n"
  proof (rule ccontr)
    assume "n_ptail s \<noteq> n_hist s"
    with C(3) have "n_ptail s < n_hist s" by simp
    then obtain i mbufs n j qi where "mc_pcs s i = PStore mbufs (mc_ptail s) n j qi"
      by (rule next_producer [OF inv])
    with idle active_producer [OF inv, of i] np show False by auto
  qed
  with C show ?thesis by auto
qed

definition example_events :: "mpsc_event list" where
  "example_events = [Enqueue 0 [7], Enqueue 1 [8, 9], Prod 0, Prod 1, Prod 0, Prod 1, Prod 1, Prod 0, Prod 0, Prod 0,
     Prod 0, Prod 0, Prod 1, Prod 1, Prod 1, Prod 0, Dequeue [0, 0, 0, 0], Cons, Cons, Cons, Cons, Cons, Cons, Cons]"

theorem mpsc_concurrent_safe_witness:
  "\<exists>q s. new_mpsc_queue_pair_with_size 4 = Some q \<and> reach (mpsc_init 2 q) s \<and> mc_out s = [8, 9, 7] \<and>
     mc_out s = take (length (mc_out s)) (mc_hist s)"
proof -
  define q where "q = the (new_mpsc_queue_pair_with_size 4)"
  define s where "s = the (run_events example_events (mpsc_init 2 q))"
  have q: "new_mpsc_queue_pair_with_size 4 = Some q" unfolding q_def by code_simp
  have "run_events example_events (mpsc_init 2 q) \<noteq> None" unfolding q_def by code_simp
  then have "reach (mpsc_init 2 q) s" unfolding s_def by (auto intro: reach_run reach_refl)
  moreover have "length (mc_hist s) < 2 ^ 64" unfolding s_def q_def by code_simp
  moreover have "mc_out s = [8, 9, 7]" unfolding s_def q_def by code_simp
  moreover have "0 < unat (4::usize)" "unat (4::usize) \<le> 2 ^ 63" "0 < (2::nat)" by simp_all
  ultimately have "mc_out s = take (length (mc_out s)) (mc_hist s)"
    using q mpsc_concurrent_safe [of 4 q 2 s] by blast
  with q \<open>reach (mpsc_init 2 q) s\<close> \<open>mc_out s = [8, 9, 7]\<close> show ?thesis by blast
qed

text \<open>
  C2: No interleaving gets stuck.  From every reachable state the calls in progress can be continued, and
  one more call of \<open>dequeue\<close> made, so that everything accepted so far has been delivered, in order; in
  particular a producer that waits for its predecessors waits for one that can proceed.  And, as long as the
  64-bit counters have room for one ring full of mbufs per producer and one more, no producer needs to start
  another call for all the calls in progress to return: there is a continuation at the end of which every producer
  and the consumer are outside of a call, what had been accepted is still the beginning of what is accepted,
  and all of that has been delivered.
\<close>
theorem mpsc_concurrent_delivers:
  assumes "0 < unat sz" and "unat sz \<le> 2 ^ 63" and "new_mpsc_queue_pair_with_size sz = Some q" and "0 < np"
    and "reach (mpsc_init np q) s" and "length (mc_hist s) < 2 ^ 64"
  shows "(\<exists>s'. cont s s' \<and> mc_hist s' = mc_hist s \<and> mc_out s' = mc_hist s) \<and>
    (length (mc_hist s) + (np + 1) * mc_slots s < 2 ^ 64 \<longrightarrow>
      (\<exists>s'. cont s s' \<and> (\<forall>i<np. \<exists>n. mc_pcs s' i = PReturn n) \<and> (\<exists>n b. mc_cpc s' = CReturn n b) \<and>
        mc_hist s = take (length (mc_hist s)) (mc_hist s') \<and> mc_out s' = mc_hist s'))"
proof (intro conjI impI)
  have inv: "mpsc_inv s" using inv_reach [OF assms(5) inv_init [OF assms(1-4)] assms(6)] .
  then show "\<exists>s'. cont s s' \<and> mc_hist s' = mc_hist s \<and> mc_out s' = mc_hist s" using deliver_all by blast
  assume max: "length (mc_hist s) + (np + 1) * mc_slots s < 2 ^ 64"
  have "mc_producers s = np" using reach_grows [OF assms(5)] by (simp add: mpsc_init_def)
  then have "finite (in_call s)" "card (in_call s) \<le> np"
    using in_call_producers [OF inv] finite_subset card_mono [of "{..<np}"] by auto
  moreover from this(2) have "(card (in_call s) + 1) * mc_slots s \<le> (np + 1) * mc_slots s" by (intro mult_right_mono) simp_all
  ultimately obtain t where t: "cont s t" "in_call t = {}" "\<exists>n b. mc_cpc t = CReturn n b" "mc_out t = mc_hist t"
    using finish_all [OF inv] max order_le_less_trans [OF add_left_mono max] by blast
  then have "\<forall>i<np. \<exists>n. mc_pcs t i = PReturn n" by (auto simp: in_call_def)
  with t cont_in_call [OF t(1)] show "\<exists>s'. cont s s' \<and> (\<forall>i<np. \<exists>n. mc_pcs s' i = PReturn n) \<and> (\<exists>n b. mc_cpc s' = CReturn n b) \<and>
      mc_hist s = take (length (mc_hist s)) (mc_hist s') \<and> mc_out s' = mc_hist s'" by blast
qed

theorem mpsc_concurrent_delivers_witness:
  "\<exists>q s s'. new_mpsc_queue_pair_with_size 4 = Some q \<and>
     run_events [Enqueue 0 [7], Enqueue 1 [8, 9], Prod 0, Prod 1, Prod 0, Prod 1, Prod 1] (mpsc_init 2 q) = Some s \<and>
     cont s s' \<and> (\<forall>i<2. \<exists>n. mc_pcs s' i = PReturn n) \<and> (\<exists>n b. mc_cpc s' = CReturn n b) \<and>
     [8, 9] = take 2 (mc_hist s') \<and> mc_out s' = mc_hist s'"
proof -
  let ?es = "[Enqueue 0 [7], Enqueue 1 [8, 9], Prod 0, Prod 1, Prod 0, Prod 1, Prod 1]"
  define q where "q = the (new_mpsc_queue_pair_with_size 4)"
  define s where "s = the (run_events ?es (mpsc_init 2 q))"
  have q: "new_mpsc_queue_pair_with_size 4 = Some q" unfolding q_def by code_simp
  have run: "run_events ?es (mpsc_init 2 q) = Some s"
  proof -
    have "run_events ?es (mpsc_init 2 q) \<noteq> None" unfolding q_def by code_simp
    then show ?thesis by (auto simp: s_def)
  qed
  have h: "mc_hist s = [8, 9]" unfolding s_def q_def by code_simp
  have n: "length (mc_hist s) = 2" by (simp add: h)
  have l: "mc_slots s = 4" unfolding s_def q_def by code_simp
  have "reach (mpsc_init 2 q) s" using run by (rule reach_run) (rule reach_refl)
  then have "\<exists>s'. cont s s' \<and> (\<forall>i<2. \<exists>n. mc_pcs s' i = PReturn n) \<and> (\<exists>n b. mc_cpc s' = CReturn n b) \<and>
      [8, 9] = take 2 (mc_hist s') \<and> mc_out s' = mc_hist s'"
    using mpsc_concurrent_delivers [of 4 q 2 s] q unfolding n l unfolding h by simp
  then show ?thesis using q run by blast
qed

end
