(* ===== verification/NB_PacketBatch.thy ===== *)
theory NB_PacketBatch
  imports NB_MpscQueue
begin

text \<open>
  Packet batches, \<open>framework/src/operators/packet_batch.rs\<close>: an array of mbufs that is filled from a port,
  thinned out by filters and handed to a port.  Everything an operation can touch outside of the batch is
  in the \<open>world\<close>: the heap of mbufs, the queues between tasks, and a part \<open>w_ext\<close> for what lies outside the
  repository (the devices) and for the state that closures capture.  The native bulk allocator and
  bulk free are a record of functions.
\<close>

section \<open>The world\<close>

record 'x world =
  w_heap :: heap
  w_queues :: "MpscQueue list"
  w_ext :: 'x

text \<open>
  \<open>mbuf_alloc_bulk\<close> gets the data length and the number of mbufs and gives its status and the array it
  filled; \<open>mbuf_free_bulk\<close> gets the array.
\<close>

record 'x natives =
  mbuf_alloc_bulk :: "u16 \<Rightarrow> nat \<Rightarrow> 'x world \<Rightarrow> int \<times> nat list \<times> 'x world"
  mbuf_free_bulk :: "nat list \<Rightarrow> 'x world \<Rightarrow> int \<times> 'x world"

text \<open>
  The traits \<open>PacketRx\<close> and \<open>PacketTx\<close> of \<open>framework/src/interface/mod.rs\<close>: \<open>recv\<close> fills the front of the slice it is
  given, \<open>send\<close> takes the front of the slice.
\<close>

type_synonym 'x PacketRx = "nat list \<Rightarrow> 'x world \<Rightarrow> (u32 result \<times> nat list \<times> 'x world) option"
type_synonym 'x PacketTx = "nat list \<Rightarrow> 'x world \<Rightarrow> (u32 result \<times> 'x world) option"

section \<open>State and operations\<close>

text \<open>\<open>pb_buf\<close> is the memory of the vector \<open>array\<close>, as long as its capacity; its first \<open>pb_len\<close> entries are valid.\<close>

record PacketBatch =
  pb_buf :: "nat list"
  pb_len :: nat
  pb_scratch :: "nat list"
  parent_tasks :: "nat list"

definition pb_array :: "PacketBatch \<Rightarrow> nat list" where
  "pb_array pb = take (pb_len pb) (pb_buf pb)"

text \<open>\<open>set_len\<close> beyond the capacity is undefined behaviour.\<close>

definition set_len :: "nat \<Rightarrow> PacketBatch \<Rightarrow> PacketBatch option" where
  "set_len n pb = (if n \<le> length (pb_buf pb) then Some (pb\<lparr>pb_len := n\<rparr>) else None)"

definition PacketBatch_new :: "nat \<Rightarrow> PacketBatch" where
  "PacketBatch_new cnt = \<lparr>pb_buf = replicate cnt 0, pb_len = 0, pb_scratch = [], parent_tasks = []\<rparr>"

definition add_parent_task :: "nat \<Rightarrow> PacketBatch \<Rightarrow> PacketBatch" where
  "add_parent_task task pb = pb\<lparr>parent_tasks := parent_tasks pb @ [task]\<rparr>"

definition get_parent_task :: "PacketBatch \<Rightarrow> nat list" where
  "get_parent_task pb = parent_tasks pb"

definition pb_available :: "PacketBatch \<Rightarrow> nat" where
  "pb_available pb = pb_len pb"

definition alloc_packet_batch ::
  "'x natives \<Rightarrow> u16 \<Rightarrow> nat \<Rightarrow> PacketBatch \<Rightarrow> 'x world \<Rightarrow> (unit result \<times> PacketBatch \<times> 'x world) option" where
  "alloc_packet_batch N len cnt pb w =
     (if length (pb_buf pb) < cnt then Some (Inl FailedAllocation, pb, w)
      else do {
        let (ret, ms, w) = mbuf_alloc_bulk N len cnt w;
        _ \<leftarrow> rust_assert (length ms \<le> length (pb_buf pb));
        let pb = pb\<lparr>pb_buf := blit 0 ms (pb_buf pb)\<rparr>;
        if ret = 0 then do {
          pb \<leftarrow> set_len cnt pb;
          Some (Inr (), pb, w)
        } else Some (Inl FailedAllocation, pb, w)
      })"

definition allocate_batch_with_size ::
  "'x natives \<Rightarrow> u16 \<Rightarrow> PacketBatch \<Rightarrow> 'x world \<Rightarrow> (unit result \<times> PacketBatch \<times> 'x world) option" where
  "allocate_batch_with_size N len pb w = alloc_packet_batch N len (length (pb_buf pb)) pb w"

definition allocate_partial_batch_with_size ::
  "'x natives \<Rightarrow> u16 \<Rightarrow> nat \<Rightarrow> PacketBatch \<Rightarrow> 'x world \<Rightarrow> (unit result \<times> PacketBatch \<times> 'x world) option" where
  "allocate_partial_batch_with_size N len cnt pb w = do {
     (r, pb, w) \<leftarrow> alloc_packet_batch N len cnt pb w;
     Some (case r of Inr _ \<Rightarrow> Inr () | Inl _ \<Rightarrow> Inl FailedAllocation, pb, w)
   }"

definition free_packet_batch ::
  "'x natives \<Rightarrow> PacketBatch \<Rightarrow> 'x world \<Rightarrow> (unit + unit) \<times> PacketBatch \<times> 'x world" where
  "free_packet_batch N pb w =
     (if pb_array pb = [] then (Inr (), pb, w)
      else let (ret, w) = mbuf_free_bulk N (pb_array pb) w;
               pb = pb\<lparr>pb_len := 0\<rparr>
           in (if ret = 0 then Inr () else Inl (), pb, w))"

definition deallocate_batch :: "'x natives \<Rightarrow> PacketBatch \<Rightarrow> 'x world \<Rightarrow> unit result \<times> PacketBatch \<times> 'x world" where
  "deallocate_batch N pb w = (case free_packet_batch N pb w of
     (Inr _, pb, w) \<Rightarrow> (Inr (), pb, w)
   | (Inl _, pb, w) \<Rightarrow> (Inl FailedDeallocation, pb, w))"

definition add_to_batch :: "nat \<Rightarrow> PacketBatch \<Rightarrow> PacketBatch option" where
  "add_to_batch added pb = set_len added pb"

definition consume_batch :: "PacketBatch \<Rightarrow> PacketBatch" where
  "consume_batch pb = pb\<lparr>pb_len := 0\<rparr>"

text \<open>\<open>recv\<close> passes the whole capacity as a slice and keeps the part that the port says it filled.\<close>

definition recv_internal ::
  "'x PacketRx \<Rightarrow> PacketBatch \<Rightarrow> 'x world \<Rightarrow> (u32 result \<times> PacketBatch \<times> 'x world) option" where
  "recv_internal port pb w = do {
     let capacity = length (pb_buf pb);
     pb \<leftarrow> add_to_batch capacity pb;
     (r, slc, w) \<leftarrow> port (pb_array pb) w;
     let pb = pb\<lparr>pb_buf := slc\<rparr>;
     case r of
       Inl e \<Rightarrow> Some (Inl e, pb, w)
     | Inr recv \<Rightarrow> do {
         pb \<leftarrow> add_to_batch (unat recv) pb;
         Some (Inr recv, pb, w)
       }
   }"

definition pb_recv ::
  "'x natives \<Rightarrow> 'x PacketRx \<Rightarrow> PacketBatch \<Rightarrow> 'x world \<Rightarrow> (u32 result \<times> PacketBatch \<times> 'x world) option" where
  "pb_recv N port pb w = (case deallocate_batch N pb w of
     (Inl err, pb, w) \<Rightarrow> Some (Inl err, pb, w)
   | (Inr _, pb, w) \<Rightarrow> recv_internal port pb w)"

text \<open>The two loops of \<open>drop_packets_stable\<close>; \<open>end_idx\<close> is the length of the array.\<close>

function drop_loop ::
  "nat list \<Rightarrow> nat \<Rightarrow> nat list \<Rightarrow> nat list \<Rightarrow> nat \<Rightarrow> nat \<Rightarrow> nat \<Rightarrow>
   (nat list \<times> nat list \<times> nat \<times> nat \<times> nat) option" where
  "drop_loop idxes end_idx array scratch idx_new remove_idx idx_orig =
     (if idx_orig < end_idx \<and> remove_idx < length idxes then do {
        test_idx \<leftarrow> vec_get idxes remove_idx;
        _ \<leftarrow> rust_assert (idx_orig \<le> test_idx);
        v \<leftarrow> vec_get array idx_orig;
        if idx_orig = test_idx
        then drop_loop idxes end_idx array (scratch @ [v]) idx_new (remove_idx + 1) (idx_orig + 1)
        else do {
          array \<leftarrow> vec_set array idx_new v;
          drop_loop idxes end_idx array scratch (idx_new + 1) remove_idx (idx_orig + 1)
        }
      } else Some (array, scratch, idx_new, remove_idx, idx_orig))"
  by pat_completeness auto
termination by (relation "measure (\<lambda>(_, e, _, _, _, _, i). e - i)") auto

function copy_left ::
  "nat \<Rightarrow> nat list \<Rightarrow> nat \<Rightarrow> nat \<Rightarrow> (nat list \<times> nat) option" where
  "copy_left end_idx array idx_new idx_orig =
     (if idx_orig < end_idx then do {
        v \<leftarrow> vec_get array idx_orig;
        array \<leftarrow> vec_set array idx_new v;
        copy_left end_idx array (idx_new + 1) (idx_orig + 1)
      } else Some (array, idx_new))"
  by pat_completeness auto
termination by (relation "measure (\<lambda>(e, _, _, i). e - i)") auto

declare drop_loop.simps [simp del] copy_left.simps [simp del]

definition drop_packets_stable ::
  "'x natives \<Rightarrow> nat list \<Rightarrow> PacketBatch \<Rightarrow> 'x world \<Rightarrow> (nat option \<times> PacketBatch \<times> 'x world) option" where
  "drop_packets_stable N idxes pb w =
     (if idxes = [] then Some (Some 0, pb, w)
      else do {
        let end_idx = pb_len pb;
        (array, scratch, idx_new, remove_idx, idx_orig) \<leftarrow> drop_loop idxes end_idx (pb_buf pb) (pb_scratch pb) 0 0 0;
        (array, idx_new) \<leftarrow> copy_left end_idx array idx_new idx_orig;
        let pb = pb\<lparr>pb_buf := array, pb_scratch := scratch\<rparr>;
        if remove_idx < length idxes then Some (None, pb, w)
        else do {
          pb \<leftarrow> set_len idx_new pb;
          if pb_scratch pb = [] then Some (Some 0, pb, w)
          else do {
            let len = length (pb_scratch pb);
            let (ret, w) = mbuf_free_bulk N (pb_scratch pb) w;
            let pb = pb\<lparr>pb_scratch := []\<rparr>;
            Some (if ret = 0 then Some len else None, pb, w)
          }
        }
      })"

text \<open>\<open>array[new_idx] = array[idx]\<close> for \<open>idx\<close> from \<open>consumed\<close> to the end is the second loop again.\<close>

definition consume_batch_partial :: "nat \<Rightarrow> PacketBatch \<Rightarrow> PacketBatch option" where
  "consume_batch_partial consumed pb = do {
     (array, _) \<leftarrow> copy_left (pb_len pb) (pb_buf pb) 0 consumed;
     n \<leftarrow> len_sub (pb_len pb) consumed;
     set_len n (pb\<lparr>pb_buf := array\<rparr>)
   }"

section \<open>The loops\<close>

text \<open>What survives of the positions from \<open>i\<close> on, and the whole memory around it.\<close>

lemma copy_left_spec:
  assumes "n \<le> i" and "i \<le> e" and "e \<le> length buf"
  shows "\<exists>buf'. copy_left e buf n i = Some (buf', n + (e - i)) \<and> length buf' = length buf \<and>
    take (n + (e - i)) buf' = take n buf @ drop i (take e buf)"
  using assms
proof (induction "e - i" arbitrary: buf n i)
  case 0
  then show ?case by (simp add: copy_left.simps)
next
  case (Suc m)
  let ?b = "buf[n := buf ! i]"
  have i: "i < e" and m: "m = e - (i + 1)" using Suc by simp_all
  obtain buf' where buf': "copy_left e ?b (n + 1) (i + 1) = Some (buf', n + 1 + (e - (i + 1)))" "length buf' = length ?b"
    "take (n + 1 + (e - (i + 1))) buf' = take (n + 1) ?b @ drop (i + 1) (take e ?b)"
    using Suc(1) [OF m, of "n + 1" ?b] Suc.prems i by auto
  have "copy_left e buf n i = Some (buf', n + (e - i))"
    using buf'(1) Suc.prems i by (subst copy_left.simps) (simp add: vec_get_def vec_set_def)
  moreover have "take (n + 1) ?b @ drop (i + 1) (take e ?b) = take n buf @ drop i (take e buf)"
  proof -
    have "drop (i + 1) (take e ?b) = drop (i + 1) (take e buf)" using Suc.prems by (simp add: drop_take drop_update_swap)
    moreover have "take (n + 1) ?b = take n buf @ [buf ! i]"
      using Suc.prems i by (simp add: take_Suc_conv_app_nth)
    moreover have "drop i (take e buf) = buf ! i # drop (i + 1) (take e buf)"
      using Suc.prems i by (simp add: Cons_nth_drop_Suc [symmetric])
    ultimately show ?thesis by simp
  qed
  moreover have "n + 1 + (e - (i + 1)) = n + (e - i)" using i by simp
  ultimately show ?case using buf' by (metis length_list_update)
qed

lemma drop_loop_spec:
  assumes "n \<le> i" and "i \<le> e" and "e \<le> length buf" and "r \<le> length idxes"
    and "sorted_wrt (<) (drop r idxes)" and "\<forall>j\<in>set (drop r idxes). i \<le> j \<and> j < e"
  shows "\<exists>buf' n' i'. drop_loop idxes e buf sc n r i =
      Some (buf', sc @ map ((!) buf) (drop r idxes), n', length idxes, i') \<and>
    n' \<le> i' \<and> i' \<le> e \<and> i \<le> i' \<and> length buf' = length buf \<and> drop i' buf' = drop i' buf \<and>
    (\<forall>j\<in>set (drop r idxes). j < i') \<and>
    take n' buf' = take n buf @ map ((!) buf) (filter (\<lambda>j. j \<notin> set (drop r idxes)) [i..<i'])"
  using assms
proof (induction "e - i" arbitrary: buf n i r sc rule: less_induct)
  case less
  show ?case
  proof (cases "i < e \<and> r < length idxes")
    case False
    then have "drop r idxes = []" using less.prems by (cases "drop r idxes") auto
    with False less.prems show ?thesis by (auto simp: drop_loop.simps)
  next
    case True
    let ?x = "idxes ! r"
    have dr: "drop r idxes = ?x # drop (r + 1) idxes" using True by (simp add: Cons_nth_drop_Suc)
    have x: "i \<le> ?x" "?x < e" and rest: "\<forall>j\<in>set (drop (r + 1) idxes). ?x < j \<and> j < e"
      "sorted_wrt (<) (drop (r + 1) idxes)"
      using less.prems unfolding dr by auto
    have m: "e - (i + 1) < e - i" using True by auto
    have upt: "[i..<i'] = i # [i + 1..<i']" if "i + 1 \<le> i'" for i' using that by (simp add: upt_conv_Cons)
    show ?thesis
    proof (cases "i = ?x")
      case eq: True
      have step: "drop_loop idxes e buf sc n r i = drop_loop idxes e buf (sc @ [buf ! i]) n (r + 1) (i + 1)"
        using True eq less.prems by (subst drop_loop.simps) (simp add: vec_get_def rust_assert_def)
      have "\<exists>buf' n' i'. drop_loop idxes e buf (sc @ [buf ! i]) n (r + 1) (i + 1) =
          Some (buf', (sc @ [buf ! i]) @ map ((!) buf) (drop (r + 1) idxes), n', length idxes, i') \<and>
        n' \<le> i' \<and> i' \<le> e \<and> i + 1 \<le> i' \<and> length buf' = length buf \<and> drop i' buf' = drop i' buf \<and>
        (\<forall>j\<in>set (drop (r + 1) idxes). j < i') \<and>
        take n' buf' = take n buf @ map ((!) buf) (filter (\<lambda>j. j \<notin> set (drop (r + 1) idxes)) [i + 1..<i'])"
        using less.prems True rest eq by (intro less.hyps [OF m]) auto
      then obtain buf' n' i' where
        R: "drop_loop idxes e buf (sc @ [buf ! i]) n (r + 1) (i + 1) =
            Some (buf', (sc @ [buf ! i]) @ map ((!) buf) (drop (r + 1) idxes), n', length idxes, i')"
          "n' \<le> i'" "i' \<le> e" "i + 1 \<le> i'" "length buf' = length buf" "drop i' buf' = drop i' buf"
          "\<forall>j\<in>set (drop (r + 1) idxes). j < i'"
          "take n' buf' = take n buf @ map ((!) buf) (filter (\<lambda>j. j \<notin> set (drop (r + 1) idxes)) [i + 1..<i'])"
        by blast
      have "filter (\<lambda>j. j \<notin> set (drop r idxes)) [i..<i'] = filter (\<lambda>j. j \<notin> set (drop (r + 1) idxes)) [i + 1..<i']"
        using eq unfolding upt [OF R(4)] dr by (auto intro!: filter_cong)
      moreover have "map ((!) buf) (drop r idxes) = buf ! i # map ((!) buf) (drop (r + 1) idxes)"
        using eq by (simp add: dr)
      moreover have "\<forall>j\<in>set (drop r idxes). j < i'" using R(4,7) eq by (auto simp: dr)
      ultimately show ?thesis using R step by (intro exI [of _ buf'] exI [of _ n'] exI [of _ i']) simp
    next
      case ne: False
      let ?b = "buf[n := buf ! i]"
      have step: "drop_loop idxes e buf sc n r i = drop_loop idxes e ?b sc (n + 1) r (i + 1)"
        using True ne x(1) less.prems by (subst drop_loop.simps) (simp add: vec_get_def vec_set_def rust_assert_def)
      have "\<exists>buf' n' i'. drop_loop idxes e ?b sc (n + 1) r (i + 1) =
          Some (buf', sc @ map ((!) ?b) (drop r idxes), n', length idxes, i') \<and>
        n' \<le> i' \<and> i' \<le> e \<and> i + 1 \<le> i' \<and> length buf' = length ?b \<and> drop i' buf' = drop i' ?b \<and>
        (\<forall>j\<in>set (drop r idxes). j < i') \<and>
        take n' buf' = take (n + 1) ?b @ map ((!) ?b) (filter (\<lambda>j. j \<notin> set (drop r idxes)) [i + 1..<i'])"
        using less.prems True rest ne x by (intro less.hyps [OF m]) (auto simp: dr)
      then obtain buf' n' i' where
        R: "drop_loop idxes e ?b sc (n + 1) r (i + 1) = Some (buf', sc @ map ((!) ?b) (drop r idxes), n', length idxes, i')"
          "n' \<le> i'" "i' \<le> e" "i + 1 \<le> i'" "length buf' = length ?b" "drop i' buf' = drop i' ?b"
          "\<forall>j\<in>set (drop r idxes). j < i'"
          "take n' buf' = take (n + 1) ?b @ map ((!) ?b) (filter (\<lambda>j. j \<notin> set (drop r idxes)) [i + 1..<i'])"
        by blast
      have "map ((!) ?b) (drop r idxes) = map ((!) buf) (drop r idxes)"
        using less.prems(1) rest(1) x ne by (auto simp: dr)
      moreover have "map ((!) ?b) (filter P [i + 1..<i']) = map ((!) buf) (filter P [i + 1..<i'])" for P
        using less.prems(1) by auto
      moreover have "take (n + 1) ?b = take n buf @ [buf ! i]"
        using less.prems True by (simp add: take_Suc_conv_app_nth)
      moreover have "i \<notin> set (drop r idxes)" using rest(1) x ne by (auto simp: dr)
      moreover have "drop i' ?b = drop i' buf" using R(4) less.prems(1) by simp
      ultimately show ?thesis
        using R step by (intro exI [of _ buf'] exI [of _ n'] exI [of _ i']) (simp add: upt)
    qed
  qed
qed

text \<open>Dropping with an ordered list of valid indices: the rest keeps its order, the dropped mbufs are freed.\<close>

lemma drop_packets_stable_spec:
  assumes wf: "pb_len pb \<le> length (pb_buf pb)" "pb_scratch pb = []"
    and idxes: "sorted_wrt (<) idxes" "\<forall>j\<in>set idxes. j < pb_len pb" "idxes \<noteq> []"
    and free: "mbuf_free_bulk N (map ((!) (pb_array pb)) idxes) w = (ret, w')"
  shows "\<exists>pb'. drop_packets_stable N idxes pb w =
      Some (if ret = 0 then Some (length idxes) else None, pb', w') \<and>
    pb_array pb' = map ((!) (pb_array pb)) (filter (\<lambda>j. j \<notin> set idxes) [0..<pb_len pb]) \<and>
    length (pb_buf pb') = length (pb_buf pb) \<and> pb_scratch pb' = [] \<and> parent_tasks pb' = parent_tasks pb \<and>
    pb_len pb' \<le> length (pb_buf pb')"
proof -
  let ?e = "pb_len pb" and ?P = "\<lambda>j. j \<notin> set idxes"
  obtain buf1 n1 i1 where L: "drop_loop idxes ?e (pb_buf pb) [] 0 0 0 =
      Some (buf1, map ((!) (pb_buf pb)) idxes, n1, length idxes, i1)" "n1 \<le> i1" "i1 \<le> ?e"
    "length buf1 = length (pb_buf pb)" "drop i1 buf1 = drop i1 (pb_buf pb)" "\<forall>j\<in>set idxes. j < i1"
    "take n1 buf1 = map ((!) (pb_buf pb)) (filter ?P [0..<i1])"
    using drop_loop_spec [of 0 0 ?e "pb_buf pb" 0 idxes "[]"] wf(1) idxes(1,2) by auto
  obtain buf2 where C: "copy_left ?e buf1 n1 i1 = Some (buf2, n1 + (?e - i1))" "length buf2 = length buf1"
    "take (n1 + (?e - i1)) buf2 = take n1 buf1 @ drop i1 (take ?e buf1)"
    using copy_left_spec [OF L(2,3), of buf1] wf(1) L(4) by auto
  define pb' where "pb' = pb\<lparr>pb_buf := buf2, pb_scratch := [], pb_len := n1 + (?e - i1)\<rparr>"
  have arr: "map ((!) (pb_buf pb)) js = map ((!) (pb_array pb)) js" if "\<forall>j\<in>set js. j < ?e" for js
    using that by (simp add: pb_array_def)
  have le: "n1 + (?e - i1) \<le> length buf2" using L(2-4) C(2) wf(1) by simp
  have "drop_packets_stable N idxes pb w = Some (if ret = 0 then Some (length idxes) else None, pb', w')"
    using L(1) C(1) le free idxes(3) wf(2) arr [OF idxes(2)]
    by (simp add: drop_packets_stable_def set_len_def Let_def pb'_def)
  moreover have "pb_array pb' = map ((!) (pb_array pb)) (filter ?P [0..<?e])"
  proof -
    have "drop i1 (take ?e buf1) = map ((!) (pb_buf pb)) [i1..<?e]"
      using L(3,5) wf(1) by (simp add: drop_take) (rule nth_equalityI, auto)
    moreover have "filter ?P [0..<?e] = filter ?P [0..<i1] @ [i1..<?e]"
    proof -
      have "[0..<?e] = [0..<i1] @ [i1..<?e]" using L(3) by (metis le0 upt_add_eq_append le_add_diff_inverse)
      moreover have "filter ?P [i1..<?e] = [i1..<?e]" using L(6) by (auto simp: filter_id_conv)
      ultimately show ?thesis by simp
    qed
    ultimately have "pb_array pb' = map ((!) (pb_buf pb)) (filter ?P [0..<?e])"
      using C(3) L(7) by (simp add: pb'_def pb_array_def)
    then show ?thesis by (subst (asm) arr) auto
  qed
  ultimately show ?thesis using L(4) C(2) le by (auto simp: pb'_def)
qed

lemma consume_batch_partial_spec:
  assumes "pb_len pb \<le> length (pb_buf pb)" and "n \<le> pb_len pb"
  shows "\<exists>pb'. consume_batch_partial n pb = Some pb' \<and> pb_array pb' = drop n (pb_array pb) \<and>
    length (pb_buf pb') = length (pb_buf pb) \<and> pb_scratch pb' = pb_scratch pb \<and> parent_tasks pb' = parent_tasks pb \<and>
    pb_len pb' \<le> length (pb_buf pb')"
proof -
  obtain buf where "copy_left (pb_len pb) (pb_buf pb) 0 n = Some (buf, 0 + (pb_len pb - n))" "length buf = length (pb_buf pb)"
    "take (0 + (pb_len pb - n)) buf = take 0 (pb_buf pb) @ drop n (take (pb_len pb) (pb_buf pb))"
    using copy_left_spec [of 0 n "pb_len pb" "pb_buf pb"] assms by blast
  with assms show ?thesis
    by (simp add: consume_batch_partial_def len_sub_def set_len_def pb_array_def)
qed

end
