(* ===== verification/NB_Batch.thy ===== *)
theory NB_Batch
  imports NB_PacketBatch
begin

text \<open>
  The traits that every batch type implements, \<open>Act\<close> and \<open>BatchIterator\<close> of \<open>framework/src/operators/act.rs\<close> and
  \<open>iterator.rs\<close>, the enumerator that walks over the packets of a batch, and \<open>PacketBatch\<close> as their base
  instance.  A generic operator over a parent batch type \<open>V\<close> is translated with the trait's methods for
  \<open>V\<close> passed as a record of functions.  The locale \<open>batch\<close> is the contract behind the traits: a batch is
  a view of one \<open>PacketBatch\<close>, and what it does to the array of mbufs it does through that.
\<close>

section \<open>The traits\<close>

text \<open>
  A method that takes \<open>&mut self\<close> returns the new value; \<open>None\<close> is a panic.  The mutable reference that
  \<open>get_packet_batch\<close> returns is a pair of functions: reading, and writing back.  No implementation of
  \<open>next_payload\<close> or \<open>start\<close> changes the batch.
\<close>

record ('b, 'x) Batch =
  b_act :: "'b \<Rightarrow> 'x world \<Rightarrow> ('b \<times> 'x world) option"
  b_done :: "'b \<Rightarrow> 'x world \<Rightarrow> ('b \<times> 'x world) option"
  b_send_q :: "'x PacketTx \<Rightarrow> 'b \<Rightarrow> 'x world \<Rightarrow> (u32 result \<times> 'b \<times> 'x world) option"
  b_capacity :: "'b \<Rightarrow> nat"
  b_drop_packets :: "nat list \<Rightarrow> 'b \<Rightarrow> 'x world \<Rightarrow> (nat option \<times> 'b \<times> 'x world) option"
  b_clear_packets :: "'b \<Rightarrow> 'b option"
  b_get_packet_batch :: "'b \<Rightarrow> PacketBatch option"
  b_set_packet_batch :: "'b \<Rightarrow> PacketBatch \<Rightarrow> 'b"
  b_get_task_dependencies :: "'b \<Rightarrow> nat list"
  b_start :: "'b \<Rightarrow> nat option"
  b_next_payload :: "'b \<Rightarrow> nat \<Rightarrow> 'x world \<Rightarrow> (Packet option \<times> 'x world) option"

text \<open>The enumerator is its index.\<close>

definition PayloadEnumerator_new :: "('b, 'x) Batch \<Rightarrow> 'b \<Rightarrow> nat option" where
  "PayloadEnumerator_new V b = b_start V b"

definition PayloadEnumerator_next ::
  "('b, 'x) Batch \<Rightarrow> nat \<Rightarrow> 'b \<Rightarrow> 'x world \<Rightarrow> ((nat \<times> Packet) option \<times> nat \<times> 'x world) option" where
  "PayloadEnumerator_next V idx b w = do {
     let original_idx = idx;
     (item, w) \<leftarrow> b_next_payload V b original_idx w;
     case item of
       Some packet \<Rightarrow> Some (Some (original_idx, packet), original_idx + 1, w)
     | None \<Rightarrow> Some (None, idx, w)
   }"

text \<open>
  The loop \<open>while let Some(ParsedDescriptor { packet, index }) = iter.next(batch)\<close> of the operators; \<open>st\<close> is
  what the body changes besides the world.
\<close>

definition for_each ::
  "('b, 'x) Batch \<Rightarrow> (nat \<Rightarrow> Packet \<Rightarrow> 'x world \<Rightarrow> 's \<Rightarrow> ('x world \<times> 's) option) \<Rightarrow> 'b \<Rightarrow> 'x world \<Rightarrow> 's \<Rightarrow>
   ('x world \<times> 's) option" where
  "for_each V body b w st = do {
     start \<leftarrow> PayloadEnumerator_new V b;
     rust_loop (\<lambda>(idx, w, st). do {
       (item, idx, w) \<leftarrow> PayloadEnumerator_next V idx b w;
       case item of
         Some (index, packet) \<Rightarrow> do {
           (w, st) \<leftarrow> body index packet w st;
           Some (Inl (idx, w, st))
         }
       | None \<Rightarrow> Some (Inr (w, st))
     }) (start, w, st)
   }"

section \<open>PacketBatch as a batch\<close>

definition pb_next_payload :: "PacketBatch \<Rightarrow> nat \<Rightarrow> 'x world \<Rightarrow> (Packet option \<times> 'x world) option" where
  "pb_next_payload pb idx w =
     (if idx < pb_len pb then do {
        m \<leftarrow> vec_get (pb_array pb) idx;
        packet \<leftarrow> packet_from_mbuf_no_free (w_heap w) m 0 HNull;
        Some (Some packet, w)
      } else Some (None, w))"

definition pb_send_q :: "'x PacketTx \<Rightarrow> PacketBatch \<Rightarrow> 'x world \<Rightarrow> (u32 result \<times> PacketBatch \<times> 'x world) option" where
  "pb_send_q port pb w =
     (if pb_available pb > 0 then do {
        (r, w) \<leftarrow> port (pb_array pb) w;
        case r of
          Inl e \<Rightarrow> Some (Inl e, pb, w)
        | Inr sent \<Rightarrow> do {
            pb \<leftarrow> consume_batch_partial (unat sent) pb;
            total_sent \<leftarrow> checked_add 0 sent;
            Some (Inr total_sent, pb, w)
          }
      } else Some (Inr 0, pb, w))"

definition PacketBatch_ops :: "'x natives \<Rightarrow> (PacketBatch, 'x) Batch" where
  "PacketBatch_ops N = \<lparr>
     b_act = \<lambda>pb w. Some (pb, w),
     b_done = \<lambda>pb w. Some (pb, w),
     b_send_q = pb_send_q,
     b_capacity = \<lambda>pb. length (pb_buf pb),
     b_drop_packets = drop_packets_stable N,
     b_clear_packets = \<lambda>pb. Some (consume_batch pb),
     b_get_packet_batch = \<lambda>pb. Some pb,
     b_set_packet_batch = \<lambda>_ pb. pb,
     b_get_task_dependencies = get_parent_task,
     b_start = \<lambda>pb. Some 0,
     b_next_payload = pb_next_payload\<rparr>"

text \<open>\<open>Drop\<close>: the mbufs still in the batch are freed.\<close>

definition pb_drop :: "'x natives \<Rightarrow> PacketBatch \<Rightarrow> 'x world \<Rightarrow> 'x world" where
  "pb_drop N pb w = (case free_packet_batch N pb w of (_, _, w) \<Rightarrow> w)"

section \<open>The contract of a batch\<close>

definition pb_wf :: "PacketBatch \<Rightarrow> bool" where
  "pb_wf pb \<longleftrightarrow> pb_len pb \<le> length (pb_buf pb) \<and> pb_scratch pb = []"

text \<open>Iterating a fallible state transformer over a list.\<close>

fun mfold :: "('a \<Rightarrow> 's \<Rightarrow> 's option) \<Rightarrow> 'a list \<Rightarrow> 's \<Rightarrow> 's option" where
  "mfold f [] s = Some s"
| "mfold f (x # xs) s = f x s \<bind> mfold f xs"

lemma mfold_append: "mfold f (xs @ ys) s = mfold f xs s \<bind> mfold f ys"
  by (induction xs arbitrary: s) (auto split: Option.bind_split)

text \<open>What an iteration over a batch does with the packet at one index.\<close>

definition visit ::
  "('b, 'x) Batch \<Rightarrow> (nat \<Rightarrow> Packet \<Rightarrow> 'x world \<Rightarrow> 's \<Rightarrow> ('x world \<times> 's) option) \<Rightarrow> 'b \<Rightarrow> nat \<Rightarrow> 'x world \<times> 's \<Rightarrow>
   ('x world \<times> 's) option" where
  "visit V body b i ws = (case ws of (w, st) \<Rightarrow> do {
     (item, w) \<leftarrow> b_next_payload V b i w;
     packet \<leftarrow> item;
     body i packet w st
   })"

locale batch =
  fixes N :: "'x natives" and V :: "('b, 'x) Batch" and ok :: "'b \<Rightarrow> bool"
  assumes start: "ok b \<Longrightarrow> b_start V b = Some 0"
    and get: "ok b \<Longrightarrow> \<exists>pb. b_get_packet_batch V b = Some pb \<and> pb_wf pb"
    and set: "ok b \<Longrightarrow> pb_wf pb \<Longrightarrow> ok (b_set_packet_batch V b pb) \<and>
      b_get_packet_batch V (b_set_packet_batch V b pb) = Some pb"
    and next_end: "ok b \<Longrightarrow> b_get_packet_batch V b = Some pb \<Longrightarrow> pb_len pb \<le> i \<Longrightarrow>
      b_next_payload V b i w = Some (None, w)"
    and next_packet: "ok b \<Longrightarrow> b_get_packet_batch V b = Some pb \<Longrightarrow> i < pb_len pb \<Longrightarrow>
      b_next_payload V b i w = Some (item, w') \<Longrightarrow>
      \<exists>p. item = Some p \<and> pkt_mbuf p = pb_array pb ! i \<and> w_queues w' = w_queues w \<and> w_ext w' = w_ext w"
    and drop_forwards: "ok b \<Longrightarrow> b_get_packet_batch V b = Some pb \<Longrightarrow> b_drop_packets V idxes b w =
      map_option (\<lambda>(r, pb, w). (r, b_set_packet_batch V b pb, w)) (drop_packets_stable N idxes pb w)"
    and send_forwards: "ok b \<Longrightarrow> b_get_packet_batch V b = Some pb \<Longrightarrow> b_send_q V port b w =
      map_option (\<lambda>(r, pb, w). (r, b_set_packet_batch V b pb, w)) (pb_send_q port pb w)"
    and clear_forwards: "ok b \<Longrightarrow> b_get_packet_batch V b = Some pb \<Longrightarrow>
      b_clear_packets V b = Some (b_set_packet_batch V b (consume_batch pb))"
    and act_ok: "ok b \<Longrightarrow> b_act V b w = Some (b', w') \<Longrightarrow> ok b'"
    and done_ok: "ok b \<Longrightarrow> b_done V b w = Some (b', w') \<Longrightarrow> ok b'"
begin

text \<open>An iteration visits every packet of the batch exactly once, in order, and ends.\<close>

lemma for_each_visits:
  assumes ok: "ok b" and pb: "b_get_packet_batch V b = Some pb"
  shows "for_each V body b w st = mfold (visit V body b) [0..<pb_len pb] (w, st)"
proof -
  let ?n = "pb_len pb"
  define step where "step = (\<lambda>(idx, w, st). do {
       (item, idx, w) \<leftarrow> PayloadEnumerator_next V idx b w;
       case item of
         Some (index, packet) \<Rightarrow> do {
           (w, st) \<leftarrow> body index packet w st;
           Some (Inl (idx, w, st))
         }
       | None \<Rightarrow> Some (Inr (w, st))
     })"
  have "rust_loop step (i, w, st) = mfold (visit V body b) [i..<?n] (w, st)" if "i \<le> ?n" for i w st
    using that
  proof (induction "?n - i" arbitrary: i w st)
    case 0
    then have "i = ?n" by simp
    then show ?case
      using next_end [OF ok pb, of i w] by (subst rust_loop.simps) (simp add: step_def PayloadEnumerator_next_def)
  next
    case (Suc m)
    have IH: "rust_loop step (Suc i, w, st) = mfold (visit V body b) [Suc i..<?n] (w, st)" for w st
      using Suc by simp
    have i: "i < ?n" using Suc(2) by simp
    then have upt: "[i..<?n] = i # [Suc i..<?n]" by (simp add: upt_conv_Cons)
    show ?case
    proof (cases "b_next_payload V b i w")
      case None
      then show ?thesis unfolding upt by (subst rust_loop.simps) (simp add: step_def PayloadEnumerator_next_def visit_def)
    next
      case (Some r)
      then obtain p w' where "b_next_payload V b i w = Some (Some p, w')"
        using next_packet [OF ok pb, of i w "fst r" "snd r"] i by (cases r) auto
      moreover have "step (i, w, st) = body i p w' st \<bind> (\<lambda>(w, st). Some (Inl (Suc i, w, st)))"
        using calculation by (simp add: step_def PayloadEnumerator_next_def)
      ultimately show ?thesis
        unfolding upt by (subst rust_loop.simps) (auto simp: visit_def IH split: Option.bind_split)
    qed
  qed
  from this [of 0 w st] show ?thesis
    by (simp add: for_each_def PayloadEnumerator_new_def start [OF ok] step_def)
qed

end

interpretation pbb: batch N "PacketBatch_ops N" pb_wf
proof unfold_locales
  fix pb pb' :: PacketBatch and i w item w'
  assume "pb_wf pb" "b_get_packet_batch (PacketBatch_ops N) pb = Some pb'" "i < pb_len pb'"
    "b_next_payload (PacketBatch_ops N) pb i w = Some (item, w')"
  then show "\<exists>p. item = Some p \<and> pkt_mbuf p = pb_array pb' ! i \<and> w_queues w' = w_queues w \<and> w_ext w' = w_ext w"
    by (auto simp: PacketBatch_ops_def pb_next_payload_def bind_eq_Some_conv vec_get_def packet_from_mbuf_no_free_def
        packet_from_mbuf_no_increment_def create_packet_def Let_def split: if_splits)
qed (auto simp: PacketBatch_ops_def pb_next_payload_def consume_batch_def option.map_ident
    case_prod_beta' pb_wf_def)

end
