(* ===== verification/NB_Operators.thy ===== *)
theory NB_Operators
  imports NB_Batch
begin

text \<open>
  The operators of \<open>framework/src/operators\<close>: each wraps a parent batch and is again a batch.  For every
  operator there are its record, its constructor and its implementation of the traits, as a function of
  the implementation \<open>V\<close> of the parent.  Closures are functions on the world (an \<open>FnMut\<close> may keep state in
  \<open>w_ext\<close>); one that takes \<open>&Packet\<close> reads the heap, one that takes \<open>&mut Packet\<close> may change it.
\<close>

section \<open>Receiving\<close>

record 'x ReceiveBatch =
  rb_parent :: PacketBatch
  rb_queue :: "'x PacketRx"
  received :: u64

definition ReceiveBatch_new_with_parent :: "PacketBatch \<Rightarrow> 'x PacketRx \<Rightarrow> 'x ReceiveBatch" where
  "ReceiveBatch_new_with_parent parent queue = \<lparr>rb_parent = parent, rb_queue = queue, received = 0\<rparr>"

definition ReceiveBatch_new :: "'x PacketRx \<Rightarrow> 'x ReceiveBatch" where
  "ReceiveBatch_new queue = \<lparr>rb_parent = PacketBatch_new 32, rb_queue = queue, received = 0\<rparr>"

definition ReceiveBatch_act :: "'x natives \<Rightarrow> 'x ReceiveBatch \<Rightarrow> 'x world \<Rightarrow> ('x ReceiveBatch \<times> 'x world) option" where
  "ReceiveBatch_act N b w = do {
     (parent, w) \<leftarrow> b_act (PacketBatch_ops N) (rb_parent b) w;
     (r, parent, w) \<leftarrow> pb_recv N (rb_queue b) parent w;
     case r of
       Inl e \<Rightarrow> None
     | Inr x \<Rightarrow> do {
         received' \<leftarrow> checked_add (received b) (ucast x);
         Some (b\<lparr>rb_parent := parent, received := received'\<rparr>, w)
       }
   }"

definition ReceiveBatch_done :: "'x natives \<Rightarrow> 'x ReceiveBatch \<Rightarrow> 'x world \<Rightarrow> ('x ReceiveBatch \<times> 'x world) option" where
  "ReceiveBatch_done N b w = (case deallocate_batch N (rb_parent b) w of
     (Inr _, parent, w) \<Rightarrow> Some (b\<lparr>rb_parent := parent\<rparr>, w)
   | (Inl _, _, _) \<Rightarrow> None)"

definition ReceiveBatch_ops :: "'x natives \<Rightarrow> ('x ReceiveBatch, 'x) Batch" where
  "ReceiveBatch_ops N = (let P = PacketBatch_ops N in \<lparr>
     b_act = ReceiveBatch_act N,
     b_done = ReceiveBatch_done N,
     b_send_q = \<lambda>port b w. do {
       (r, parent, w) \<leftarrow> b_send_q P port (rb_parent b) w;
       Some (r, b\<lparr>rb_parent := parent\<rparr>, w)
     },
     b_capacity = \<lambda>b. b_capacity P (rb_parent b),
     b_drop_packets = \<lambda>idxes b w. do {
       (r, parent, w) \<leftarrow> b_drop_packets P idxes (rb_parent b) w;
       Some (r, b\<lparr>rb_parent := parent\<rparr>, w)
     },
     b_clear_packets = \<lambda>b. do {
       parent \<leftarrow> b_clear_packets P (rb_parent b);
       Some (b\<lparr>rb_parent := parent\<rparr>)
     },
     b_get_packet_batch = \<lambda>b. Some (rb_parent b),
     b_set_packet_batch = \<lambda>b pb. b\<lparr>rb_parent := pb\<rparr>,
     b_get_task_dependencies = \<lambda>b. b_get_task_dependencies P (rb_parent b),
     b_start = \<lambda>b. b_start P (rb_parent b),
     b_next_payload = \<lambda>b idx w. b_next_payload P (rb_parent b) idx w\<rparr>)"

section \<open>The operators that only change the view of a packet\<close>

text \<open>
  The macro \<open>act!{}\<close>: every method of \<open>Act\<close> is the parent's.  A struct whose only field that is not phantom
  data is \<open>parent\<close> is its parent.
\<close>

definition act_macro :: "('b, 'x) Batch \<Rightarrow> ('b \<Rightarrow> nat \<Rightarrow> 'x world \<Rightarrow> (Packet option \<times> 'x world) option) \<Rightarrow> ('b, 'x) Batch" where
  "act_macro V next_payload = \<lparr>
     b_act = \<lambda>b w. b_act V b w,
     b_done = \<lambda>b w. b_done V b w,
     b_send_q = \<lambda>port b w. b_send_q V port b w,
     b_capacity = \<lambda>b. b_capacity V b,
     b_drop_packets = \<lambda>idxes b w. b_drop_packets V idxes b w,
     b_clear_packets = \<lambda>b. b_clear_packets V b,
     b_get_packet_batch = \<lambda>b. b_get_packet_batch V b,
     b_set_packet_batch = \<lambda>b pb. b_set_packet_batch V b pb,
     b_get_task_dependencies = \<lambda>b. b_get_task_dependencies V b,
     b_start = \<lambda>b. b_start V b,
     b_next_payload = next_payload\<rparr>"

definition ParsedBatch_next_payload ::
  "header_type \<Rightarrow> ('b, 'x) Batch \<Rightarrow> 'b \<Rightarrow> nat \<Rightarrow> 'x world \<Rightarrow> (Packet option \<times> 'x world) option" where
  "ParsedBatch_next_payload t V b idx w = do {
     (item, w) \<leftarrow> b_next_payload V b idx w;
     case item of
       None \<Rightarrow> Some (None, w)
     | Some p \<Rightarrow> do {
         p \<leftarrow> parse_header (w_heap w) p t;
         Some (Some p, w)
       }
   }"

definition ParsedBatch_ops :: "header_type \<Rightarrow> ('b, 'x) Batch \<Rightarrow> ('b, 'x) Batch" where
  "ParsedBatch_ops t V = act_macro V (ParsedBatch_next_payload t V)"

definition DeparsedBatch_next_payload ::
  "('b, 'x) Batch \<Rightarrow> 'b \<Rightarrow> nat \<Rightarrow> 'x world \<Rightarrow> (Packet option \<times> 'x world) option" where
  "DeparsedBatch_next_payload V b idx w = do {
     (item, w) \<leftarrow> b_next_payload V b idx w;
     case item of
       None \<Rightarrow> Some (None, w)
     | Some p \<Rightarrow> do {
         (r, h) \<leftarrow> deparse_header_stack (w_heap w) p;
         p \<leftarrow> r;
         Some (Some p, w\<lparr>w_heap := h\<rparr>)
       }
   }"

definition DeparsedBatch_ops :: "('b, 'x) Batch \<Rightarrow> ('b, 'x) Batch" where
  "DeparsedBatch_ops V = act_macro V (DeparsedBatch_next_payload V)"

definition ResetParsingBatch_next_payload ::
  "('b, 'x) Batch \<Rightarrow> 'b \<Rightarrow> nat \<Rightarrow> 'x world \<Rightarrow> (Packet option \<times> 'x world) option" where
  "ResetParsingBatch_next_payload V b idx w = do {
     (item, w) \<leftarrow> b_next_payload V b idx w;
     case item of
       Some packet \<Rightarrow> do {
         p \<leftarrow> packet_reset (w_heap w) packet;
         Some (Some p, w)
       }
     | None \<Rightarrow> Some (None, w)
   }"

definition ResetParsingBatch_ops :: "('b, 'x) Batch \<Rightarrow> ('b, 'x) Batch" where
  "ResetParsingBatch_ops V = act_macro V (ResetParsingBatch_next_payload V)"

definition RestoreHeader_next_payload ::
  "header_type \<Rightarrow> ('b, 'x) Batch \<Rightarrow> 'b \<Rightarrow> nat \<Rightarrow> 'x world \<Rightarrow> (Packet option \<times> 'x world) option" where
  "RestoreHeader_next_payload t V b idx w = do {
     (item, w) \<leftarrow> b_next_payload V b idx w;
     case item of
       None \<Rightarrow> Some (None, w)
     | Some p \<Rightarrow> do {
         r \<leftarrow> restore_saved_header (w_heap w) p t;
         p \<leftarrow> r;
         Some (Some p, w)
       }
   }"

definition RestoreHeader_ops :: "header_type \<Rightarrow> ('b, 'x) Batch \<Rightarrow> ('b, 'x) Batch" where
  "RestoreHeader_ops t V = act_macro V (RestoreHeader_next_payload t V)"

text \<open>\<open>CompositionBatch::new\<close> boxes the parent behind a reset.\<close>

definition CompositionBatch_ops :: "('b, 'x) Batch \<Rightarrow> ('b, 'x) Batch" where
  "CompositionBatch_ops V = (let R = ResetParsingBatch_ops V in act_macro R (b_next_payload R))"

definition CompositionBatch_execute :: "('b, 'x) Batch \<Rightarrow> 'b \<Rightarrow> 'x world \<Rightarrow> ('b \<times> 'x world) option" where
  "CompositionBatch_execute V b w = do {
     (b, w) \<leftarrow> b_act (CompositionBatch_ops V) b w;
     b_done (CompositionBatch_ops V) b w
   }"

section \<open>The operators with a parent and a closure\<close>

text \<open>
  Their other methods of the traits call the same method of the field \<open>parent\<close>, which is given here by its
  selector and its update function.
\<close>

definition forward ::
  "('s \<Rightarrow> 'b) \<Rightarrow> (('b \<Rightarrow> 'b) \<Rightarrow> 's \<Rightarrow> 's) \<Rightarrow> ('b, 'x) Batch \<Rightarrow>
   ('s \<Rightarrow> 'x world \<Rightarrow> ('s \<times> 'x world) option) \<Rightarrow> ('s \<Rightarrow> 'x world \<Rightarrow> ('s \<times> 'x world) option) \<Rightarrow> ('s, 'x) Batch" where
  "forward parent upd V act_fn done_fn = \<lparr>
     b_act = act_fn,
     b_done = done_fn,
     b_send_q = \<lambda>port s w. do {
       (r, p, w) \<leftarrow> b_send_q V port (parent s) w;
       Some (r, upd (\<lambda>_. p) s, w)
     },
     b_capacity = \<lambda>s. b_capacity V (parent s),
     b_drop_packets = \<lambda>idxes s w. do {
       (r, p, w) \<leftarrow> b_drop_packets V idxes (parent s) w;
       Some (r, upd (\<lambda>_. p) s, w)
     },
     b_clear_packets = \<lambda>s. do {
       p \<leftarrow> b_clear_packets V (parent s);
       Some (upd (\<lambda>_. p) s)
     },
     b_get_packet_batch = \<lambda>s. b_get_packet_batch V (parent s),
     b_set_packet_batch = \<lambda>s pb. upd (\<lambda>_. b_set_packet_batch V (parent s) pb) s,
     b_get_task_dependencies = \<lambda>s. b_get_task_dependencies V (parent s),
     b_start = \<lambda>s. b_start V (parent s),
     b_next_payload = \<lambda>s idx w. b_next_payload V (parent s) idx w\<rparr>"

subsection \<open>TransformBatch\<close>

type_synonym 'x TransformFn = "Packet \<Rightarrow> 'x world \<Rightarrow> 'x world option"

record ('b, 'x) TransformBatch =
  tb_parent :: 'b
  tb_transformer :: "'x TransformFn"
  tb_applied :: bool

definition TransformBatch_new :: "'b \<Rightarrow> 'x TransformFn \<Rightarrow> ('b, 'x) TransformBatch" where
  "TransformBatch_new parent transformer = \<lparr>tb_parent = parent, tb_transformer = transformer, tb_applied = False\<rparr>"

definition transform_body :: "'x TransformFn \<Rightarrow> nat \<Rightarrow> Packet \<Rightarrow> 'x world \<Rightarrow> unit \<Rightarrow> ('x world \<times> unit) option" where
  "transform_body transformer index packet w st = do {
     w \<leftarrow> transformer packet w;
     Some (w, st)
   }"

definition TransformBatch_act ::
  "('b, 'x) Batch \<Rightarrow> ('b, 'x) TransformBatch \<Rightarrow> 'x world \<Rightarrow> (('b, 'x) TransformBatch \<times> 'x world) option" where
  "TransformBatch_act V b w =
     (if \<not> tb_applied b then do {
        (parent, w) \<leftarrow> b_act V (tb_parent b) w;
        (w, _) \<leftarrow> for_each V (transform_body (tb_transformer b)) parent w ();
        Some (b\<lparr>tb_parent := parent, tb_applied := True\<rparr>, w)
      } else Some (b, w))"

definition TransformBatch_done ::
  "('b, 'x) Batch \<Rightarrow> ('b, 'x) TransformBatch \<Rightarrow> 'x world \<Rightarrow> (('b, 'x) TransformBatch \<times> 'x world) option" where
  "TransformBatch_done V b w = do {
     (parent, w) \<leftarrow> b_done V (tb_parent b) w;
     Some (b\<lparr>tb_applied := False, tb_parent := parent\<rparr>, w)
   }"

definition TransformBatch_ops :: "('b, 'x) Batch \<Rightarrow> (('b, 'x) TransformBatch, 'x) Batch" where
  "TransformBatch_ops V = forward tb_parent tb_parent_update V (TransformBatch_act V) (TransformBatch_done V)"

subsection \<open>MapBatch\<close>

type_synonym 'x MapFn = "Packet \<Rightarrow> heap \<Rightarrow> 'x \<Rightarrow> 'x option"

record ('b, 'x) MapBatch =
  mb_parent :: 'b
  mb_transformer :: "'x MapFn"
  mb_applied :: bool

definition MapBatch_new :: "'b \<Rightarrow> 'x MapFn \<Rightarrow> ('b, 'x) MapBatch" where
  "MapBatch_new parent transformer = \<lparr>mb_parent = parent, mb_transformer = transformer, mb_applied = False\<rparr>"

definition map_body :: "'x MapFn \<Rightarrow> nat \<Rightarrow> Packet \<Rightarrow> 'x world \<Rightarrow> unit \<Rightarrow> ('x world \<times> unit) option" where
  "map_body transformer index packet w st = do {
     x \<leftarrow> transformer packet (w_heap w) (w_ext w);
     Some (w\<lparr>w_ext := x\<rparr>, st)
   }"

definition MapBatch_act ::
  "('b, 'x) Batch \<Rightarrow> ('b, 'x) MapBatch \<Rightarrow> 'x world \<Rightarrow> (('b, 'x) MapBatch \<times> 'x world) option" where
  "MapBatch_act V b w =
     (if \<not> mb_applied b then do {
        (parent, w) \<leftarrow> b_act V (mb_parent b) w;
        (w, _) \<leftarrow> for_each V (map_body (mb_transformer b)) parent w ();
        Some (b\<lparr>mb_parent := parent, mb_applied := True\<rparr>, w)
      } else Some (b, w))"

definition MapBatch_done ::
  "('b, 'x) Batch \<Rightarrow> ('b, 'x) MapBatch \<Rightarrow> 'x world \<Rightarrow> (('b, 'x) MapBatch \<times> 'x world) option" where
  "MapBatch_done V b w = do {
     (parent, w) \<leftarrow> b_done V (mb_parent b) w;
     Some (b\<lparr>mb_applied := False, mb_parent := parent\<rparr>, w)
   }"

definition MapBatch_ops :: "('b, 'x) Batch \<Rightarrow> (('b, 'x) MapBatch, 'x) Batch" where
  "MapBatch_ops V = forward mb_parent mb_parent_update V (MapBatch_act V) (MapBatch_done V)"

subsection \<open>AddMetadataBatch and MutableAddMetadataBatch\<close>

text \<open>The generators give the bytes of the metadata value.\<close>

type_synonym 'x MetadataFn = "Packet \<Rightarrow> heap \<Rightarrow> 'x \<Rightarrow> (u8 list \<times> 'x) option"
type_synonym 'x MutableMetadataFn = "Packet \<Rightarrow> 'x world \<Rightarrow> (u8 list \<times> 'x world) option"

record ('b, 'x) AddMetadataBatch =
  am_parent :: 'b
  am_generator :: "'x MetadataFn"
  am_applied :: bool

definition AddMetadataBatch_new :: "'b \<Rightarrow> 'x MetadataFn \<Rightarrow> ('b, 'x) AddMetadataBatch" where
  "AddMetadataBatch_new parent generator = \<lparr>am_parent = parent, am_generator = generator, am_applied = False\<rparr>"

definition write_metadata_unwrap :: "Packet \<Rightarrow> u8 list \<Rightarrow> 'x world \<Rightarrow> 'x world option" where
  "write_metadata_unwrap packet metadata w = do {
     (r, h) \<leftarrow> write_metadata (w_heap w) packet metadata;
     case r of Inl e \<Rightarrow> None | Inr _ \<Rightarrow> Some (w\<lparr>w_heap := h\<rparr>)
   }"

definition metadata_body :: "'x MetadataFn \<Rightarrow> nat \<Rightarrow> Packet \<Rightarrow> 'x world \<Rightarrow> unit \<Rightarrow> ('x world \<times> unit) option" where
  "metadata_body generator index packet w st = do {
     (metadata, x) \<leftarrow> generator packet (w_heap w) (w_ext w);
     w \<leftarrow> write_metadata_unwrap packet metadata (w\<lparr>w_ext := x\<rparr>);
     Some (w, st)
   }"

definition AddMetadataBatch_act ::
  "('b, 'x) Batch \<Rightarrow> ('b, 'x) AddMetadataBatch \<Rightarrow> 'x world \<Rightarrow> (('b, 'x) AddMetadataBatch \<times> 'x world) option" where
  "AddMetadataBatch_act V b w =
     (if \<not> am_applied b then do {
        (parent, w) \<leftarrow> b_act V (am_parent b) w;
        (w, _) \<leftarrow> for_each V (metadata_body (am_generator b)) parent w ();
        Some (b\<lparr>am_parent := parent, am_applied := True\<rparr>, w)
      } else Some (b, w))"

definition AddMetadataBatch_done ::
  "('b, 'x) Batch \<Rightarrow> ('b, 'x) AddMetadataBatch \<Rightarrow> 'x world \<Rightarrow> (('b, 'x) AddMetadataBatch \<times> 'x world) option" where
  "AddMetadataBatch_done V b w = do {
     (parent, w) \<leftarrow> b_done V (am_parent b) w;
     Some (b\<lparr>am_applied := False, am_parent := parent\<rparr>, w)
   }"

definition reinterpret_next_payload ::
  "('b, 'x) Batch \<Rightarrow> 'b \<Rightarrow> nat \<Rightarrow> 'x world \<Rightarrow> (Packet option \<times> 'x world) option" where
  "reinterpret_next_payload V b idx w = do {
     (item, w) \<leftarrow> b_next_payload V b idx w;
     Some (map_option reinterpret_metadata item, w)
   }"

definition AddMetadataBatch_ops :: "('b, 'x) Batch \<Rightarrow> (('b, 'x) AddMetadataBatch, 'x) Batch" where
  "AddMetadataBatch_ops V = (forward am_parent am_parent_update V (AddMetadataBatch_act V) (AddMetadataBatch_done V))
     \<lparr>b_next_payload := \<lambda>b. reinterpret_next_payload V (am_parent b)\<rparr>"

record ('b, 'x) MutableAddMetadataBatch =
  mm_parent :: 'b
  mm_generator :: "'x MutableMetadataFn"
  mm_applied :: bool

definition MutableAddMetadataBatch_new :: "'b \<Rightarrow> 'x MutableMetadataFn \<Rightarrow> ('b, 'x) MutableAddMetadataBatch" where
  "MutableAddMetadataBatch_new parent generator = \<lparr>mm_parent = parent, mm_generator = generator, mm_applied = False\<rparr>"

definition mut_metadata_body ::
  "'x MutableMetadataFn \<Rightarrow> nat \<Rightarrow> Packet \<Rightarrow> 'x world \<Rightarrow> unit \<Rightarrow> ('x world \<times> unit) option" where
  "mut_metadata_body generator index packet w st = do {
     (metadata, w) \<leftarrow> generator packet w;
     w \<leftarrow> write_metadata_unwrap packet metadata w;
     Some (w, st)
   }"

definition MutableAddMetadataBatch_act ::
  "('b, 'x) Batch \<Rightarrow> ('b, 'x) MutableAddMetadataBatch \<Rightarrow> 'x world \<Rightarrow> (('b, 'x) MutableAddMetadataBatch \<times> 'x world) option" where
  "MutableAddMetadataBatch_act V b w =
     (if \<not> mm_applied b then do {
        (parent, w) \<leftarrow> b_act V (mm_parent b) w;
        (w, _) \<leftarrow> for_each V (mut_metadata_body (mm_generator b)) parent w ();
        Some (b\<lparr>mm_parent := parent, mm_applied := True\<rparr>, w)
      } else Some (b, w))"

definition MutableAddMetadataBatch_done ::
  "('b, 'x) Batch \<Rightarrow> ('b, 'x) MutableAddMetadataBatch \<Rightarrow> 'x world \<Rightarrow> (('b, 'x) MutableAddMetadataBatch \<times> 'x world) option" where
  "MutableAddMetadataBatch_done V b w = do {
     (parent, w) \<leftarrow> b_done V (mm_parent b) w;
     Some (b\<lparr>mm_applied := False, mm_parent := parent\<rparr>, w)
   }"

definition MutableAddMetadataBatch_ops :: "('b, 'x) Batch \<Rightarrow> (('b, 'x) MutableAddMetadataBatch, 'x) Batch" where
  "MutableAddMetadataBatch_ops V =
     (forward mm_parent mm_parent_update V (MutableAddMetadataBatch_act V) (MutableAddMetadataBatch_done V))
     \<lparr>b_next_payload := \<lambda>b. reinterpret_next_payload V (mm_parent b)\<rparr>"

subsection \<open>FilterBatch\<close>

type_synonym 'x FilterFn = "Packet \<Rightarrow> heap \<Rightarrow> 'x \<Rightarrow> (bool \<times> 'x) option"

record ('b, 'x) FilterBatch =
  fb_parent :: 'b
  fb_filter :: "'x FilterFn"
  fb_capacity :: nat
  fb_remove :: "nat list"

definition FilterBatch_new :: "('b, 'x) Batch \<Rightarrow> 'b \<Rightarrow> 'x FilterFn \<Rightarrow> ('b, 'x) FilterBatch" where
  "FilterBatch_new V parent filter_fn = (let capacity = b_capacity V parent in
     \<lparr>fb_parent = parent, fb_filter = filter_fn, fb_capacity = capacity, fb_remove = []\<rparr>)"

definition filter_body ::
  "'x FilterFn \<Rightarrow> nat \<Rightarrow> Packet \<Rightarrow> 'x world \<Rightarrow> nat list \<Rightarrow> ('x world \<times> nat list) option" where
  "filter_body filter_fn idx packet w remove = do {
     (keep, x) \<leftarrow> filter_fn packet (w_heap w) (w_ext w);
     Some (w\<lparr>w_ext := x\<rparr>, if \<not> keep then remove @ [idx] else remove)
   }"

definition FilterBatch_act ::
  "('b, 'x) Batch \<Rightarrow> ('b, 'x) FilterBatch \<Rightarrow> 'x world \<Rightarrow> (('b, 'x) FilterBatch \<times> 'x world) option" where
  "FilterBatch_act V b w = do {
     (parent, w) \<leftarrow> b_act V (fb_parent b) w;
     (w, remove) \<leftarrow> for_each V (filter_body (fb_filter b)) parent w (fb_remove b);
     (parent, w) \<leftarrow>
       (if remove \<noteq> [] then do {
          (r, parent, w) \<leftarrow> b_drop_packets V remove parent w;
          _ \<leftarrow> r;
          Some (parent, w)
        } else Some (parent, w));
     Some (b\<lparr>fb_parent := parent, fb_remove := []\<rparr>, w)
   }"

definition FilterBatch_done ::
  "('b, 'x) Batch \<Rightarrow> ('b, 'x) FilterBatch \<Rightarrow> 'x world \<Rightarrow> (('b, 'x) FilterBatch \<times> 'x world) option" where
  "FilterBatch_done V b w = do {
     (parent, w) \<leftarrow> b_done V (fb_parent b) w;
     Some (b\<lparr>fb_parent := parent\<rparr>, w)
   }"

definition FilterBatch_ops :: "('b, 'x) Batch \<Rightarrow> (('b, 'x) FilterBatch, 'x) Batch" where
  "FilterBatch_ops V = (forward fb_parent fb_parent_update V (FilterBatch_act V) (FilterBatch_done V))
     \<lparr>b_capacity := fb_capacity\<rparr>"

section \<open>MergeBatch\<close>

record 'b MergeBatch =
  mg_parents :: "'b list"
  mg_which :: nat

definition MergeBatch_new :: "'b list \<Rightarrow> 'b MergeBatch" where
  "MergeBatch_new parents = \<lparr>mg_parents = parents, mg_which = 0\<rparr>"

definition mg_set :: "'b MergeBatch \<Rightarrow> 'b \<Rightarrow> 'b MergeBatch" where
  "mg_set b p = b\<lparr>mg_parents := (mg_parents b)[mg_which b := p]\<rparr>"

definition MergeBatch_act :: "('b, 'x) Batch \<Rightarrow> 'b MergeBatch \<Rightarrow> 'x world \<Rightarrow> ('b MergeBatch \<times> 'x world) option" where
  "MergeBatch_act V b w = do {
     p \<leftarrow> vec_get (mg_parents b) (mg_which b);
     (p, w) \<leftarrow> b_act V p w;
     Some (mg_set b p, w)
   }"

definition MergeBatch_done :: "('b, 'x) Batch \<Rightarrow> 'b MergeBatch \<Rightarrow> 'x world \<Rightarrow> ('b MergeBatch \<times> 'x world) option" where
  "MergeBatch_done V b w = do {
     p \<leftarrow> vec_get (mg_parents b) (mg_which b);
     (p, w) \<leftarrow> b_done V p w;
     let b = mg_set b p;
     let next_which = mg_which b + 1;
     Some (b\<lparr>mg_which := (if next_which = length (mg_parents b) then 0 else next_which)\<rparr>, w)
   }"

definition MergeBatch_capacity :: "('b, 'x) Batch \<Rightarrow> 'b MergeBatch \<Rightarrow> nat" where
  "MergeBatch_capacity V b = foldl (\<lambda>acc x. max acc (b_capacity V x)) 0 (mg_parents b)"

text \<open>\<open>sort\<close> and \<open>dedup\<close>, which removes repetitions of neighbours.\<close>

definition MergeBatch_get_task_dependencies :: "('b, 'x) Batch \<Rightarrow> 'b MergeBatch \<Rightarrow> nat list" where
  "MergeBatch_get_task_dependencies V b =
     remdups_adj (sort (foldl (\<lambda>deps parent. deps @ b_get_task_dependencies V parent) [] (mg_parents b)))"

definition MergeBatch_ops :: "('b, 'x) Batch \<Rightarrow> ('b MergeBatch, 'x) Batch" where
  "MergeBatch_ops V = \<lparr>
     b_act = MergeBatch_act V,
     b_done = MergeBatch_done V,
     b_send_q = \<lambda>port b w. do {
       p \<leftarrow> vec_get (mg_parents b) (mg_which b);
       (r, p, w) \<leftarrow> b_send_q V port p w;
       Some (r, mg_set b p, w)
     },
     b_capacity = MergeBatch_capacity V,
     b_drop_packets = \<lambda>idxes b w. do {
       p \<leftarrow> vec_get (mg_parents b) (mg_which b);
       (r, p, w) \<leftarrow> b_drop_packets V idxes p w;
       Some (r, mg_set b p, w)
     },
     b_clear_packets = \<lambda>b. do {
       p \<leftarrow> vec_get (mg_parents b) (mg_which b);
       p \<leftarrow> b_clear_packets V p;
       Some (mg_set b p)
     },
     b_get_packet_batch = \<lambda>b. vec_get (mg_parents b) (mg_which b) \<bind> b_get_packet_batch V,
     b_set_packet_batch = \<lambda>b pb. mg_set b (b_set_packet_batch V (mg_parents b ! mg_which b) pb),
     b_get_task_dependencies = MergeBatch_get_task_dependencies V,
     b_start = \<lambda>b. vec_get (mg_parents b) (mg_which b) \<bind> b_start V,
     b_next_payload = \<lambda>b idx w. do {
       p \<leftarrow> vec_get (mg_parents b) (mg_which b);
       b_next_payload V p idx w
     }\<rparr>"

definition MergeBatch_execute :: "('b, 'x) Batch \<Rightarrow> 'b MergeBatch \<Rightarrow> 'x world \<Rightarrow> ('b MergeBatch \<times> 'x world) option" where
  "MergeBatch_execute V b w = do {
     (b, w) \<leftarrow> MergeBatch_act V b w;
     MergeBatch_done V b w
   }"

section \<open>SendBatch\<close>

record ('b, 'x) SendBatch =
  sb_port :: "'x PacketTx"
  sb_parent :: 'b
  sb_sent :: u64

definition SendBatch_new :: "'b \<Rightarrow> 'x PacketTx \<Rightarrow> ('b, 'x) SendBatch" where
  "SendBatch_new parent port = \<lparr>sb_port = port, sb_parent = parent, sb_sent = 0\<rparr>"

definition SendBatch_act ::
  "('b, 'x) Batch \<Rightarrow> ('b, 'x) SendBatch \<Rightarrow> 'x world \<Rightarrow> (('b, 'x) SendBatch \<times> 'x world) option" where
  "SendBatch_act V b w = do {
     (parent, w) \<leftarrow> b_act V (sb_parent b) w;
     pb \<leftarrow> b_get_packet_batch V parent;
     (r, pb, w) \<leftarrow> pb_send_q (sb_port b) pb w;
     let parent = b_set_packet_batch V parent pb;
     sent' \<leftarrow> (case r of Inl e \<Rightarrow> None | Inr x \<Rightarrow> checked_add (sb_sent b) (ucast x));
     (parent, w) \<leftarrow> b_done V parent w;
     Some (b\<lparr>sb_parent := parent, sb_sent := sent'\<rparr>, w)
   }"

text \<open>A sent batch cannot be iterated, sent again, dropped from or cleared: these methods panic.\<close>

definition SendBatch_ops :: "('b, 'x) Batch \<Rightarrow> (('b, 'x) SendBatch, 'x) Batch" where
  "SendBatch_ops V = \<lparr>
     b_act = SendBatch_act V,
     b_done = \<lambda>b w. Some (b, w),
     b_send_q = \<lambda>port b w. None,
     b_capacity = \<lambda>b. b_capacity V (sb_parent b),
     b_drop_packets = \<lambda>idxes b w. None,
     b_clear_packets = \<lambda>b. None,
     b_get_packet_batch = \<lambda>b. b_get_packet_batch V (sb_parent b),
     b_set_packet_batch = \<lambda>b pb. b\<lparr>sb_parent := b_set_packet_batch V (sb_parent b) pb\<rparr>,
     b_get_task_dependencies = \<lambda>b. b_get_task_dependencies V (sb_parent b),
     b_start = \<lambda>b. None,
     b_next_payload = \<lambda>b idx w. None\<rparr>"

definition SendBatch_execute ::
  "('b, 'x) Batch \<Rightarrow> ('b, 'x) SendBatch \<Rightarrow> 'x world \<Rightarrow> (('b, 'x) SendBatch \<times> 'x world) option" where
  "SendBatch_execute V b w = SendBatch_act V b w"

section \<open>GroupBy\<close>

text \<open>A producer or consumer of a queue holds the index of the queue in the world.\<close>

definition producer_enqueue_one :: "nat \<Rightarrow> Packet \<Rightarrow> 'x world \<Rightarrow> (bool \<times> 'x world) option" where
  "producer_enqueue_one i packet w = do {
     q \<leftarrow> vec_get (w_queues w) i;
     (r, q) \<leftarrow> MpscProducer_enqueue_one q packet;
     Some (r, w\<lparr>w_queues := (w_queues w)[i := q]\<rparr>)
   }"

definition consumer_rx :: "nat \<Rightarrow> 'x PacketRx" where
  "consumer_rx i mbufs w = do {
     q \<leftarrow> vec_get (w_queues w) i;
     (r, mbufs, q) \<leftarrow> MpscConsumer_recv q mbufs;
     Some (r, mbufs, w\<lparr>w_queues := (w_queues w)[i := q]\<rparr>)
   }"

type_synonym 'x GroupFn = "Packet \<Rightarrow> heap \<Rightarrow> 'x \<Rightarrow> (nat \<times> 'x) option"

record ('b, 'x) GroupByProducer =
  gp_parent :: 'b
  gp_producers :: "nat list"
  gp_group_fn :: "'x GroupFn"

definition group_body ::
  "nat list \<Rightarrow> 'x GroupFn \<Rightarrow> nat \<Rightarrow> Packet \<Rightarrow> 'x world \<Rightarrow> unit \<Rightarrow> ('x world \<times> unit) option" where
  "group_body producers group_fn idx packet w st = do {
     (grp, x) \<leftarrow> group_fn packet (w_heap w) (w_ext w);
     h \<leftarrow> save_header_and_offset (w_heap w) packet;
     let w = w\<lparr>w_ext := x, w_heap := h\<rparr>;
     i \<leftarrow> vec_get producers grp;
     (_, w) \<leftarrow> producer_enqueue_one i packet w;
     Some (w, st)
   }"

definition GroupByProducer_execute ::
  "('b, 'x) Batch \<Rightarrow> ('b, 'x) GroupByProducer \<Rightarrow> 'x world \<Rightarrow> (('b, 'x) GroupByProducer \<times> 'x world) option" where
  "GroupByProducer_execute V b w = do {
     (parent, w) \<leftarrow> b_act V (gp_parent b) w;
     (w, _) \<leftarrow> for_each V (group_body (gp_producers b) (gp_group_fn b)) parent w ();
     pb \<leftarrow> b_get_packet_batch V parent;
     let parent = b_set_packet_batch V parent (consume_batch pb);
     (parent, w) \<leftarrow> b_done V parent w;
     Some (b\<lparr>gp_parent := parent\<rparr>, w)
   }"

definition GroupByProducer_dependencies :: "('b, 'x) Batch \<Rightarrow> ('b, 'x) GroupByProducer \<Rightarrow> nat list" where
  "GroupByProducer_dependencies V b = b_get_task_dependencies V (gp_parent b)"

record 'x GroupBy =
  gb_groups :: nat
  gb_consumers :: "nat \<rightharpoonup> 'x ReceiveBatch"
  gb_task :: nat

text \<open>The loop of \<open>GroupBy::new\<close>, then the registration of the producer as a task.\<close>

fun make_queues :: "nat \<Rightarrow> nat \<Rightarrow> 'x world \<Rightarrow> nat list \<Rightarrow> (nat \<rightharpoonup> 'x ReceiveBatch) \<Rightarrow>
  (nat list \<times> (nat \<rightharpoonup> 'x ReceiveBatch) \<times> 'x world) option" where
  "make_queues 0 i w producers consumers = Some (producers, consumers, w)"
| "make_queues (Suc n) i w producers consumers = do {
     q \<leftarrow> new_mpsc_queue_pair;
     let id = length (w_queues w);
     make_queues n (i + 1) (w\<lparr>w_queues := w_queues w @ [q]\<rparr>) (producers @ [id])
       (consumers(i \<mapsto> ReceiveBatch_new (consumer_rx id)))
   }"

definition GroupBy_new ::
  "(('b, 'x) GroupByProducer \<Rightarrow> 'sched \<Rightarrow> nat result \<times> 'sched) \<Rightarrow> 'b \<Rightarrow> nat \<Rightarrow> 'x GroupFn \<Rightarrow> 'sched \<Rightarrow> 'x world \<Rightarrow>
   ('x GroupBy \<times> 'sched \<times> 'x world) option" where
  "GroupBy_new add_task parent groups group_fn sched w = do {
     (producers, consumers, w) \<leftarrow> make_queues groups 0 w [] Map.empty;
     let (r, sched) = add_task \<lparr>gp_parent = parent, gp_producers = producers, gp_group_fn = group_fn\<rparr> sched;
     case r of
       Inl e \<Rightarrow> None
     | Inr task \<Rightarrow> Some (\<lparr>gb_groups = groups, gb_consumers = consumers, gb_task = task\<rparr>, sched, w)
   }"

definition GroupBy_len :: "'x GroupBy \<Rightarrow> nat" where
  "GroupBy_len g = gb_groups g"

text \<open>The result is the parent of the \<open>RestoreHeader\<close> batch.\<close>

definition get_group :: "'x GroupBy \<Rightarrow> nat \<Rightarrow> 'x ReceiveBatch option \<times> 'x GroupBy" where
  "get_group g grp = (case gb_consumers g grp of
     Some p \<Rightarrow> (Some (p\<lparr>rb_parent := add_parent_task (gb_task g) (rb_parent p)\<rparr>),
                g\<lparr>gb_consumers := (gb_consumers g)(grp := None)\<rparr>)
   | None \<Rightarrow> (None, g))"

end
