(* ===== verification/NB_Pipeline.thy ===== *)
theory NB_Pipeline
  imports NB_Operators
begin

text \<open>
  What the operators of \<open>framework/src/operators\<close> do, proved from the contract of their parent batch, and
  that each of them meets the contract again: so every pipeline that can be built from them does.
\<close>

section \<open>Every operator is a batch\<close>

text \<open>A change of the view: nothing after the end, the same mbuf before it, and only the heap is touched.\<close>

definition view_change ::
  "('b, 'x) Batch \<Rightarrow> ('b \<Rightarrow> nat \<Rightarrow> 'x world \<Rightarrow> (Packet option \<times> 'x world) option) \<Rightarrow> bool" where
  "view_change V nxt \<longleftrightarrow> (\<forall>b i w.
     (b_next_payload V b i w = None \<longrightarrow> nxt b i w = None) \<and>
     (\<forall>w0. b_next_payload V b i w = Some (None, w0) \<longrightarrow> nxt b i w = Some (None, w0)) \<and>
     (\<forall>p0 w0 item w'. b_next_payload V b i w = Some (Some p0, w0) \<and> nxt b i w = Some (item, w') \<longrightarrow>
        (\<exists>p. item = Some p \<and> pkt_mbuf p = pkt_mbuf p0 \<and> w_queues w' = w_queues w0 \<and> w_ext w' = w_ext w0)))"

lemma view_change_refl: "view_change V (b_next_payload V)"
  by (auto simp: view_change_def)

lemma view_change_parsed: "view_change V (ParsedBatch_next_payload t V)"
  by (auto simp: view_change_def ParsedBatch_next_payload_def bind_eq_Some_conv parse_header_def create_packet_def Let_def
      split: if_splits)

lemma view_change_deparsed: "view_change V (DeparsedBatch_next_payload V)"
  by (auto simp: view_change_def DeparsedBatch_next_payload_def bind_eq_Some_conv deparse_header_stack_def
      deparse_header_def create_packet_def Let_def split: option.splits)

lemma view_change_reset: "view_change V (ResetParsingBatch_next_payload V)"
  by (auto simp: view_change_def ResetParsingBatch_next_payload_def bind_eq_Some_conv packet_reset_def create_packet_def)

lemma view_change_restore: "view_change V (RestoreHeader_next_payload t V)"
  by (auto simp: view_change_def RestoreHeader_next_payload_def bind_eq_Some_conv restore_saved_header_def
      create_packet_def split: if_splits)

lemma view_change_reinterpret: "view_change V (reinterpret_next_payload V)"
  by (auto simp: view_change_def reinterpret_next_payload_def bind_eq_Some_conv reinterpret_metadata_def create_packet_def)

context batch
begin

lemma view_change_end:
  assumes "view_change V nxt" and "ok b" and "b_get_packet_batch V b = Some pb" and "pb_len pb \<le> i"
  shows "nxt b i w = Some (None, w)"
  using assms next_end [OF assms(2-4), of w] by (simp add: view_change_def)

lemma view_change_packet:
  assumes vc: "view_change V nxt" and "ok b" and "b_get_packet_batch V b = Some pb" and "i < pb_len pb"
    and n: "nxt b i w = Some (item, w')"
  shows "\<exists>p. item = Some p \<and> pkt_mbuf p = pb_array pb ! i \<and> w_queues w' = w_queues w \<and> w_ext w' = w_ext w"
proof (cases "b_next_payload V b i w")
  case None
  then show ?thesis using vc n by (simp add: view_change_def)
next
  case (Some r)
  then obtain p0 w0 where r: "b_next_payload V b i w = Some (Some p0, w0)"
    and p0: "pkt_mbuf p0 = pb_array pb ! i" "w_queues w0 = w_queues w" "w_ext w0 = w_ext w"
    using next_packet [OF assms(2-4), of w "fst r" "snd r"] by (cases r) auto
  have "\<exists>p. item = Some p \<and> pkt_mbuf p = pkt_mbuf p0 \<and> w_queues w' = w_queues w0 \<and> w_ext w' = w_ext w0"
    using vc r n unfolding view_change_def by blast
  with p0 show ?thesis by auto
qed

lemma batch_act_macro:
  assumes "view_change V nxt"
  shows "batch N (act_macro V nxt) ok"
proof unfold_locales
  fix b pb i w item w'
  assume "ok b" "b_get_packet_batch (act_macro V nxt) b = Some pb" "i < pb_len pb"
    "b_next_payload (act_macro V nxt) b i w = Some (item, w')"
  then show "\<exists>p. item = Some p \<and> pkt_mbuf p = pb_array pb ! i \<and> w_queues w' = w_queues w \<and> w_ext w' = w_ext w"
    using view_change_packet [OF assms] by (simp add: act_macro_def)
qed (auto simp: act_macro_def start get set drop_forwards send_forwards clear_forwards
    intro: act_ok done_ok view_change_end [OF assms])

lemma batch_forward:
  assumes vc: "view_change V nxt" and lens: "\<And>f s. par (upd f s) = f (par s)"
    and C: "\<And>f s. C (upd f s) = C s"
    and act: "\<And>s w s' w'. ok (par s) \<Longrightarrow> C s \<Longrightarrow> a s w = Some (s', w') \<Longrightarrow> ok (par s') \<and> C s'"
    and don: "\<And>s w s' w'. ok (par s) \<Longrightarrow> C s \<Longrightarrow> d s w = Some (s', w') \<Longrightarrow> ok (par s') \<and> C s'"
  shows "batch N ((forward par upd V a d)\<lparr>b_next_payload := \<lambda>s. nxt (par s), b_capacity := cap\<rparr>)
    (\<lambda>s. ok (par s) \<and> C s)"
proof unfold_locales
  fix s pb i w item w'
  let ?F = "(forward par upd V a d)\<lparr>b_next_payload := \<lambda>s. nxt (par s), b_capacity := cap\<rparr>"
  assume "ok (par s) \<and> C s" "b_get_packet_batch ?F s = Some pb" "i < pb_len pb" "b_next_payload ?F s i w = Some (item, w')"
  then show "\<exists>p. item = Some p \<and> pkt_mbuf p = pb_array pb ! i \<and> w_queues w' = w_queues w \<and> w_ext w' = w_ext w"
    using view_change_packet [OF vc, of "par s" pb i w item w'] by (auto simp: forward_def)
qed (auto simp: forward_def start get set drop_forwards send_forwards clear_forwards lens C
    map_option_case intro: view_change_end [OF vc] dest: act don split: option.splits)

lemmas batch_parsed = batch_act_macro [OF view_change_parsed, folded ParsedBatch_ops_def]
lemmas batch_deparsed = batch_act_macro [OF view_change_deparsed, folded DeparsedBatch_ops_def]
lemmas batch_reset = batch_act_macro [OF view_change_reset, folded ResetParsingBatch_ops_def]
lemmas batch_restore = batch_act_macro [OF view_change_restore, folded RestoreHeader_ops_def]

end

text \<open>The answers of a filter on the packets of a batch, in order.\<close>

fun filter_flags :: "('b, 'x) Batch \<Rightarrow> 'x FilterFn \<Rightarrow> 'b \<Rightarrow> nat list \<Rightarrow> 'x world \<Rightarrow> ('x world \<times> bool list) option" where
  "filter_flags V f b [] w = Some (w, [])"
| "filter_flags V f b (i # is) w = do {
     (item, w) \<leftarrow> b_next_payload V b i w;
     packet \<leftarrow> item;
     (keep, x) \<leftarrow> f packet (w_heap w) (w_ext w);
     (w, ks) \<leftarrow> filter_flags V f b is (w\<lparr>w_ext := x\<rparr>);
     Some (w, keep # ks)
   }"

lemma filter_flags_length: "filter_flags V f b is w = Some (w', ks) \<Longrightarrow> length ks = length is"
  by (induction "is" arbitrary: w ks) (auto simp: bind_eq_Some_conv)

definition rejected :: "bool list \<Rightarrow> nat list" where
  "rejected ks = filter (\<lambda>i. \<not> ks ! i) [0..<length ks]"

lemma filter_collects:
  "mfold (visit V (filter_body f) b) [i..<j] (w, rem) =
    map_option (\<lambda>(w, ks). (w, rem @ map ((+) i) (rejected ks))) (filter_flags V f b [i..<j] w)"
proof (induction "j - i" arbitrary: i w rem)
  case 0
  then show ?case by (simp add: rejected_def)
next
  case (Suc n)
  have upt: "[i..<j] = i # [Suc i..<j]" using Suc(2) by (simp add: upt_conv_Cons)
  have IH: "mfold (visit V (filter_body f) b) [Suc i..<j] (w, rem) =
      map_option (\<lambda>(w, ks). (w, rem @ map ((+) (Suc i)) (rejected ks))) (filter_flags V f b [Suc i..<j] w)" for w rem
    using Suc by simp
  have rej: "map ((+) i) (rejected (k # ks)) = (if k then [] else [i]) @ map ((+) (Suc i)) (rejected ks)" for k ks
  proof -
    have "[0..<length (k # ks)] = 0 # map Suc [0..<length ks]" by (simp add: map_Suc_upt upt_conv_Cons del: upt_Suc)
    then show ?thesis by (simp add: rejected_def filter_map comp_def)
  qed
  show ?case
    unfolding upt by (auto simp: visit_def filter_body_def IH rej split: Option.bind_split option.splits prod.splits)
qed

lemma rejected_sorted: "sorted_wrt (<) (rejected ks)" "j \<in> set (rejected ks) \<longleftrightarrow> j < length ks \<and> \<not> ks ! j"
  by (auto simp: rejected_def sorted_wrt_filter)

lemma filter_by_index:
  assumes "length ks = length xs"
  shows "map ((!) xs) (filter (\<lambda>i. P (ks ! i)) [0..<length ks]) = map snd (filter (\<lambda>(k, x). P k) (zip ks xs))"
  using assms
proof (induction ks xs rule: list_induct2)
  case (Cons k ks x xs)
  have "[0..<length (k # ks)] = 0 # map Suc [0..<length ks]" by (simp add: map_Suc_upt upt_conv_Cons del: upt_Suc)
  with Cons show ?case by (simp add: filter_map comp_def)
qed simp

lemma select_by_flags:
  assumes "length ks = length xs"
  shows "map ((!) xs) (rejected ks) = map snd (filter (\<lambda>(k, x). \<not> k) (zip ks xs))"
    and "map ((!) xs) (filter (\<lambda>j. j \<notin> set (rejected ks)) [0..<length ks]) = map snd (filter (\<lambda>(k, x). k) (zip ks xs))"
proof -
  show "map ((!) xs) (rejected ks) = map snd (filter (\<lambda>(k, x). \<not> k) (zip ks xs))"
    using filter_by_index [OF assms, of Not] by (simp add: rejected_def)
  have "filter (\<lambda>j. j \<notin> set (rejected ks)) [0..<length ks] = filter (\<lambda>j. ks ! j) [0..<length ks]"
    by (auto simp: rejected_sorted intro!: filter_cong)
  then show "map ((!) xs) (filter (\<lambda>j. j \<notin> set (rejected ks)) [0..<length ks]) = map snd (filter (\<lambda>(k, x). k) (zip ks xs))"
    using filter_by_index [OF assms, of "\<lambda>k. k"] by simp
qed

context batch
begin

lemma filter_act_spec:
  assumes ok: "ok (fb_parent b)" and "fb_remove b = []" and act: "b_act V (fb_parent b) w = Some (p, w1)"
    and pb: "b_get_packet_batch V p = Some pb"
    and flags: "filter_flags V (fb_filter b) p [0..<pb_len pb] w1 = Some (w2, ks)"
    and free: "\<not> (\<forall>k\<in>set ks. k) \<Longrightarrow>
      mbuf_free_bulk N (map snd (filter (\<lambda>(k, m). \<not> k) (zip ks (pb_array pb)))) w2 = (0, w3)"
  shows "\<exists>p' pb'. FilterBatch_act V b w =
      Some (b\<lparr>fb_parent := p', fb_remove := []\<rparr>, if \<forall>k\<in>set ks. k then w2 else w3) \<and>
    ok p' \<and> b_get_packet_batch V p' = Some pb' \<and> pb_wf pb' \<and> parent_tasks pb' = parent_tasks pb \<and>
    pb_array pb' = map snd (filter (\<lambda>(k, m). k) (zip ks (pb_array pb))) \<and>
    p' = (if \<forall>k\<in>set ks. k then p else b_set_packet_batch V p pb')"
proof -
  have okp: "ok p" using act_ok [OF ok act] .
  have wf: "pb_wf pb" using get [OF okp] pb by auto
  have len: "length ks = length (pb_array pb)" "pb_len pb = length ks"
    using filter_flags_length [OF flags] wf by (simp_all add: pb_array_def pb_wf_def)
  have loop: "for_each V (filter_body (fb_filter b)) p w1 [] = Some (w2, rejected ks)"
    using flags by (simp add: for_each_visits [OF okp pb] filter_collects map_idI)
  show ?thesis
  proof (cases "rejected ks = []")
    case True
    then have all: "\<forall>k\<in>set ks. k"
      using rejected_sorted(2) [of _ ks] by (metis in_set_conv_nth length_greater_0_conv list.size(3) empty_iff list.set(1))
    then have "filter (\<lambda>(k, m). k) (zip ks (pb_array pb)) = zip ks (pb_array pb)"
      by (auto simp: filter_id_conv dest: set_zip_leftD)
    then have "map snd (filter (\<lambda>(k, m). k) (zip ks (pb_array pb))) = pb_array pb" using len(1) by simp
    with True all show ?thesis
      using assms(2) act loop pb okp wf
      by (intro exI [of _ p] exI [of _ pb]) (auto simp: FilterBatch_act_def)
  next
    case False
    then have some: "\<not> (\<forall>k\<in>set ks. k)"
      using rejected_sorted(2) [of _ ks] by (metis hd_in_set nth_mem)
    obtain pb' where D: "drop_packets_stable N (rejected ks) pb w2 = Some (Some (length (rejected ks)), pb', w3)"
      "pb_array pb' = map ((!) (pb_array pb)) (filter (\<lambda>j. j \<notin> set (rejected ks)) [0..<pb_len pb])"
      "pb_scratch pb' = []" "parent_tasks pb' = parent_tasks pb" "pb_len pb' \<le> length (pb_buf pb')"
      using drop_packets_stable_spec [of pb "rejected ks" N w2 0 w3] wf False rejected_sorted free [OF some] len select_by_flags(1) [OF len(1)]
      by (auto simp: pb_wf_def)
    have "pb_wf pb'" using D by (simp add: pb_wf_def)
    moreover have "FilterBatch_act V b w = Some (b\<lparr>fb_parent := b_set_packet_batch V p pb', fb_remove := []\<rparr>, w3)"
      using assms(2) act loop False D(1) by (simp add: FilterBatch_act_def drop_forwards [OF okp pb])
    ultimately show ?thesis
      using some set [OF okp, of pb'] D(2,4) len select_by_flags(2) [OF len(1)] by auto
  qed
qed

end

section \<open>The receiving batch\<close>

lemma unwrap_eq_Some: "(case r of Inl e \<Rightarrow> None | Inr x \<Rightarrow> f x) = Some y \<longleftrightarrow> (\<exists>x. r = Inr x \<and> f x = Some y)"
  by (cases r) auto

lemma deallocate_wf:
  assumes "pb_wf pb" and "deallocate_batch N pb w = (r, pb', w')"
  shows "pb_wf pb'" and "pb_array pb' = []"
  using assms by (auto simp: deallocate_batch_def free_packet_batch_def pb_wf_def pb_array_def split: if_splits prod.splits)

lemma recv_internal_SomeE:
  assumes "recv_internal port pb w = Some (Inr n, pb', w')"
  obtains slc where "port (pb_buf pb) w = Some (Inr n, slc, w')" "pb' = pb\<lparr>pb_buf := slc, pb_len := unat n\<rparr>" "unat n \<le> length slc"
proof -
  obtain r slc w1 where 1: "port (pb_buf pb) w = Some (r, slc, w1)"
    using assms by (auto simp: recv_internal_def add_to_batch_def set_len_def pb_array_def bind_eq_Some_conv Let_def split: if_splits)
  with assms have 2: "r = Inr n"
    by (cases r) (auto simp: recv_internal_def add_to_batch_def set_len_def pb_array_def bind_eq_Some_conv)
  have "w' = w1" "pb' = pb\<lparr>pb_buf := slc, pb_len := unat n\<rparr>" "unat n \<le> length slc"
    using assms 1 2 by (auto simp: recv_internal_def add_to_batch_def set_len_def pb_array_def bind_eq_Some_conv split: if_splits)
  with that 1 2 show ?thesis by simp
qed

lemma recv_internal_wf: "pb_wf pb \<Longrightarrow> recv_internal port pb w = Some (Inr n, pb', w') \<Longrightarrow> pb_wf pb'"
  by (auto simp: pb_wf_def elim: recv_internal_SomeE)

lemma receive_act_wf:
  assumes "pb_wf (rb_parent b)" and run: "ReceiveBatch_act N b w = Some (b', w')"
  shows "pb_wf (rb_parent b')"
proof -
  obtain r pb1 w1 where D: "deallocate_batch N (rb_parent b) w = (r, pb1, w1)" by (metis prod_cases3)
  then obtain u where r: "r = Inr u" using run by (cases r) (auto simp: ReceiveBatch_act_def PacketBatch_ops_def pb_recv_def)
  have "\<exists>n. recv_internal (rb_queue b) pb1 w1 = Some (Inr n, rb_parent b', w')"
    using run D r by (auto simp: ReceiveBatch_act_def PacketBatch_ops_def pb_recv_def bind_eq_Some_conv unwrap_eq_Some)
  then show ?thesis using recv_internal_wf deallocate_wf(1) [OF assms(1) D] by blast
qed

lemma receive_done_wf:
  assumes "pb_wf (rb_parent b)" and "ReceiveBatch_done N b w = Some (b', w')"
  shows "pb_wf (rb_parent b')" and "pb_array (rb_parent b') = []"
proof -
  obtain r pb1 w1 where D: "deallocate_batch N (rb_parent b) w = (r, pb1, w1)" by (metis prod_cases3)
  with assms(2) have "rb_parent b' = pb1" by (cases r) (auto simp: ReceiveBatch_done_def)
  then show "pb_wf (rb_parent b')" "pb_array (rb_parent b') = []" using deallocate_wf [OF assms(1) D] by simp_all
qed

interpretation rcb: batch N "ReceiveBatch_ops N" "\<lambda>b. pb_wf (rb_parent b)"
proof (unfold_locales, goal_cases)
  case (5 b pb i w item w')
  then show ?case using pbb.next_packet [of "rb_parent b" N pb i w item w']
    by (simp add: ReceiveBatch_ops_def Let_def PacketBatch_ops_def)
next
  case (9 b w b' w')
  then show ?case by (simp add: ReceiveBatch_ops_def Let_def receive_act_wf)
next
  case (10 b w b' w')
  then show ?case by (simp add: ReceiveBatch_ops_def Let_def receive_done_wf)
qed (auto simp: ReceiveBatch_ops_def Let_def PacketBatch_ops_def pb_next_payload_def map_option_case
    split: option.splits Option.bind_split)

text \<open>
  C20: A filter over received packets drops exactly the packets its closure rejects: the closure is asked
  once for every packet, in order; the accepted mbufs stay in the batch in their order; the rejected ones
  are handed to the native free in their order, in one call, and to nothing else.
\<close>
theorem filter_drops_rejected:
  assumes "pb_wf (rb_parent (fb_parent b))" and "fb_remove b = []"
    and "ReceiveBatch_act N (fb_parent b) w = Some (p, w1)"
    and "filter_flags (ReceiveBatch_ops N) (fb_filter b) p [0..<pb_len (rb_parent p)] w1 = Some (w2, ks)"
    and "mbuf_free_bulk N (map snd (filter (\<lambda>(k, m). \<not> k) (zip ks (pb_array (rb_parent p))))) w2 = (0, w3)"
  shows "\<exists>p'. FilterBatch_act (ReceiveBatch_ops N) b w =
      Some (b\<lparr>fb_parent := p', fb_remove := []\<rparr>, if \<forall>k\<in>set ks. k then w2 else w3) \<and>
    pb_array (rb_parent p') = map snd (filter (\<lambda>(k, m). k) (zip ks (pb_array (rb_parent p)))) \<and> pb_wf (rb_parent p')"
proof -
  have "b_act (ReceiveBatch_ops N) (fb_parent b) w = Some (p, w1)" "b_get_packet_batch (ReceiveBatch_ops N) p = Some (rb_parent p)"
    using assms(3) by (simp_all add: ReceiveBatch_ops_def Let_def)
  from rcb.filter_act_spec [OF assms(1,2) this assms(4,5)] obtain p' pb' where
    "FilterBatch_act (ReceiveBatch_ops N) b w = Some (b\<lparr>fb_parent := p', fb_remove := []\<rparr>, if \<forall>k\<in>set ks. k then w2 else w3)"
    "b_get_packet_batch (ReceiveBatch_ops N) p' = Some pb'" "pb_wf pb'"
    "pb_array pb' = map snd (filter (\<lambda>(k, m). k) (zip ks (pb_array (rb_parent p))))"
    by blast
  then show ?thesis by (auto simp: ReceiveBatch_ops_def Let_def)
qed

text \<open>A device that has three mbufs to offer, and natives that note what is freed.\<close>

definition example_natives :: "nat list natives" where
  "example_natives = \<lparr>mbuf_alloc_bulk = \<lambda>len cnt w. (0, replicate cnt 0, w),
     mbuf_free_bulk = \<lambda>ms w. (0, w\<lparr>w_ext := w_ext w @ ms\<rparr>)\<rparr>"

definition example_rx :: "nat list PacketRx" where
  "example_rx slc w = Some (Inr 3, blit 0 [1, 2, 3] slc, w)"

definition example_world :: "nat list world" where
  "example_world = (let m = fresh_mbuf 4096 ([0, 0] @ example_frame @ replicate 22 0) 2 56 in
     \<lparr>w_heap = [1 \<mapsto> m, 2 \<mapsto> m, 3 \<mapsto> m], w_queues = [], w_ext = []\<rparr>)"

lemma example_packets:
  "packet_from_mbuf_no_free (w_heap example_world) 1 0 HNull = Some (create_packet 1 4098 0 HNull)"
  "packet_from_mbuf_no_free (w_heap example_world) 2 0 HNull = Some (create_packet 2 4098 0 HNull)"
  "packet_from_mbuf_no_free (w_heap example_world) 3 0 HNull = Some (create_packet 3 4098 0 HNull)"
  by code_simp+

lemma receive_example:
  "ReceiveBatch_act example_natives (ReceiveBatch_new example_rx) w = Some ((ReceiveBatch_new example_rx)\<lparr>rb_parent :=
     \<lparr>pb_buf = [1, 2, 3] @ replicate 29 0, pb_len = 3, pb_scratch = [], parent_tasks = []\<rparr>, received := 3\<rparr>, w)"
proof -
  have "blit 0 [1, 2, 3] (replicate 32 0) = [1, 2, 3] @ replicate 29 (0::nat)" by code_simp
  moreover have "checked_add (0::64 word) 3 = Some 3" by code_simp
  ultimately show ?thesis
    by (simp add: ReceiveBatch_act_def ReceiveBatch_new_def PacketBatch_ops_def pb_recv_def PacketBatch_new_def
        deallocate_batch_def free_packet_batch_def pb_array_def recv_internal_def add_to_batch_def set_len_def example_rx_def)
qed

theorem filter_drops_rejected_witness:
  "\<exists>p'. FilterBatch_act (ReceiveBatch_ops example_natives)
      \<lparr>fb_parent = ReceiveBatch_new example_rx, fb_filter = \<lambda>p h x. Some (pkt_mbuf p \<noteq> 2, x), fb_capacity = 32, fb_remove = []\<rparr>
      example_world =
    Some (\<lparr>fb_parent = p', fb_filter = \<lambda>p h x. Some (pkt_mbuf p \<noteq> 2, x), fb_capacity = 32, fb_remove = []\<rparr>,
      example_world\<lparr>w_ext := [2]\<rparr>) \<and>
    pb_array (rb_parent p') = [1, 3]"
proof -
  let ?N = example_natives and ?b = "ReceiveBatch_new example_rx"
  let ?f = "\<lambda>p h x. Some (pkt_mbuf p \<noteq> 2, x)"
  let ?fb = "\<lparr>fb_parent = ?b, fb_filter = ?f, fb_capacity = 32, fb_remove = []\<rparr>"
  define p where "p = ?b\<lparr>rb_parent := \<lparr>pb_buf = [1, 2, 3] @ replicate 29 0, pb_len = 3, pb_scratch = [], parent_tasks = []\<rparr>, received := 3\<rparr>"
  have wf: "pb_wf (rb_parent (fb_parent ?fb))" by code_simp
  have act: "ReceiveBatch_act ?N (fb_parent ?fb) example_world = Some (p, example_world)"
    by (simp add: p_def receive_example)
  have upt: "[0..<3] = [0, 1, 2]" by code_simp
  have flags: "filter_flags (ReceiveBatch_ops ?N) (fb_filter ?fb) p [0..<pb_len (rb_parent p)] example_world =
      Some (example_world, [True, False, True])"
    by (simp add: p_def upt ReceiveBatch_ops_def PacketBatch_ops_def pb_next_payload_def pb_array_def vec_get_def example_packets example_packets(1) [unfolded One_nat_def])
  have free: "mbuf_free_bulk ?N (map snd (filter (\<lambda>(k, m). \<not> k) (zip [True, False, True] (pb_array (rb_parent p)))))
      example_world = (0, example_world\<lparr>w_ext := [2]\<rparr>)"
    by (simp add: p_def pb_array_def example_natives_def example_world_def Let_def)
  have kept: "map snd (filter (\<lambda>(k, m). k) (zip [True, False, True] (pb_array (rb_parent p)))) = [1, 3]"
    unfolding p_def by code_simp
  from filter_drops_rejected [OF wf _ act flags free] kept show ?thesis by auto
qed

section \<open>Merging\<close>

text \<open>A number of rounds of an executable task, and one round of every batch of a list.\<close>

fun rounds :: "('s \<Rightarrow> 'x world \<Rightarrow> ('s \<times> 'x world) option) \<Rightarrow> nat \<Rightarrow> 's \<Rightarrow> 'x world \<Rightarrow> ('s \<times> 'x world) option" where
  "rounds f 0 s w = Some (s, w)"
| "rounds f (Suc n) s w = do {
     (s, w) \<leftarrow> f s w;
     rounds f n s w
   }"

fun each_once :: "('b, 'x) Batch \<Rightarrow> 'b list \<Rightarrow> 'x world \<Rightarrow> ('b list \<times> 'x world) option" where
  "each_once V [] w = Some ([], w)"
| "each_once V (p # ps) w = do {
     (p, w) \<leftarrow> b_act V p w;
     (p, w) \<leftarrow> b_done V p w;
     (ps, w) \<leftarrow> each_once V ps w;
     Some (p # ps, w)
   }"

lemma merge_execute_current:
  "MergeBatch_execute V \<lparr>mg_parents = qs @ p # ps, mg_which = length qs\<rparr> w = do {
     (p, w) \<leftarrow> b_act V p w;
     (p, w) \<leftarrow> b_done V p w;
     Some (\<lparr>mg_parents = qs @ p # ps, mg_which = if ps = [] then 0 else length qs + 1\<rparr>, w)
   }"
  by (auto simp: MergeBatch_execute_def MergeBatch_act_def MergeBatch_done_def vec_get_def mg_set_def Let_def
      split: Option.bind_split)

lemma merge_rounds:
  "rounds (MergeBatch_execute V) (length ps) \<lparr>mg_parents = qs @ ps, mg_which = if ps = [] then 0 else length qs\<rparr> w =
    map_option (\<lambda>(ps, w). (\<lparr>mg_parents = qs @ ps, mg_which = 0\<rparr>, w)) (each_once V ps w)"
proof (induction ps arbitrary: qs w)
  case (Cons p ps)
  show ?case
  proof (cases "ps = []")
    case True
    then show ?thesis by (auto simp: merge_execute_current split: Option.bind_split)
  next
    case False
    have "rounds (MergeBatch_execute V) (length ps) \<lparr>mg_parents = qs @ q # ps, mg_which = Suc (length qs)\<rparr> w =
        map_option (\<lambda>(ps, w). (\<lparr>mg_parents = qs @ q # ps, mg_which = 0\<rparr>, w)) (each_once V ps w)" for q w
      using Cons [of "qs @ [q]" w] False by simp
    with False show ?thesis by (auto simp: merge_execute_current split: Option.bind_split option.splits)
  qed
qed simp

text \<open>
  C21: A merge of batches serves its parents in turn: in as many rounds as it has parents every parent acts
  and is finished exactly once, in the order of the list, and the turn is back at the first one.
\<close>
theorem merge_round_robin:
  "rounds (MergeBatch_execute V) (length ps) (MergeBatch_new ps) w =
    map_option (\<lambda>(ps, w). (MergeBatch_new ps, w)) (each_once V ps w)"
  using merge_rounds [of V ps "[]" w] by (simp add: MergeBatch_new_def cong: if_cong)

end
