(* ===== verification/NB_GroupBy.thy ===== *)
theory NB_GroupBy
  imports NB_Pipeline
begin

text \<open>
  What \<open>group_by\<close> of \<open>framework/src/operators/group_by.rs\<close> does with a batch: the packets go to the queues of
  their groups, in order, as far as the queues have room.
\<close>

section \<open>Distribution over the queues\<close>

text \<open>The groups of the packets of a batch, in order, and what finding them does to the world.\<close>

fun group_ids :: "('b, 'x) Batch \<Rightarrow> 'x GroupFn \<Rightarrow> 'b \<Rightarrow> nat list \<Rightarrow> 'x world \<Rightarrow> ('x world \<times> nat list) option" where
  "group_ids V f b [] w = Some (w, [])"
| "group_ids V f b (i # is) w = do {
     (item, w) \<leftarrow> b_next_payload V b i w;
     packet \<leftarrow> item;
     (g, x) \<leftarrow> f packet (w_heap w) (w_ext w);
     h \<leftarrow> save_header_and_offset (w_heap w) packet;
     (w, gs) \<leftarrow> group_ids V f b is (w\<lparr>w_ext := x, w_heap := h\<rparr>);
     Some (w, g # gs)
   }"

text \<open>The queues between tasks do not influence how a packet of a batch is seen.\<close>

definition queue_blind :: "('b, 'x) Batch \<Rightarrow> bool" where
  "queue_blind V \<longleftrightarrow> (\<forall>b i w qs. b_next_payload V b i (w\<lparr>w_queues := qs\<rparr>) =
     map_option (\<lambda>(item, w). (item, w\<lparr>w_queues := qs\<rparr>)) (b_next_payload V b i w))"

lemma queue_blind_receive: "queue_blind (ReceiveBatch_ops N)"
  by (auto simp: queue_blind_def ReceiveBatch_ops_def PacketBatch_ops_def pb_next_payload_def split: Option.bind_split)

lemma queue_blind_parsed: "queue_blind V \<Longrightarrow> queue_blind (ParsedBatch_ops t V)"
  by (auto simp: queue_blind_def ParsedBatch_ops_def act_macro_def ParsedBatch_next_payload_def
      split: Option.bind_split option.splits)

lemma queue_blind_transform: "queue_blind V \<Longrightarrow> queue_blind (TransformBatch_ops V)"
  by (auto simp: queue_blind_def TransformBatch_ops_def forward_def)

text \<open>The mbufs of group \<open>g\<close>.\<close>

definition in_group :: "nat \<Rightarrow> nat list \<Rightarrow> nat list \<Rightarrow> nat list" where
  "in_group g gs ms = map snd (filter (\<lambda>(k, m). k = g) (zip gs ms))"

lemma in_group_simps [simp]:
  "in_group g [] ms = []"
  "in_group g (k # gs) (m # ms) = (if k = g then m # in_group g gs ms else in_group g gs ms)"
  by (simp_all add: in_group_def)

definition queues_ok :: "nat list \<Rightarrow> MpscQueue list \<Rightarrow> bool" where
  "queues_ok ps qs \<longleftrightarrow> distinct ps \<and> (\<forall>i\<in>set ps. i < length qs \<and> mq_inv (qs ! i))"

text \<open>A group's queue takes as many of the group's mbufs as it has room for, in order.\<close>

definition delivered :: "nat list \<Rightarrow> nat list \<Rightarrow> nat list \<Rightarrow> MpscQueue list \<Rightarrow> MpscQueue list \<Rightarrow> bool" where
  "delivered ps gs ms qs qs' \<longleftrightarrow> queues_ok ps qs' \<and> length qs' = length qs \<and>
     (\<forall>j<length qs. j \<notin> set ps \<longrightarrow> qs' ! j = qs ! j) \<and>
     (\<forall>g<length ps. mq_contents (qs' ! (ps ! g)) =
        mq_contents (qs ! (ps ! g)) @ take (mq_room (qs ! (ps ! g))) (in_group g gs ms))"

lemma delivered_Nil: "queues_ok ps qs \<Longrightarrow> delivered ps [] ms qs qs"
  by (simp add: delivered_def)

lemma enqueue_one_delivers:
  assumes ok: "queues_ok ps qs" and g: "g < length ps"
  obtains r qs1 where "producer_enqueue_one (ps ! g) p (w\<lparr>w_queues := qs\<rparr>) = Some (r, w\<lparr>w_queues := qs1\<rparr>)" "queues_ok ps qs1"
    "\<And>gs ms qs'. delivered ps gs ms qs1 qs' \<Longrightarrow> delivered ps (g # gs) (pkt_mbuf p # ms) qs qs'"
proof -
  let ?i = "ps ! g"
  have i: "?i < length qs" "mq_inv (qs ! ?i)" using ok g by (auto simp: queues_ok_def)
  obtain q where q: "enqueue (qs ! ?i) [pkt_mbuf p] = Some (min 1 (mq_room (qs ! ?i)), q)" "mq_inv q"
    "mq_contents q = mq_contents (qs ! ?i) @ take (mq_room (qs ! ?i)) [pkt_mbuf p]" "mq_room q = mq_room (qs ! ?i) - 1"
    using enqueue_spec [OF i(2), of "[pkt_mbuf p]"] by auto
  let ?qs1 = "qs[?i := q]"
  have ok1: "queues_ok ps ?qs1" using ok q(2) i(1) by (auto simp: queues_ok_def nth_list_update)
  have eq: "ps ! k = ?i \<longleftrightarrow> k = g" if "k < length ps" for k
    using ok g that by (simp add: queues_ok_def nth_eq_iff_index_eq)
  have "delivered ps (g # gs) (pkt_mbuf p # ms) qs qs'" if D: "delivered ps gs ms ?qs1 qs'" for gs ms qs'
    unfolding delivered_def
  proof (intro conjI allI impI)
    show "queues_ok ps qs'" "length qs' = length qs" using D by (simp_all add: delivered_def)
    show "qs' ! j = qs ! j" if j: "j < length qs" "j \<notin> set ps" for j
    proof -
      have "?i \<noteq> j" using j(2) nth_mem [OF g] by metis
      with D j show ?thesis by (simp add: delivered_def)
    qed
    show "mq_contents (qs' ! (ps ! k)) = mq_contents (qs ! (ps ! k)) @
        take (mq_room (qs ! (ps ! k))) (in_group k (g # gs) (pkt_mbuf p # ms))" if k: "k < length ps" for k
      using D k q(3,4) i(1) eq [OF k]
      by (cases "mq_room (qs ! ?i)") (auto simp: delivered_def nth_list_update)
  qed
  moreover have "producer_enqueue_one ?i p (w\<lparr>w_queues := qs\<rparr>) = Some (min 1 (mq_room (qs ! ?i)) = 1, w\<lparr>w_queues := ?qs1\<rparr>)"
    using i(1) q(1) by (simp add: producer_enqueue_one_def vec_get_def MpscProducer_enqueue_one_def enqueue_one_def
        get_mbuf_def get_mbuf_ref_def)
  ultimately show ?thesis using that ok1 by blast
qed

context batch
begin

lemma group_loop:
  assumes blind: "queue_blind V" and ok: "ok b" and pb: "b_get_packet_batch V b = Some pb"
    and "group_ids V f b is w = Some (w', gs)" and "\<forall>i\<in>set is. i < pb_len pb" and "\<forall>g\<in>set gs. g < length ps"
    and "queues_ok ps qs"
  shows "\<exists>qs'. mfold (visit V (group_body ps f) b) is (w\<lparr>w_queues := qs\<rparr>, ()) = Some (w'\<lparr>w_queues := qs'\<rparr>, ()) \<and>
    delivered ps gs (map ((!) (pb_array pb)) is) qs qs'"
  using assms(4-)
proof (induction "is" arbitrary: w gs qs)
  case Nil
  then show ?case by (auto intro: delivered_Nil)
next
  case (Cons i "is")
  obtain p w1 g x h gs1 where 1: "b_next_payload V b i w = Some (Some p, w1)" "f p (w_heap w1) (w_ext w1) = Some (g, x)"
    "save_header_and_offset (w_heap w1) p = Some h" "group_ids V f b is (w1\<lparr>w_ext := x, w_heap := h\<rparr>) = Some (w', gs1)"
    "gs = g # gs1"
    using Cons.prems(1) by (auto simp: bind_eq_Some_conv)
  have p: "pkt_mbuf p = pb_array pb ! i" using next_packet [OF ok pb _ 1(1)] Cons.prems(2) by auto
  have next_q: "b_next_payload V b i (w\<lparr>w_queues := qs\<rparr>) = Some (Some p, w1\<lparr>w_queues := qs\<rparr>)"
    using blind 1(1) by (simp add: queue_blind_def)
  let ?w2 = "w1\<lparr>w_ext := x, w_heap := h\<rparr>"
  have g: "g < length ps" using Cons.prems(3) 1(5) by simp
  obtain r qs1 where E: "producer_enqueue_one (ps ! g) p (?w2\<lparr>w_queues := qs\<rparr>) = Some (r, ?w2\<lparr>w_queues := qs1\<rparr>)" "queues_ok ps qs1"
    "\<And>gs ms qs'. delivered ps gs ms qs1 qs' \<Longrightarrow> delivered ps (g # gs) (pkt_mbuf p # ms) qs qs'"
    by (rule enqueue_one_delivers [OF Cons.prems(4) g, of p ?w2]) (rule that; assumption)
  obtain qs' where IH: "mfold (visit V (group_body ps f) b) is (?w2\<lparr>w_queues := qs1\<rparr>, ()) = Some (w'\<lparr>w_queues := qs'\<rparr>, ())"
    "delivered ps gs1 (map ((!) (pb_array pb)) is) qs1 qs'"
    using Cons.IH [OF 1(4) _ _ E(2)] Cons.prems(2,3) 1(5) by auto
  have comm: "w1\<lparr>w_queues := qs, w_ext := x, w_heap := h\<rparr> = ?w2\<lparr>w_queues := qs\<rparr>" by (cases w1) simp
  have "visit V (group_body ps f) b i (w\<lparr>w_queues := qs\<rparr>, ()) = Some (?w2\<lparr>w_queues := qs1\<rparr>, ())"
    using next_q 1(2,3) E(1) g by (simp add: visit_def group_body_def vec_get_def comm)
  then show ?case using IH E(3) [OF IH(2)] 1(5) p by auto
qed

lemma group_execute_spec:
  assumes blind: "queue_blind V" and ok: "ok (gp_parent b)" and act: "b_act V (gp_parent b) w = Some (p, w1)"
    and pb: "b_get_packet_batch V p = Some pb"
    and ids: "group_ids V (gp_group_fn b) p [0..<pb_len pb] w1 = Some (w2, gs)"
    and gs: "\<forall>g\<in>set gs. g < length (gp_producers b)" and qs: "queues_ok (gp_producers b) (w_queues w1)"
  obtains qs' where "delivered (gp_producers b) gs (pb_array pb) (w_queues w1) qs'"
    "GroupByProducer_execute V b w = do {
       (parent, w) \<leftarrow> b_done V (b_set_packet_batch V p (consume_batch pb)) (w2\<lparr>w_queues := qs'\<rparr>);
       Some (b\<lparr>gp_parent := parent\<rparr>, w)
     }"
proof -
  have okp: "ok p" by (rule act_ok [OF ok act])
  have "length (pb_array pb) = pb_len pb" using get [OF okp] pb by (auto simp: pb_array_def pb_wf_def)
  then have arr: "map ((!) (pb_array pb)) [0..<pb_len pb] = pb_array pb" using map_nth [of "pb_array pb"] by simp
  obtain qs' where "mfold (visit V (group_body (gp_producers b) (gp_group_fn b)) p) [0..<pb_len pb] (w1, ()) =
      Some (w2\<lparr>w_queues := qs'\<rparr>, ())" "delivered (gp_producers b) gs (pb_array pb) (w_queues w1) qs'"
    using group_loop [OF blind okp pb ids _ gs qs] arr by auto
  with act pb show ?thesis
    by (intro that [of qs']) (auto simp: GroupByProducer_execute_def for_each_visits [OF okp pb] split: Option.bind_split)
qed

end

text \<open>
  C19: One round of \<open>group_by\<close> over received and parsed packets.  The closure is asked once for every packet,
  in order; the queue of each group gets the mbufs of its group appended in their order, as many as it has
  room for; no other queue changes, nothing is left in the batch and nothing is freed.  (What does not fit
  is in no queue and in no batch any more: \<open>enqueue_one\<close> says so, and its answer is ignored.)
\<close>
theorem group_by_distributes:
  assumes "pb_wf (rb_parent (gp_parent b))" and "ReceiveBatch_act N (gp_parent b) w = Some (p, w1)"
    and "group_ids (ParsedBatch_ops t (ReceiveBatch_ops N)) (gp_group_fn b) p [0..<pb_len (rb_parent p)] w1 = Some (w2, gs)"
    and "\<forall>g\<in>set gs. g < length (gp_producers b)" and "queues_ok (gp_producers b) (w_queues w1)"
  shows "\<exists>p' qs'. GroupByProducer_execute (ParsedBatch_ops t (ReceiveBatch_ops N)) b w =
      Some (b\<lparr>gp_parent := p'\<rparr>, w2\<lparr>w_queues := qs'\<rparr>) \<and>
    pb_array (rb_parent p') = [] \<and> delivered (gp_producers b) gs (pb_array (rb_parent p)) (w_queues w1) qs'"
proof -
  let ?V = "ParsedBatch_ops t (ReceiveBatch_ops N)"
  have V: "b_act ?V = ReceiveBatch_act N" "b_done ?V = ReceiveBatch_done N" "b_get_packet_batch ?V = (\<lambda>b. Some (rb_parent b))"
    "b_set_packet_batch ?V = (\<lambda>b pb. b\<lparr>rb_parent := pb\<rparr>)"
    by (simp_all add: ParsedBatch_ops_def act_macro_def ReceiveBatch_ops_def Let_def)
  have blind: "queue_blind ?V" by (intro queue_blind_parsed queue_blind_receive)
  obtain qs' where "delivered (gp_producers b) gs (pb_array (rb_parent p)) (w_queues w1) qs'"
    "GroupByProducer_execute ?V b w = do {
       (parent, w) \<leftarrow> b_done ?V (b_set_packet_batch ?V p (consume_batch (rb_parent p))) (w2\<lparr>w_queues := qs'\<rparr>);
       Some (b\<lparr>gp_parent := parent\<rparr>, w)
     }"
    by (rule batch.group_execute_spec [OF rcb.batch_parsed [of N t] blind assms(1) _ _ assms(3-5), of w])
      (simp_all add: V assms(2))
  moreover have "ReceiveBatch_done N (p\<lparr>rb_parent := consume_batch (rb_parent p)\<rparr>) w =
      Some (p\<lparr>rb_parent := consume_batch (rb_parent p)\<rparr>, w)" for w
    by (simp add: ReceiveBatch_done_def deallocate_batch_def free_packet_batch_def pb_array_def consume_batch_def)
  ultimately show ?thesis
    by (intro exI [of _ "p\<lparr>rb_parent := consume_batch (rb_parent p)\<rparr>"] exI [of _ qs'])
      (simp add: V pb_array_def consume_batch_def)
qed

theorem group_by_distributes_witness:
  "\<exists>q p' w' . new_mpsc_queue_pair_with_size 2 = Some q \<and>
    GroupByProducer_execute (ParsedBatch_ops HMac (ReceiveBatch_ops example_natives))
      \<lparr>gp_parent = ReceiveBatch_new example_rx, gp_producers = [0, 1], gp_group_fn = \<lambda>p h x. Some (pkt_mbuf p mod 2, x)\<rparr>
      (example_world\<lparr>w_queues := [q, q]\<rparr>) = Some (p', w') \<and>
    mq_contents (w_queues w' ! 0) = [2] \<and> mq_contents (w_queues w' ! 1) = [1]"
proof -
  obtain q where q: "new_mpsc_queue_pair_with_size 2 = Some q" "mq_inv q" "mq_contents q = []"
    "mq_room q = unat (round_to_power_of_2 2) - 1"
    using MpscQueue_new_spec [of 2] by auto
  have room: "unat (round_to_power_of_2 2) - 1 = 1" by code_simp
  let ?f = "\<lambda>p h x. Some (pkt_mbuf p mod 2, x)" and ?V = "ParsedBatch_ops HMac (ReceiveBatch_ops example_natives)"
  let ?b = "\<lparr>gp_parent = ReceiveBatch_new example_rx, gp_producers = [0, 1], gp_group_fn = ?f\<rparr>"
  let ?w = "example_world\<lparr>w_queues := [q, q]\<rparr>"
  define p where "p = (ReceiveBatch_new example_rx)\<lparr>rb_parent :=
     \<lparr>pb_buf = [1, 2, 3] @ replicate 29 0, pb_len = 3, pb_scratch = [], parent_tasks = []\<rparr>, received := 3\<rparr>"
  have act: "ReceiveBatch_act example_natives (gp_parent ?b) ?w = Some (p, ?w)" by (simp add: p_def receive_example)
  have "map_option snd (group_ids ?V (gp_group_fn ?b) p [0..<pb_len (rb_parent p)] (example_world\<lparr>w_queues := [x, x]\<rparr>)) = Some [1, 0, 1]" for x
    unfolding p_def by code_simp
  from this [of q] obtain w2 where ids: "group_ids ?V (gp_group_fn ?b) p [0..<pb_len (rb_parent p)] ?w = Some (w2, [1, 0, 1])"
    by (cases "group_ids ?V (gp_group_fn ?b) p [0..<pb_len (rb_parent p)] ?w") auto
  have "queues_ok [0, 1] [q, q]" using q(2) by (auto simp: queues_ok_def less_Suc_eq)
  then obtain p' qs' where R: "GroupByProducer_execute ?V ?b ?w = Some (?b\<lparr>gp_parent := p'\<rparr>, w2\<lparr>w_queues := qs'\<rparr>)"
    "delivered [0, 1] [1, 0, 1] (pb_array (rb_parent p)) [q, q] qs'"
    using group_by_distributes [OF _ act ids] by (auto simp: pb_wf_def ReceiveBatch_new_def PacketBatch_new_def)
  have "pb_array (rb_parent p) = [1, 2, 3]" by (simp add: p_def pb_array_def)
  with R(2) q room have "mq_contents (qs' ! 0) = [2]" "mq_contents (qs' ! 1) = [1]"
    by (auto simp: delivered_def less_Suc_eq all_conj_distrib)
  with q(1) R(1) show ?thesis by auto
qed

end
