(* ===== verification/NB_Accounting.thy ===== *)
theory NB_Accounting
  imports NB_Pipeline "HOL-Library.Multiset"
begin

text \<open>
  No mbuf is lost: every mbuf that a port hands to a pipeline of operators is sent by a port or freed, exactly
  once.  The locale \<open>accounted_batch\<close> extends the contract of a batch with its effect on the books; the
  receiving batch meets it, every operator of \<open>framework/src/operators\<close> over a batch that meets it meets it
  again, and a sending batch over one that meets it ends every round with nothing held.
\<close>

section \<open>Accounting for mbufs\<close>

text \<open>
  Which mbufs ports and the native library have handed out or taken, as recorded in \<open>w_ext\<close>.  The books are
  balanced when every mbuf received was sent, was freed or is still held, each exactly once.
\<close>

record 'x ledger =
  l_received :: "'x \<Rightarrow> nat multiset"
  l_sent :: "'x \<Rightarrow> nat multiset"
  l_freed :: "'x \<Rightarrow> nat multiset"

definition balanced :: "'x ledger \<Rightarrow> 'x world \<Rightarrow> nat multiset \<Rightarrow> bool" where
  "balanced L w held \<longleftrightarrow> l_received L (w_ext w) = l_sent L (w_ext w) + l_freed L (w_ext w) + held"

definition same_ledger :: "'x ledger \<Rightarrow> 'x \<Rightarrow> 'x \<Rightarrow> bool" where
  "same_ledger L x y \<longleftrightarrow> l_received L x = l_received L y \<and> l_sent L x = l_sent L y \<and> l_freed L x = l_freed L y"

lemma balanced_same: "same_ledger L (w_ext w) (w_ext w') \<Longrightarrow> balanced L w' held = balanced L w held"
  by (simp add: balanced_def same_ledger_def)

lemma same_ledger_refl [simp]: "same_ledger L x x"
  by (simp add: same_ledger_def)

lemma same_ledger_trans: "same_ledger L x y \<Longrightarrow> same_ledger L y z \<Longrightarrow> same_ledger L x z"
  by (simp add: same_ledger_def)

text \<open>
  The documented behaviour of the native free (it takes every mbuf it is given and reports success) and
  of a port (it fills, or takes, the front of the slice).
\<close>

definition native_books :: "'x ledger \<Rightarrow> 'x natives \<Rightarrow> bool" where
  "native_books L N \<longleftrightarrow> (\<forall>ms w ret w'. mbuf_free_bulk N ms w = (ret, w') \<longrightarrow> ret = 0 \<and>
     l_freed L (w_ext w') = l_freed L (w_ext w) + mset ms \<and> l_received L (w_ext w') = l_received L (w_ext w) \<and>
     l_sent L (w_ext w') = l_sent L (w_ext w))"

definition rx_books :: "'x ledger \<Rightarrow> 'x PacketRx \<Rightarrow> bool" where
  "rx_books L rx \<longleftrightarrow> (\<forall>slc w r ms w'. rx slc w = Some (r, ms, w') \<longrightarrow> length ms = length slc \<and>
     l_freed L (w_ext w') = l_freed L (w_ext w) \<and> l_sent L (w_ext w') = l_sent L (w_ext w) \<and>
     l_received L (w_ext w') = l_received L (w_ext w) + (case r of Inl _ \<Rightarrow> {#} | Inr n \<Rightarrow> mset (take (unat n) ms)))"

definition tx_books :: "'x ledger \<Rightarrow> 'x PacketTx \<Rightarrow> bool" where
  "tx_books L tx \<longleftrightarrow> (\<forall>ms w r w'. tx ms w = Some (r, w') \<longrightarrow>
     l_freed L (w_ext w') = l_freed L (w_ext w) \<and> l_received L (w_ext w') = l_received L (w_ext w) \<and>
     l_sent L (w_ext w') = l_sent L (w_ext w) + (case r of Inl _ \<Rightarrow> {#} | Inr n \<Rightarrow> mset (take (unat n) ms)))"

lemma free_succeeds: "native_books L N \<Longrightarrow> mbuf_free_bulk N ms w = (ret, w') \<Longrightarrow> ret = 0"
  unfolding native_books_def by blast

lemma free_balanced:
  assumes "native_books L N" and "mbuf_free_bulk N ms w = (ret, w')" and "balanced L w (mset ms + held)"
  shows "balanced L w' held"
proof -
  have "l_freed L (w_ext w') = l_freed L (w_ext w) + mset ms" "l_received L (w_ext w') = l_received L (w_ext w)"
    "l_sent L (w_ext w') = l_sent L (w_ext w)"
    using assms(1,2) unfolding native_books_def by blast+
  with assms(3) show ?thesis by (simp add: balanced_def ac_simps)
qed

lemma visit_SomeE:
  assumes "visit V body b i (w, st) = Some r"
  obtains p w1 where "b_next_payload V b i w = Some (Some p, w1)" "body i p w1 st = Some r"
  using assms by (auto simp: visit_def bind_eq_Some_conv)

text \<open>A closure that does not touch the books itself.\<close>

definition transform_keeps :: "'x ledger \<Rightarrow> 'x TransformFn \<Rightarrow> bool" where
  "transform_keeps L f \<longleftrightarrow> (\<forall>p w w'. f p w = Some w' \<longrightarrow> same_ledger L (w_ext w) (w_ext w'))"

definition map_keeps :: "'x ledger \<Rightarrow> 'x MapFn \<Rightarrow> bool" where
  "map_keeps L f \<longleftrightarrow> (\<forall>p h x x'. f p h x = Some x' \<longrightarrow> same_ledger L x x')"

definition metadata_keeps :: "'x ledger \<Rightarrow> 'x MetadataFn \<Rightarrow> bool" where
  "metadata_keeps L f \<longleftrightarrow> (\<forall>p h x m x'. f p h x = Some (m, x') \<longrightarrow> same_ledger L x x')"

definition mut_metadata_keeps :: "'x ledger \<Rightarrow> 'x MutableMetadataFn \<Rightarrow> bool" where
  "mut_metadata_keeps L f \<longleftrightarrow> (\<forall>p w m w'. f p w = Some (m, w') \<longrightarrow> same_ledger L (w_ext w) (w_ext w'))"

definition filter_keeps :: "'x ledger \<Rightarrow> 'x FilterFn \<Rightarrow> bool" where
  "filter_keeps L f \<longleftrightarrow> (\<forall>p h x k x'. f p h x = Some (k, x') \<longrightarrow> same_ledger L x x')"

lemma write_metadata_unwrap_ext:
  assumes "write_metadata_unwrap p m w = Some w'"
  shows "w_ext w' = w_ext w"
proof -
  from assms obtain r :: "unit result" and h where "(case r of Inl e \<Rightarrow> None | Inr _ \<Rightarrow> Some (w\<lparr>w_heap := h\<rparr>)) = Some w'"
    by (auto simp: write_metadata_unwrap_def bind_eq_Some_conv)
  then show ?thesis by (cases r) auto
qed

lemma mset_by_flags:
  "length ks = length xs \<Longrightarrow> mset xs =
    mset (map snd (filter (\<lambda>(k, x). k) (zip ks xs))) + mset (map snd (filter (\<lambda>(k, x). \<not> k) (zip ks xs)))"
  by (induction ks xs rule: list_induct2) auto

lemmas body_defs = transform_body_def map_body_def metadata_body_def mut_metadata_body_def filter_body_def
lemmas keeps_defs = transform_keeps_def map_keeps_def metadata_keeps_def mut_metadata_keeps_def filter_keeps_def

lemma body_keeps:
  "transform_keeps L f1 \<Longrightarrow> transform_body f1 i p w () = Some (w', u) \<Longrightarrow> same_ledger L (w_ext w) (w_ext w')"
  "map_keeps L f2 \<Longrightarrow> map_body f2 i p w () = Some (w', u) \<Longrightarrow> same_ledger L (w_ext w) (w_ext w')"
  "metadata_keeps L f3 \<Longrightarrow> metadata_body f3 i p w () = Some (w', u) \<Longrightarrow> same_ledger L (w_ext w) (w_ext w')"
  "mut_metadata_keeps L f4 \<Longrightarrow> mut_metadata_body f4 i p w () = Some (w', u) \<Longrightarrow> same_ledger L (w_ext w) (w_ext w')"
  "filter_keeps L f5 \<Longrightarrow> filter_body f5 i p w remove = Some (w', remove') \<Longrightarrow> same_ledger L (w_ext w) (w_ext w')"
  by (auto simp: body_defs keeps_defs bind_eq_Some_conv dest!: write_metadata_unwrap_ext split: if_splits)

text \<open>The shape of \<open>act\<close> of the operators with a flag \<open>applied\<close>.\<close>

definition act_once :: "('b, 'x) Batch \<Rightarrow> bool \<Rightarrow> (nat \<Rightarrow> Packet \<Rightarrow> 'x world \<Rightarrow> unit \<Rightarrow> ('x world \<times> unit) option) \<Rightarrow>
  'b \<Rightarrow> 'x world \<Rightarrow> 's \<Rightarrow> ('b \<Rightarrow> 's) \<Rightarrow> ('s \<times> 'x world) option" where
  "act_once V applied body parent w s fin =
     (if \<not> applied then do {
        (p, w) \<leftarrow> b_act V parent w;
        (w, _) \<leftarrow> for_each V body p w ();
        Some (fin p, w)
      } else Some (s, w))"

lemma act_once_SomeE:
  assumes "act_once V applied body parent w s fin = Some (s', w')"
  obtains (skip) "applied" "s' = s" "w' = w"
  | (run) p w1 where "\<not> applied" "b_act V parent w = Some (p, w1)" "for_each V body p w1 () = Some (w', ())" "s' = fin p"
proof (cases applied)
  case True
  with assms that(1) show ?thesis by (simp add: act_once_def)
next
  case False
  with assms obtain p w1 where 1: "b_act V parent w = Some (p, w1)"
      "do { (w, _) \<leftarrow> for_each V body p w1 (); Some (fin p, w) } = Some (s', w')"
    by (cases "b_act V parent w") (auto simp: act_once_def)
  show ?thesis
  proof (cases "for_each V body p w1 ()")
    case (Some r)
    with 1(2) have "for_each V body p w1 () = Some (w', ())" "s' = fin p" by (cases r; simp)+
    with that(2) False 1(1) show ?thesis by blast
  qed (use 1(2) in simp)
qed

text \<open>What a port takes of a batch is gone from it.\<close>

lemma send_q_accounted:
  assumes tx: "tx_books L port" and wf: "pb_wf pb" and run: "pb_send_q port pb w = Some (Inr r, pb', w')"
  shows "pb_wf pb' \<and> (balanced L w (mset (pb_array pb) + rest) \<longrightarrow> balanced L w' (mset (pb_array pb') + rest))"
proof (cases "pb_len pb > 0")
  case True
  with run obtain a w1 where a: "port (pb_array pb) w = Some (a, w1)"
    by (cases "port (pb_array pb) w") (auto simp: pb_send_q_def pb_available_def)
  with run True obtain sent where "a = Inr sent" by (cases a) (auto simp: pb_send_q_def pb_available_def)
  with a run True have 1: "port (pb_array pb) w = Some (Inr sent, w')" "consume_batch_partial (unat sent) pb = Some pb'"
    by (auto simp: pb_send_q_def pb_available_def bind_eq_Some_conv)
  have le: "unat sent \<le> pb_len pb" using 1(2) by (auto simp: consume_batch_partial_def len_sub_def bind_eq_Some_conv split: if_splits)
  have C: "pb_array pb' = drop (unat sent) (pb_array pb)" "pb_wf pb'"
    using consume_batch_partial_spec [of pb "unat sent"] wf le 1(2) by (auto simp: pb_wf_def)
  have "l_freed L (w_ext w') = l_freed L (w_ext w)" "l_received L (w_ext w') = l_received L (w_ext w)"
    "l_sent L (w_ext w') = l_sent L (w_ext w) + mset (take (unat sent) (pb_array pb))"
    using tx [unfolded tx_books_def, rule_format, OF 1(1)] by simp_all
  moreover have "mset (pb_array pb) = mset (take (unat sent) (pb_array pb)) + mset (drop (unat sent) (pb_array pb))"
    by (metis append_take_drop_id mset_append)
  ultimately show ?thesis using C by (simp add: balanced_def ac_simps)
next
  case False
  with run wf show ?thesis by (auto simp: pb_send_q_def pb_available_def)
qed

lemma send_act_SomeE:
  assumes "do {
     (parent, w) \<leftarrow> b_act V (sb_parent b) w;
     pb \<leftarrow> b_get_packet_batch V parent;
     (r, pb, w) \<leftarrow> pb_send_q (sb_port b) pb w;
     sent' \<leftarrow> (case r of Inl e \<Rightarrow> None | Inr x \<Rightarrow> checked_add (sb_sent b) (ucast x));
     (parent, w) \<leftarrow> b_done V (b_set_packet_batch V parent pb) w;
     Some (b\<lparr>sb_parent := parent, sb_sent := sent'\<rparr>, w)
   } = Some (b', w')"
  obtains p w1 pb r pb' w2 sent p' where "b_act V (sb_parent b) w = Some (p, w1)" "b_get_packet_batch V p = Some pb"
    "pb_send_q (sb_port b) pb w1 = Some (Inr r, pb', w2)" "b_done V (b_set_packet_batch V p pb') w2 = Some (p', w')"
    "b' = b\<lparr>sb_parent := p', sb_sent := sent\<rparr>"
proof -
  obtain p w1 where 1: "b_act V (sb_parent b) w = Some (p, w1)" using assms by (cases "b_act V (sb_parent b) w") auto
  obtain pb where 2: "b_get_packet_batch V p = Some pb" using assms 1 by (cases "b_get_packet_batch V p") auto
  obtain r pb' w2 where 3: "pb_send_q (sb_port b) pb w1 = Some (r, pb', w2)"
    using assms 1 2 by (cases "pb_send_q (sb_port b) pb w1") auto
  obtain x where 4: "r = Inr x" using assms 1 2 3 by (cases r) auto
  obtain p' w3 where 5: "b_done V (b_set_packet_batch V p pb') w2 = Some (p', w3)"
    using assms 1 2 3 4 by (cases "b_done V (b_set_packet_batch V p pb') w2") (auto simp: bind_eq_Some_conv)
  obtain sent where "b' = b\<lparr>sb_parent := p', sb_sent := sent\<rparr>" "w' = w3"
    using assms 1 2 3 4 5 by (auto simp: bind_eq_Some_conv)
  with that 1 2 3 4 5 show ?thesis by blast
qed

lemma merge_done_SomeE:
  assumes "MergeBatch_done V b w = Some (b', w')"
  obtains p n where "b' = (mg_set b p)\<lparr>mg_which := n\<rparr>" "n < length (mg_parents b)"
    "b_done V (mg_parents b ! mg_which b) w = Some (p, w')"
proof -
  have w: "mg_which b < length (mg_parents b)"
    using assms by (auto simp: MergeBatch_done_def vec_get_def bind_eq_Some_conv split: if_splits)
  let ?n = "if mg_which b + 1 = length (mg_parents b) then 0 else mg_which b + 1"
  obtain p where p: "b_done V (mg_parents b ! mg_which b) w = Some (p, w')" "b' = (mg_set b p)\<lparr>mg_which := ?n\<rparr>"
    using assms w by (auto simp: MergeBatch_done_def vec_get_def bind_eq_Some_conv mg_set_def Let_def)
  moreover have "?n < length (mg_parents b)" using w by auto
  ultimately show ?thesis using that by blast
qed

text \<open>
  What a batch does to the books: \<open>held\<close> are the mbufs in it, and \<open>rest\<close> those held elsewhere.
\<close>

locale accounted_batch = batch N V ok
  for N :: "'x natives" and V :: "('b, 'x) Batch" and ok :: "'b \<Rightarrow> bool" +
  fixes L :: "'x ledger" and held :: "'b \<Rightarrow> nat multiset"
  assumes native: "ok b \<Longrightarrow> native_books L N"
    and act_balanced: "ok b \<Longrightarrow> b_act V b w = Some (b', w') \<Longrightarrow> balanced L w (held b + rest) \<Longrightarrow>
      balanced L w' (held b' + rest)"
    and act_current: "ok b \<Longrightarrow> b_act V b w = Some (b', w') \<Longrightarrow> held b = {#} \<Longrightarrow>
      b_get_packet_batch V b' = Some pb \<Longrightarrow> held b' = mset (pb_array pb)"
    and done_balanced: "ok b \<Longrightarrow> b_done V b w = Some (b', w') \<Longrightarrow> balanced L w (held b + rest) \<Longrightarrow>
      balanced L w' (held b' + rest)"
    and done_empties: "ok b \<Longrightarrow> b_get_packet_batch V b = Some pb \<Longrightarrow> held b = mset (pb_array pb) \<Longrightarrow>
      b_done V b w = Some (b', w') \<Longrightarrow> held b' = {#}"
    and set_held: "ok b \<Longrightarrow> b_get_packet_batch V b = Some pb \<Longrightarrow> pb_wf pb' \<Longrightarrow>
      held (b_set_packet_batch V b pb') + mset (pb_array pb) = held b + mset (pb_array pb')"
begin

text \<open>An iteration whose body keeps the books keeps the books.\<close>

lemma for_each_same_ledger:
  assumes ok: "ok b" and body: "\<And>i p w st w' st'. body i p w st = Some (w', st') \<Longrightarrow> same_ledger L (w_ext w) (w_ext w')"
    and run: "for_each V body b w st = Some (w', st')"
  shows "same_ledger L (w_ext w) (w_ext w')"
proof -
  obtain pb where pb: "b_get_packet_batch V b = Some pb" using get [OF ok] by blast
  have "same_ledger L (w_ext w) (w_ext w')"
    if "mfold (visit V body b) is (w, st) = Some (w', st')" "\<forall>i\<in>set is. i < pb_len pb" for "is" w st w' st'
    using that
  proof (induction "is" arbitrary: w st)
    case (Cons i "is")
    obtain w2 st2 where 1: "visit V body b i (w, st) = Some (w2, st2)" "mfold (visit V body b) is (w2, st2) = Some (w', st')"
      using Cons.prems(1) by (auto simp: bind_eq_Some_conv)
    from 1(1) obtain p w1 where 2: "b_next_payload V b i w = Some (Some p, w1)" "body i p w1 st = Some (w2, st2)"
      by (rule visit_SomeE)
    have "w_ext w1 = w_ext w" using next_packet [OF ok pb _ 2(1)] Cons.prems(2) by auto
    with body [OF 2(2)] Cons.IH [OF 1(2)] Cons.prems(2) show ?case by (auto intro: same_ledger_trans)
  qed simp
  from this [OF run [unfolded for_each_visits [OF ok pb]]] show ?thesis by simp
qed

lemma current_part:
  assumes "ok b" and "b_get_packet_batch V b = Some pb"
  obtains more where "held b = mset (pb_array pb) + more"
proof -
  have "pb_wf pb" using get [OF assms(1)] assms(2) by auto
  then have wf: "pb_wf (consume_batch pb)" by (simp add: pb_wf_def consume_batch_def)
  have "pb_array (consume_batch pb) = []" by (simp add: pb_array_def consume_batch_def)
  with set_held [OF assms(1,2) wf] that [of "held (b_set_packet_batch V b (consume_batch pb))"] show ?thesis
    by (simp add: ac_simps)
qed

lemma current_held: "ok b \<Longrightarrow> b_get_packet_batch V b = Some pb \<Longrightarrow> held b = {#} \<Longrightarrow> pb_array pb = []"
  by (auto elim: current_part [of b pb])

lemma accounted_act_macro:
  assumes "view_change V nxt"
  shows "accounted_batch N (act_macro V nxt) ok L held"
proof (rule accounted_batch.intro [OF batch_act_macro [OF assms]], unfold_locales)
qed (auto simp: act_macro_def intro: native act_balanced act_current done_balanced done_empties set_held)

lemma accounted_forward:
  assumes vc: "view_change V nxt" and lens: "\<And>f s. par (upd f s) = f (par s)"
    and C: "\<And>f s. C (upd f s) = C s"
    and act: "\<And>s w s' w'. ok (par s) \<Longrightarrow> C s \<Longrightarrow> a s w = Some (s', w') \<Longrightarrow> C s' \<and>
      ((\<exists>w1. b_act V (par s) w = Some (par s', w1) \<and> same_ledger L (w_ext w1) (w_ext w')) \<or> par s' = par s \<and> w' = w)"
    and don: "\<And>s w s' w'. ok (par s) \<Longrightarrow> C s \<Longrightarrow> d s w = Some (s', w') \<Longrightarrow> C s' \<and> b_done V (par s) w = Some (par s', w')"
  shows "accounted_batch N ((forward par upd V a d)\<lparr>b_next_payload := \<lambda>s. nxt (par s), b_capacity := cap\<rparr>)
    (\<lambda>s. ok (par s) \<and> C s) L (\<lambda>s. held (par s))"
proof (rule accounted_batch.intro)
  show "batch N ((forward par upd V a d)\<lparr>b_next_payload := \<lambda>s. nxt (par s), b_capacity := cap\<rparr>)
      (\<lambda>s. ok (par s) \<and> C s)"
  proof (rule batch_forward [of nxt par upd C a d])
    fix s w s' w'
    assume *: "ok (par s)" "C s"
    show "a s w = Some (s', w') \<Longrightarrow> ok (par s') \<and> C s'"
      using act [OF *, of w s' w'] act_ok [OF *(1), of w "par s'"] *(1) by auto
    show "d s w = Some (s', w') \<Longrightarrow> ok (par s') \<and> C s'"
      using don [OF *, of w s' w'] done_ok [OF *(1), of w "par s'"] by auto
  qed (fact vc, fact lens, fact C)
next
  show "accounted_batch_axioms N ((forward par upd V a d)\<lparr>b_next_payload := \<lambda>s. nxt (par s), b_capacity := cap\<rparr>)
      (\<lambda>s. ok (par s) \<and> C s) L (\<lambda>s. held (par s))"
  proof (unfold_locales, goal_cases)
    case (2 s w s' w' rest)
    then consider w1 where "b_act V (par s) w = Some (par s', w1)" "same_ledger L (w_ext w1) (w_ext w')" | "par s' = par s" "w' = w"
      using act [of s w s' w'] by (auto simp: forward_def)
    then show ?case using 2 act_balanced [of "par s" w "par s'"] balanced_same [of L _ w'] by cases auto
  next
    case (3 s w s' w' pb)
    then consider w1 where "b_act V (par s) w = Some (par s', w1)" | "par s' = par s"
      using act [of s w s' w'] by (auto simp: forward_def)
    then show ?case
      using 3 act_current [of "par s" w "par s'"] current_held [of "par s" pb] by cases (auto simp: forward_def)
  next
    case (4 s w s' w' rest)
    then show ?case using don [of s w s' w'] done_balanced [of "par s" w "par s'" w' rest] by (simp add: forward_def)
  next
    case (5 s pb w s' w')
    then show ?case using don [of s w s' w'] done_empties [of "par s" pb w "par s'" w'] by (simp add: forward_def)
  next
    case (6 s pb pb')
    then show ?case using set_held [of "par s" pb pb'] by (simp add: forward_def lens)
  qed (auto dest: native)
qed

text \<open>The operators that run their closure once on every packet, and then not again before \<open>done\<close>.\<close>

lemma accounted_once:
  fixes body :: "'s \<Rightarrow> nat \<Rightarrow> Packet \<Rightarrow> 'x world \<Rightarrow> unit \<Rightarrow> ('x world \<times> unit) option"
  assumes vc: "view_change V nxt" and lens: "\<And>f s. par (upd f s) = f (par s)"
    and C: "\<And>f s. C (upd f s) = C s" "\<And>p s. C (fin p s) = C s" "\<And>p s. C (reset p s) = C s"
    and par: "\<And>p s. par (fin p s) = p" "\<And>p s. par (reset p s) = p"
    and keeps: "\<And>s i p w w' u. C s \<Longrightarrow> body s i p w () = Some (w', u) \<Longrightarrow> same_ledger L (w_ext w) (w_ext w')"
    and act: "\<And>s w. a s w = act_once V (appl s) (body s) (par s) w s (\<lambda>p. fin p s)"
    and don: "\<And>s w. d s w = do { (p, w) \<leftarrow> b_done V (par s) w; Some (reset p s, w) }"
  shows "accounted_batch N ((forward par upd V a d)\<lparr>b_next_payload := \<lambda>s. nxt (par s), b_capacity := cap\<rparr>)
    (\<lambda>s. ok (par s) \<and> C s) L (\<lambda>s. held (par s))"
proof (rule accounted_forward [OF vc, where par = par and upd = upd and C = C])
  fix s w s' w'
  assume ok: "ok (par s)" and Cs: "C s"
  show "C s' \<and> b_done V (par s) w = Some (par s', w')" if "d s w = Some (s', w')"
    using that Cs by (auto simp: don bind_eq_Some_conv C par)
  assume "a s w = Some (s', w')"
  then show "C s' \<and> ((\<exists>w1. b_act V (par s) w = Some (par s', w1) \<and> same_ledger L (w_ext w1) (w_ext w')) \<or>
      par s' = par s \<and> w' = w)"
    unfolding act
  proof (cases rule: act_once_SomeE)
    case (run p w1)
    have "same_ledger L (w_ext w1) (w_ext w')"
      by (rule for_each_same_ledger [OF act_ok [OF ok run(2)] _ run(3)]) (metis (full_types) keeps Cs unit.exhaust)
    with run Cs show ?thesis by (simp add: C par)
  qed (use Cs in simp)
qed (fact lens, fact C(1))

lemma accounted_transform:
  "accounted_batch N (TransformBatch_ops V) (\<lambda>b. ok (tb_parent b) \<and> transform_keeps L (tb_transformer b)) L
    (\<lambda>b. held (tb_parent b))"
proof -
  have "accounted_batch N ((forward tb_parent tb_parent_update V (TransformBatch_act V) (TransformBatch_done V))
      \<lparr>b_next_payload := \<lambda>b. b_next_payload V (tb_parent b), b_capacity := \<lambda>b. b_capacity V (tb_parent b)\<rparr>)
      (\<lambda>b. ok (tb_parent b) \<and> transform_keeps L (tb_transformer b)) L (\<lambda>b. held (tb_parent b))"
    by (rule accounted_once [OF view_change_refl, where appl = tb_applied and body = "\<lambda>b. transform_body (tb_transformer b)"
        and fin = "\<lambda>p b. b\<lparr>tb_parent := p, tb_applied := True\<rparr>" and reset = "\<lambda>p b. b\<lparr>tb_applied := False, tb_parent := p\<rparr>"])
      (simp_all add: TransformBatch_act_def TransformBatch_done_def act_once_def body_keeps)
  then show ?thesis by (simp add: TransformBatch_ops_def forward_def)
qed

lemma accounted_map:
  "accounted_batch N (MapBatch_ops V) (\<lambda>b. ok (mb_parent b) \<and> map_keeps L (mb_transformer b)) L
    (\<lambda>b. held (mb_parent b))"
proof -
  have "accounted_batch N ((forward mb_parent mb_parent_update V (MapBatch_act V) (MapBatch_done V))
      \<lparr>b_next_payload := \<lambda>b. b_next_payload V (mb_parent b), b_capacity := \<lambda>b. b_capacity V (mb_parent b)\<rparr>)
      (\<lambda>b. ok (mb_parent b) \<and> map_keeps L (mb_transformer b)) L (\<lambda>b. held (mb_parent b))"
    by (rule accounted_once [OF view_change_refl, where appl = mb_applied and body = "\<lambda>b. map_body (mb_transformer b)"
        and fin = "\<lambda>p b. b\<lparr>mb_parent := p, mb_applied := True\<rparr>" and reset = "\<lambda>p b. b\<lparr>mb_applied := False, mb_parent := p\<rparr>"])
      (simp_all add: MapBatch_act_def MapBatch_done_def act_once_def body_keeps)
  then show ?thesis by (simp add: MapBatch_ops_def forward_def)
qed

lemma accounted_metadata:
  "accounted_batch N (AddMetadataBatch_ops V) (\<lambda>b. ok (am_parent b) \<and> metadata_keeps L (am_generator b)) L
    (\<lambda>b. held (am_parent b))"
proof -
  have "accounted_batch N ((forward am_parent am_parent_update V (AddMetadataBatch_act V) (AddMetadataBatch_done V))
      \<lparr>b_next_payload := \<lambda>b. reinterpret_next_payload V (am_parent b), b_capacity := \<lambda>b. b_capacity V (am_parent b)\<rparr>)
      (\<lambda>b. ok (am_parent b) \<and> metadata_keeps L (am_generator b)) L (\<lambda>b. held (am_parent b))"
    by (rule accounted_once [OF view_change_reinterpret, where appl = am_applied and body = "\<lambda>b. metadata_body (am_generator b)"
        and fin = "\<lambda>p b. b\<lparr>am_parent := p, am_applied := True\<rparr>" and reset = "\<lambda>p b. b\<lparr>am_applied := False, am_parent := p\<rparr>"])
      (simp_all add: AddMetadataBatch_act_def AddMetadataBatch_done_def act_once_def body_keeps)
  then show ?thesis by (simp add: AddMetadataBatch_ops_def forward_def)
qed

lemma accounted_mut_metadata:
  "accounted_batch N (MutableAddMetadataBatch_ops V) (\<lambda>b. ok (mm_parent b) \<and> mut_metadata_keeps L (mm_generator b)) L
    (\<lambda>b. held (mm_parent b))"
proof -
  have "accounted_batch N ((forward mm_parent mm_parent_update V (MutableAddMetadataBatch_act V) (MutableAddMetadataBatch_done V))
      \<lparr>b_next_payload := \<lambda>b. reinterpret_next_payload V (mm_parent b), b_capacity := \<lambda>b. b_capacity V (mm_parent b)\<rparr>)
      (\<lambda>b. ok (mm_parent b) \<and> mut_metadata_keeps L (mm_generator b)) L (\<lambda>b. held (mm_parent b))"
    by (rule accounted_once [OF view_change_reinterpret, where appl = mm_applied and body = "\<lambda>b. mut_metadata_body (mm_generator b)"
        and fin = "\<lambda>p b. b\<lparr>mm_parent := p, mm_applied := True\<rparr>" and reset = "\<lambda>p b. b\<lparr>mm_applied := False, mm_parent := p\<rparr>"])
      (simp_all add: MutableAddMetadataBatch_act_def MutableAddMetadataBatch_done_def act_once_def body_keeps)
  then show ?thesis by (simp add: MutableAddMetadataBatch_ops_def forward_def)
qed

text \<open>The mbufs a filter takes out are freed.\<close>

lemma filter_act_accounted:
  assumes ok: "ok (fb_parent b)" and rem: "fb_remove b = []" and C: "filter_keeps L (fb_filter b)"
    and act: "FilterBatch_act V b w = Some (b', w')"
  obtains p w1 pb p' pb' w2 gone where "b_act V (fb_parent b) w = Some (p, w1)" "ok p" "b_get_packet_batch V p = Some pb"
    "same_ledger L (w_ext w1) (w_ext w2)" "b' = b\<lparr>fb_parent := p', fb_remove := []\<rparr>" "ok p'"
    "b_get_packet_batch V p' = Some pb'" "mset (pb_array pb) = mset (pb_array pb') + gone" "held p = held p' + gone"
    "\<And>rest. balanced L w2 (held p + rest) \<Longrightarrow> balanced L w' (held p' + rest)"
proof -
  obtain p w1 w2 remove where 1: "b_act V (fb_parent b) w = Some (p, w1)"
    "for_each V (filter_body (fb_filter b)) p w1 [] = Some (w2, remove)"
    using act rem by (cases "b_act V (fb_parent b) w") (auto simp: FilterBatch_act_def bind_eq_Some_conv)
  have okp: "ok p" by (rule act_ok [OF ok 1(1)])
  obtain pb where pb: "b_get_packet_batch V p = Some pb" "pb_wf pb" using get [OF okp] by blast
  obtain ks where ks: "filter_flags V (fb_filter b) p [0..<pb_len pb] w1 = Some (w2, ks)"
    using 1(2) by (auto simp: for_each_visits [OF okp pb(1)] filter_collects)
  have same: "same_ledger L (w_ext w1) (w_ext w2)"
    by (rule for_each_same_ledger [OF okp body_keeps(5) [OF C] 1(2)])
  let ?gone = "map snd (filter (\<lambda>(k, m). \<not> k) (zip ks (pb_array pb)))"
  obtain ret w3 where free: "mbuf_free_bulk N ?gone w2 = (ret, w3)" by fastforce
  have ret: "ret = 0" by (rule free_succeeds [OF native [OF ok] free])
  obtain p' pb' where 2: "b' = b\<lparr>fb_parent := p', fb_remove := []\<rparr>" "w' = (if \<forall>k\<in>set ks. k then w2 else w3)" "ok p'"
      "b_get_packet_batch V p' = Some pb'" "pb_wf pb'" "pb_array pb' = map snd (filter (\<lambda>(k, m). k) (zip ks (pb_array pb)))"
      "p' = (if \<forall>k\<in>set ks. k then p else b_set_packet_batch V p pb')"
    using filter_act_spec [OF ok rem 1(1) pb(1) ks free [unfolded ret]] act by auto
  have len: "length ks = length (pb_array pb)"
    using filter_flags_length [OF ks] pb(2) by (simp add: pb_array_def pb_wf_def)
  have split: "mset (pb_array pb) = mset (pb_array pb') + mset ?gone" using mset_by_flags [OF len] 2(6) by simp
  show ?thesis
  proof (cases "\<forall>k\<in>set ks. k")
    case True
    have "p' = p" "w' = w2" using 2(2,7) by (simp_all only: if_P [OF True])
    moreover have "pb' = pb" using 2(4) pb(1) \<open>p' = p\<close> by simp
    ultimately show ?thesis by (intro that [OF 1(1) okp pb(1) same 2(1,3,4), of "{#}"]) simp_all
  next
    case False
    then have "held p' + mset (pb_array pb) = held p + mset (pb_array pb')" using set_held [OF okp pb(1) 2(5)] 2(7) by (simp only: if_False)
    with split have held: "held p = held p' + mset ?gone" by (simp add: ac_simps)
    have "balanced L w' (held p' + rest)" if "balanced L w2 (held p + rest)" for rest
      using free_balanced [OF native [OF ok] free, of "held p' + rest"] that 2(2) [unfolded if_not_P [OF False]] by (simp add: held ac_simps)
    then show ?thesis by (rule that [OF 1(1) okp pb(1) same 2(1,3,4) split held])
  qed
qed

lemma accounted_filter:
  "accounted_batch N (FilterBatch_ops V) (\<lambda>b. ok (fb_parent b) \<and> fb_remove b = [] \<and> filter_keeps L (fb_filter b)) L
    (\<lambda>b. held (fb_parent b))" (is "accounted_batch N _ ?ok L ?held")
proof (rule accounted_batch.intro)
  have act: "?ok b'" if "ok (fb_parent b)" "fb_remove b = [] \<and> filter_keeps L (fb_filter b)" "FilterBatch_act V b w = Some (b', w')"
    for b b' :: "('b, 'x) FilterBatch" and w w'
  proof -
    from that have c: "fb_remove b = []" "filter_keeps L (fb_filter b)" by simp_all
    from that(1) c that(3) obtain p' where "b' = b\<lparr>fb_parent := p', fb_remove := []\<rparr>" "ok p'"
      by (rule filter_act_accounted)
    with c show ?thesis by simp
  qed
  have "batch N ((forward fb_parent fb_parent_update V (FilterBatch_act V) (FilterBatch_done V))
      \<lparr>b_next_payload := \<lambda>b. b_next_payload V (fb_parent b), b_capacity := fb_capacity\<rparr>) ?ok"
    by (rule batch_forward [OF view_change_refl, where C = "\<lambda>b. fb_remove b = [] \<and> filter_keeps L (fb_filter b)"])
      (simp, simp, erule (2) act, auto simp: FilterBatch_done_def bind_eq_Some_conv dest: done_ok)
  then show "batch N (FilterBatch_ops V) ?ok" by (simp add: FilterBatch_ops_def forward_def)
  show "accounted_batch_axioms N (FilterBatch_ops V) ?ok L ?held"
  proof (unfold_locales, goal_cases)
    case (2 b w b' w' rest)
    then have "ok (fb_parent b)" "fb_remove b = []" "filter_keeps L (fb_filter b)" "FilterBatch_act V b w = Some (b', w')"
      by (auto simp: FilterBatch_ops_def forward_def)
    note obt = filter_act_accounted [OF this]
    obtain p w1 p' w2 where A: "b_act V (fb_parent b) w = Some (p, w1)" "same_ledger L (w_ext w1) (w_ext w2)"
      "b' = b\<lparr>fb_parent := p', fb_remove := []\<rparr>" "\<And>rest. balanced L w2 (held p + rest) \<Longrightarrow> balanced L w' (held p' + rest)"
      by (rule obt) (rule that; assumption)
    show ?case using act_balanced [OF _ A(1)] A(3,4) 2 balanced_same [OF A(2)] by simp
  next
    case (3 b w b' w' pb1)
    then have "ok (fb_parent b)" "fb_remove b = []" "filter_keeps L (fb_filter b)" "FilterBatch_act V b w = Some (b', w')"
      by (auto simp: FilterBatch_ops_def forward_def)
    note obt = filter_act_accounted [OF this]
    obtain p w1 pb p' pb' gone where A: "b_act V (fb_parent b) w = Some (p, w1)" "b_get_packet_batch V p = Some pb"
      "b' = b\<lparr>fb_parent := p', fb_remove := []\<rparr>" "b_get_packet_batch V p' = Some pb'"
      "mset (pb_array pb) = mset (pb_array pb') + gone" "held p = held p' + gone"
      by (rule obt) (rule that; assumption)
    have "held p = mset (pb_array pb)" using act_current [OF _ A(1) _ A(2)] 3 by simp
    then show ?case using A 3 by (simp add: FilterBatch_ops_def forward_def)
  qed (auto simp: FilterBatch_ops_def forward_def FilterBatch_done_def bind_eq_Some_conv
      intro: native done_balanced done_empties set_held)
qed

text \<open>Sending: what the port does not take is freed, and the batch is empty again.\<close>

lemma send_accounted:
  assumes ok: "ok (sb_parent b)" and empty: "held (sb_parent b) = {#}" and tx: "tx_books L (sb_port b)"
    and run: "SendBatch_act V b w = Some (b', w')" and bal: "balanced L w rest"
  shows "ok (sb_parent b') \<and> held (sb_parent b') = {#} \<and> sb_port b' = sb_port b \<and> balanced L w' rest"
proof -
  obtain p w1 pb r pb' w2 sent p' where
    1: "b_act V (sb_parent b) w = Some (p, w1)" "b_get_packet_batch V p = Some pb" "pb_send_q (sb_port b) pb w1 = Some (Inr r, pb', w2)"
      "b_done V (b_set_packet_batch V p pb') w2 = Some (p', w')" "b' = b\<lparr>sb_parent := p', sb_sent := sent\<rparr>"
    using run unfolding SendBatch_act_def Let_def by (rule send_act_SomeE)
  have okp: "ok p" by (rule act_ok [OF ok 1(1)])
  have wf: "pb_wf pb" using get [OF okp] 1(2) by auto
  have held: "held p = mset (pb_array pb)" by (rule act_current [OF ok 1(1) empty 1(2)])
  have "balanced L w1 (held p + rest)" using act_balanced [OF ok 1(1), of rest] empty bal by simp
  then have S: "pb_wf pb'" "balanced L w2 (mset (pb_array pb') + rest)"
    using send_q_accounted [OF tx wf 1(3), of rest] held by simp_all
  let ?q = "b_set_packet_batch V p pb'"
  have q: "ok ?q" "b_get_packet_batch V ?q = Some pb'" using set [OF okp S(1)] by simp_all
  have heldq: "held ?q = mset (pb_array pb')" using set_held [OF okp 1(2) S(1)] held by simp
  have "held p' = {#}" by (rule done_empties [OF q heldq 1(4)])
  moreover have "balanced L w' (held p' + rest)" by (rule done_balanced [OF q(1) 1(4)]) (use S(2) heldq in simp)
  ultimately show ?thesis using done_ok [OF q(1) 1(4)] 1(5) by simp
qed

lemma send_rounds:
  assumes "ok (sb_parent b)" and "held (sb_parent b) = {#}" and "tx_books L (sb_port b)"
    and "rounds (SendBatch_execute V) n b w = Some (b', w')" and "balanced L w rest"
  shows "ok (sb_parent b') \<and> held (sb_parent b') = {#} \<and> balanced L w' rest"
  using assms
proof (induction n arbitrary: b w)
  case (Suc n)
  have "SendBatch_execute V = SendBatch_act V" by (simp add: SendBatch_execute_def fun_eq_iff)
  with Suc.prems(4) obtain b1 w1 where 1: "SendBatch_act V b w = Some (b1, w1)" "rounds (SendBatch_execute V) n b1 w1 = Some (b', w')"
    by (cases "SendBatch_act V b w") auto
  from send_accounted [OF Suc.prems(1-3) 1(1) Suc.prems(5)] Suc.prems(3) Suc.IH [of b1 w1] 1(2) show ?case by simp
qed simp

text \<open>A merge of batches: \<open>rest\<close> takes in what the other parents hold.\<close>

lemma merge_current:
  assumes "mg_which b < length (mg_parents b)"
  obtains others where "sum_list (map held (mg_parents b)) = held (mg_parents b ! mg_which b) + others"
    "\<And>p. sum_list (map held (mg_parents (mg_set b p))) = held p + others"
proof -
  let ?i = "mg_which b" and ?xs = "map held (mg_parents b)"
  define others where "others = sum_list (take ?i ?xs) + sum_list (drop (Suc ?i) ?xs)"
  have upd: "sum_list (?xs[?i := y]) = y + others" for y
    using assms by (simp add: upd_conv_take_nth_drop others_def ac_simps)
  have "sum_list ?xs = held (mg_parents b ! ?i) + others" using upd [of "?xs ! ?i", unfolded list_update_id] assms by simp
  moreover have "sum_list (map held (mg_parents (mg_set b p))) = held p + others" for p
    using upd [of "held p"] by (simp add: mg_set_def map_update)
  ultimately show ?thesis by (rule that)
qed

lemma accounted_merge:
  "accounted_batch N (MergeBatch_ops V) (\<lambda>b. mg_which b < length (mg_parents b) \<and> (\<forall>p\<in>set (mg_parents b). ok p)) L
    (\<lambda>b. sum_list (map held (mg_parents b)))" (is "accounted_batch N _ ?ok L ?held")
proof (rule accounted_batch.intro)
  have set_ok: "?ok (mg_set b p)" if "?ok b" "ok p" for b p
    using that by (auto simp: mg_set_def dest: set_update_subset_insert [THEN subsetD])
  show "batch N (MergeBatch_ops V) ?ok"
  proof (unfold_locales, goal_cases)
    case (5 b pb i w item w')
    then show ?case using next_packet [of "mg_parents b ! mg_which b" pb i w item w']
      by (auto simp: MergeBatch_ops_def vec_get_def)
  next
    case (9 b w b' w')
    then obtain p where "b' = mg_set b p" "b_act V (mg_parents b ! mg_which b) w = Some (p, w')"
      by (auto simp: MergeBatch_ops_def MergeBatch_act_def vec_get_def bind_eq_Some_conv)
    moreover have "ok (mg_parents b ! mg_which b)" using 9 by simp
    ultimately have "?ok (mg_set b p)" using 9 by (intro set_ok act_ok [of "mg_parents b ! mg_which b" w p w']) simp_all
    with \<open>b' = mg_set b p\<close> show ?case by simp
  next
    case (10 b w b' w')
    then have "MergeBatch_done V b w = Some (b', w')" by (simp add: MergeBatch_ops_def)
    then obtain p n where "b' = (mg_set b p)\<lparr>mg_which := n\<rparr>" "n < length (mg_parents b)"
      "b_done V (mg_parents b ! mg_which b) w = Some (p, w')"
      by (rule merge_done_SomeE)
    moreover have "ok (mg_parents b ! mg_which b)" using 10 by simp
    ultimately have "?ok (mg_set b p)" using 10 by (intro set_ok done_ok [of "mg_parents b ! mg_which b" w p w']) simp_all
    with \<open>b' = (mg_set b p)\<lparr>mg_which := n\<rparr>\<close> \<open>n < length (mg_parents b)\<close> show ?case by (simp add: mg_set_def)
  qed (auto simp: MergeBatch_ops_def vec_get_def start get drop_forwards send_forwards clear_forwards next_end set
      mg_set_def map_option_case split: option.splits dest: set_update_subset_insert [THEN subsetD])
  show "accounted_batch_axioms N (MergeBatch_ops V) ?ok L ?held"
  proof (unfold_locales, goal_cases)
    case (1 b)
    then have "ok (mg_parents b ! mg_which b)" by simp
    then show ?case by (rule native)
  next
    case (2 b w b' w' rest)
    then obtain p where p: "b' = mg_set b p" "b_act V (mg_parents b ! mg_which b) w = Some (p, w')"
      by (auto simp: MergeBatch_ops_def MergeBatch_act_def vec_get_def bind_eq_Some_conv)
    have "mg_which b < length (mg_parents b)" using 2 by simp
    then obtain others where o: "?held b = held (mg_parents b ! mg_which b) + others" "\<And>p. ?held (mg_set b p) = held p + others"
      by (rule merge_current) (rule that; assumption)
    show ?case using act_balanced [OF _ p(2), of "others + rest"] 2 o p(1) by (simp add: ac_simps)
  next
    case (3 b w b' w' pb)
    then obtain p where p: "b' = mg_set b p" "b_act V (mg_parents b ! mg_which b) w = Some (p, w')"
      by (auto simp: MergeBatch_ops_def MergeBatch_act_def vec_get_def bind_eq_Some_conv)
    have "mg_which b < length (mg_parents b)" using 3 by simp
    then obtain others where o: "?held b = held (mg_parents b ! mg_which b) + others" "\<And>p. ?held (mg_set b p) = held p + others"
      by (rule merge_current) (rule that; assumption)
    have "b_get_packet_batch V p = Some pb" using 3 p by (auto simp: MergeBatch_ops_def mg_set_def vec_get_def)
    then show ?case using act_current [OF _ p(2)] 3 o p(1) by simp
  next
    case (4 b w b' w' rest)
    then have "MergeBatch_done V b w = Some (b', w')" by (simp add: MergeBatch_ops_def)
    then obtain p n where p: "b' = (mg_set b p)\<lparr>mg_which := n\<rparr>" "b_done V (mg_parents b ! mg_which b) w = Some (p, w')"
      by (rule merge_done_SomeE)
    have "mg_which b < length (mg_parents b)" using 4 by simp
    then obtain others where o: "?held b = held (mg_parents b ! mg_which b) + others" "\<And>p. ?held (mg_set b p) = held p + others"
      by (rule merge_current) (rule that; assumption)
    show ?case using done_balanced [OF _ p(2), of "others + rest"] 4 o p(1) by (simp add: ac_simps)
  next
    case (5 b pb w b' w')
    then have "MergeBatch_done V b w = Some (b', w')" by (simp add: MergeBatch_ops_def)
    then obtain p n where p: "b' = (mg_set b p)\<lparr>mg_which := n\<rparr>" "b_done V (mg_parents b ! mg_which b) w = Some (p, w')"
      by (rule merge_done_SomeE)
    have "mg_which b < length (mg_parents b)" using 5 by simp
    then obtain others where o: "?held b = held (mg_parents b ! mg_which b) + others" "\<And>p. ?held (mg_set b p) = held p + others"
      by (rule merge_current) (rule that; assumption)
    have q: "ok (mg_parents b ! mg_which b)" "b_get_packet_batch V (mg_parents b ! mg_which b) = Some pb"
      using 5 by (auto simp: MergeBatch_ops_def vec_get_def)
    obtain more where "held (mg_parents b ! mg_which b) = mset (pb_array pb) + more" by (rule current_part [OF q])
    with 5 o have "held (mg_parents b ! mg_which b) = mset (pb_array pb)" "others = {#}" by auto
    then show ?case using done_empties [OF q _ p(2)] o p(1) by simp
  next
    case (6 b pb pb')
    have "mg_which b < length (mg_parents b)" using 6 by simp
    then obtain others where o: "?held b = held (mg_parents b ! mg_which b) + others" "\<And>p. ?held (mg_set b p) = held p + others"
      by (rule merge_current) (rule that; assumption)
    then show ?case using set_held [of "mg_parents b ! mg_which b" pb pb'] 6 by (simp add: MergeBatch_ops_def vec_get_def ac_simps)
  qed
qed

end

section \<open>The receiving batch\<close>

lemma deallocate_accounted:
  assumes "native_books L N" and "pb_wf pb" and "deallocate_batch N pb w = (r, pb', w')"
  shows "r = Inr ()" "pb_wf pb'" "pb_array pb' = []" "length (pb_buf pb') = length (pb_buf pb)"
    "balanced L w (mset (pb_array pb) + rest) \<Longrightarrow> balanced L w' rest"
proof -
  obtain ret w1 where F: "mbuf_free_bulk N (pb_array pb) w = (ret, w1)" by fastforce
  have "ret = 0" by (rule free_succeeds [OF assms(1) F])
  then show "r = Inr ()" "pb_wf pb'" "pb_array pb' = []" "length (pb_buf pb') = length (pb_buf pb)"
    using assms(2,3) F by (auto simp: deallocate_batch_def free_packet_batch_def pb_wf_def pb_array_def split: if_splits)
  assume "balanced L w (mset (pb_array pb) + rest)"
  with \<open>ret = 0\<close> show "balanced L w' rest"
    using assms(3) F free_balanced [OF assms(1) F]
    by (auto simp: deallocate_batch_def free_packet_batch_def split: if_splits)
qed

lemma recv_internal_accounted:
  assumes rx: "rx_books L port" and wf: "pb_wf pb" and run: "recv_internal port pb w = Some (Inr n, pb', w')"
  shows "pb_wf pb'" "balanced L w rest \<Longrightarrow> balanced L w' (mset (pb_array pb') + rest)"
proof -
  from run obtain slc where 1: "port (pb_buf pb) w = Some (Inr n, slc, w')"
    and 3: "pb' = pb\<lparr>pb_buf := slc, pb_len := unat n\<rparr>" "unat n \<le> length slc"
    by (rule recv_internal_SomeE)
  show "pb_wf pb'" using 3 wf by (simp add: pb_wf_def)
  have "l_freed L (w_ext w') = l_freed L (w_ext w)" "l_sent L (w_ext w') = l_sent L (w_ext w)"
    "l_received L (w_ext w') = l_received L (w_ext w) + mset (take (unat n) slc)"
    using rx 1 unfolding rx_books_def by (metis sum.simps(6))+
  then show "balanced L w rest \<Longrightarrow> balanced L w' (mset (pb_array pb') + rest)"
    using 3 by (simp add: balanced_def pb_array_def ac_simps)
qed

text \<open>The state a receiving batch is in between two methods, over ports and a native library that keep the books.\<close>

definition receive_ok :: "'x natives \<Rightarrow> 'x ledger \<Rightarrow> 'x ReceiveBatch \<Rightarrow> bool" where
  "receive_ok N L b \<longleftrightarrow> native_books L N \<and> pb_wf (rb_parent b) \<and> rx_books L (rb_queue b)"

definition receive_held :: "'x ReceiveBatch \<Rightarrow> nat multiset" where
  "receive_held b = mset (pb_array (rb_parent b))"

lemma receive_act_accounted:
  assumes ok: "receive_ok N L b" and run: "ReceiveBatch_act N b w = Some (b', w')"
  shows "receive_ok N L b'" "balanced L w (receive_held b + rest) \<Longrightarrow> balanced L w' (receive_held b' + rest)"
proof -
  obtain r pb1 w1 where D: "deallocate_batch N (rb_parent b) w = (r, pb1, w1)" by (metis prod_cases3)
  note F = deallocate_accounted [OF _ _ D, of L]
  have "r = Inr ()" using F(1) ok by (simp add: receive_ok_def)
  then obtain n pb2 where R: "recv_internal (rb_queue b) pb1 w1 = Some (Inr n, pb2, w')" "rb_parent b' = pb2" "rb_queue b' = rb_queue b"
    using run D by (auto simp: ReceiveBatch_act_def PacketBatch_ops_def pb_recv_def bind_eq_Some_conv unwrap_eq_Some)
  note G = recv_internal_accounted [OF _ _ R(1), of L]
  show "receive_ok N L b'" using ok R F(2) G(1) by (simp add: receive_ok_def)
  show "balanced L w (receive_held b + rest) \<Longrightarrow> balanced L w' (receive_held b' + rest)"
    using ok R F(2,5) G(2) by (simp add: receive_ok_def receive_held_def)
qed

lemma receive_done_accounted:
  assumes ok: "receive_ok N L b" and run: "ReceiveBatch_done N b w = Some (b', w')"
  shows "receive_ok N L b'" "receive_held b' = {#}" "balanced L w (receive_held b + rest) \<Longrightarrow> balanced L w' rest"
proof -
  obtain r pb1 w1 where D: "deallocate_batch N (rb_parent b) w = (r, pb1, w1)" by (metis prod_cases3)
  note F = deallocate_accounted [OF _ _ D, of L]
  have "r = Inr ()" using F(1) ok by (simp add: receive_ok_def)
  with run D have E: "b' = b\<lparr>rb_parent := pb1\<rparr>" "w' = w1" by (auto simp: ReceiveBatch_done_def)
  show "receive_ok N L b'" using ok E F(2) by (simp add: receive_ok_def)
  show "receive_held b' = {#}" using ok E F(3) by (simp add: receive_held_def receive_ok_def)
  show "balanced L w (receive_held b + rest) \<Longrightarrow> balanced L w' rest"
    using ok E F(5) by (simp add: receive_ok_def receive_held_def)
qed

interpretation rba: accounted_batch N "ReceiveBatch_ops N" "receive_ok N L" L receive_held
proof (rule accounted_batch.intro)
  show "batch N (ReceiveBatch_ops N) (receive_ok N L)"
  proof (unfold_locales, goal_cases)
    case (5 b pb i w item w')
    then show ?case using pbb.next_packet [of "rb_parent b" N pb i w item w']
      by (simp add: ReceiveBatch_ops_def Let_def receive_ok_def PacketBatch_ops_def)
  next
    case (9 b w b' w')
    then show ?case by (simp add: ReceiveBatch_ops_def Let_def receive_act_accounted(1))
  next
    case (10 b w b' w')
    then show ?case by (simp add: ReceiveBatch_ops_def Let_def receive_done_accounted(1))
  qed (auto simp: ReceiveBatch_ops_def Let_def PacketBatch_ops_def receive_ok_def pb_next_payload_def map_option_case
      split: option.splits Option.bind_split)
  show "accounted_batch_axioms N (ReceiveBatch_ops N) (receive_ok N L) L receive_held"
  proof (unfold_locales, goal_cases)
    case (4 b w b' w' rest)
    then show ?case using receive_done_accounted(2,3) [of N L b w b' w'] by (simp add: ReceiveBatch_ops_def Let_def)
  qed (auto simp: ReceiveBatch_ops_def Let_def receive_ok_def [of N L "rb_parent_update _ _"] receive_held_def
      dest: receive_act_accounted(2) [unfolded receive_held_def] receive_done_accounted(2) [unfolded receive_held_def]
      | simp add: receive_ok_def)+
qed

end
