(* ===== verification/NB_Flow.thy ===== *)
theory NB_Flow
  imports NB_Headers
begin

text \<open>
  Flows of \<open>framework/src/utils/flow.rs\<close>: the five-tuple, its extraction from and stamping into an IPv4
  packet, its hash, and \<open>IpHeader::flow\<close> of \<open>framework/src/headers/ip.rs\<close>.  Code outside the repository
  is a parameter: the \<open>BigEndian\<close> accessors of the byteorder crate (a record of functions with
  \<open>big_endian\<close> as their documented behaviour), the IPv4 checksum and CRC routines of the native library,
  and the FNV hasher.
\<close>

section \<open>Flows\<close>

record Flow =
  flow_src_ip :: u32
  flow_dst_ip :: u32
  flow_src_port :: u16
  flow_dst_port :: u16
  flow_proto :: u8

text \<open>\<open>read\<close> gets the slice it reads; \<open>write\<close> gives the bytes it stores at the start of its slice.\<close>

record BigEndian =
  read_u16 :: "u8 list \<Rightarrow> u16"
  read_u32 :: "u8 list \<Rightarrow> u32"
  write_u16 :: "u16 \<Rightarrow> u8 list"
  write_u32 :: "u32 \<Rightarrow> u8 list"

definition big_endian :: "BigEndian \<Rightarrow> bool" where
  "big_endian bo \<longleftrightarrow>
     (\<forall>a b. read_u16 bo [a, b] = be16 a b) \<and> (\<forall>a b c d. read_u32 bo [a, b, c, d] = be32 a b c d) \<and>
     (\<forall>v. write_u16 bo v = [ucast (drop_bit 8 v), ucast v]) \<and>
     (\<forall>v. write_u32 bo v = [ucast (drop_bit 24 v), ucast (drop_bit 16 v), ucast (drop_bit 8 v), ucast v])"

definition IHL_TO_BYTE_FACTOR :: nat where
  "IHL_TO_BYTE_FACTOR = 4"

definition port_start :: "u8 list \<Rightarrow> nat option" where
  "port_start bytes = do {
     b0 \<leftarrow> vec_get bytes 0;
     Some (unat (b0 AND 0xf) * IHL_TO_BYTE_FACTOR)
   }"

definition ipv4_extract_flow :: "BigEndian \<Rightarrow> u8 list \<Rightarrow> Flow option" where
  "ipv4_extract_flow bo bytes = do {
     ps \<leftarrow> port_start bytes;
     proto \<leftarrow> vec_get bytes 9;
     src_ip \<leftarrow> slice_range 12 16 bytes;
     dst_ip \<leftarrow> slice_range 16 20 bytes;
     src_port \<leftarrow> slice_range ps (ps + 2) bytes;
     dst_port \<leftarrow> slice_range (ps + 2) (ps + 4) bytes;
     Some \<lparr>flow_src_ip = read_u32 bo src_ip, flow_dst_ip = read_u32 bo dst_ip,
       flow_src_port = read_u16 bo src_port, flow_dst_port = read_u16 bo dst_port, flow_proto = proto\<rparr>
   }"

definition reverse_flow :: "Flow \<Rightarrow> Flow" where
  "reverse_flow f = \<lparr>flow_src_ip = flow_dst_ip f, flow_dst_ip = flow_src_ip f,
     flow_src_port = flow_dst_port f, flow_dst_port = flow_src_port f, flow_proto = flow_proto f\<rparr>"

text \<open>A store through \<open>&mut bytes[a..b]\<close>.\<close>

definition slice_store :: "nat \<Rightarrow> nat \<Rightarrow> u8 list \<Rightarrow> u8 list \<Rightarrow> u8 list option" where
  "slice_store a b v bytes = do {
     _ \<leftarrow> slice_range a b bytes;
     Some (blit a v bytes)
   }"

definition ipv4_stamp_flow :: "BigEndian \<Rightarrow> (u8 list \<Rightarrow> u16) \<Rightarrow> Flow \<Rightarrow> u8 list \<Rightarrow> u8 list option" where
  "ipv4_stamp_flow bo ipcsum f bytes = do {
     ps \<leftarrow> port_start bytes;
     bytes \<leftarrow> slice_store 12 16 (write_u32 bo (flow_src_ip f)) bytes;
     bytes \<leftarrow> slice_store 16 20 (write_u32 bo (flow_dst_ip f)) bytes;
     bytes \<leftarrow> slice_store ps (ps + 2) (write_u16 bo (flow_src_port f)) bytes;
     bytes \<leftarrow> slice_store (ps + 2) (ps + 4) (write_u16 bo (flow_dst_port f)) bytes;
     bytes \<leftarrow> slice_store 10 12 (write_u16 bo 0) bytes;
     let csum = ipcsum bytes;
     slice_store 10 12 (write_u16 bo csum) bytes
   }"

text \<open>The memory image of the packed struct, which is what the hasher gets.\<close>

definition flow_as_u8 :: "Flow \<Rightarrow> u8 list" where
  "flow_as_u8 f = le32_bytes (flow_src_ip f) @ le32_bytes (flow_dst_ip f) @ le16_bytes (flow_src_port f) @
     le16_bytes (flow_dst_port f) @ [flow_proto f]"

definition flow_hash :: "(u8 list \<Rightarrow> u64) \<Rightarrow> Flow \<Rightarrow> usize" where
  "flow_hash fnv f = fnv (flow_as_u8 f)"

definition ipv4_flow_hash :: "BigEndian \<Rightarrow> (u8 list \<Rightarrow> u64) \<Rightarrow> u8 list \<Rightarrow> u32 \<Rightarrow> usize option" where
  "ipv4_flow_hash bo fnv bytes iv = do {
     flow \<leftarrow> ipv4_extract_flow bo bytes;
     Some (flow_hash fnv flow)
   }"

text \<open>
  \<open>crc_hash\<close> passes the memory image of its argument and its size to the native routine.
\<close>

definition crc_hash :: "(u8 list \<Rightarrow> nat \<Rightarrow> u32 \<Rightarrow> u32) \<Rightarrow> u8 list \<Rightarrow> u32 \<Rightarrow> u32" where
  "crc_hash crc_hash_native mem iv = crc_hash_native mem (length mem) iv"

text \<open>
  \<open>IpHeader::flow\<close> on the memory that starts at the header.  The ports are read through a raw pointer;
  a read beyond the given memory is outside the model (\<open>None\<close>).  The inner \<open>option\<close> is the result.
\<close>

definition ip_flow :: "BigEndian \<Rightarrow> u8 list \<Rightarrow> Flow option option" where
  "ip_flow bo mem = do {
     let h = IpHeader_of_bytes mem;
     let protocol = ip_protocol h;
     let src_ip = ip_src h;
     let dst_ip = ip_dst h;
     if protocol = 6 \<or> protocol = 17 then do {
       p \<leftarrow> ip_payload_size h 0;
       if p \<ge> 4 then do {
         port_slice \<leftarrow> slice_range (ip_offset h) (ip_offset h + 4) mem;
         first \<leftarrow> slice_range 0 2 port_slice;
         second \<leftarrow> slice_range 2 4 port_slice;
         let dst_port = read_u16 bo first;
         let src_port = read_u16 bo second;
         Some (Some \<lparr>flow_src_ip = src_ip, flow_dst_ip = dst_ip, flow_src_port = src_port,
           flow_dst_port = dst_port, flow_proto = protocol\<rparr>)
       } else Some None
     } else Some None
   }"

section \<open>Lemmas\<close>

lemma reverse_flow_involution: "reverse_flow (reverse_flow f) = f"
  by (simp add: reverse_flow_def)

lemma read_write_u16: "big_endian bo \<Longrightarrow> read_u16 bo (write_u16 bo v) = v"
  by (simp add: big_endian_def)

lemma read_write_u32: "big_endian bo \<Longrightarrow> read_u32 bo (write_u32 bo v) = v"
  by (simp add: big_endian_def)

lemma length_write: "big_endian bo \<Longrightarrow> length (write_u16 bo v) = 2" "big_endian bo \<Longrightarrow> length (write_u32 bo w) = 4"
  by (simp_all add: big_endian_def)

lemma slice_store_Some:
  "a \<le> b \<Longrightarrow> b \<le> length bytes \<Longrightarrow> slice_store a b v bytes = Some (blit a v bytes)"
  by (simp add: slice_store_def slice_range_def)

lemma slice_blit_same:
  "a + length v \<le> length bytes \<Longrightarrow> slice_range a (a + length v) (blit a v bytes) = Some v"
  by (simp add: slice_range_def slice_of_blit)

lemma slice_blit_sameI:
  "length v = n \<Longrightarrow> a + n \<le> length bytes \<Longrightarrow> b = a + n \<Longrightarrow> slice_range a b (blit a v bytes) = Some v"
  using slice_blit_same by blast

lemma slice_blit_other:
  assumes "c + length v \<le> length bytes" and "b \<le> c \<or> c + length v \<le> a"
  shows "slice_range a b (blit c v bytes) = slice_range a b bytes"
proof (cases "a \<le> b \<and> b \<le> length bytes")
  case True
  then have "take (b - a) (drop a (blit c v bytes)) = take (b - a) (drop a bytes)"
    using assms by (intro nth_equalityI) (auto simp: nth_blit)
  with True assms show ?thesis by (simp add: slice_range_def)
next
  case False
  with assms(1) show ?thesis by (auto simp: slice_range_def)
qed

lemma vec_get_blit_other:
  assumes "c + length v \<le> length bytes" and "i < c \<or> c + length v \<le> i"
  shows "vec_get (blit c v bytes) i = vec_get bytes i"
  using assms by (auto simp: vec_get_def nth_blit)

lemmas slice_blit = slice_store_Some slice_blit_other vec_get_blit_other

text \<open>The packet after stamping, as one chain of block copies.\<close>

definition stamped :: "BigEndian \<Rightarrow> (u8 list \<Rightarrow> u16) \<Rightarrow> Flow \<Rightarrow> nat \<Rightarrow> u8 list \<Rightarrow> u8 list" where
  "stamped bo ipcsum f ps bytes =
     (let b = blit 10 (write_u16 bo 0) (blit (ps + 2) (write_u16 bo (flow_dst_port f))
        (blit ps (write_u16 bo (flow_src_port f)) (blit 16 (write_u32 bo (flow_dst_ip f))
          (blit 12 (write_u32 bo (flow_src_ip f)) bytes))))
      in blit 10 (write_u16 bo (ipcsum b)) b)"

lemma ipv4_stamp_flow_eq:
  assumes "big_endian bo" and "port_start bytes = Some ps" and "20 \<le> ps" and "ps + 4 \<le> length bytes"
  shows "ipv4_stamp_flow bo ipcsum f bytes = Some (stamped bo ipcsum f ps bytes)"
  using assms by (simp add: ipv4_stamp_flow_def stamped_def slice_store_Some length_write Let_def)

lemma length_stamped:
  assumes "big_endian bo" and "20 \<le> ps" and "ps + 4 \<le> length bytes"
  shows "length (stamped bo ipcsum f ps bytes) = length bytes"
  using assms by (simp add: stamped_def length_write Let_def)

lemma stamped_nth:
  assumes "big_endian bo" and "20 \<le> ps" and "ps + 4 \<le> length bytes" and "i < length bytes"
    and "i \<notin> {10..<20} \<union> {ps..<ps + 4}"
  shows "stamped bo ipcsum f ps bytes ! i = bytes ! i"
  using assms by (auto simp: stamped_def length_write Let_def nth_blit)

lemma stamped_extract:
  assumes bo: "big_endian bo" and ps: "port_start bytes = Some ps" "20 \<le> ps" "ps + 4 \<le> length bytes"
  shows "ipv4_extract_flow bo (stamped bo ipcsum f ps bytes) = Some (f\<lparr>flow_proto := bytes ! 9\<rparr>)"
proof -
  let ?b = "stamped bo ipcsum f ps bytes"
  have get: "vec_get ?b 9 = Some (bytes ! 9)" "vec_get ?b 0 = vec_get bytes 0"
    using ps length_stamped [OF bo ps(2,3)] stamped_nth [OF bo ps(2,3)] by (auto simp: vec_get_def)
  note sl = stamped_def Let_def slice_blit_other slice_blit_sameI [of _ 2] slice_blit_sameI [of _ 4]
  have src: "slice_range 12 16 ?b = Some (write_u32 bo (flow_src_ip f))"
    using ps length_write [OF bo] by (simp add: sl)
  have dst: "slice_range 16 20 ?b = Some (write_u32 bo (flow_dst_ip f))"
    using ps length_write [OF bo] by (simp add: sl)
  have sp: "slice_range ps (ps + 2) ?b = Some (write_u16 bo (flow_src_port f))"
    using ps length_write [OF bo] by (simp add: sl)
  have dp: "slice_range (ps + 2) (ps + 4) ?b = Some (write_u16 bo (flow_dst_port f))"
    using ps length_write [OF bo] by (simp add: sl)
  have "port_start ?b = Some ps" using ps(1) get(2) by (simp add: port_start_def)
  then show ?thesis
    using get(1) src dst sp dp by (simp add: ipv4_extract_flow_def read_write_u16 [OF bo] read_write_u32 [OF bo])
qed

lemma slice_two: "a + 2 \<le> length mem \<Longrightarrow> b = a + 2 \<Longrightarrow> slice_range a b mem = Some [mem ! a, mem ! (a + 1)]"
  by (auto simp: slice_range_def numeral_2_eq_2 less_Suc_eq intro!: nth_equalityI)

lemma slice_four:
  "a + 4 \<le> length mem \<Longrightarrow> b = a + 4 \<Longrightarrow>
    slice_range a b mem = Some [mem ! a, mem ! (a + 1), mem ! (a + 2), mem ! (a + 3)]"
  by (auto simp: slice_range_def less_Suc_eq numeral_eq_Suc intro!: nth_equalityI)

lemma ip_fields_of_bytes:
  "ip_ihl (IpHeader_of_bytes mem) = mem ! 0 AND 0xf" "ip_protocol (IpHeader_of_bytes mem) = mem ! 9"
  "ip_src (IpHeader_of_bytes mem) = be32 (mem ! 12) (mem ! 13) (mem ! 14) (mem ! 15)"
  "ip_dst (IpHeader_of_bytes mem) = be32 (mem ! 16) (mem ! 17) (mem ! 18) (mem ! 19)"
  by (simp_all add: IpHeader_of_bytes_def ip_getter_defs le32_def word_blast bit_simps)

section \<open>Properties\<close>

text \<open>
  C35: Stamping a flow into an IPv4 packet and extracting it again gives the flow back (with the
  protocol of the packet); stamping keeps the length and changes no byte but the checksum, the
  addresses and the ports.
\<close>
theorem stamp_extract_roundtrip:
  assumes "big_endian bo" and "port_start bytes = Some ps" and "20 \<le> ps" and "ps + 4 \<le> length bytes"
  shows "\<exists>bytes'. ipv4_stamp_flow bo ipcsum f bytes = Some bytes' \<and>
    ipv4_extract_flow bo bytes' = Some (f\<lparr>flow_proto := bytes ! 9\<rparr>) \<and> length bytes' = length bytes \<and>
    (\<forall>i<length bytes. i \<notin> {10..<20} \<union> {ps..<ps + 4} \<longrightarrow> bytes' ! i = bytes ! i)"
  using ipv4_stamp_flow_eq [OF assms] stamped_extract [OF assms] length_stamped [OF assms(1,3,4)]
    stamped_nth [OF assms(1,3,4)] by blast

definition network_order :: BigEndian where
  "network_order = \<lparr>read_u16 = \<lambda>bs. be16 (bs ! 0) (bs ! 1), read_u32 = \<lambda>bs. be32 (bs ! 0) (bs ! 1) (bs ! 2) (bs ! 3),
     write_u16 = \<lambda>v. [ucast (drop_bit 8 v), ucast v],
     write_u32 = \<lambda>v. [ucast (drop_bit 24 v), ucast (drop_bit 16 v), ucast (drop_bit 8 v), ucast v]\<rparr>"

lemma big_endian_network_order: "big_endian network_order"
  by (simp add: big_endian_def network_order_def)

theorem stamp_extract_roundtrip_witness:
  "\<exists>bytes'. ipv4_stamp_flow network_order (\<lambda>bs. 7)
      \<lparr>flow_src_ip = 1, flow_dst_ip = 2, flow_src_port = 80, flow_dst_port = 443, flow_proto = 6\<rparr>
      (0x45 # replicate 23 17) = Some bytes' \<and>
    ipv4_extract_flow network_order bytes' =
      Some \<lparr>flow_src_ip = 1, flow_dst_ip = 2, flow_src_port = 80, flow_dst_port = 443, flow_proto = 17\<rparr>"
proof -
  let ?f = "\<lparr>flow_src_ip = 1, flow_dst_ip = 2, flow_src_port = 80, flow_dst_port = 443, flow_proto = 6\<rparr>"
  have "port_start (0x45 # replicate 23 17) = Some 20" by code_simp
  with stamp_extract_roundtrip [OF big_endian_network_order this, of "\<lambda>bs. 7" ?f] show ?thesis by auto
qed

text \<open>
  The two ways the framework reads the flow of a packet disagree: \<open>IpHeader::flow\<close> reads the ports
  in the opposite order, so it returns the flow of \<open>ipv4_extract_flow\<close> with source and destination port
  exchanged.
\<close>
theorem ip_flow_swaps_ports:
  assumes "big_endian bo" and "ip_flow bo mem = Some (Some f)" and "20 \<le> length mem"
  shows "ipv4_extract_flow bo mem =
    Some (f\<lparr>flow_src_port := flow_dst_port f, flow_dst_port := flow_src_port f\<rparr>)"
proof -
  let ?ps = "unat (mem ! 0 AND 0xf) * 4"
  have off: "ip_offset (IpHeader_of_bytes mem) = ?ps" by (simp add: ip_offset_def ip_fields_of_bytes)
  from assms(2) obtain ports where ports: "slice_range ?ps (?ps + 4) mem = Some ports"
    and f: "f = \<lparr>flow_src_ip = be32 (mem ! 12) (mem ! 13) (mem ! 14) (mem ! 15),
      flow_dst_ip = be32 (mem ! 16) (mem ! 17) (mem ! 18) (mem ! 19),
      flow_src_port = read_u16 bo (take 2 (drop 2 ports)), flow_dst_port = read_u16 bo (take 2 ports), flow_proto = mem ! 9\<rparr>"
    by (auto simp: ip_flow_def off ip_fields_of_bytes Let_def slice_range_def bind_eq_Some_conv split: if_splits)
  have len: "?ps + 4 \<le> length mem" using ports by (auto simp: slice_range_def split: if_splits)
  then have pb: "ports = [mem ! ?ps, mem ! (?ps + 1), mem ! (?ps + 2), mem ! (?ps + 3)]"
    using ports slice_four [of ?ps mem "?ps + 4"] by simp
  have "port_start mem = Some ?ps"
    using assms(3) by (cases mem) (simp_all add: port_start_def vec_get_def IHL_TO_BYTE_FACTOR_def)
  then show ?thesis
    using assms(1,3) len
    by (simp add: ipv4_extract_flow_def vec_get_def slice_two slice_four f pb big_endian_def numeral_2_eq_2 numeral_3_eq_3)
qed

theorem ip_flow_swaps_ports_witness:
  "ip_flow network_order ([0x45, 0, 0, 40, 0, 0, 0, 0, 64, 6, 0, 0, 10, 0, 0, 1, 10, 0, 0, 2, 0, 80, 1, 0]) =
     Some (Some \<lparr>flow_src_ip = 0x0a000001, flow_dst_ip = 0x0a000002, flow_src_port = 256, flow_dst_port = 80,
       flow_proto = 6\<rparr>) \<and>
   ipv4_extract_flow network_order ([0x45, 0, 0, 40, 0, 0, 0, 0, 64, 6, 0, 0, 10, 0, 0, 1, 10, 0, 0, 2, 0, 80, 1, 0]) =
     Some \<lparr>flow_src_ip = 0x0a000001, flow_dst_ip = 0x0a000002, flow_src_port = 80, flow_dst_port = 256,
       flow_proto = 6\<rparr>"
proof -
  let ?m = "[0x45, 0, 0, 40, 0, 0, 0, 0, 64, 6, 0, 0, 10, 0, 0, 1, 10, 0, 0, 2, 0, 80, 1, 0]"
  have f: "ip_flow network_order ?m =
      Some (Some \<lparr>flow_src_ip = 0x0a000001, flow_dst_ip = 0x0a000002, flow_src_port = 256, flow_dst_port = 80,
        flow_proto = 6\<rparr>)" by code_simp
  with ip_flow_swaps_ports [OF big_endian_network_order f] show ?thesis by simp
qed

end
