(* ===== verification/NB_NetworkFunctions.thy ===== *)
theory NB_NetworkFunctions
  imports NB_Accounting NB_Flow
begin

text \<open>
  Network functions built from the operators, from the programs under \<open>test\<close>: the MAC swapper
  (\<open>test/macswap/src/nf.rs\<close>) and the firewall (\<open>test/acl-fw/src/nf.rs\<close>), as whole pipelines.
\<close>

section \<open>The functions\<close>

definition update_mac :: "(MacHeader \<Rightarrow> MacHeader) \<Rightarrow> Packet \<Rightarrow> 'x world \<Rightarrow> 'x world option" where
  "update_mac f pkt w = do {
     h \<leftarrow> get_mut_header (w_heap w) pkt (\<lambda>bs. MacHeader_to_bytes (f (MacHeader_of_bytes bs)));
     Some (w\<lparr>w_heap := h\<rparr>)
   }"

text \<open>The closure of \<open>macswap\<close> and its pipeline; \<open>parse\<close> does not change the parent, only how it is seen.\<close>

definition macswap_closure :: "'x TransformFn" where
  "macswap_closure pkt w = do {
     r \<leftarrow> pkt_refcnt (w_heap w) pkt;
     _ \<leftarrow> rust_assert (r = 1);
     update_mac swap_addresses pkt w
   }"

definition macswap :: "'b \<Rightarrow> ('b, 'x) TransformBatch" where
  "macswap parent = TransformBatch_new parent macswap_closure"

definition macswap_ops :: "('b, 'x) Batch \<Rightarrow> (('b, 'x) TransformBatch, 'x) Batch" where
  "macswap_ops V = TransformBatch_ops (ParsedBatch_ops HMac V)"

text \<open>The access control list; the cache of connections is a list without repetitions.\<close>

record Acl =
  acl_src_ip :: "Ipv4Prefix option"
  acl_dst_ip :: "Ipv4Prefix option"
  acl_src_port :: "u16 option"
  acl_dst_port :: "u16 option"
  acl_established :: "bool option"
  acl_drop :: bool

definition acl_matches :: "Acl \<Rightarrow> Flow \<Rightarrow> Flow list \<Rightarrow> bool" where
  "acl_matches acl flow connections =
     (if (case acl_src_ip acl of None \<Rightarrow> True | Some p \<Rightarrow> in_range p (flow_src_ip flow)) \<and>
         (case acl_dst_ip acl of None \<Rightarrow> True | Some p \<Rightarrow> in_range p (flow_dst_ip flow)) \<and>
         (case acl_src_port acl of None \<Rightarrow> True | Some p \<Rightarrow> flow_src_port flow = p) \<and>
         (case acl_dst_port acl of None \<Rightarrow> True | Some p \<Rightarrow> flow_dst_port flow = p)
      then (case acl_established acl of
          Some established \<Rightarrow>
            (let rev_flow = reverse_flow flow
             in (flow \<in> set connections \<or> rev_flow \<in> set connections) = established)
        | None \<Rightarrow> True)
      else False)"

fun acl_loop :: "Acl list \<Rightarrow> Flow \<Rightarrow> Flow list \<Rightarrow> bool \<times> Flow list" where
  "acl_loop [] flow flow_cache = (False, flow_cache)"
| "acl_loop (acl # acls) flow flow_cache =
     (if acl_matches acl flow flow_cache
      then (\<not> acl_drop acl, if \<not> acl_drop acl then List.insert flow flow_cache else flow_cache)
      else acl_loop acls flow flow_cache)"

text \<open>What \<open>IpHeader::flow\<close> may read: from the header to the end of the buffer.\<close>

definition header_memory :: "heap \<Rightarrow> Packet \<Rightarrow> u8 list option" where
  "header_memory h p = do {
     m \<leftarrow> deref h (pkt_mbuf p);
     mem_at m (header p) (buf_addr m + length (mb_buf m) - header p)
   }"

text \<open>The cache is captured by the closure: it is the first component of the outside state.\<close>

definition acl_filter :: "BigEndian \<Rightarrow> Acl list \<Rightarrow> (Flow list \<times> 'd) FilterFn" where
  "acl_filter bo acls p h x = do {
     mem \<leftarrow> header_memory h p;
     f \<leftarrow> ip_flow bo mem;
     flow \<leftarrow> f;
     let (keep, flow_cache) = acl_loop acls flow (fst x);
     Some (keep, (flow_cache, snd x))
   }"

definition acl_swap :: "'x TransformFn" where
  "acl_swap p w = update_mac swap_addresses p w"

definition acl_parsed_ops :: "('b, 'x) Batch \<Rightarrow> (('b, 'x) TransformBatch, 'x) Batch" where
  "acl_parsed_ops V = ParsedBatch_ops HIp (TransformBatch_ops (ParsedBatch_ops HMac V))"

definition acl_match :: "BigEndian \<Rightarrow> ('b, Flow list \<times> 'd) Batch \<Rightarrow> 'b \<Rightarrow> Acl list \<Rightarrow>
  (('b, Flow list \<times> 'd) TransformBatch, Flow list \<times> 'd) FilterBatch" where
  "acl_match bo V parent acls = FilterBatch_new (acl_parsed_ops V) (TransformBatch_new parent acl_swap) (acl_filter bo acls)"

definition acl_ops :: "('b, 'x) Batch \<Rightarrow> ((('b, 'x) TransformBatch, 'x) FilterBatch, 'x) Batch" where
  "acl_ops V = CompositionBatch_ops (FilterBatch_ops (acl_parsed_ops V))"

section \<open>Swapping addresses\<close>

definition swap_bytes :: "u8 list \<Rightarrow> u8 list" where
  "swap_bytes d = take 6 (drop 6 d) @ take 6 d @ drop 12 d"

lemma mac_bytes_roundtrip:
  assumes "length bs = 14"
  shows "MacHeader_to_bytes (swap_addresses (MacHeader_of_bytes bs)) = swap_bytes bs"
proof -
  have "drop 12 bs = [bs ! 12, bs ! 13]"
    using assms Cons_nth_drop_Suc [of 12 bs] Cons_nth_drop_Suc [of 13 bs] by simp
  then show ?thesis
    by (simp add: MacHeader_to_bytes_def swap_addresses_def copy_address_def MacHeader_of_bytes_def swap_bytes_def Let_def)
qed

text \<open>An mbuf with a frame that can be parsed, and the same mbuf with the addresses of its frame exchanged.\<close>

definition frame_ready :: "heap \<Rightarrow> nat \<Rightarrow> bool" where
  "frame_ready h a \<longleftrightarrow> (\<exists>m. deref h a = Some m \<and> mbuf_wf m \<and> 14 < data_len m \<and> refcnt m = 1)"

definition swapped_mbuf :: "MBuf \<Rightarrow> MBuf" where
  "swapped_mbuf m = m\<lparr>mb_buf := blit (unat (data_off m)) (swap_bytes (take 14 (mb_data m))) (mb_buf m)\<rparr>"

lemma swapped_mbuf_spec:
  assumes wf: "mbuf_wf m" and len: "14 < data_len m"
  shows "mem_write m (data_address m 0) (swap_bytes (take 14 (mb_data m))) = Some (swapped_mbuf m)"
    and "mb_data (swapped_mbuf m) = swap_bytes (mb_data m)"
proof -
  let ?d = "mb_data m"
  have d: "length ?d = data_len m" using wf by (simp add: mb_data_length)
  have s: "length (swap_bytes (take 14 ?d)) = 14" using d len by (simp add: swap_bytes_def)
  obtain m' where m': "mem_write m (data_address m 0) (swap_bytes (take 14 ?d)) = Some m'"
    "mb_data m' = blit 0 (swap_bytes (take 14 ?d)) ?d"
    using mem_write_data [OF wf, of 0 "swap_bytes (take 14 ?d)"] s len by auto
  then show w: "mem_write m (data_address m 0) (swap_bytes (take 14 ?d)) = Some (swapped_mbuf m)"
    by (auto simp: mem_write_def swapped_mbuf_def data_address_def bind_eq_Some_conv)
  have "drop 12 ?d = drop 12 (take 14 ?d) @ drop 14 ?d"
    using d len append_take_drop_id [of 14 ?d] drop_append [of 12 "take 14 ?d" "drop 14 ?d"] by simp
  moreover have "mb_data (swapped_mbuf m) = swap_bytes (take 14 ?d) @ drop 14 ?d" using m' w s d len by (simp add: blit_def)
  ultimately show "mb_data (swapped_mbuf m) = swap_bytes ?d"
    by (simp add: swap_bytes_def take_drop)
qed

lemma macswap_step:
  assumes a: "deref h a = Some m" "mbuf_wf m" "14 < data_len m" "refcnt m = 1"
    and i: "i < pb_len pb" "pb_array pb ! i = a" "pb_len pb \<le> length (pb_buf pb)"
  shows "visit (ParsedBatch_ops HMac (ReceiveBatch_ops N)) (transform_body macswap_closure)
      (b\<lparr>rb_parent := pb\<rparr>) i (w\<lparr>w_heap := h\<rparr>, ()) = Some (w\<lparr>w_heap := h(a \<mapsto> swapped_mbuf m)\<rparr>, ())"
proof -
  let ?p = "create_packet a (data_address m 0) 0 HNull" and ?q = "create_packet a (data_address m 0) 0 HMac"
  have size: "hdr_size HNull = 0" "hdr_size HMac = 14" by code_simp+
  have wf: "pkt_wf h ?p" using a size by (intro pkt_wfI) simp_all
  have frame: "frame h ?p = mb_data m" "length (mb_data m) = data_len m" using a by (simp_all add: frame_def mb_data_length)
  have "payload_offset h ?p = Some 0"
    using payload_offset_wf(1) [OF wf] size by (simp add: hdr_offset_def null_offset_def)
  then have parse: "parse_header h ?p HMac = Some ?q"
    using parse_header_wf [OF wf, of 0 HMac] frame size a(3) by simp
  have mem: "mem_at m (data_address m 0) 14 = Some (take 14 (mb_data m))" using mem_at_data [OF a(2), of 0 14] a(3) by simp
  have len: "length (take 14 (mb_data m)) = 14" using frame(2) a(3) by simp
  have "macswap_closure ?q (w\<lparr>w_heap := h\<rparr>) = Some (w\<lparr>w_heap := h(a \<mapsto> swapped_mbuf m)\<rparr>)"
    using a(1,4) mem swapped_mbuf_spec(1) [OF a(2,3)]
    by (simp add: macswap_closure_def pkt_refcnt_def update_mac_def get_mut_header_def size mac_bytes_roundtrip [OF len])
  moreover have "b_next_payload (ParsedBatch_ops HMac (ReceiveBatch_ops N)) (b\<lparr>rb_parent := pb\<rparr>) i (w\<lparr>w_heap := h\<rparr>) =
      Some (Some ?q, w\<lparr>w_heap := h\<rparr>)"
    using i a(1) parse
    by (simp add: ParsedBatch_ops_def act_macro_def ParsedBatch_next_payload_def ReceiveBatch_ops_def PacketBatch_ops_def
        pb_next_payload_def vec_get_def pb_array_def packet_from_mbuf_no_free_def packet_from_mbuf_no_increment_def)
  ultimately show ?thesis by (simp add: visit_def transform_body_def)
qed

definition swapped_heap :: "nat set \<Rightarrow> heap \<Rightarrow> heap" where
  "swapped_heap A h = (\<lambda>a. if a \<in> A then map_option swapped_mbuf (h a) else h a)"

lemma macswap_loop:
  assumes wf: "pb_len pb \<le> length (pb_buf pb)" and "distinct (pb_array pb)" and "\<forall>a\<in>set (pb_array pb). frame_ready (w_heap w) a"
    and "k \<le> pb_len pb"
  shows "mfold (visit (ParsedBatch_ops HMac (ReceiveBatch_ops N)) (transform_body macswap_closure) (b\<lparr>rb_parent := pb\<rparr>)) [0..<k] (w, ()) =
    Some (w\<lparr>w_heap := swapped_heap (set (take k (pb_array pb))) (w_heap w)\<rparr>, ())"
  using assms(4)
proof (induction k)
  case 0
  then show ?case by (simp add: swapped_heap_def)
next
  case (Suc k)
  let ?a = "pb_array pb ! k" and ?A = "set (take k (pb_array pb))"
  have len: "length (pb_array pb) = pb_len pb" using wf by (simp add: pb_array_def)
  have k: "k < length (pb_array pb)" using Suc.prems len by simp
  have "frame_ready (w_heap w) ?a" using assms(3) nth_mem [OF k] by blast
  then obtain m where m: "deref (w_heap w) ?a = Some m" "mbuf_wf m" "14 < data_len m" "refcnt m = 1"
    by (auto simp: frame_ready_def)
  have a: "?a \<notin> ?A" using assms(2) k by (auto simp: in_set_conv_nth distinct_conv_nth)
  then have d: "deref (swapped_heap ?A (w_heap w)) ?a = Some m" using m(1) by (auto simp: deref_def swapped_heap_def split: if_splits)
  have "(swapped_heap ?A (w_heap w))(?a \<mapsto> swapped_mbuf m) = swapped_heap (set (take (Suc k) (pb_array pb))) (w_heap w)"
    using m(1) k a by (auto simp: swapped_heap_def fun_eq_iff take_Suc_conv_app_nth deref_def split: if_splits)
  with Suc macswap_step [OF d m(2-4), of k pb N b w] wf show ?case by (simp add: mfold_append)
qed

text \<open>
  C22: One run of the MAC swapper on a received batch of complete, unshared frames.  It does not panic; every
  frame of the batch has its destination and source address exchanged and no other byte changed; no other
  mbuf changes, and neither do the batch, the queues or the devices.
\<close>
theorem macswap_swaps_every_frame:
  assumes "pb_wf (rb_parent parent)" and "ReceiveBatch_act N parent w = Some (p, w1)"
    and "distinct (pb_array (rb_parent p))" and "\<forall>a\<in>set (pb_array (rb_parent p)). frame_ready (w_heap w1) a"
  shows "\<exists>h'. b_act (macswap_ops (ReceiveBatch_ops N)) (macswap parent) w =
      Some ((macswap parent)\<lparr>tb_parent := p, tb_applied := True\<rparr>, w1\<lparr>w_heap := h'\<rparr>) \<and>
    (\<forall>a. if a \<in> set (pb_array (rb_parent p))
       then map_option mb_data (h' a) = map_option (\<lambda>m. swap_bytes (mb_data m)) (w_heap w1 a)
       else h' a = w_heap w1 a)"
proof -
  let ?V = "ParsedBatch_ops HMac (ReceiveBatch_ops N)" and ?pb = "rb_parent p"
  have wf: "pb_wf ?pb" by (rule receive_act_wf [OF assms(1,2)])
  then have len: "pb_len ?pb \<le> length (pb_buf ?pb)" by (simp add: pb_wf_def)
  have V: "b_act ?V = ReceiveBatch_act N" "b_get_packet_batch ?V = (\<lambda>b. Some (rb_parent b))"
    by (simp_all add: ParsedBatch_ops_def act_macro_def ReceiveBatch_ops_def Let_def)
  have "for_each ?V (transform_body macswap_closure) p w1 () =
      Some (w1\<lparr>w_heap := swapped_heap (set (pb_array ?pb)) (w_heap w1)\<rparr>, ())"
    using macswap_loop [OF len assms(3,4) order_refl, of N p]
    by (simp add: batch.for_each_visits [OF rcb.batch_parsed wf, of HMac N ?pb] V pb_array_def)
  then have "b_act (macswap_ops (ReceiveBatch_ops N)) (macswap parent) w =
      Some ((macswap parent)\<lparr>tb_parent := p, tb_applied := True\<rparr>, w1\<lparr>w_heap := swapped_heap (set (pb_array ?pb)) (w_heap w1)\<rparr>)"
    using assms(2) by (simp add: macswap_ops_def TransformBatch_ops_def forward_def TransformBatch_act_def macswap_def TransformBatch_new_def V)
  moreover have "map_option mb_data (swapped_heap (set (pb_array ?pb)) (w_heap w1) a) = map_option (\<lambda>m. swap_bytes (mb_data m)) (w_heap w1 a)"
    if "a \<in> set (pb_array ?pb)" for a
    using assms(4) that swapped_mbuf_spec(2) by (auto simp: swapped_heap_def frame_ready_def deref_def split: if_splits)
  ultimately show ?thesis by (intro exI [of _ "swapped_heap (set (pb_array ?pb)) (w_heap w1)"]) (auto simp: swapped_heap_def)
qed

theorem macswap_swaps_every_frame_witness:
  "\<exists>p h'. b_act (macswap_ops (ReceiveBatch_ops example_natives)) (macswap (ReceiveBatch_new example_rx)) example_world =
      Some (p, example_world\<lparr>w_heap := h'\<rparr>) \<and>
    map_option mb_data (h' 2) = Some ([7, 8, 9, 10, 11, 12, 1, 2, 3, 4, 5, 6] @ drop 12 example_frame)"
proof -
  define pb where "pb = \<lparr>pb_buf = [1, 2, 3] @ replicate 29 0, pb_len = 3, pb_scratch = [], parent_tasks = [] :: nat list\<rparr>"
  let ?p = "(ReceiveBatch_new example_rx)\<lparr>rb_parent := pb, received := 3\<rparr>"
  have act: "ReceiveBatch_act example_natives (ReceiveBatch_new example_rx) example_world = Some (?p, example_world)"
    by (simp add: pb_def receive_example)
  have arr: "pb_array (rb_parent ?p) = [1, 2, 3]" by (simp add: pb_def pb_array_def)
  have "list_all (\<lambda>a. case deref (w_heap example_world) a of None \<Rightarrow> False | Some m \<Rightarrow> mbuf_wf m \<and> 14 < data_len m \<and> refcnt m = 1) [1, 2, 3]"
    by code_simp
  then have ready: "\<forall>a\<in>set (pb_array (rb_parent ?p)). frame_ready (w_heap example_world) a"
    unfolding arr by (auto simp: frame_ready_def split: option.splits)
  have wf: "pb_wf (rb_parent (ReceiveBatch_new example_rx))" by (simp add: pb_wf_def ReceiveBatch_new_def PacketBatch_new_def)
  have "map_option (\<lambda>m. swap_bytes (mb_data m)) (w_heap example_world 2) =
      Some ([7, 8, 9, 10, 11, 12, 1, 2, 3, 4, 5, 6] @ drop 12 example_frame)"
    by code_simp
  moreover obtain h' where "b_act (macswap_ops (ReceiveBatch_ops example_natives)) (macswap (ReceiveBatch_new example_rx)) example_world =
      Some ((macswap (ReceiveBatch_new example_rx))\<lparr>tb_parent := ?p, tb_applied := True\<rparr>, example_world\<lparr>w_heap := h'\<rparr>)"
    "map_option mb_data (h' 2) = map_option (\<lambda>m. swap_bytes (mb_data m)) (w_heap example_world 2)"
    using macswap_swaps_every_frame [OF wf act _ ready] unfolding arr by auto
  ultimately show ?thesis by auto
qed

section \<open>The firewall\<close>

text \<open>Books kept by the devices alone: the cache of the firewall is no part of them.\<close>

definition nf_ledger :: "'d ledger \<Rightarrow> (Flow list \<times> 'd) ledger" where
  "nf_ledger L = \<lparr>l_received = \<lambda>x. l_received L (snd x), l_sent = \<lambda>x. l_sent L (snd x), l_freed = \<lambda>x. l_freed L (snd x)\<rparr>"

lemma acl_swap_keeps: "transform_keeps L acl_swap"
  by (auto simp: transform_keeps_def acl_swap_def update_mac_def bind_eq_Some_conv)

lemma acl_filter_keeps: "filter_keeps (nf_ledger L) (acl_filter bo acls)"
  by (auto simp: filter_keeps_def acl_filter_def bind_eq_Some_conv same_ledger_def nf_ledger_def case_prod_beta Let_def)

lemma acl_accounted:
  "accounted_batch N (acl_ops (ReceiveBatch_ops N)) (\<lambda>b. (receive_ok N L (tb_parent (fb_parent b)) \<and>
      transform_keeps L (tb_transformer (fb_parent b))) \<and> fb_remove b = [] \<and> filter_keeps L (fb_filter b)) L
    (\<lambda>b. receive_held (tb_parent (fb_parent b)))"
proof -
  note mac = rba.accounted_act_macro [OF view_change_parsed, folded ParsedBatch_ops_def]
  note ip = accounted_batch.accounted_act_macro [OF accounted_batch.accounted_transform [OF mac] view_change_parsed,
      folded ParsedBatch_ops_def]
  note kept = accounted_batch.accounted_filter [OF ip]
  note reset = accounted_batch.accounted_act_macro [OF kept view_change_reset, folded ResetParsingBatch_ops_def]
  from accounted_batch.accounted_act_macro [OF reset view_change_refl] show ?thesis
    by (simp add: acl_ops_def acl_parsed_ops_def CompositionBatch_ops_def Let_def)
qed

text \<open>
  C4: The firewall loses no mbuf.  It runs over a port and a native library that keep books of what they
  hand out and take back, for any rules, any traffic and any number of rounds that end without a panic:
  afterwards every mbuf that was ever received has been sent or freed, exactly once, and none twice.
\<close>
theorem firewall_loses_no_mbuf:
  assumes "native_books (nf_ledger L) N" and "rx_books (nf_ledger L) rx" and "tx_books (nf_ledger L) tx"
    and "l_received L (snd (w_ext w)) = l_sent L (snd (w_ext w)) + l_freed L (snd (w_ext w))"
    and "rounds (SendBatch_execute (acl_ops (ReceiveBatch_ops N))) n
      (SendBatch_new (acl_match bo (ReceiveBatch_ops N) (ReceiveBatch_new rx) acls) tx) w = Some (b', w')"
  shows "l_received L (snd (w_ext w')) = l_sent L (snd (w_ext w')) + l_freed L (snd (w_ext w'))"
proof -
  let ?b = "SendBatch_new (acl_match bo (ReceiveBatch_ops N) (ReceiveBatch_new rx) acls) tx"
  have "balanced (nf_ledger L) w {#}" using assms(4) by (simp add: balanced_def nf_ledger_def)
  moreover have "receive_ok N (nf_ledger L) (ReceiveBatch_new rx)" "receive_held (ReceiveBatch_new rx) = {#}"
    using assms(1,2) by (simp_all add: receive_ok_def receive_held_def ReceiveBatch_new_def PacketBatch_new_def pb_wf_def pb_array_def)
  ultimately have "balanced (nf_ledger L) w' {#}"
    using accounted_batch.send_rounds [OF acl_accounted _ _ _ assms(5), of "nf_ledger L" "{#}"] assms(3)
    by (simp add: SendBatch_new_def acl_match_def FilterBatch_new_def TransformBatch_new_def acl_swap_keeps acl_filter_keeps Let_def)
  then show ?thesis by (simp add: balanced_def nf_ledger_def)
qed

text \<open>A device that notes what it handed out, sent and freed, and that takes only one packet at a time.\<close>

definition device_ledger :: "(nat list \<times> nat list \<times> nat list) ledger" where
  "device_ledger = \<lparr>l_received = \<lambda>(r, s, f). mset r, l_sent = \<lambda>(r, s, f). mset s, l_freed = \<lambda>(r, s, f). mset f\<rparr>"

definition device_natives :: "(Flow list \<times> nat list \<times> nat list \<times> nat list) natives" where
  "device_natives = \<lparr>mbuf_alloc_bulk = \<lambda>len cnt w. (0, replicate cnt 0, w),
     mbuf_free_bulk = \<lambda>ms w. (0, w\<lparr>w_ext := (case w_ext w of (c, r, s, f) \<Rightarrow> (c, r, s, f @ ms))\<rparr>)\<rparr>"

definition device_rx :: "(Flow list \<times> nat list \<times> nat list \<times> nat list) PacketRx" where
  "device_rx slc w = (if length slc < 2 then None else Some (Inr 2, blit 0 [1, 2] slc,
     w\<lparr>w_ext := (case w_ext w of (c, r, s, f) \<Rightarrow> (c, r @ [1, 2], s, f))\<rparr>))"

definition device_tx :: "(Flow list \<times> nat list \<times> nat list \<times> nat list) PacketTx" where
  "device_tx ms w = Some (Inr 1, w\<lparr>w_ext := (case w_ext w of (c, r, s, f) \<Rightarrow> (c, r, s @ take 1 ms, f))\<rparr>)"

definition device_world :: "(Flow list \<times> nat list \<times> nat list \<times> nat list) world" where
  "device_world = \<lparr>w_heap = w_heap example_world, w_queues = [], w_ext = ([], [], [], [])\<rparr>"

lemma device_books:
  "native_books (nf_ledger device_ledger) device_natives" "rx_books (nf_ledger device_ledger) device_rx"
  "tx_books (nf_ledger device_ledger) device_tx"
proof -
  show "native_books (nf_ledger device_ledger) device_natives"
    by (auto simp: native_books_def nf_ledger_def device_ledger_def device_natives_def split: prod.splits)
  show "tx_books (nf_ledger device_ledger) device_tx"
    by (auto simp: tx_books_def nf_ledger_def device_ledger_def device_tx_def split: prod.splits)
  have "take 2 (blit 0 [1, 2] slc) = [1, 2]" if "2 \<le> length slc" for slc :: "nat list"
    using that by (simp add: blit_def)
  then show "rx_books (nf_ledger device_ledger) device_rx"
    by (auto simp: rx_books_def nf_ledger_def device_ledger_def device_rx_def not_less split: prod.splits if_splits)
qed

theorem firewall_loses_no_mbuf_witness:
  "\<exists>b' w'. rounds (SendBatch_execute (acl_ops (ReceiveBatch_ops device_natives))) 1
      (SendBatch_new (acl_match network_order (ReceiveBatch_ops device_natives) (ReceiveBatch_new device_rx)
        [\<lparr>acl_src_ip = None, acl_dst_ip = None, acl_src_port = None, acl_dst_port = Some 80, acl_established = None, acl_drop = False\<rparr>])
      device_tx) device_world = Some (b', w') \<and>
    snd (w_ext w') = ([1, 2], [1], [2]) \<and>
    l_received device_ledger (snd (w_ext w')) = l_sent device_ledger (snd (w_ext w')) + l_freed device_ledger (snd (w_ext w'))"
proof -
  let ?run = "rounds (SendBatch_execute (acl_ops (ReceiveBatch_ops device_natives))) 1
      (SendBatch_new (acl_match network_order (ReceiveBatch_ops device_natives) (ReceiveBatch_new device_rx)
        [\<lparr>acl_src_ip = None, acl_dst_ip = None, acl_src_port = None, acl_dst_port = Some 80, acl_established = None, acl_drop = False\<rparr>])
      device_tx) device_world"
  have "map_option (\<lambda>(b, w). snd (w_ext w)) ?run = Some ([1, 2], [1], [2])" by code_simp
  then obtain b' w' where R: "?run = Some (b', w')" "snd (w_ext w') = ([1, 2], [1], [2])"
    by (cases ?run) auto
  have "l_received device_ledger (snd (w_ext device_world)) =
      l_sent device_ledger (snd (w_ext device_world)) + l_freed device_ledger (snd (w_ext device_world))"
    by (simp add: device_ledger_def device_world_def)
  from firewall_loses_no_mbuf [OF device_books this R(1)] R show ?thesis by blast
qed

end
