(* ===== verification/NB_Config.thy ===== *)
theory NB_Config
  imports NB_Prelude "HOL-Library.Multiset"
begin

text \<open>
  Configurations: \<open>framework/src/config\<close>.  The structures and their defaults (\<open>mod.rs\<close>), reading them from TOML values
  (\<open>config_reader.rs\<close>) and from command line options (\<open>flag_reader.rs\<close>).  The \<open>toml\<close> and \<open>getopts\<close> crates and the file system are
  parameters; reading a configuration is a total function, and every rejection is a \<open>ConfigurationError\<close>.
\<close>

section \<open>Text\<close>

text \<open>\<open>CString::new(s).unwrap()\<close> panics on a NUL character.\<close>

definition CString_new :: "string \<Rightarrow> string option" where
  "CString_new s = (if char_of (0 :: nat) \<in> set s then None else Some s)"

type_synonym i32 = "32 word"
type_synonym i64 = "64 word"

text \<open>\<open>str::parse::<i32>\<close> and \<open>i32::to_string\<close> of the standard library.\<close>

definition is_digit :: "char \<Rightarrow> bool" where
  "is_digit c \<longleftrightarrow> 48 \<le> (of_char c :: nat) \<and> (of_char c :: nat) \<le> 57"

definition digits_value :: "string \<Rightarrow> nat" where
  "digits_value ds = foldl (\<lambda>n c. n * 10 + (of_char c - 48)) 0 ds"

definition parse_i32 :: "string \<Rightarrow> i32 option" where
  "parse_i32 s =
     (let negative = (s \<noteq> [] \<and> hd s = CHR ''-'');
          ds = (if s \<noteq> [] \<and> (hd s = CHR ''-'' \<or> hd s = CHR ''+'') then tl s else s) in
      if ds = [] \<or> \<not> list_all is_digit ds then None
      else if negative then (if digits_value ds \<le> 2 ^ 31 then Some (- of_nat (digits_value ds)) else None)
      else if digits_value ds < 2 ^ 31 then Some (of_nat (digits_value ds)) else None)"

fun nat_to_string :: "nat \<Rightarrow> string" where
  "nat_to_string n = (if n < 10 then [char_of (48 + n)] else nat_to_string (n div 10) @ [char_of (48 + n mod 10)])"

declare nat_to_string.simps [simp del]

definition i32_to_string :: "i32 \<Rightarrow> string" where
  "i32_to_string i = (if sint i < 0 then CHR ''-'' # nat_to_string (nat (- sint i)) else nat_to_string (nat (sint i)))"

section \<open>Configurations\<close>

definition DEFAULT_POOL_SIZE :: u32 where "DEFAULT_POOL_SIZE = 2048 - 1"
definition DEFAULT_CACHE_SIZE :: u32 where "DEFAULT_CACHE_SIZE = 32"
definition DEFAULT_SECONDARY :: bool where "DEFAULT_SECONDARY = False"
definition DEFAULT_PRIMARY_CORE :: i32 where "DEFAULT_PRIMARY_CORE = 0"
definition DEFAULT_NAME :: string where "DEFAULT_NAME = ''zcsi''"
definition NUM_RXD :: i32 where "NUM_RXD = 128"
definition NUM_TXD :: i32 where "NUM_TXD = 128"

record PortConfiguration =
  pc_name :: string
  pc_rx_queues :: "i32 list"
  pc_tx_queues :: "i32 list"
  pc_rxd :: i32
  pc_txd :: i32
  pc_loopback :: bool
  pc_tso :: bool
  pc_csum :: bool

definition PortConfiguration_default :: PortConfiguration where
  "PortConfiguration_default = \<lparr>pc_name = [], pc_rx_queues = [], pc_tx_queues = [], pc_rxd = NUM_RXD, pc_txd = NUM_TXD,
     pc_loopback = False, pc_tso = False, pc_csum = False\<rparr>"

definition PortConfiguration_new_with_name :: "string \<Rightarrow> PortConfiguration" where
  "PortConfiguration_new_with_name name = PortConfiguration_default\<lparr>pc_name := name\<rparr>"

definition PortConfiguration_new_with_queues :: "string \<Rightarrow> i32 list \<Rightarrow> i32 list \<Rightarrow> PortConfiguration" where
  "PortConfiguration_new_with_queues name rx_queues tx_queues =
     (PortConfiguration_new_with_name name)\<lparr>pc_rx_queues := rx_queues, pc_tx_queues := tx_queues\<rparr>"

record NetbricksConfiguration =
  nc_name :: string
  nc_secondary :: bool
  nc_primary_core :: i32
  nc_cores :: "i32 list"
  nc_strict :: bool
  nc_ports :: "PortConfiguration list"
  nc_pool_size :: u32
  nc_cache_size :: u32
  nc_dpdk_args :: "string option"

definition NetbricksConfiguration_default :: NetbricksConfiguration where
  "NetbricksConfiguration_default = \<lparr>nc_name = [], nc_secondary = False, nc_primary_core = 0, nc_cores = [], nc_strict = False,
     nc_ports = [], nc_pool_size = DEFAULT_POOL_SIZE, nc_cache_size = DEFAULT_CACHE_SIZE, nc_dpdk_args = None\<rparr>"

definition NetbricksConfiguration_new_with_name :: "string \<Rightarrow> NetbricksConfiguration" where
  "NetbricksConfiguration_new_with_name name = NetbricksConfiguration_default\<lparr>nc_name := name\<rparr>"

section \<open>Reading TOML\<close>

text \<open>Values of the \<open>toml\<close> crate; floating point numbers and dates are opaque.\<close>

datatype Value =
    String string
  | Integer i64
  | Float u64
  | Boolean bool
  | Datetime string
  | Array "Value list"
  | Table "(string \<times> Value) list"

fun Value_get :: "Value \<Rightarrow> string \<Rightarrow> Value option" where
  "Value_get (Table t) key = map_of t key"
| "Value_get _ key = None"

text \<open>What the crate provides: the parser (with its error as text) and the texts of values in messages.\<close>

record toml_lib =
  toml_from_str :: "string \<Rightarrow> string + Value"
  debug_get :: "Value option \<Rightarrow> string"
  debug_value :: "Value \<Rightarrow> string"
  display_value :: "Value \<Rightarrow> string"

definition config_error :: "string \<Rightarrow> 'a result" where
  "config_error msg = Inl (ConfigurationError msg)"

text \<open>\<open>try!\<close>: go on with the value or return the error.\<close>

definition try_then :: "'a result \<Rightarrow> ('a \<Rightarrow> 'b result) \<Rightarrow> 'b result" where
  "try_then r f = (case r of Inl e \<Rightarrow> Inl e | Inr x \<Rightarrow> f x)"

text \<open>The three forms of the matches on an optional entry: \<open>as i32\<close> and \<open>as u32\<close> keep the low bits.\<close>

definition read_integer :: "(Value option \<Rightarrow> string) \<Rightarrow> 32 word \<Rightarrow> Value option \<Rightarrow> 32 word result" where
  "read_integer msg dflt v = (case v of
      Some (Integer i) \<Rightarrow> Inr (ucast i)
    | None \<Rightarrow> Inr dflt
    | v \<Rightarrow> config_error (msg v))"

definition read_boolean :: "(Value option \<Rightarrow> string) \<Rightarrow> bool \<Rightarrow> Value option \<Rightarrow> bool result" where
  "read_boolean msg dflt v = (case v of
      Some (Boolean b) \<Rightarrow> Inr b
    | None \<Rightarrow> Inr dflt
    | v \<Rightarrow> config_error (msg v))"

fun read_cores :: "(Value \<Rightarrow> string) \<Rightarrow> Value list \<Rightarrow> i32 list result" where
  "read_cores msg [] = Inr []"
| "read_cores msg (q # qs) = (case q of
      Integer core \<Rightarrow> try_then (read_cores msg qs) (\<lambda>cs. Inr (ucast core # cs))
    | _ \<Rightarrow> config_error (msg q))"

definition read_queue :: "toml_lib \<Rightarrow> Value \<Rightarrow> i32 list result" where
  "read_queue T queue = (case queue of
      Array queues \<Rightarrow> read_cores (\<lambda>q. ''Could not parse queue spec '' @ debug_value T q) queues
    | Integer core \<Rightarrow> Inr [ucast core]
    | _ \<Rightarrow> Inr [])"

definition read_optional_queue :: "toml_lib \<Rightarrow> Value option \<Rightarrow> i32 list result" where
  "read_optional_queue T v = (case v of Some v \<Rightarrow> read_queue T v | None \<Rightarrow> Inr [])"

definition read_port_queues :: "toml_lib \<Rightarrow> string \<Rightarrow> (string \<times> Value) list \<Rightarrow> (i32 list \<times> i32 list) result" where
  "read_port_queues T name port_def =
     (let symmetric_queue = map_of port_def ''cores'' \<noteq> None in
      if symmetric_queue \<and> (map_of port_def ''rx_cores'' \<noteq> None \<or> map_of port_def ''tx_cores'' \<noteq> None) then
        config_error (''cores specified along with rx_cores and/or tx_cores for port '' @ name)
      else
        try_then (if symmetric_queue then read_optional_queue T (map_of port_def ''cores'')
                  else read_optional_queue T (map_of port_def ''rx_cores'')) (\<lambda>rx_queues.
        try_then (if symmetric_queue then Inr rx_queues
                  else read_optional_queue T (map_of port_def ''tx_cores'')) (\<lambda>tx_queues.
        Inr (rx_queues, tx_queues))))"

definition read_port :: "toml_lib \<Rightarrow> Value \<Rightarrow> PortConfiguration result" where
  "read_port T value = (case value of
     Table port_def \<Rightarrow>
       (case map_of port_def ''name'' of
          Some (String name) \<Rightarrow>
            try_then (read_integer (\<lambda>v. ''Could not parse number of rx descriptors '' @ debug_get T v) NUM_RXD (map_of port_def ''rxd'')) (\<lambda>rxd.
            try_then (read_integer (\<lambda>v. ''Could not parse number of tx descriptors '' @ debug_get T v) NUM_TXD (map_of port_def ''txd'')) (\<lambda>txd.
            try_then (read_boolean (\<lambda>v. ''Could not parse loopback spec '' @ debug_get T v) False (map_of port_def ''loopback'')) (\<lambda>loopback.
            try_then (read_boolean (\<lambda>v. ''Could not parse tso spec '' @ debug_get T v) False (map_of port_def ''tso'')) (\<lambda>tso.
            try_then (read_boolean (\<lambda>v. ''Could not parse csum spec '' @ debug_get T v) False (map_of port_def ''checksum'')) (\<lambda>csum.
            try_then (read_port_queues T name port_def) (\<lambda>(rx_queues, tx_queues).
            Inr \<lparr>pc_name = name, pc_rx_queues = rx_queues, pc_tx_queues = tx_queues, pc_rxd = rxd, pc_txd = txd,
              pc_loopback = loopback, pc_tso = tso, pc_csum = csum\<rparr>))))))
        | _ \<Rightarrow> config_error ''Could not parse name for port'')
   | _ \<Rightarrow> config_error ''Could not understand port spec'')"

fun read_ports :: "toml_lib \<Rightarrow> Value list \<Rightarrow> PortConfiguration list result" where
  "read_ports T [] = Inr []"
| "read_ports T (port # ports) = try_then (read_port T port) (\<lambda>p. try_then (read_ports T ports) (\<lambda>ps. Inr (p # ps)))"

definition read_master_core :: "toml_lib \<Rightarrow> Value option \<Rightarrow> i32 result" where
  "read_master_core T v = (case v of
      Some (Integer core) \<Rightarrow> Inr (ucast core)
    | Some (String core) \<Rightarrow> (case parse_i32 core of
          Some c \<Rightarrow> Inr c
        | None \<Rightarrow> config_error (''Could not parse '' @ core @ '' as core''))
    | None \<Rightarrow> Inr DEFAULT_PRIMARY_CORE
    | v \<Rightarrow> config_error (''Could not parse '' @ debug_get T v @ '' as core''))"

definition read_configuration_value :: "toml_lib \<Rightarrow> Value \<Rightarrow> NetbricksConfiguration result" where
  "read_configuration_value T toml =
     try_then (case Value_get toml ''name'' of
         Some (String name) \<Rightarrow> Inr name
       | None \<Rightarrow> Inr DEFAULT_NAME
       | _ \<Rightarrow> config_error ''Could not parse name'') (\<lambda>name.
     try_then (read_master_core T (Value_get toml ''master_core'')) (\<lambda>master_lcore.
     try_then (read_integer (\<lambda>v. ''Could not parse pool size'') DEFAULT_POOL_SIZE (Value_get toml ''pool_size'')) (\<lambda>pool_size.
     try_then (read_integer (\<lambda>v. ''Could not parse cache size'') DEFAULT_CACHE_SIZE (Value_get toml ''cache_size'')) (\<lambda>cache_size.
     try_then (read_boolean (\<lambda>v. ''Could not parse secondary processor spec'') DEFAULT_SECONDARY (Value_get toml ''secondary'')) (\<lambda>secondary.
     try_then (case Value_get toml ''cores'' of
         Some (Array c) \<Rightarrow> read_cores (\<lambda>core. ''Could not parse core spec '' @ display_value T core) c
       | None \<Rightarrow> Inr []
       | _ \<Rightarrow> config_error ''Cores is not an array'') (\<lambda>cores.
     try_then (read_boolean (\<lambda>v. ''Could not parse strict spec (should be boolean) '' @ debug_get T v) False (Value_get toml ''strict'')) (\<lambda>strict.
     try_then (case Value_get toml ''ports'' of
         Some (Array ports) \<Rightarrow> read_ports T ports
       | None \<Rightarrow> Inr []
       | _ \<Rightarrow> config_error ''Ports is not an array'') (\<lambda>ports.
     Inr \<lparr>nc_name = name, nc_secondary = secondary, nc_primary_core = master_lcore, nc_cores = cores, nc_strict = strict,
       nc_ports = ports, nc_pool_size = pool_size, nc_cache_size = cache_size, nc_dpdk_args = None\<rparr>))))))))"

definition read_configuration_from_str :: "toml_lib \<Rightarrow> string \<Rightarrow> NetbricksConfiguration result" where
  "read_configuration_from_str T configuration = (case toml_from_str T configuration of
      Inr toml \<Rightarrow> read_configuration_value T toml
    | Inl error \<Rightarrow> config_error (''Experienced '' @ error @ '' parse errors in spec.''))"

text \<open>The file system is a function from names to contents.\<close>

definition read_configuration :: "toml_lib \<Rightarrow> (string \<Rightarrow> string option) \<Rightarrow> string \<Rightarrow> NetbricksConfiguration result" where
  "read_configuration T read_file filename = (case read_file filename of
      None \<Rightarrow> config_error ''Could not read file''
    | Some toml_str \<Rightarrow> read_configuration_from_str T toml_str)"

section \<open>Command line options\<close>

text \<open>
  The options that were given, as \<open>getopts\<close> reports them.  Options and their arguments: those of \<open>basic_opts\<close>.
\<close>

record Matches =
  opt_h :: bool
  opt_dpdk_args :: bool
  opt_f :: "string option"
  opt_n :: "string option"
  opt_m :: "string option"
  opt_secondary :: bool
  opt_primary :: bool
  opt_c :: "string list"
  opt_p :: "string list"

text \<open>\<open>HashMap<String, Vec<i32>>\<close> with the entry of a key extended, in the order of first appearance.\<close>

fun entry_push :: "'k \<Rightarrow> 'v \<Rightarrow> ('k \<times> 'v list) list \<Rightarrow> ('k \<times> 'v list) list" where
  "entry_push k v [] = [(k, [v])]"
| "entry_push k v ((k', vs) # m) = (if k' = k then (k', vs @ [v]) # m else (k', vs) # entry_push k v m)"

definition extract_cores_for_port :: "string list \<Rightarrow> i32 list \<Rightarrow> (string \<times> i32 list) list" where
  "extract_cores_for_port ports cores = foldl (\<lambda>m (port, core). entry_push port core m) [] (zip ports cores)"

text \<open>\<open>Vec::dedup\<close>: equal neighbours.\<close>

fun vec_dedup :: "'a list \<Rightarrow> 'a list" where
  "vec_dedup (x # y # xs) = (if x = y then vec_dedup (x # xs) else x # vec_dedup (y # xs))"
| "vec_dedup xs = xs"

text \<open>How the program ends early, other than by a panic.\<close>

datatype exit = Exit int

text \<open>Collecting the results of a closure that may panic.\<close>

fun collect :: "('a \<Rightarrow> 'b option) \<Rightarrow> 'a list \<Rightarrow> 'b list option" where
  "collect f [] = Some []"
| "collect f (x # xs) = do { y \<leftarrow> f x; ys \<leftarrow> collect f xs; Some (y # ys) }"

text \<open>
  \<open>order\<close> is the order in which a hash map gives its keys.  The result is a panic (\<open>None\<close>), an exit or a configuration.
\<close>

definition read_matches ::
  "toml_lib \<Rightarrow> (string \<Rightarrow> string option) \<Rightarrow> (string list \<Rightarrow> string list) \<Rightarrow> Matches \<Rightarrow> (exit + NetbricksConfiguration) option" where
  "read_matches T read_file order matches =
     (if opt_h matches then Some (Inl (Exit 0))
      else if opt_dpdk_args matches then Some (Inl (Exit 0))
      else case (case opt_f matches of
          Some config_file \<Rightarrow> read_configuration T read_file config_file
        | None \<Rightarrow> Inr (NetbricksConfiguration_new_with_name (case opt_n matches of Some n \<Rightarrow> n | None \<Rightarrow> ''recv''))) of
        Inl e \<Rightarrow> Some (Inl (Exit 1))
      | Inr configuration \<Rightarrow> do {
          configuration \<leftarrow> (case opt_m matches of
              Some m \<Rightarrow> map_option (\<lambda>core. configuration\<lparr>nc_primary_core := core, nc_strict := True\<rparr>) (parse_i32 m)
            | None \<Rightarrow> Some configuration);
          let configuration = (if opt_secondary matches then configuration\<lparr>nc_secondary := True\<rparr> else configuration);
          let configuration = (if opt_primary matches then configuration\<lparr>nc_secondary := False\<rparr> else configuration);
          configuration \<leftarrow> (if opt_c matches \<noteq> [] then do {
              cores \<leftarrow> collect parse_i32 (opt_c matches);
              let cores_for_port = extract_cores_for_port (opt_p matches) cores;
              let ports_to_activate = order (map fst cores_for_port);
              ports \<leftarrow> collect (\<lambda>port. map_option (\<lambda>cores. PortConfiguration_new_with_queues port cores cores)
                (map_of cores_for_port port)) ports_to_activate;
              Some (configuration\<lparr>nc_cores := vec_dedup cores, nc_ports := ports\<rparr>)
            } else Some configuration);
          Some (Inr configuration)
        })"

section \<open>Numbers survive being written\<close>

lemma digit_char: "n < 10 \<Longrightarrow> (of_char (char_of (48 + n) :: char) :: nat) = 48 + n"
  by simp

lemma nat_to_string_digits: "nat_to_string n \<noteq> [] \<and> list_all is_digit (nat_to_string n) \<and> digits_value (nat_to_string n) = n"
proof (induction n rule: nat_to_string.induct)
  case (1 n)
  show ?case
  proof (cases "n < 10")
    case True
    then show ?thesis by (subst (1 2 3) nat_to_string.simps) (simp add: is_digit_def digits_value_def)
  next
    case False
    have "n mod 10 \<le> 9" by presburger
    then have "is_digit (char_of (48 + n mod 10))" by (simp add: is_digit_def)
    with False 1 show ?thesis by (subst (1 2 3) nat_to_string.simps) (simp add: digits_value_def)
  qed
qed

lemma digit_not_sign: "is_digit c \<Longrightarrow> c \<noteq> CHR ''-'' \<and> c \<noteq> CHR ''+''"
  by (auto simp: is_digit_def)

lemma parse_i32_print: "parse_i32 (i32_to_string i) = Some i"
proof -
  let ?n = "nat (\<bar>sint i\<bar>)" and ?s = "nat_to_string (nat (\<bar>sint i\<bar>))"
  note d = nat_to_string_digits [of ?n]
  have range: "- (2 ^ 31) \<le> sint i" "sint i < 2 ^ 31" using sint_greater_eq [of i] sint_less [of i] by simp_all
  have hd: "hd ?s \<noteq> CHR ''-''" "hd ?s \<noteq> CHR ''+''"
    using d digit_not_sign [of "hd ?s"] by (auto simp: list_all_iff)
  have id: "(of_int (sint i) :: i32) = i" by simp
  show ?thesis
  proof (cases "sint i < 0")
    case True
    then have "int ?n = - sint i" "?n \<le> 2 ^ 31" using range by auto
    then have "- (of_nat ?n :: i32) = of_int (sint i)" by (metis of_int_minus of_int_of_nat_eq minus_minus)
    with True d \<open>?n \<le> 2 ^ 31\<close> show ?thesis by (simp add: i32_to_string_def parse_i32_def id)
  next
    case False
    then have "int ?n = sint i" "?n < 2 ^ 31" using range by auto
    then have "(of_nat ?n :: i32) = of_int (sint i)" by (metis of_int_of_nat_eq)
    with False d hd \<open>?n < 2 ^ 31\<close> show ?thesis by (simp add: i32_to_string_def parse_i32_def id Let_def)
  qed
qed

section \<open>Configurations survive being written\<close>

text \<open>A configuration as the TOML value that spells out every entry.\<close>

definition write_cores :: "i32 list \<Rightarrow> Value" where
  "write_cores cs = Array (map (\<lambda>c. Integer (scast c)) cs)"

definition write_port :: "PortConfiguration \<Rightarrow> Value" where
  "write_port p = Table [(''name'', String (pc_name p)), (''rx_cores'', write_cores (pc_rx_queues p)),
     (''tx_cores'', write_cores (pc_tx_queues p)), (''rxd'', Integer (scast (pc_rxd p))), (''txd'', Integer (scast (pc_txd p))),
     (''loopback'', Boolean (pc_loopback p)), (''tso'', Boolean (pc_tso p)), (''checksum'', Boolean (pc_csum p))]"

definition write_configuration :: "NetbricksConfiguration \<Rightarrow> Value" where
  "write_configuration c = Table [(''name'', String (nc_name c)), (''master_core'', String (i32_to_string (nc_primary_core c))),
     (''pool_size'', Integer (ucast (nc_pool_size c))), (''cache_size'', Integer (ucast (nc_cache_size c))),
     (''secondary'', Boolean (nc_secondary c)), (''cores'', write_cores (nc_cores c)), (''strict'', Boolean (nc_strict c)),
     (''ports'', Array (map write_port (nc_ports c)))]"

lemma narrow_scast [simp]: "ucast (scast c :: i64) = (c :: i32)"
  by (rule bit_word_eqI) (simp add: bit_simps)

lemma narrow_ucast [simp]: "ucast (ucast c :: i64) = (c :: u32)"
  by (rule bit_word_eqI) (simp add: bit_simps)

lemma try_then_simps [simp]: "try_then (Inr x) f = f x" "try_then (Inl e) f = Inl e"
  by (simp_all add: try_then_def)

lemma read_written_cores [simp]: "read_cores msg (map (\<lambda>c. Integer (scast c)) cs) = Inr cs"
  by (induction cs) simp_all

lemma read_written_port: "read_port T (write_port p) = Inr p"
  by (cases p) (simp add: read_port_def write_port_def read_integer_def read_boolean_def read_port_queues_def
      read_optional_queue_def read_queue_def write_cores_def)

lemma read_written_ports [simp]: "read_ports T (map write_port ps) = Inr ps"
  by (induction ps) (simp_all add: read_written_port)

text \<open>
  C27: Reading a configuration file whose TOML value spells out a configuration gives back that configuration: the
  names, the numbers at their width (also a master core given as text), the flags, and every port with its queues.
\<close>

theorem configuration_roundtrip:
  assumes "read_file filename = Some contents" and "toml_from_str T contents = Inr (write_configuration c)" and "nc_dpdk_args c = None"
  shows "read_configuration T read_file filename = Inr c"
  using assms by (cases c) (simp add: read_configuration_def read_configuration_from_str_def read_configuration_value_def
      write_configuration_def read_master_core_def parse_i32_print read_integer_def read_boolean_def write_cores_def)

definition example_configuration :: NetbricksConfiguration where
  "example_configuration = \<lparr>nc_name = ''nf'', nc_secondary = True, nc_primary_core = - 1, nc_cores = [1, 2], nc_strict = True,
     nc_ports = [PortConfiguration_new_with_queues ''dpdk:eth_pcap0'' [1, 2] [2]], nc_pool_size = 511, nc_cache_size = 16,
     nc_dpdk_args = None\<rparr>"

definition example_toml :: toml_lib where
  "example_toml = \<lparr>toml_from_str = \<lambda>t. Inr (write_configuration example_configuration), debug_get = \<lambda>v. [], debug_value = \<lambda>v. [],
     display_value = \<lambda>v. []\<rparr>"

theorem configuration_roundtrip_witness:
  "read_configuration example_toml [''nf.toml'' \<mapsto> ''name''] ''nf.toml'' = Inr example_configuration"
  by (rule configuration_roundtrip [where contents = "''name''"]) (simp_all add: example_toml_def example_configuration_def)

text \<open>Queues given both for a port as a whole and for one direction are rejected.\<close>

lemma symmetric_queue_conflict:
  assumes "map_of port_def ''cores'' \<noteq> None" and "map_of port_def ''rx_cores'' \<noteq> None \<or> map_of port_def ''tx_cores'' \<noteq> None"
  shows "\<exists>msg. read_port T (Table port_def) = config_error msg"
proof -
  have q: "read_port_queues T name port_def = config_error (''cores specified along with rx_cores and/or tx_cores for port '' @ name)" for name
    using assms by (simp add: read_port_queues_def)
  have "\<exists>msg. e = ConfigurationError msg" if "read_integer msg d v = Inl e" for msg d v e
    using that by (auto simp: read_integer_def config_error_def split: option.splits Value.splits)
  moreover have "\<exists>msg. e = ConfigurationError msg" if "read_boolean msg d v = Inl e" for msg d v e
    using that by (auto simp: read_boolean_def config_error_def split: option.splits Value.splits)
  ultimately show ?thesis
    by (cases "map_of port_def ''name''") (auto simp: read_port_def q config_error_def try_then_def split: Value.split sum.split)
qed

section \<open>Which cores serve which port\<close>

lemma map_of_entry_push:
  "map_of (entry_push k v m) k' = (if k' = k then Some ((case map_of m k of None \<Rightarrow> [] | Some vs \<Rightarrow> vs) @ [v]) else map_of m k')"
  by (induction k v m rule: entry_push.induct) auto

lemma keys_entry_push: "map fst (entry_push k v m) = (if k \<in> fst ` set m then map fst m else map fst m @ [k])"
  by (induction k v m rule: entry_push.induct) auto

definition cores_named :: "'k \<Rightarrow> ('k \<times> 'v) list \<Rightarrow> 'v list" where
  "cores_named k xs = map snd (filter (\<lambda>x. fst x = k) xs)"

lemma map_of_extract:
  "map_of (foldl (\<lambda>m (port, core). entry_push port core m) m xs) k =
     (if cores_named k xs = [] then map_of m k
      else Some ((case map_of m k of None \<Rightarrow> [] | Some vs \<Rightarrow> vs) @ cores_named k xs))"
  by (induction xs arbitrary: m) (auto simp: map_of_entry_push cores_named_def split: option.splits)

lemma keys_extract:
  "distinct (map fst m) \<Longrightarrow> distinct (map fst (foldl (\<lambda>m (port, core). entry_push port core m) m xs)) \<and>
     fst ` set (foldl (\<lambda>m (port, core). entry_push port core m) m xs) = fst ` set m \<union> fst ` set xs"
proof (induction xs arbitrary: m)
  case (Cons x xs)
  have keys: "fst ` set (entry_push (fst x) (snd x) m) = insert (fst x) (fst ` set m)"
    using keys_entry_push [of "fst x" "snd x" m] by (metis (no_types, lifting) insert_absorb list.set_map set_append
        Un_insert_right Un_empty_right list.simps(15) set_empty2)
  have "distinct (map fst (entry_push (fst x) (snd x) m))" using Cons.prems by (auto simp: keys_entry_push)
  from Cons.IH [OF this] show ?case unfolding keys by (simp add: case_prod_beta' keys)
qed simp

lemma collect_map: "(\<And>x. x \<in> set xs \<Longrightarrow> f x = Some (g x)) \<Longrightarrow> collect f xs = Some (map g xs)"
  by (induction xs) auto

lemma set_vec_dedup: "set (vec_dedup xs) = set xs"
  by (induction xs rule: vec_dedup.induct) auto

lemma cores_named_empty: "cores_named k xs = [] \<longleftrightarrow> k \<notin> fst ` set xs"
  by (auto simp: cores_named_def filter_empty_conv)

text \<open>
  C28: Without a configuration file, the options pair the ports with the cores in the order given: for every order
  in which a hash map hands out its keys, each port that has a core is configured once, its receiving and its
  sending queues are the cores it was paired with, in order, and the cores are those of the options.
\<close>

theorem options_assign_cores:
  assumes "\<not> opt_h m" and "\<not> opt_dpdk_args m" and "opt_f m = None" and "opt_m m = None" and "opt_c m \<noteq> []"
    and "collect parse_i32 (opt_c m) = Some cores" and "\<forall>ks. mset (order ks) = mset ks"
  shows "\<exists>c. read_matches T read_file order m = Some (Inr c) \<and> set (nc_cores c) = set cores \<and>
    distinct (map pc_name (nc_ports c)) \<and> set (map pc_name (nc_ports c)) = fst ` set (zip (opt_p m) cores) \<and>
    (\<forall>p\<in>set (nc_ports c). pc_rx_queues p = cores_named (pc_name p) (zip (opt_p m) cores) \<and> pc_tx_queues p = pc_rx_queues p)"
proof -
  let ?z = "zip (opt_p m) cores" and ?x = "extract_cores_for_port (opt_p m) cores"
  let ?ks = "order (map fst ?x)"
  let ?port = "\<lambda>k. PortConfiguration_new_with_queues k (cores_named k ?z) (cores_named k ?z)"
  have keys: "distinct (map fst ?x)" "fst ` set ?x = fst ` set ?z"
    using keys_extract [of "[]" ?z] by (simp_all add: extract_cores_for_port_def)
  have ks: "distinct ?ks" "set ?ks = fst ` set ?z"
    using keys assms(7) by (metis mset_eq_imp_distinct_iff, metis mset_eq_setD list.set_map)
  have "map_of ?x k = Some (cores_named k ?z)" if "k \<in> set ?ks" for k
    using that ks(2) map_of_extract [of "[]" ?z k] cores_named_empty [of k ?z] by (simp add: extract_cores_for_port_def)
  then have ports: "collect (\<lambda>port. map_option (\<lambda>cores. PortConfiguration_new_with_queues port cores cores) (map_of ?x port)) ?ks =
      Some (map ?port ?ks)" by (intro collect_map) simp
  have names: "map pc_name (map ?port ?ks) = ?ks"
    by (simp add: comp_def PortConfiguration_new_with_queues_def PortConfiguration_new_with_name_def)
  define c where "c = (let c = NetbricksConfiguration_new_with_name (case opt_n m of Some n \<Rightarrow> n | None \<Rightarrow> ''recv'');
      c = (if opt_secondary m then c\<lparr>nc_secondary := True\<rparr> else c); c = (if opt_primary m then c\<lparr>nc_secondary := False\<rparr> else c)
    in c\<lparr>nc_cores := vec_dedup cores, nc_ports := map ?port ?ks\<rparr>)"
  have c: "nc_cores c = vec_dedup cores" "nc_ports c = map ?port ?ks" by (simp_all add: c_def Let_def)
  have "read_matches T read_file order m = Some (Inr c)"
    using assms(1-6) ports by (simp add: read_matches_def Let_def c_def)
  moreover have "pc_rx_queues p = cores_named (pc_name p) ?z \<and> pc_tx_queues p = pc_rx_queues p" if "p \<in> set (nc_ports c)" for p
    using that unfolding c(2) by (auto simp: PortConfiguration_new_with_queues_def PortConfiguration_new_with_name_def)
  ultimately show ?thesis
    using ks names by (intro exI [of _ c] conjI ballI) (simp_all only: c set_vec_dedup)
qed

definition example_matches :: Matches where
  "example_matches = \<lparr>opt_h = False, opt_dpdk_args = False, opt_f = None, opt_n = None, opt_m = None, opt_secondary = False,
     opt_primary = True, opt_c = [''3'', ''4'', ''+3''], opt_p = [''a'', ''b'', ''a'']\<rparr>"

theorem options_assign_cores_witness:
  "\<exists>c. read_matches example_toml Map.empty rev example_matches = Some (Inr c) \<and> distinct (map pc_name (nc_ports c)) \<and>
     set (map pc_name (nc_ports c)) = {''a'', ''b''} \<and>
     (\<forall>p\<in>set (nc_ports c). pc_name p = ''a'' \<longrightarrow> pc_rx_queues p = [3, 3])"
proof -
  have cores: "collect parse_i32 (opt_c example_matches) = Some [3, 4, 3]" by code_simp
  have z: "zip (opt_p example_matches) [3, 4, 3 :: i32] = [(''a'', 3), (''b'', 4), (''a'', 3)]" by (simp add: example_matches_def)
  have "\<not> opt_h example_matches" "\<not> opt_dpdk_args example_matches" "opt_f example_matches = None" "opt_m example_matches = None"
    "opt_c example_matches \<noteq> []" "\<forall>ks :: string list. mset (rev ks) = mset ks"
    by (simp_all add: example_matches_def)
  from options_assign_cores [OF this(1-5) cores this(6), of example_toml Map.empty] show ?thesis
    unfolding z by (auto simp: cores_named_def)
qed

end
