(* ===== verification/NB_Ports.thy ===== *)
theory NB_Ports
  imports NB_Accounting NB_Config
begin

text \<open>
  Ports: \<open>framework/src/interface/port\<close>.  Physical ports with their queues (\<open>phy_port.rs\<close>), virtual ports (\<open>virt_port.rs\<close>) and the
  statistics they share (\<open>mod.rs\<close>).  The native library \<open>zcsi\<close> and the \<open>regex\<close> crate are parameters.
\<close>

section \<open>Statistics\<close>

text \<open>
  The counters are shared between a port and its queues by reference counted pointers: a store of counters,
  addressed by position, next to whatever else belongs to the world (\<open>'y\<close>, the devices).
\<close>

record 'y ports =
  po_stats :: "usize list"
  po_dev :: 'y

definition PortStats_new :: "'y ports world \<Rightarrow> nat \<times> 'y ports world" where
  "PortStats_new w = (length (po_stats (w_ext w)), w\<lparr>w_ext := (w_ext w)\<lparr>po_stats := po_stats (w_ext w) @ [0]\<rparr>\<rparr>)"

text \<open>\<open>(0..n).map(|_| Arc::new(PortStats::new())).collect()\<close>\<close>

fun new_stats :: "nat \<Rightarrow> 'y ports world \<Rightarrow> nat list \<times> 'y ports world" where
  "new_stats 0 w = ([], w)"
| "new_stats (Suc n) w = (let (a, w) = PortStats_new w; (as, w) = new_stats n w in (a # as, w))"

definition stats_load :: "nat \<Rightarrow> 'y ports world \<Rightarrow> usize option" where
  "stats_load a w = vec_get (po_stats (w_ext w)) a"

definition stats_store :: "nat \<Rightarrow> usize \<Rightarrow> 'y ports world \<Rightarrow> 'y ports world" where
  "stats_store a v w = w\<lparr>w_ext := (w_ext w)\<lparr>po_stats := (po_stats (w_ext w))[a := v]\<rparr>\<rparr>"

section \<open>The native library\<close>

record 'y zcsi =
  send_pkts :: "i32 \<Rightarrow> i32 \<Rightarrow> nat list \<Rightarrow> i32 \<Rightarrow> 'y ports world \<Rightarrow> i32 \<times> 'y ports world"
  recv_pkts :: "i32 \<Rightarrow> i32 \<Rightarrow> nat list \<Rightarrow> i32 \<Rightarrow> 'y ports world \<Rightarrow> i32 \<times> nat list \<times> 'y ports world"
  num_pmd_ports :: "'y ports world \<Rightarrow> i32"
  find_port_with_pci_address :: "string \<Rightarrow> 'y ports world \<Rightarrow> i32"
  max_txqs :: "i32 \<Rightarrow> 'y ports world \<Rightarrow> i32"
  max_rxqs :: "i32 \<Rightarrow> 'y ports world \<Rightarrow> i32"
  init_pmd_port :: "i32 \<Rightarrow> i32 \<Rightarrow> i32 \<Rightarrow> i32 list \<Rightarrow> i32 list \<Rightarrow> i32 \<Rightarrow> i32 \<Rightarrow> i32 \<Rightarrow> i32 \<Rightarrow> i32 \<Rightarrow> 'y ports world \<Rightarrow> i32 \<times> 'y ports world"
  free_pmd_port :: "i32 \<Rightarrow> 'y ports world \<Rightarrow> 'y ports world"
  init_bess_eth_ring :: "string \<Rightarrow> i32 \<Rightarrow> 'y ports world \<Rightarrow> i32 \<times> 'y ports world"
  init_ovs_eth_ring :: "i32 \<Rightarrow> i32 \<Rightarrow> 'y ports world \<Rightarrow> i32 \<times> 'y ports world"
  attach_pmd_device :: "string \<Rightarrow> 'y ports world \<Rightarrow> i32 \<times> 'y ports world"
  rte_eth_macaddr_get :: "i32 \<Rightarrow> 'y ports world \<Rightarrow> u8 list"

section \<open>Physical ports\<close>

record PmdPort =
  pm_connected :: bool
  pm_should_close :: bool
  pm_port :: i32
  pm_rxqs :: i32
  pm_txqs :: i32
  pm_stats_rx :: "nat list"
  pm_stats_tx :: "nat list"

record PortQueue =
  pq_port :: PmdPort
  pq_stats_rx :: nat
  pq_stats_tx :: nat
  pq_port_id :: i32
  pq_txq :: i32
  pq_rxq :: i32

definition PmdPort_drop :: "'y zcsi \<Rightarrow> PmdPort \<Rightarrow> 'y ports world \<Rightarrow> 'y ports world" where
  "PmdPort_drop Z port w = (if pm_connected port \<and> pm_should_close port then free_pmd_port Z (pm_port port) w else w)"

text \<open>The counters are added to with \<open>+\<close>, which wraps around in the release build, the one that \<open>build.sh\<close> makes.\<close>

definition send_queue ::
  "'y zcsi \<Rightarrow> PortQueue \<Rightarrow> i32 \<Rightarrow> nat list \<Rightarrow> i32 \<Rightarrow> 'y ports world \<Rightarrow> (u32 result \<times> 'y ports world) option" where
  "send_queue Z q queue pkts to_send w = do {
     let (sent, w) = send_pkts Z (pq_port_id q) queue pkts to_send w;
     stats \<leftarrow> stats_load (pq_stats_tx q) w;
     let update = stats + scast sent;
     Some (Inr sent, stats_store (pq_stats_tx q) update w)
   }"

definition recv_queue ::
  "'y zcsi \<Rightarrow> PortQueue \<Rightarrow> i32 \<Rightarrow> nat list \<Rightarrow> i32 \<Rightarrow> 'y ports world \<Rightarrow> (u32 result \<times> nat list \<times> 'y ports world) option" where
  "recv_queue Z q queue pkts to_recv w = do {
     let (recv, pkts, w) = recv_pkts Z (pq_port_id q) queue pkts to_recv w;
     stats \<leftarrow> stats_load (pq_stats_rx q) w;
     let update = stats + scast recv;
     Some (Inr recv, pkts, stats_store (pq_stats_rx q) update w)
   }"

definition PortQueue_send :: "'y zcsi \<Rightarrow> PortQueue \<Rightarrow> 'y ports PacketTx" where
  "PortQueue_send Z q pkts w = send_queue Z q (pq_txq q) pkts (of_nat (length pkts)) w"

definition PortQueue_recv :: "'y zcsi \<Rightarrow> PortQueue \<Rightarrow> 'y ports PacketRx" where
  "PortQueue_recv Z q pkts w = recv_queue Z q (pq_rxq q) pkts (of_nat (length pkts)) w"

definition i32_from_bool :: "bool \<Rightarrow> i32" where
  "i32_from_bool x = (if x then 1 else 0)"

definition find_port_id :: "'y zcsi \<Rightarrow> string \<Rightarrow> 'y ports world \<Rightarrow> i32 option" where
  "find_port_id Z pcie w = do {
     pcie_cstr \<leftarrow> CString_new pcie;
     Some (find_port_with_pci_address Z pcie_cstr w)
   }"

text \<open>\<open>v as usize\<close> of an \<open>i32\<close> used as an index.\<close>

definition i32_index :: "i32 \<Rightarrow> nat" where
  "i32_index i = unat (scast i :: usize)"

definition new_queue_pair :: "PmdPort \<Rightarrow> i32 \<Rightarrow> i32 \<Rightarrow> PortQueue result option" where
  "new_queue_pair port rxq txq =
     (if sint rxq > sint (pm_rxqs port) \<or> sint rxq < 0 then Some (Inl (BadRxQueue (sint (pm_port port)) (sint rxq)))
      else if sint txq > sint (pm_txqs port) \<or> sint txq < 0 then Some (Inl (BadTxQueue (sint (pm_port port)) (sint txq)))
      else do {
        stats_rx \<leftarrow> vec_get (pm_stats_rx port) (i32_index rxq);
        stats_tx \<leftarrow> vec_get (pm_stats_tx port) (i32_index txq);
        Some (Inr \<lparr>pq_port = port, pq_stats_rx = stats_rx, pq_stats_tx = stats_tx, pq_port_id = pm_port port,
          pq_txq = txq, pq_rxq = rxq\<rparr>)
      })"

definition PmdPort_stats :: "PmdPort \<Rightarrow> i32 \<Rightarrow> 'y ports world \<Rightarrow> (usize \<times> usize) option" where
  "PmdPort_stats port queue w = do {
     let idx = i32_index queue;
     rx \<leftarrow> vec_get (pm_stats_rx port) idx;
     rx \<leftarrow> stats_load rx w;
     tx \<leftarrow> vec_get (pm_stats_tx port) idx;
     tx \<leftarrow> stats_load tx w;
     Some (rx, tx)
   }"

definition i32_min :: "i32 \<Rightarrow> i32 \<Rightarrow> i32" where
  "i32_min a b = (if sint a \<le> sint b then a else b)"

definition init_dpdk_port ::
  "'y zcsi \<Rightarrow> i32 \<Rightarrow> i32 \<Rightarrow> i32 \<Rightarrow> i32 list \<Rightarrow> i32 list \<Rightarrow> i32 \<Rightarrow> i32 \<Rightarrow> bool \<Rightarrow> bool \<Rightarrow> bool \<Rightarrow> 'y ports world \<Rightarrow>
   PmdPort result \<times> 'y ports world" where
  "init_dpdk_port Z port rxqs txqs rx_cores tx_cores nrxd ntxd loopback tso csumoffload w =
     (let loopbackv = i32_from_bool loopback; tsov = i32_from_bool tso; csumoffloadv = i32_from_bool csumoffload;
          max_txqs = max_txqs Z port w; max_rxqs = max_rxqs Z port w;
          actual_rxqs = i32_min max_rxqs rxqs; actual_txqs = i32_min max_txqs txqs in
      if i32_index actual_txqs \<le> length tx_cores \<and> i32_index actual_rxqs \<le> length rx_cores then
        let (ret, w) = init_pmd_port Z port actual_rxqs actual_txqs rx_cores tx_cores nrxd ntxd loopbackv tsov csumoffloadv w in
        if ret = 0 then
          let (stats_rx, w) = new_stats (nat (sint rxqs)) w; (stats_tx, w) = new_stats (nat (sint txqs)) w in
          (Inr \<lparr>pm_connected = True, pm_should_close = True, pm_port = port, pm_rxqs = actual_rxqs, pm_txqs = actual_txqs,
             pm_stats_rx = stats_rx, pm_stats_tx = stats_tx\<rparr>, w)
        else (Inl (FailedToInitializePort (sint port)), w)
      else (Inl (FailedToInitializePort (sint port)), w))"

text \<open>The port of a ring, with one queue pair: the common part of \<open>new_bess_port\<close> and \<open>new_ovs_port\<close>.\<close>

definition ring_port :: "i32 \<Rightarrow> 'y ports world \<Rightarrow> PmdPort result \<times> 'y ports world" where
  "ring_port port w =
     (if 0 \<le> sint port then
        let (stats_rx, w) = PortStats_new w; (stats_tx, w) = PortStats_new w in
        (Inr \<lparr>pm_connected = True, pm_should_close = False, pm_port = port, pm_rxqs = 1, pm_txqs = 1,
           pm_stats_rx = [stats_rx], pm_stats_tx = [stats_tx]\<rparr>, w)
      else (Inl (FailedToInitializePort (sint port)), w))"

definition new_bess_port :: "'y zcsi \<Rightarrow> string \<Rightarrow> i32 \<Rightarrow> 'y ports world \<Rightarrow> (PmdPort result \<times> 'y ports world) option" where
  "new_bess_port Z name core w = do {
     ifname \<leftarrow> CString_new name;
     let (port, w) = init_bess_eth_ring Z ifname core w;
     Some (ring_port port w)
   }"

definition new_ovs_port :: "'y zcsi \<Rightarrow> string \<Rightarrow> i32 \<Rightarrow> 'y ports world \<Rightarrow> PmdPort result \<times> 'y ports world" where
  "new_ovs_port Z name core w = (case parse_i32 name of
      Some iface \<Rightarrow> (let (port, w) = init_ovs_eth_ring Z iface core w in ring_port port w)
    | None \<Rightarrow> (Inl (BadVdev name), w))"

text \<open>\<open>is_pci\<close> is the match of the regular expression for the short form of a PCI address.\<close>

definition cannonicalize_pci :: "(string \<Rightarrow> bool) \<Rightarrow> string \<Rightarrow> string option" where
  "cannonicalize_pci is_pci pci = (if is_pci pci then CString_new (''0000:'' @ pci) else CString_new pci)"

definition new_dpdk_port ::
  "'y zcsi \<Rightarrow> (string \<Rightarrow> bool) \<Rightarrow> string \<Rightarrow> i32 \<Rightarrow> i32 \<Rightarrow> i32 list \<Rightarrow> i32 list \<Rightarrow> i32 \<Rightarrow> i32 \<Rightarrow> bool \<Rightarrow> bool \<Rightarrow> bool \<Rightarrow> 'y ports world \<Rightarrow>
   (PmdPort result \<times> 'y ports world) option" where
  "new_dpdk_port Z is_pci spec rxqs txqs rx_cores tx_cores nrxd ntxd loopback tso csumoffload w = do {
     cannonical_spec \<leftarrow> cannonicalize_pci is_pci spec;
     let (port, w) = attach_pmd_device Z cannonical_spec w;
     if 0 \<le> sint port then
       (case init_dpdk_port Z port rxqs txqs rx_cores tx_cores nrxd ntxd loopback tso csumoffload w of
          (Inr p, w) \<Rightarrow> Some (Inr p, w)
        | (Inl e, w) \<Rightarrow> Some (Inl (BadDev spec), w))
     else Some (Inl (BadDev spec), w)
   }"

definition null_port :: "'y ports world \<Rightarrow> PmdPort result \<times> 'y ports world" where
  "null_port w = (let (stats_rx, w) = PortStats_new w; (stats_tx, w) = PortStats_new w in
     (Inr \<lparr>pm_connected = False, pm_should_close = False, pm_port = 0, pm_rxqs = 0, pm_txqs = 0,
        pm_stats_rx = [stats_rx], pm_stats_tx = [stats_tx]\<rparr>, w))"

text \<open>\<open>name.splitn(2, ':')\<close>\<close>

definition splitn2 :: "string \<Rightarrow> string list" where
  "splitn2 name = (if CHR '':'' \<in> set name
     then [takeWhile (\<lambda>c. c \<noteq> CHR '':'') name, tl (dropWhile (\<lambda>c. c \<noteq> CHR '':'') name)] else [name])"

definition new_port_with_queues_descriptors_offloads ::
  "'y zcsi \<Rightarrow> (string \<Rightarrow> bool) \<Rightarrow> string \<Rightarrow> i32 \<Rightarrow> i32 \<Rightarrow> i32 list \<Rightarrow> i32 list \<Rightarrow> i32 \<Rightarrow> i32 \<Rightarrow> bool \<Rightarrow> bool \<Rightarrow> bool \<Rightarrow> 'y ports world \<Rightarrow>
   (PmdPort result \<times> 'y ports world) option" where
  "new_port_with_queues_descriptors_offloads Z is_pci name rxqs txqs rx_cores tx_cores nrxd ntxd loopback tso csumoffload w = do {
     let parts = splitn2 name;
     kind \<leftarrow> vec_get parts 0;
     if kind = ''bess'' then do {
       part \<leftarrow> vec_get parts 1;
       core \<leftarrow> vec_get rx_cores 0;
       new_bess_port Z part core w
     } else if kind = ''ovs'' then do {
       part \<leftarrow> vec_get parts 1;
       core \<leftarrow> vec_get rx_cores 0;
       Some (new_ovs_port Z part core w)
     } else if kind = ''dpdk'' then do {
       part \<leftarrow> vec_get parts 1;
       new_dpdk_port Z is_pci part rxqs txqs rx_cores tx_cores nrxd ntxd loopback tso csumoffload w
     } else if kind = ''null'' then Some (null_port w)
     else new_dpdk_port Z is_pci name rxqs txqs rx_cores tx_cores nrxd ntxd loopback tso csumoffload w
   }"

definition new_port_from_configuration ::
  "'y zcsi \<Rightarrow> (string \<Rightarrow> bool) \<Rightarrow> PortConfiguration \<Rightarrow> 'y ports world \<Rightarrow> (PmdPort result \<times> 'y ports world) option" where
  "new_port_from_configuration Z is_pci c w =
     new_port_with_queues_descriptors_offloads Z is_pci (pc_name c) (of_nat (length (pc_rx_queues c))) (of_nat (length (pc_tx_queues c)))
       (pc_rx_queues c) (pc_tx_queues c) (pc_rxd c) (pc_txd c) (pc_loopback c) (pc_tso c) (pc_csum c) w"

definition PmdPort_new_with_queues ::
  "'y zcsi \<Rightarrow> (string \<Rightarrow> bool) \<Rightarrow> string \<Rightarrow> i32 \<Rightarrow> i32 \<Rightarrow> i32 list \<Rightarrow> i32 list \<Rightarrow> 'y ports world \<Rightarrow> (PmdPort result \<times> 'y ports world) option" where
  "PmdPort_new_with_queues Z is_pci name rxqs txqs rx_cores tx_cores w =
     new_port_with_queues_descriptors_offloads Z is_pci name rxqs txqs rx_cores tx_cores NUM_RXD NUM_TXD False False False w"

definition PmdPort_new_with_cores ::
  "'y zcsi \<Rightarrow> (string \<Rightarrow> bool) \<Rightarrow> string \<Rightarrow> i32 \<Rightarrow> i32 \<Rightarrow> 'y ports world \<Rightarrow> (PmdPort result \<times> 'y ports world) option" where
  "PmdPort_new_with_cores Z is_pci name rx_core tx_core w = PmdPort_new_with_queues Z is_pci name 1 1 [rx_core] [tx_core] w"

definition PmdPort_new ::
  "'y zcsi \<Rightarrow> (string \<Rightarrow> bool) \<Rightarrow> string \<Rightarrow> i32 \<Rightarrow> 'y ports world \<Rightarrow> (PmdPort result \<times> 'y ports world) option" where
  "PmdPort_new Z is_pci name core w = PmdPort_new_with_cores Z is_pci name core core w"

section \<open>Virtual ports\<close>

record VirtualPort =
  vp_stats_rx :: nat
  vp_stats_tx :: nat

record VirtualQueue =
  vq_stats_rx :: nat
  vq_stats_tx :: nat

definition VirtualPort_new :: "i32 \<Rightarrow> 'y ports world \<Rightarrow> VirtualPort result \<times> 'y ports world" where
  "VirtualPort_new queues w = (let (rx, w) = PortStats_new w; (tx, w) = PortStats_new w in
     (Inr \<lparr>vp_stats_rx = rx, vp_stats_tx = tx\<rparr>, w))"

definition new_virtual_queue :: "VirtualPort \<Rightarrow> i32 \<Rightarrow> VirtualQueue result" where
  "new_virtual_queue port queue = Inr \<lparr>vq_stats_rx = vp_stats_rx port, vq_stats_tx = vp_stats_tx port\<rparr>"

definition VirtualPort_stats :: "VirtualPort \<Rightarrow> 'y ports world \<Rightarrow> (usize \<times> usize) option" where
  "VirtualPort_stats port w = do {
     rx \<leftarrow> stats_load (vp_stats_rx port) w;
     tx \<leftarrow> stats_load (vp_stats_tx port) w;
     Some (rx, tx)
   }"

definition VirtualQueue_send :: "'y ports natives \<Rightarrow> VirtualQueue \<Rightarrow> 'y ports PacketTx" where
  "VirtualQueue_send N q pkts w = do {
     let len = (of_nat (length pkts) :: i32);
     stats \<leftarrow> stats_load (vq_stats_tx q) w;
     let update = stats + scast len;
     let w = stats_store (vq_stats_tx q) update w;
     Some (Inr len, snd (mbuf_free_bulk N pkts w))
   }"

definition VirtualQueue_recv :: "'y ports natives \<Rightarrow> VirtualQueue \<Rightarrow> 'y ports PacketRx" where
  "VirtualQueue_recv N q pkts w = do {
     let len = (of_nat (length pkts) :: i32);
     let (status, pkts, w) = mbuf_alloc_bulk N 60 (length pkts) w;
     let alloced = (if status = 0 then len else 0);
     stats \<leftarrow> stats_load (vq_stats_rx q) w;
     let update = stats + scast alloced;
     Some (Inr alloced, pkts, stats_store (vq_stats_rx q) update w)
   }"

section \<open>New ports\<close>

text \<open>A port that is ready: counters for all its queues, each its own.\<close>

definition port_wf :: "PmdPort \<Rightarrow> 'y ports world \<Rightarrow> bool" where
  "port_wf p w \<longleftrightarrow> 0 \<le> sint (pm_rxqs p) \<and> nat (sint (pm_rxqs p)) \<le> length (pm_stats_rx p) \<and>
     0 \<le> sint (pm_txqs p) \<and> nat (sint (pm_txqs p)) \<le> length (pm_stats_tx p) \<and>
     distinct (pm_stats_rx p @ pm_stats_tx p) \<and> (\<forall>a\<in>set (pm_stats_rx p @ pm_stats_tx p). a < length (po_stats (w_ext w)))"

text \<open>The native library has no access to the counters.\<close>

definition zcsi_keeps_stats :: "'y zcsi \<Rightarrow> bool" where
  "zcsi_keeps_stats Z \<longleftrightarrow>
     (\<forall>p r t rc tc nr nt l ts c w. po_stats (w_ext (snd (init_pmd_port Z p r t rc tc nr nt l ts c w))) = po_stats (w_ext w)) \<and>
     (\<forall>s c w. po_stats (w_ext (snd (init_bess_eth_ring Z s c w))) = po_stats (w_ext w)) \<and>
     (\<forall>i c w. po_stats (w_ext (snd (init_ovs_eth_ring Z i c w))) = po_stats (w_ext w)) \<and>
     (\<forall>s w. po_stats (w_ext (snd (attach_pmd_device Z s w))) = po_stats (w_ext w))"

lemma new_stats_fresh:
  "fst (new_stats n w) = [length (po_stats (w_ext w))..<length (po_stats (w_ext w)) + n] \<and>
   po_stats (w_ext (snd (new_stats n w))) = po_stats (w_ext w) @ replicate n 0"
proof (induction n arbitrary: w)
  case (Suc n)
  then show ?case by (simp add: PortStats_new_def Let_def case_prod_beta' upt_conv_Cons del: upt_Suc)
qed simp

lemma i32_index_nonneg:
  assumes "0 \<le> sint i"
  shows "i32_index i = nat (sint i)"
proof -
  have "sint i < 2 ^ 31" using sint_less [of i] by simp
  moreover have "(scast i :: usize) = word_of_int (sint i)" by simp
  ultimately have "uint (scast i :: usize) = sint i" using assms by (simp only: uint_word_of_int) simp
  then show ?thesis by (simp add: i32_index_def unat_eq_nat_uint)
qed

lemma i32_index_neg:
  assumes "i32_index i < 2 ^ 63"
  shows "0 \<le> sint i"
proof (rule ccontr)
  assume n: "\<not> 0 \<le> sint i"
  have "- (2 ^ 31) \<le> sint i" using sint_greater_eq [of i] by simp
  with n have "sint i mod 2 ^ 64 = 2 ^ 64 + sint i" by (intro int_mod_pos_eq [symmetric, THEN sym, of _ _ "- 1"]) auto
  moreover have "(scast i :: usize) = word_of_int (sint i)" by simp
  ultimately have "uint (scast i :: usize) = 2 ^ 64 + sint i" by (simp only: uint_word_of_int) simp
  then have "int (i32_index i) = 2 ^ 64 + sint i" by (simp add: i32_index_def)
  moreover have "int (i32_index i) < 2 ^ 63" using assms by (simp add: nat_less_iff [symmetric] zless_nat_eq_int_zless [symmetric])
  ultimately show False using \<open>- (2 ^ 31) \<le> sint i\<close> by simp
qed

text \<open>
  A new port is ready and its counters are fresh and zero.
\<close>

definition new_port_ready :: "PmdPort \<Rightarrow> 'y ports world \<Rightarrow> 'y ports world \<Rightarrow> bool" where
  "new_port_ready p w w' \<longleftrightarrow> port_wf p w' \<and>
     pm_stats_rx p @ pm_stats_tx p = [length (po_stats (w_ext w))..<length (po_stats (w_ext w'))] \<and>
     po_stats (w_ext w') = po_stats (w_ext w) @ replicate (length (pm_stats_rx p @ pm_stats_tx p)) 0"

lemma ring_port_ready: "ring_port port w = (Inr p, w') \<Longrightarrow> new_port_ready p w w'"
  by (auto simp: ring_port_def PortStats_new_def new_port_ready_def port_wf_def Let_def split: if_splits)

lemma null_port_ready: "null_port w = (Inr p, w') \<Longrightarrow> new_port_ready p w w'"
  by (auto simp: null_port_def PortStats_new_def new_port_ready_def port_wf_def Let_def)

lemma init_dpdk_port_ready:
  assumes Z: "zcsi_keeps_stats Z" and cores: "length rx_cores < 2 ^ 63" "length tx_cores < 2 ^ 63"
    and run: "init_dpdk_port Z port rxqs txqs rx_cores tx_cores nrxd ntxd loopback tso csum w = (Inr p, w')"
  shows "new_port_ready p w w'"
proof -
  let ?rx = "i32_min (max_rxqs Z port w) rxqs" and ?tx = "i32_min (max_txqs Z port w) txqs"
  obtain ret w1 where I: "init_pmd_port Z port ?rx ?tx rx_cores tx_cores nrxd ntxd (i32_from_bool loopback)
      (i32_from_bool tso) (i32_from_bool csum) w = (ret, w1)" by fastforce
  have w1: "po_stats (w_ext w1) = po_stats (w_ext w)" using Z I unfolding zcsi_keeps_stats_def by (metis snd_conv)
  let ?a = "new_stats (nat (sint rxqs)) w1" let ?b = "new_stats (nat (sint txqs)) (snd ?a)"
  have R: "i32_index ?tx \<le> length tx_cores" "i32_index ?rx \<le> length rx_cores"
    "p = \<lparr>pm_connected = True, pm_should_close = True, pm_port = port, pm_rxqs = ?rx, pm_txqs = ?tx,
       pm_stats_rx = fst ?a, pm_stats_tx = fst ?b\<rparr>" "w' = snd ?b"
    using run by (auto simp: init_dpdk_port_def I Let_def case_prod_beta' split: if_splits)
  have nonneg: "0 \<le> sint ?rx" "0 \<le> sint ?tx" using R(1,2) cores by (auto intro!: i32_index_neg)
  have le: "sint ?rx \<le> sint rxqs" "sint ?tx \<le> sint txqs" by (auto simp: i32_min_def)
  note a = new_stats_fresh [of "nat (sint rxqs)" w1] and b = new_stats_fresh [of "nat (sint txqs)" "snd ?a"]
  have A: "fst ?a @ fst ?b = [length (po_stats (w_ext w))..<length (po_stats (w_ext w'))]"
    using a b w1 R(4) upt_add_eq_append [of "length (po_stats (w_ext w))" "length (po_stats (w_ext w)) + nat (sint rxqs)" "nat (sint txqs)"]
    by (simp add: add.assoc)
  then have "distinct (fst ?a @ fst ?b)" "\<forall>x\<in>set (fst ?a @ fst ?b). x < length (po_stats (w_ext w'))"
    by (simp_all only: distinct_upt set_upt) simp
  moreover have "length (fst ?a) = nat (sint rxqs)" "length (fst ?b) = nat (sint txqs)" using a b by simp_all
  ultimately have "port_wf p w'" unfolding port_wf_def R(3) using nonneg le by (simp add: nat_mono)
  moreover have "po_stats (w_ext w') = po_stats (w_ext w) @ replicate (length (fst ?a @ fst ?b)) 0"
    using a b w1 R(4) by (simp add: replicate_add)
  ultimately show ?thesis using A by (simp add: new_port_ready_def R(3))
qed

text \<open>
  C30: Every port that is created, of whichever kind its name selects, is ready for use: it has a counter for
  each of its queues, no two of its queues and no queue of another port share a counter, and the new counters
  are zero.
\<close>

theorem new_port_is_ready:
  assumes "zcsi_keeps_stats Z" and "length rx_cores < 2 ^ 63" and "length tx_cores < 2 ^ 63"
    and "new_port_with_queues_descriptors_offloads Z is_pci name rxqs txqs rx_cores tx_cores nrxd ntxd loopback tso csum w = Some (Inr p, w')"
  shows "port_wf p w' \<and> pm_stats_rx p @ pm_stats_tx p = [length (po_stats (w_ext w))..<length (po_stats (w_ext w'))] \<and>
    po_stats (w_ext w') = po_stats (w_ext w) @ replicate (length (pm_stats_rx p @ pm_stats_tx p)) 0"
proof -
  have same: "new_port_ready p w1 w' \<Longrightarrow> po_stats (w_ext w1) = po_stats (w_ext w) \<Longrightarrow> new_port_ready p w w'" for w1
    by (simp add: new_port_ready_def)
  have dpdk: "new_port_ready p w w'"
    if run: "new_dpdk_port Z is_pci spec rxqs txqs rx_cores tx_cores nrxd ntxd loopback tso csum w = Some (Inr p, w')" for spec
  proof -
    from run obtain c where c: "cannonicalize_pci is_pci spec = Some c" by (auto simp: new_dpdk_port_def bind_eq_Some_conv)
    obtain port w1 where att: "attach_pmd_device Z c w = (port, w1)" by fastforce
    obtain r w2 where init: "init_dpdk_port Z port rxqs txqs rx_cores tx_cores nrxd ntxd loopback tso csum w1 = (r, w2)" by fastforce
    have 1: "attach_pmd_device Z c w = (port, w1)"
      "init_dpdk_port Z port rxqs txqs rx_cores tx_cores nrxd ntxd loopback tso csum w1 = (Inr p, w')"
      using run by (auto simp: new_dpdk_port_def c att init split: if_splits sum.splits)
    have "po_stats (w_ext w1) = po_stats (w_ext w)" using assms(1) 1(1) unfolding zcsi_keeps_stats_def by (metis snd_conv)
    with init_dpdk_port_ready [OF assms(1-3) 1(2)] show ?thesis by (rule same)
  qed
  have bess: "new_port_ready p w w'" if run: "new_bess_port Z part core w = Some (Inr p, w')" for part core
  proof -
    from run obtain c where c: "CString_new part = Some c" by (auto simp: new_bess_port_def bind_eq_Some_conv)
    obtain port w1 where 1: "init_bess_eth_ring Z c core w = (port, w1)" by fastforce
    have 2: "ring_port port w1 = (Inr p, w')" using run by (simp add: new_bess_port_def c 1)
    have "po_stats (w_ext w1) = po_stats (w_ext w)" using assms(1) 1 unfolding zcsi_keeps_stats_def by (metis snd_conv)
    with ring_port_ready [OF 2] show ?thesis by (rule same)
  qed
  have ovs: "new_port_ready p w w'" if run: "new_ovs_port Z part core w = (Inr p, w')" for part core
  proof -
    from run obtain i where i: "parse_i32 part = Some i" by (auto simp: new_ovs_port_def split: option.splits)
    obtain port w1 where 1: "init_ovs_eth_ring Z i core w = (port, w1)" by fastforce
    have 2: "ring_port port w1 = (Inr p, w')" using run by (simp add: new_ovs_port_def i 1)
    have "po_stats (w_ext w1) = po_stats (w_ext w)" using assms(1) 1 unfolding zcsi_keeps_stats_def by (metis snd_conv)
    with ring_port_ready [OF 2] show ?thesis by (rule same)
  qed
  have "(\<exists>part core. new_bess_port Z part core w = Some (Inr p, w')) \<or> (\<exists>part core. new_ovs_port Z part core w = (Inr p, w')) \<or>
      (\<exists>spec. new_dpdk_port Z is_pci spec rxqs txqs rx_cores tx_cores nrxd ntxd loopback tso csum w = Some (Inr p, w')) \<or>
      null_port w = (Inr p, w')"
    using assms(4) unfolding new_port_with_queues_descriptors_offloads_def Let_def
    by (cases "splitn2 name") (auto simp: bind_eq_Some_conv vec_get_def split: if_splits)
  then have "new_port_ready p w w'" using dpdk bess ovs null_port_ready by (elim disjE exE)
  then show ?thesis by (simp add: new_port_ready_def)
qed

text \<open>A device with two receive queues and one send queue, which notes what it hands out and takes.\<close>

type_synonym card = "nat list \<times> nat list \<times> nat list"

definition card_zcsi :: "card zcsi" where
  "card_zcsi = \<lparr>
     send_pkts = \<lambda>p q ms n w. (1, w\<lparr>w_ext := (w_ext w)\<lparr>po_dev := (case po_dev (w_ext w) of (r, s, f) \<Rightarrow> (r, s @ take 1 ms, f))\<rparr>\<rparr>),
     recv_pkts = \<lambda>p q slc n w. (if length slc < 2 then (0, slc, w) else (2, blit 0 [1, 2] slc,
       w\<lparr>w_ext := (w_ext w)\<lparr>po_dev := (case po_dev (w_ext w) of (r, s, f) \<Rightarrow> (r @ [1, 2], s, f))\<rparr>\<rparr>)),
     num_pmd_ports = \<lambda>w. 1, find_port_with_pci_address = \<lambda>s w. 0, max_txqs = \<lambda>p w. 1, max_rxqs = \<lambda>p w. 2,
     init_pmd_port = \<lambda>p r t rc tc nr nt l ts c w. (0, w), free_pmd_port = \<lambda>p w. w,
     init_bess_eth_ring = \<lambda>s c w. (0, w), init_ovs_eth_ring = \<lambda>i c w. (0, w), attach_pmd_device = \<lambda>s w. (3, w),
     rte_eth_macaddr_get = \<lambda>p w. [0, 0, 0, 0, 0, 0]\<rparr>"

definition card_world :: "card ports world" where
  "card_world = \<lparr>w_heap = Map.empty, w_queues = [], w_ext = \<lparr>po_stats = [9], po_dev = ([], [], [])\<rparr>\<rparr>"

definition card_port :: PmdPort where
  "card_port = \<lparr>pm_connected = True, pm_should_close = True, pm_port = 3, pm_rxqs = 2, pm_txqs = 1, pm_stats_rx = [1, 2, 3], pm_stats_tx = [4]\<rparr>"

definition card_world' :: "card ports world" where
  "card_world' = \<lparr>w_heap = Map.empty, w_queues = [], w_ext = \<lparr>po_stats = [9, 0, 0, 0, 0], po_dev = ([], [], [])\<rparr>\<rparr>"

lemma card_keeps_stats: "zcsi_keeps_stats card_zcsi"
  by (simp add: zcsi_keeps_stats_def card_zcsi_def)

lemma sint_small: "sint (0 :: i32) = 0" "sint (1 :: i32) = 1" "sint (2 :: i32) = 2" "sint (3 :: i32) = 3"
  by (simp_all add: sint_uint)

lemma card_port_init:
  "init_dpdk_port card_zcsi 3 3 1 [5, 6, 7] [5] 128 128 False False False card_world = (Inr card_port, card_world')"
  by (simp add: init_dpdk_port_def card_zcsi_def i32_min_def i32_index_nonneg sint_small eval_nat_numeral PortStats_new_def card_world_def card_world'_def
      card_port_def Let_def)

theorem new_port_is_ready_witness:
  "new_port_with_queues_descriptors_offloads card_zcsi (\<lambda>s. False) ''dpdk:eth0'' 3 1 [5, 6, 7] [5] 128 128 False False False card_world =
     Some (Inr card_port, card_world') \<and> port_wf card_port card_world'"
proof -
  have split: "splitn2 ''dpdk:eth0'' = [''dpdk'', ''eth0'']" by code_simp
  have att: "attach_pmd_device card_zcsi s w = (3, w)" for s w by (simp add: card_zcsi_def)
  have cstr: "CString_new ''eth0'' = Some ''eth0''" by code_simp
  have run: "new_port_with_queues_descriptors_offloads card_zcsi (\<lambda>s. False) ''dpdk:eth0'' 3 1 [5, 6, 7] [5] 128 128 False False False card_world =
      Some (Inr card_port, card_world')"
    by (simp add: new_port_with_queues_descriptors_offloads_def split vec_get_def new_dpdk_port_def cannonicalize_pci_def
        cstr att card_port_init sint_small)
  from new_port_is_ready [OF card_keeps_stats _ _ this] run show ?thesis by simp
qed

section \<open>Queue pairs\<close>

text \<open>
  C31: A queue pair of a port within the configured numbers of queues is granted, for the right port and queues, and
  counts with counters that exist; different queues, and the two directions, count with different counters.
\<close>

theorem queue_pairs_count_apart:
  assumes "port_wf p w" and "0 \<le> sint rxq" and "sint rxq < sint (pm_rxqs p)" and "0 \<le> sint txq" and "sint txq < sint (pm_txqs p)"
    and "0 \<le> sint rxq'" and "sint rxq' < sint (pm_rxqs p)" and "0 \<le> sint txq'" and "sint txq' < sint (pm_txqs p)"
  shows "\<exists>q q'. new_queue_pair p rxq txq = Some (Inr q) \<and> new_queue_pair p rxq' txq' = Some (Inr q') \<and>
    pq_port_id q = pm_port p \<and> pq_rxq q = rxq \<and> pq_txq q = txq \<and>
    stats_load (pq_stats_rx q) w \<noteq> None \<and> stats_load (pq_stats_tx q) w \<noteq> None \<and>
    (pq_stats_rx q = pq_stats_rx q' \<longleftrightarrow> rxq = rxq') \<and> (pq_stats_tx q = pq_stats_tx q' \<longleftrightarrow> txq = txq') \<and>
    pq_stats_rx q \<noteq> pq_stats_tx q' \<and> pq_stats_rx q \<noteq> pq_stats_tx q"
proof -
  have len: "nat (sint rxq) < length (pm_stats_rx p)" "nat (sint rxq') < length (pm_stats_rx p)"
    "nat (sint txq) < length (pm_stats_tx p)" "nat (sint txq') < length (pm_stats_tx p)"
    using assms unfolding port_wf_def by linarith+
  have d: "distinct (pm_stats_rx p)" "distinct (pm_stats_tx p)" "set (pm_stats_rx p) \<inter> set (pm_stats_tx p) = {}"
    "\<forall>a\<in>set (pm_stats_rx p) \<union> set (pm_stats_tx p). a < length (po_stats (w_ext w))"
    using assms(1) by (auto simp: port_wf_def)
  have ext: "nat (sint a) = nat (sint b) \<longleftrightarrow> a = b" if "0 \<le> sint a" "0 \<le> sint b" for a b :: i32
    using that by (metis nat_0_le signed_word_eqI)
  have get: "new_queue_pair p a b = Some (Inr \<lparr>pq_port = p, pq_stats_rx = pm_stats_rx p ! nat (sint a),
      pq_stats_tx = pm_stats_tx p ! nat (sint b), pq_port_id = pm_port p, pq_txq = b, pq_rxq = a\<rparr>)"
    if "0 \<le> sint a" "sint a < sint (pm_rxqs p)" "0 \<le> sint b" "sint b < sint (pm_txqs p)"
      "nat (sint a) < length (pm_stats_rx p)" "nat (sint b) < length (pm_stats_tx p)" for a b
    using that by (simp add: new_queue_pair_def i32_index_nonneg vec_get_def)
  have disj: "pm_stats_rx p ! i \<noteq> pm_stats_tx p ! j" if "i < length (pm_stats_rx p)" "j < length (pm_stats_tx p)" for i j
    using d(3) nth_mem [OF that(1)] nth_mem [OF that(2)] by (metis disjoint_iff)
  show ?thesis
    using get [OF assms(2-5) len(1,3)] get [OF assms(6-9) len(2,4)] len d assms(2,4,6,8)
    by (auto simp: stats_load_def vec_get_def nth_eq_iff_index_eq ext disj)
qed

theorem queue_pairs_count_apart_witness:
  "\<exists>q q'. new_queue_pair card_port 0 0 = Some (Inr q) \<and> new_queue_pair card_port 1 0 = Some (Inr q') \<and> pq_stats_rx q \<noteq> pq_stats_rx q'"
proof -
  have "port_wf card_port card_world'" by (simp add: port_wf_def card_port_def card_world'_def sint_small)
  from queue_pairs_count_apart [OF this, of 0 0 1 0] show ?thesis by (auto simp: card_port_def sint_small)
qed

text \<open>
  The bound is one too large: for a port made by \<open>init_dpdk_port\<close>, asking for the receive queue whose number is
  the number of queues is not answered with \<open>BadRxQueue\<close>.  If the device has as many queues as were asked for, the call
  panics; if it has fewer, a pair is granted for a queue that was not set up.
\<close>

theorem queue_pair_bound_off_by_one:
  assumes "init_dpdk_port Z port rxqs txqs rx_cores tx_cores nrxd ntxd loopback tso csum w = (Inr p, w')"
    and "0 \<le> sint (pm_rxqs p)" and "0 < sint (pm_txqs p)"
  shows "new_queue_pair p (pm_rxqs p) 0 = None \<and> pm_rxqs p = rxqs \<or>
    sint (pm_rxqs p) < sint rxqs \<and> (\<exists>q. new_queue_pair p (pm_rxqs p) 0 = Some (Inr q) \<and> pq_rxq q = pm_rxqs p)"
proof -
  have rx: "pm_rxqs p = i32_min (max_rxqs Z port w) rxqs" and tx: "pm_txqs p = i32_min (max_txqs Z port w) txqs"
    and len: "length (pm_stats_rx p) = nat (sint rxqs)" "length (pm_stats_tx p) = nat (sint txqs)"
    using assms(1) by (auto simp: init_dpdk_port_def Let_def case_prod_beta' new_stats_fresh split: if_splits)
  have le: "sint (pm_rxqs p) \<le> sint rxqs" "sint (pm_txqs p) \<le> sint txqs" by (auto simp: rx tx i32_min_def)
  show ?thesis
  proof (cases "pm_rxqs p = rxqs")
    case True
    with assms(2,3) len show ?thesis by (simp add: new_queue_pair_def i32_index_nonneg vec_get_def sint_small)
  next
    case False
    with le(1) have "sint (pm_rxqs p) < sint rxqs" by (metis signed_word_eqI less_le)
    with assms(2,3) len le(2) show ?thesis by (simp add: new_queue_pair_def i32_index_nonneg vec_get_def sint_small nat_less_eq_zless)
  qed
qed

theorem queue_pair_bound_off_by_one_witness:
  "\<exists>q. new_queue_pair card_port 2 0 = Some (Inr q) \<and> pq_rxq q = 2 \<and> pm_rxqs card_port = 2"
proof -
  have "pm_rxqs card_port = 2" "pm_txqs card_port = 1" by (simp_all add: card_port_def)
  with queue_pair_bound_off_by_one [OF card_port_init] show ?thesis
    by (auto simp: sint_small dest: arg_cong [of _ _ sint])
qed

section \<open>Sending and receiving\<close>

text \<open>
  The documented behaviour of the native library: it takes, or fills, the front of the array and says how many
  mbufs these are; the books of the devices record them.
\<close>

definition device_books :: "'y ledger \<Rightarrow> 'y zcsi \<Rightarrow> bool" where
  "device_books L Z \<longleftrightarrow>
     (\<forall>p q ms n w sent w'. send_pkts Z p q ms n w = (sent, w') \<longrightarrow> 0 \<le> sint sent \<and> unat sent \<le> length ms \<and>
        po_stats (w_ext w') = po_stats (w_ext w) \<and> l_received L (po_dev (w_ext w')) = l_received L (po_dev (w_ext w)) \<and>
        l_freed L (po_dev (w_ext w')) = l_freed L (po_dev (w_ext w)) \<and>
        l_sent L (po_dev (w_ext w')) = l_sent L (po_dev (w_ext w)) + mset (take (unat sent) ms)) \<and>
     (\<forall>p q slc n w recv ms w'. recv_pkts Z p q slc n w = (recv, ms, w') \<longrightarrow> 0 \<le> sint recv \<and> unat recv \<le> length slc \<and>
        length ms = length slc \<and>
        po_stats (w_ext w') = po_stats (w_ext w) \<and> l_sent L (po_dev (w_ext w')) = l_sent L (po_dev (w_ext w)) \<and>
        l_freed L (po_dev (w_ext w')) = l_freed L (po_dev (w_ext w)) \<and>
        l_received L (po_dev (w_ext w')) = l_received L (po_dev (w_ext w)) + mset (take (unat recv) ms))"

definition ports_ledger :: "'y ledger \<Rightarrow> 'y ports ledger" where
  "ports_ledger L = \<lparr>l_received = \<lambda>x. l_received L (po_dev x), l_sent = \<lambda>x. l_sent L (po_dev x), l_freed = \<lambda>x. l_freed L (po_dev x)\<rparr>"

lemma nonneg_scast:
  fixes i :: i32
  assumes "0 \<le> sint i"
  shows "unat (scast i :: usize) = unat i"
proof -
  have a: "unat (scast i :: usize) = nat (sint i)" using i32_index_nonneg [OF assms] by (simp add: i32_index_def)
  have "uint (word_of_int (sint i) :: i32) = sint i"
    using assms sint_less [of i] by (simp only: uint_word_of_int) simp
  then have "nat (uint i) = nat (sint i)" by simp
  then have "unat i = nat (sint i)" unfolding unat_eq_nat_uint .
  then show ?thesis unfolding a by (rule sym)
qed

lemma scast_of_nat: "0 \<le> sint (i :: i32) \<Longrightarrow> (scast i :: usize) = of_nat (unat i)"
  by (subst nonneg_scast [symmetric]) simp_all

lemma PortQueue_send_SomeE:
  assumes "device_books L Z" and "PortQueue_send Z q pkts w = Some (r, w')"
  obtains sent c where "r = Inr sent" "unat sent \<le> length pkts" "stats_load (pq_stats_tx q) w = Some c"
    "po_stats (w_ext w') = (po_stats (w_ext w))[pq_stats_tx q := c + of_nat (unat sent)]"
    "l_received L (po_dev (w_ext w')) = l_received L (po_dev (w_ext w))" "l_freed L (po_dev (w_ext w')) = l_freed L (po_dev (w_ext w))"
    "l_sent L (po_dev (w_ext w')) = l_sent L (po_dev (w_ext w)) + mset (take (unat sent) pkts)"
proof -
  obtain sent w1 where S: "send_pkts Z (pq_port_id q) (pq_txq q) pkts (of_nat (length pkts)) w = (sent, w1)" by fastforce
  have B: "0 \<le> sint sent" "unat sent \<le> length pkts" "po_stats (w_ext w1) = po_stats (w_ext w)"
    "l_received L (po_dev (w_ext w1)) = l_received L (po_dev (w_ext w))" "l_freed L (po_dev (w_ext w1)) = l_freed L (po_dev (w_ext w))"
    "l_sent L (po_dev (w_ext w1)) = l_sent L (po_dev (w_ext w)) + mset (take (unat sent) pkts)"
    using assms(1) S unfolding device_books_def by blast+
  obtain c where R: "stats_load (pq_stats_tx q) w1 = Some c" "r = Inr sent" "w' = stats_store (pq_stats_tx q) (c + scast sent) w1"
    using assms(2) by (auto simp: PortQueue_send_def send_queue_def S bind_eq_Some_conv)
  show ?thesis using that [of sent c] R B by (simp add: stats_store_def stats_load_def scast_of_nat [OF B(1)])
qed

lemma PortQueue_recv_SomeE:
  assumes "device_books L Z" and "PortQueue_recv Z q pkts w = Some (r, ms, w')"
  obtains recv c where "r = Inr recv" "unat recv \<le> length pkts" "length ms = length pkts" "stats_load (pq_stats_rx q) w = Some c"
    "po_stats (w_ext w') = (po_stats (w_ext w))[pq_stats_rx q := c + of_nat (unat recv)]"
    "l_sent L (po_dev (w_ext w')) = l_sent L (po_dev (w_ext w))" "l_freed L (po_dev (w_ext w')) = l_freed L (po_dev (w_ext w))"
    "l_received L (po_dev (w_ext w')) = l_received L (po_dev (w_ext w)) + mset (take (unat recv) ms)"
proof -
  obtain recv ms1 w1 where S: "recv_pkts Z (pq_port_id q) (pq_rxq q) pkts (of_nat (length pkts)) w = (recv, ms1, w1)"
    by (metis prod_cases3)
  have B: "0 \<le> sint recv" "unat recv \<le> length pkts" "length ms1 = length pkts" "po_stats (w_ext w1) = po_stats (w_ext w)"
    "l_sent L (po_dev (w_ext w1)) = l_sent L (po_dev (w_ext w))" "l_freed L (po_dev (w_ext w1)) = l_freed L (po_dev (w_ext w))"
    "l_received L (po_dev (w_ext w1)) = l_received L (po_dev (w_ext w)) + mset (take (unat recv) ms1)"
    using assms(1) S unfolding device_books_def by blast+
  obtain c where R: "stats_load (pq_stats_rx q) w1 = Some c" "r = Inr recv" "ms = ms1"
    "w' = stats_store (pq_stats_rx q) (c + scast recv) w1"
    using assms(2) by (auto simp: PortQueue_recv_def recv_queue_def S bind_eq_Some_conv)
  show ?thesis using that [of recv c] R B by (simp add: stats_store_def stats_load_def scast_of_nat [OF B(1)])
qed

lemma PortQueue_recv_total:
  assumes "device_books L Z" and "stats_load (pq_stats_rx q) w = Some c"
  shows "PortQueue_recv Z q slc w \<noteq> None"
proof -
  obtain recv ms1 w1 where S: "recv_pkts Z (pq_port_id q) (pq_rxq q) slc (of_nat (length slc)) w = (recv, ms1, w1)"
    by (metis prod_cases3)
  then have "po_stats (w_ext w1) = po_stats (w_ext w)" using assms(1) unfolding device_books_def by blast
  with S assms(2) show ?thesis by (simp add: PortQueue_recv_def recv_queue_def stats_load_def)
qed

lemma PortQueue_send_total:
  assumes "device_books L Z" and "stats_load (pq_stats_tx q) w = Some c"
  shows "PortQueue_send Z q out w \<noteq> None"
proof -
  obtain sent w1 where S: "send_pkts Z (pq_port_id q) (pq_txq q) out (of_nat (length out)) w = (sent, w1)" by fastforce
  then have "po_stats (w_ext w1) = po_stats (w_ext w)" using assms(1) unfolding device_books_def by blast
  with S assms(2) show ?thesis by (simp add: PortQueue_send_def send_queue_def stats_load_def)
qed

text \<open>A port queue keeps the books that the pipelines rely on.\<close>

lemma PortQueue_tx_books: "device_books L Z \<Longrightarrow> tx_books (ports_ledger L) (PortQueue_send Z q)"
  unfolding tx_books_def ports_ledger_def by (auto elim!: PortQueue_send_SomeE)

lemma PortQueue_rx_books: "device_books L Z \<Longrightarrow> rx_books (ports_ledger L) (PortQueue_recv Z q)"
  unfolding rx_books_def ports_ledger_def by (auto elim!: PortQueue_recv_SomeE)

text \<open>
  C29: The statistics of a port queue are exact modulo \<open>2 ^ 64\<close>: on a queue whose counters exist, receiving and then sending succeed for
  any slices, the number reported is the number of mbufs the device handed out or took, the counter of each direction grows by that
  number, and no other counter changes.  In particular a counter is exact until \<open>2 ^ 64\<close> mbufs have passed.
\<close>

theorem port_counters_exact:
  assumes "device_books L Z" and "pq_stats_rx q \<noteq> pq_stats_tx q"
    and "stats_load (pq_stats_rx q) w = Some c" and "stats_load (pq_stats_tx q) w = Some d"
  shows "\<exists>recv ms w1 sent w2. PortQueue_recv Z q slc w = Some (Inr recv, ms, w1) \<and> PortQueue_send Z q out w1 = Some (Inr sent, w2) \<and>
    map_option unat (stats_load (pq_stats_rx q) w2) = Some ((unat c + unat recv) mod 2 ^ 64) \<and>
    map_option unat (stats_load (pq_stats_tx q) w2) = Some ((unat d + unat sent) mod 2 ^ 64) \<and>
    (\<forall>a. a \<noteq> pq_stats_rx q \<and> a \<noteq> pq_stats_tx q \<longrightarrow> stats_load a w2 = stats_load a w) \<and>
    size (l_received L (po_dev (w_ext w2))) = size (l_received L (po_dev (w_ext w))) + unat recv \<and>
    size (l_sent L (po_dev (w_ext w2))) = size (l_sent L (po_dev (w_ext w))) + unat sent"
proof -
  obtain r ms w1 where 1: "PortQueue_recv Z q slc w = Some (r, ms, w1)"
    using PortQueue_recv_total [OF assms(1,3)] by (metis option.exhaust prod_cases3)
  obtain recv c' where R: "r = Inr recv" "unat recv \<le> length slc" "length ms = length slc" "stats_load (pq_stats_rx q) w = Some c'"
    "po_stats (w_ext w1) = (po_stats (w_ext w))[pq_stats_rx q := c' + of_nat (unat recv)]"
    "l_sent L (po_dev (w_ext w1)) = l_sent L (po_dev (w_ext w))"
    "l_received L (po_dev (w_ext w1)) = l_received L (po_dev (w_ext w)) + mset (take (unat recv) ms)"
    by (rule PortQueue_recv_SomeE [OF assms(1) 1]) (rule that; assumption)
  have d: "stats_load (pq_stats_tx q) w1 = Some d" using assms(2,4) R(5) by (simp add: stats_load_def vec_get_def split: if_splits)
  obtain r' w2 where 2: "PortQueue_send Z q out w1 = Some (r', w2)"
    using PortQueue_send_total [OF assms(1) d] by (metis option.exhaust surj_pair)
  obtain sent d' where S: "r' = Inr sent" "unat sent \<le> length out" "stats_load (pq_stats_tx q) w1 = Some d'"
    "po_stats (w_ext w2) = (po_stats (w_ext w1))[pq_stats_tx q := d' + of_nat (unat sent)]"
    "l_received L (po_dev (w_ext w2)) = l_received L (po_dev (w_ext w1))"
    "l_sent L (po_dev (w_ext w2)) = l_sent L (po_dev (w_ext w1)) + mset (take (unat sent) out)"
    by (rule PortQueue_send_SomeE [OF assms(1) 2]) (rule that; assumption)
  have len: "pq_stats_rx q < length (po_stats (w_ext w))" "pq_stats_tx q < length (po_stats (w_ext w))"
    using assms(3,4) by (auto simp: stats_load_def vec_get_def split: if_splits)
  have add: "unat (x + of_nat n :: usize) = (unat x + n) mod 2 ^ 64" for x n
    by (simp add: unat_word_ariths unat_of_nat mod_add_right_eq)
  have eq: "c' = c" "d' = d" using R(4) S(3) assms(3) d by simp_all
  have "stats_load (pq_stats_rx q) w2 = Some (c + of_nat (unat recv))" "stats_load (pq_stats_tx q) w2 = Some (d + of_nat (unat sent))"
    using R(5) S(4) len assms(2) by (simp_all add: stats_load_def vec_get_def eq)
  then have "map_option unat (stats_load (pq_stats_rx q) w2) = Some ((unat c + unat recv) mod 2 ^ 64)"
    "map_option unat (stats_load (pq_stats_tx q) w2) = Some ((unat d + unat sent) mod 2 ^ 64)" by (simp_all only: option.map add)
  moreover have "\<forall>a. a \<noteq> pq_stats_rx q \<and> a \<noteq> pq_stats_tx q \<longrightarrow> stats_load a w2 = stats_load a w"
    using R(5) S(4) by (simp add: stats_load_def vec_get_def)
  moreover have "size (l_received L (po_dev (w_ext w2))) = size (l_received L (po_dev (w_ext w))) + unat recv"
    "size (l_sent L (po_dev (w_ext w2))) = size (l_sent L (po_dev (w_ext w))) + unat sent" using R S by simp_all
  ultimately show ?thesis using 1 2 R(1) S(1) by blast
qed

definition card_ledger :: "card ledger" where
  "card_ledger = \<lparr>l_received = \<lambda>(r, s, f). mset r, l_sent = \<lambda>(r, s, f). mset s, l_freed = \<lambda>(r, s, f). mset f\<rparr>"

definition card_zcsi_busy :: "card zcsi" where
  "card_zcsi_busy = card_zcsi\<lparr>send_pkts := \<lambda>p q ms n w. if ms = [] then (0, w) else send_pkts card_zcsi p q ms n w\<rparr>"

lemma card_books: "device_books card_ledger card_zcsi_busy"
  by (auto simp: device_books_def card_ledger_def card_zcsi_busy_def card_zcsi_def sint_small blit_def Suc_le_eq split: prod.splits if_splits)

definition card_queue :: PortQueue where
  "card_queue = \<lparr>pq_port = card_port, pq_stats_rx = 1, pq_stats_tx = 4, pq_port_id = 3, pq_txq = 0, pq_rxq = 0\<rparr>"

theorem port_counters_exact_witness:
  "\<exists>recv ms w1 sent w2. PortQueue_recv card_zcsi_busy card_queue [0, 0, 0] card_world' = Some (Inr recv, ms, w1) \<and>
     PortQueue_send card_zcsi_busy card_queue [1, 2] w1 = Some (Inr sent, w2) \<and>
     map_option unat (stats_load 1 w2) = Some (unat recv mod 2 ^ 64) \<and> map_option unat (stats_load 4 w2) = Some (unat sent mod 2 ^ 64) \<and>
     stats_load 0 w2 = Some 9"
proof -
  have q: "pq_stats_rx card_queue = 1" "pq_stats_tx card_queue = 4" by (simp_all add: card_queue_def)
  have "stats_load 1 card_world' = Some 0" "stats_load 4 card_world' = Some 0" "stats_load 0 card_world' = Some 9"
    by (simp_all add: card_world'_def stats_load_def vec_get_def)
  with port_counters_exact [OF card_books, of card_queue card_world' 0 0 "[0, 0, 0]" "[1, 2]"] show ?thesis
    unfolding q by fastforce
qed

text \<open>
  C5: Forwarding between ports loses no mbuf: a pipeline that merges the receive queues of any ports and
  sends to a queue of a port, run for any number of rounds, ends with every mbuf that the devices handed out
  sent or freed, exactly once.
\<close>

theorem forwarding_loses_no_mbuf:
  assumes "device_books L Z" and "native_books (ports_ledger L) N" and "qs \<noteq> []"
    and "l_received L (po_dev (w_ext w)) = l_sent L (po_dev (w_ext w)) + l_freed L (po_dev (w_ext w))"
    and "rounds (SendBatch_execute (MergeBatch_ops (ReceiveBatch_ops N))) n
      (SendBatch_new (MergeBatch_new (map (\<lambda>q. ReceiveBatch_new (PortQueue_recv Z q)) qs)) (PortQueue_send Z out)) w = Some (b', w')"
  shows "l_received L (po_dev (w_ext w')) = l_sent L (po_dev (w_ext w')) + l_freed L (po_dev (w_ext w'))"
proof -
  let ?L = "ports_ledger L"
  have rb: "receive_ok N ?L (ReceiveBatch_new (PortQueue_recv Z q))" "receive_held (ReceiveBatch_new (PortQueue_recv Z q)) = {#}" for q
    using assms(2) PortQueue_rx_books [OF assms(1)]
    by (simp_all add: receive_ok_def receive_held_def ReceiveBatch_new_def PacketBatch_new_def pb_wf_def pb_array_def)
  have sum: "sum_list (map (\<lambda>q. receive_held (ReceiveBatch_new (PortQueue_recv Z q))) qs) = {#}"
    by (simp add: rb(2))
  have "balanced ?L w {#}" using assms(4) by (simp add: balanced_def ports_ledger_def)
  then have "balanced ?L w' {#}"
    using accounted_batch.send_rounds [OF rba.accounted_merge _ _ _ assms(5), of ?L "{#}"] assms(3) PortQueue_tx_books [OF assms(1)]
    by (simp add: SendBatch_new_def MergeBatch_new_def rb comp_def sum)
  then show ?thesis by (simp add: balanced_def ports_ledger_def)
qed

definition card_natives :: "card ports natives" where
  "card_natives = \<lparr>mbuf_alloc_bulk = \<lambda>len cnt w. (0, replicate cnt 0, w),
     mbuf_free_bulk = \<lambda>ms w. (0, w\<lparr>w_ext := (w_ext w)\<lparr>po_dev := (case po_dev (w_ext w) of (r, s, f) \<Rightarrow> (r, s, f @ ms))\<rparr>\<rparr>)\<rparr>"

lemma card_native_books: "native_books (ports_ledger card_ledger) card_natives"
  by (auto simp: native_books_def ports_ledger_def card_ledger_def card_natives_def split: prod.splits)

theorem forwarding_loses_no_mbuf_witness:
  "\<exists>b' w'. rounds (SendBatch_execute (MergeBatch_ops (ReceiveBatch_ops card_natives))) 3
      (SendBatch_new (MergeBatch_new (map (\<lambda>q. ReceiveBatch_new (PortQueue_recv card_zcsi_busy q)) [card_queue, card_queue\<lparr>pq_rxq := 1, pq_stats_rx := 2\<rparr>]))
        (PortQueue_send card_zcsi_busy card_queue)) card_world' = Some (b', w') \<and>
    po_dev (w_ext w') = ([1, 2, 1, 2, 1, 2], [1, 1, 1], [2, 2, 2]) \<and>
    l_received card_ledger (po_dev (w_ext w')) = l_sent card_ledger (po_dev (w_ext w')) + l_freed card_ledger (po_dev (w_ext w'))"
proof -
  let ?run = "rounds (SendBatch_execute (MergeBatch_ops (ReceiveBatch_ops card_natives))) 3
      (SendBatch_new (MergeBatch_new (map (\<lambda>q. ReceiveBatch_new (PortQueue_recv card_zcsi_busy q)) [card_queue, card_queue\<lparr>pq_rxq := 1, pq_stats_rx := 2\<rparr>]))
        (PortQueue_send card_zcsi_busy card_queue)) card_world'"
  have "map_option (\<lambda>(b, w). po_dev (w_ext w)) ?run = Some ([1, 2, 1, 2, 1, 2], [1, 1, 1], [2, 2, 2])" by code_simp
  then obtain b' w' where R: "?run = Some (b', w')" "po_dev (w_ext w') = ([1, 2, 1, 2, 1, 2], [1, 1, 1], [2, 2, 2])"
    by (cases ?run) auto
  have "l_received card_ledger (po_dev (w_ext card_world')) =
      l_sent card_ledger (po_dev (w_ext card_world')) + l_freed card_ledger (po_dev (w_ext card_world'))"
    by (simp add: card_ledger_def card_world'_def)
  from forwarding_loses_no_mbuf [OF card_books card_native_books _ this R(1)] R show ?thesis by blast
qed

end
