(* ===== verification/NB_Scheduler.thy ===== *)
theory NB_Scheduler
  imports NB_Prelude
begin

text \<open>
  The schedulers of \<open>framework/src/scheduler\<close>: the trait \<open>Executable\<close> (\<open>mod.rs\<close>) as a record of functions over a
  type of tasks and a world they act on, the embedded scheduler that runs a task after the tasks it depends
  on (\<open>embedded_scheduler.rs\<close>), and the standalone scheduler that runs its tasks in turn and listens to a channel
  for commands (\<open>standalone_scheduler.rs\<close>).
\<close>

section \<open>Tasks\<close>

record ('t, 'w) Executable =
  ex_execute :: "'t \<Rightarrow> 'w \<Rightarrow> ('t \<times> 'w) option"
  ex_dependencies :: "'t \<Rightarrow> nat list"

text \<open>A closure is a task without dependencies.\<close>

definition closure_Executable :: "('w \<Rightarrow> 'w option, 'w) Executable" where
  "closure_Executable = \<lparr>ex_execute = \<lambda>f w. map_option (\<lambda>w. (f, w)) (f w), ex_dependencies = \<lambda>f. []\<rparr>"

section \<open>The embedded scheduler\<close>

record 't ERunnable =
  er_task :: 't
  er_dependencies :: "nat list"

definition ERunnable_from_task :: "('t, 'w) Executable \<Rightarrow> 't \<Rightarrow> 't ERunnable" where
  "ERunnable_from_task E task = \<lparr>er_task = task, er_dependencies = ex_dependencies E task\<rparr>"

record 't EmbeddedScheduler =
  es_tasks :: "'t ERunnable list"

definition EmbeddedScheduler_new :: "'t EmbeddedScheduler" where
  "EmbeddedScheduler_new = \<lparr>es_tasks = []\<rparr>"

definition es_add_task :: "('t, 'w) Executable \<Rightarrow> 't \<Rightarrow> 't EmbeddedScheduler \<Rightarrow> nat result \<times> 't EmbeddedScheduler" where
  "es_add_task E task s = (let s = s\<lparr>es_tasks := es_tasks s @ [ERunnable_from_task E task]\<rparr> in (Inr (length (es_tasks s)), s))"

text \<open>\<open>self.tasks[task_id - 1]\<close>\<close>

definition es_get :: "'t EmbeddedScheduler \<Rightarrow> nat \<Rightarrow> 't ERunnable option" where
  "es_get s task_id = do {
     i \<leftarrow> len_sub task_id 1;
     vec_get (es_tasks s) i
   }"

text \<open>
  \<open>exec_task\<close> from dependency number \<open>dep\<close> on: the loop over the dependencies, which calls \<open>exec_task\<close>, and then
  the task itself.  Nothing changes the dependencies of a task, so their number is that before the loop.
\<close>

partial_function (option) exec_from ::
  "('t, 'w) Executable \<Rightarrow> nat \<Rightarrow> nat \<Rightarrow> 't EmbeddedScheduler \<Rightarrow> 'w \<Rightarrow> ('t EmbeddedScheduler \<times> 'w) option" where
  [code]: "exec_from E task_id dep s w = do {
     r \<leftarrow> es_get s task_id;
     if dep < length (er_dependencies r) then do {
       dep_task \<leftarrow> vec_get (er_dependencies r) dep;
       sw \<leftarrow> exec_from E dep_task 0 s w;
       exec_from E task_id (dep + 1) (fst sw) (snd sw)
     } else do {
       (t, w) \<leftarrow> ex_execute E (er_task r) w;
       Some (s\<lparr>es_tasks := (es_tasks s)[task_id - 1 := r\<lparr>er_task := t\<rparr>]\<rparr>, w)
     }
   }"

definition exec_task :: "('t, 'w) Executable \<Rightarrow> nat \<Rightarrow> 't EmbeddedScheduler \<Rightarrow> 'w \<Rightarrow> ('t EmbeddedScheduler \<times> 'w) option" where
  "exec_task E task_id s w = exec_from E task_id 0 s w"

text \<open>\<open>display_dependencies_internal\<close>: the lines it prints, depth and task.\<close>

partial_function (option) display_from :: "'t EmbeddedScheduler \<Rightarrow> nat \<Rightarrow> nat \<Rightarrow> nat \<Rightarrow> (nat \<times> nat) list option" where
  [code]: "display_from s task_id depth dep = do {
     r \<leftarrow> es_get s task_id;
     if dep < length (er_dependencies r) then do {
       dep_task \<leftarrow> vec_get (er_dependencies r) dep;
       out \<leftarrow> display_from s dep_task (depth + 1) 0;
       rest \<leftarrow> display_from s task_id depth (dep + 1);
       Some (out @ rest)
     } else Some [(depth, task_id)]
   }"

definition display_dependencies :: "'t EmbeddedScheduler \<Rightarrow> nat \<Rightarrow> (nat \<times> nat) list option" where
  "display_dependencies s task_id = display_from s task_id 0 0"

section \<open>The standalone scheduler\<close>

record 't Runnable =
  rn_task :: 't
  rn_cycles :: "64 word"
  rn_last_run :: "64 word"

text \<open>
  The commands.  A function to run is a name \<open>'f\<close>, which the environment below resolves, since it acts on
  schedulers; a channel for a handshake is a name \<open>'c\<close>.
\<close>

datatype ('t, 'f, 'c) SchedulerCommand =
    Add 't
  | Run 'f
  | Execute
  | Shutdown
  | Handshake 'c

text \<open>
  The receiving end of the channel is what the receiver is going to see: the commands, and \<open>None\<close> where
  it asks before the next command has arrived.  After the last element the senders are gone.
\<close>

type_synonym ('t, 'f, 'c) Receiver = "('t, 'f, 'c) SchedulerCommand option list"

fun try_recv :: "('t, 'f, 'c) Receiver \<Rightarrow> ('t, 'f, 'c) SchedulerCommand option \<times> ('t, 'f, 'c) Receiver" where
  "try_recv [] = (None, [])"
| "try_recv (c # cs) = (c, cs)"

fun recv :: "('t, 'f, 'c) Receiver \<Rightarrow> ('t, 'f, 'c) SchedulerCommand option \<times> ('t, 'f, 'c) Receiver" where
  "recv [] = (None, [])"
| "recv (None # cs) = recv cs"
| "recv (Some c # cs) = (Some c, cs)"

record ('t, 'f, 'c) StandaloneScheduler =
  run_q :: "'t Runnable list"
  next_task :: nat
  sched_channel :: "('t, 'f, 'c) Receiver"
  execute_loop :: bool
  shutdown :: bool

text \<open>
  What a scheduler uses: the tasks, the time stamp counter, the functions it is asked to run, and the answer to
  a handshake followed by the wait for the thread to be released.
\<close>

record ('t, 'f, 'c, 'w) sched_env =
  se_tasks :: "('t, 'w) Executable"
  se_rdtsc :: "'w \<Rightarrow> 64 word \<times> 'w"
  se_run :: "'f \<Rightarrow> ('t, 'f, 'c) StandaloneScheduler \<Rightarrow> 'w \<Rightarrow> (('t, 'f, 'c) StandaloneScheduler \<times> 'w) option"
  se_handshake :: "'c \<Rightarrow> 'w \<Rightarrow> 'w option"

definition Runnable_from_task :: "('t, 'f, 'c, 'w) sched_env \<Rightarrow> 't \<Rightarrow> 'w \<Rightarrow> 't Runnable \<times> 'w" where
  "Runnable_from_task E task w = (let (now, w) = se_rdtsc E w in
     (\<lparr>rn_task = task, rn_cycles = 0, rn_last_run = now\<rparr>, w))"

definition StandaloneScheduler_new_with_channel :: "('t, 'f, 'c) Receiver \<Rightarrow> ('t, 'f, 'c) StandaloneScheduler" where
  "StandaloneScheduler_new_with_channel channel =
     \<lparr>run_q = [], next_task = 0, sched_channel = channel, execute_loop = False, shutdown = True\<rparr>"

definition StandaloneScheduler_new :: "('t, 'f, 'c) StandaloneScheduler" where
  "StandaloneScheduler_new = StandaloneScheduler_new_with_channel []"

definition ss_add_task ::
  "('t, 'f, 'c, 'w) sched_env \<Rightarrow> 't \<Rightarrow> ('t, 'f, 'c) StandaloneScheduler \<Rightarrow> 'w \<Rightarrow> nat result \<times> ('t, 'f, 'c) StandaloneScheduler \<times> 'w" where
  "ss_add_task E task s w = (let (r, w) = Runnable_from_task E task w; s = s\<lparr>run_q := run_q s @ [r]\<rparr> in
     (Inr (length (run_q s)), s, w))"

text \<open>The first half of \<open>execute_internal\<close>: the task whose turn it is.\<close>

definition execute_next ::
  "('t, 'f, 'c, 'w) sched_env \<Rightarrow> 64 word \<Rightarrow> ('t, 'f, 'c) StandaloneScheduler \<Rightarrow> 'w \<Rightarrow>
   (64 word \<times> ('t, 'f, 'c) StandaloneScheduler \<times> 'w) option" where
  "execute_next E begin_time s w = do {
     r \<leftarrow> vec_get (run_q s) (next_task s);
     (t, w) \<leftarrow> ex_execute (se_tasks E) (rn_task r) w;
     let (end_time, w) = se_rdtsc E w;
     d \<leftarrow> checked_sub end_time begin_time;
     cycles \<leftarrow> checked_add (rn_cycles r) d;
     Some (end_time, s\<lparr>run_q := (run_q s)[next_task s := \<lparr>rn_task = t, rn_cycles = cycles, rn_last_run = end_time\<rparr>]\<rparr>, w)
   }"

text \<open>The second half: whose turn is next, and a command from the channel after the last task.\<close>

definition advance ::
  "('t, 'f, 'c) StandaloneScheduler \<Rightarrow> ('t, 'f, 'c) SchedulerCommand option \<times> ('t, 'f, 'c) StandaloneScheduler" where
  "advance s = (let nxt = next_task s + 1 in
     if nxt = length (run_q s) then
       let (cmd, channel) = try_recv (sched_channel s) in (cmd, s\<lparr>next_task := 0, sched_channel := channel\<rparr>)
     else (None, s\<lparr>next_task := nxt\<rparr>))"

text \<open>The commands other than \<open>Execute\<close>.\<close>

fun handle_simple ::
  "('t, 'f, 'c, 'w) sched_env \<Rightarrow> ('t, 'f, 'c) SchedulerCommand \<Rightarrow> ('t, 'f, 'c) StandaloneScheduler \<Rightarrow> 'w \<Rightarrow>
   (('t, 'f, 'c) StandaloneScheduler \<times> 'w) option" where
  "handle_simple E (Add ex) s w = (let (r, w) = Runnable_from_task E ex w in Some (s\<lparr>run_q := run_q s @ [r]\<rparr>, w))"
| "handle_simple E (Run f) s w = se_run E f s w"
| "handle_simple E Execute s w = Some (s, w)"
| "handle_simple E Shutdown s w = Some (s\<lparr>execute_loop := False, shutdown := True\<rparr>, w)"
| "handle_simple E (Handshake chan) s w = map_option (\<lambda>w. (s, w)) (se_handshake E chan w)"

text \<open>
  The loop of \<open>execute_loop\<close>.  It calls itself through \<open>execute_internal\<close> and \<open>handle_request\<close> when the command is
  \<open>Execute\<close>; these two functions are defined below, and \<open>execute_while_eq\<close> is the loop as the source has it.
\<close>

partial_function (option) execute_while ::
  "('t, 'f, 'c, 'w) sched_env \<Rightarrow> 64 word \<Rightarrow> ('t, 'f, 'c) StandaloneScheduler \<Rightarrow> 'w \<Rightarrow>
   (('t, 'f, 'c) StandaloneScheduler \<times> 'w) option" where
  [code]: "execute_while E begin_time s w =
     (if execute_loop s then do {
        tsw \<leftarrow> execute_next E begin_time s w;
        let cs = advance (fst (snd tsw));
        sw \<leftarrow> (case fst cs of
            None \<Rightarrow> Some (snd cs, snd (snd tsw))
          | Some Execute \<Rightarrow>
              (let now = se_rdtsc E (snd (snd tsw)) in
               if run_q (snd cs) \<noteq> [] then execute_while E (fst now) ((snd cs)\<lparr>execute_loop := True\<rparr>) (snd now)
               else Some ((snd cs)\<lparr>execute_loop := True\<rparr>, snd now))
          | Some cmd \<Rightarrow> handle_simple E cmd (snd cs) (snd (snd tsw)));
        execute_while E (fst tsw) (fst sw) (snd sw)
      } else Some (s, w))"

definition run_execute_loop ::
  "('t, 'f, 'c, 'w) sched_env \<Rightarrow> ('t, 'f, 'c) StandaloneScheduler \<Rightarrow> 'w \<Rightarrow> (('t, 'f, 'c) StandaloneScheduler \<times> 'w) option" where
  "run_execute_loop E s w = (let s = s\<lparr>execute_loop := True\<rparr>; (begin_time, w) = se_rdtsc E w in
     if run_q s \<noteq> [] then execute_while E begin_time s w else Some (s, w))"

definition handle_request ::
  "('t, 'f, 'c, 'w) sched_env \<Rightarrow> ('t, 'f, 'c) SchedulerCommand \<Rightarrow> ('t, 'f, 'c) StandaloneScheduler \<Rightarrow> 'w \<Rightarrow>
   (('t, 'f, 'c) StandaloneScheduler \<times> 'w) option" where
  "handle_request E request s w = (case request of
      Execute \<Rightarrow> run_execute_loop E s w
    | _ \<Rightarrow> handle_simple E request s w)"

definition execute_internal ::
  "('t, 'f, 'c, 'w) sched_env \<Rightarrow> 64 word \<Rightarrow> ('t, 'f, 'c) StandaloneScheduler \<Rightarrow> 'w \<Rightarrow>
   (64 word \<times> ('t, 'f, 'c) StandaloneScheduler \<times> 'w) option" where
  "execute_internal E begin_time s w = do {
     (time, s, w) \<leftarrow> execute_next E begin_time s w;
     let (cmd, s) = advance s;
     (s, w) \<leftarrow> (case cmd of Some cmd \<Rightarrow> handle_request E cmd s w | None \<Rightarrow> Some (s, w));
     Some (time, s, w)
   }"

definition execute_one ::
  "('t, 'f, 'c, 'w) sched_env \<Rightarrow> ('t, 'f, 'c) StandaloneScheduler \<Rightarrow> 'w \<Rightarrow> (('t, 'f, 'c) StandaloneScheduler \<times> 'w) option" where
  "execute_one E s w =
     (if run_q s \<noteq> [] then let (now, w) = se_rdtsc E w in map_option snd (execute_internal E now s w) else Some (s, w))"

definition handle_requests_step ::
  "('t, 'f, 'c, 'w) sched_env \<Rightarrow> ('t, 'f, 'c) StandaloneScheduler \<times> 'w \<Rightarrow>
   ((('t, 'f, 'c) StandaloneScheduler \<times> 'w) + (('t, 'f, 'c) StandaloneScheduler \<times> 'w)) option" where
  "handle_requests_step E sw = (let (s, w) = sw in
     if shutdown s then Some (Inr (s, w))
     else case recv (sched_channel s) of
         (None, channel) \<Rightarrow> Some (Inr (s\<lparr>sched_channel := channel\<rparr>, w))
       | (Some cmd, channel) \<Rightarrow> map_option Inl (handle_request E cmd (s\<lparr>sched_channel := channel\<rparr>) w))"

definition handle_requests ::
  "('t, 'f, 'c, 'w) sched_env \<Rightarrow> ('t, 'f, 'c) StandaloneScheduler \<Rightarrow> 'w \<Rightarrow> (('t, 'f, 'c) StandaloneScheduler \<times> 'w) option" where
  "handle_requests E s w = rust_loop (handle_requests_step E) (s\<lparr>shutdown := False\<rparr>, w)"

section \<open>The order of execution of the embedded scheduler\<close>

text \<open>Every task depends on tasks that were added before it.\<close>

definition deps_earlier :: "nat list list \<Rightarrow> bool" where
  "deps_earlier ds \<longleftrightarrow> (\<forall>i<length ds. \<forall>d\<in>set (ds ! i). 0 < d \<and> d \<le> i)"

text \<open>The tasks that running a task runs, in order.\<close>

function exec_order :: "nat list list \<Rightarrow> nat \<Rightarrow> nat list" where
  "exec_order ds task_id =
     (if 0 < task_id \<and> task_id \<le> length ds
      then concat (map (\<lambda>d. if 0 < d \<and> d < task_id then exec_order ds d else []) (ds ! (task_id - 1))) @ [task_id]
      else [])"
  by pat_completeness auto
termination by (relation "measure snd") auto

declare exec_order.simps [simp del]

definition es_deps :: "'t EmbeddedScheduler \<Rightarrow> nat list list" where
  "es_deps s = map er_dependencies (es_tasks s)"

text \<open>Running one task and nothing else.\<close>

definition run_one :: "('t, 'w) Executable \<Rightarrow> nat \<Rightarrow> 't EmbeddedScheduler \<times> 'w \<Rightarrow> ('t EmbeddedScheduler \<times> 'w) option" where
  "run_one E task_id sw = do {
     r \<leftarrow> es_get (fst sw) task_id;
     (t, w) \<leftarrow> ex_execute E (er_task r) (snd sw);
     Some ((fst sw)\<lparr>es_tasks := (es_tasks (fst sw))[task_id - 1 := r\<lparr>er_task := t\<rparr>]\<rparr>, w)
   }"

fun run_list :: "('t, 'w) Executable \<Rightarrow> nat list \<Rightarrow> 't EmbeddedScheduler \<times> 'w \<Rightarrow> ('t EmbeddedScheduler \<times> 'w) option" where
  "run_list E [] sw = Some sw"
| "run_list E (i # is) sw = run_one E i sw \<bind> run_list E is"

lemma run_list_append: "run_list E (xs @ ys) sw = run_list E xs sw \<bind> run_list E ys"
  by (induction xs arbitrary: sw) (auto split: Option.bind_split)

lemma run_one_deps: "run_one E i sw = Some sw' \<Longrightarrow> es_deps (fst sw') = es_deps (fst sw)"
  by (cases sw) (auto simp: run_one_def es_get_def es_deps_def vec_get_def len_sub_def bind_eq_Some_conv map_update
      intro!: list_update_same_conv [THEN iffD2] split: if_splits)

lemma run_list_deps: "run_list E is sw = Some sw' \<Longrightarrow> es_deps (fst sw') = es_deps (fst sw)"
  by (induction "is" arbitrary: sw) (auto simp: bind_eq_Some_conv dest: run_one_deps)

lemma es_get_deps:
  assumes "0 < task_id" and "task_id \<le> length (es_deps s)"
  obtains r where "es_get s task_id = Some r" and "er_dependencies r = es_deps s ! (task_id - 1)"
proof (rule that [of "es_tasks s ! (task_id - 1)"])
  have "task_id - Suc 0 < length (es_tasks s)" using assms by (simp add: es_deps_def)
  then show "es_get s task_id = Some (es_tasks s ! (task_id - 1))"
    and "er_dependencies (es_tasks s ! (task_id - 1)) = es_deps s ! (task_id - 1)"
    using assms by (simp_all add: es_get_def len_sub_def vec_get_def es_deps_def)
qed

lemma deps_earlierD:
  assumes "deps_earlier ds" and "0 < i" and "i \<le> length ds" and "d \<in> set (ds ! (i - 1))"
  shows "0 < d" and "d < i" and "d \<le> length ds"
proof -
  have "i - 1 < length ds" using assms(2,3) by simp
  then have "0 < d \<and> d \<le> i - 1" using assms(1,4) unfolding deps_earlier_def by blast
  then show "0 < d" and "d < i" and "d \<le> length ds" using assms(2,3) by linarith+
qed

lemma exec_order_earlier:
  assumes "deps_earlier ds" and "0 < i" and "i \<le> length ds"
  shows "exec_order ds i = concat (map (exec_order ds) (ds ! (i - 1))) @ [i]"
proof -
  have "map (\<lambda>d. if 0 < d \<and> d < i then exec_order ds d else []) (ds ! (i - 1)) = map (exec_order ds) (ds ! (i - 1))"
    using deps_earlierD [OF assms] by (intro map_cong) auto
  moreover have "0 < i \<and> i \<le> length ds" using assms by simp
  ultimately show ?thesis by (subst exec_order.simps) (simp only: if_True simp_thms)
qed

text \<open>The rest of a loop runs the orders of the remaining dependencies and then the task.\<close>

lemma exec_from_order:
  assumes "deps_earlier (es_deps s)" and "0 < task_id" and "task_id \<le> length (es_deps s)"
    and "dep \<le> length (es_deps s ! (task_id - 1))"
  shows "exec_from E task_id dep s w =
    run_list E (concat (map (exec_order (es_deps s)) (drop dep (es_deps s ! (task_id - 1)))) @ [task_id]) (s, w)"
  using assms
proof (induction task_id arbitrary: dep s w rule: less_induct)
  case (less task_id)
  note outer = less.IH
  show ?case using less.prems
  proof (induction "length (es_deps s ! (task_id - 1)) - dep" arbitrary: dep s w)
    case 0
    obtain r where r: "es_get s task_id = Some r" "er_dependencies r = es_deps s ! (task_id - 1)"
      by (rule es_get_deps [OF 0(3,4)])
    have "\<not> dep < length (er_dependencies r)" using r(2) 0(1) by simp
    with r(1) 0(1) show ?case by (subst exec_from.simps) (simp add: run_one_def case_prod_beta' bind_eq_Some_conv)
  next
    case (Suc n)
    let ?ds = "es_deps s ! (task_id - 1)" and ?d = "es_deps s ! (task_id - 1) ! dep"
    obtain r where r: "es_get s task_id = Some r" "er_dependencies r = ?ds" by (rule es_get_deps [OF Suc.prems(2,3)])
    have dep: "dep < length ?ds" using Suc(2) by simp
    note d = deps_earlierD [OF Suc.prems(1-3) nth_mem [OF dep]]
    have first: "exec_from E ?d 0 s w = run_list E (exec_order (es_deps s) ?d) (s, w)"
      using outer [OF d(2) Suc.prems(1) d(1,3), of 0 w] exec_order_earlier [OF Suc.prems(1) d(1,3)] by simp
    have rest: "exec_from E task_id (dep + 1) (fst sw) (snd sw) =
        run_list E (concat (map (exec_order (es_deps s)) (drop (dep + 1) ?ds)) @ [task_id]) sw"
      if "run_list E (exec_order (es_deps s) ?d) (s, w) = Some sw" for sw
      using Suc(1) [of "fst sw" "dep + 1" "snd sw"] Suc(2) Suc.prems dep run_list_deps [OF that] by simp
    have "exec_from E task_id dep s w =
        exec_from E ?d 0 s w \<bind> (\<lambda>sw. exec_from E task_id (dep + 1) (fst sw) (snd sw))"
      by (subst exec_from.simps) (use r dep in \<open>simp add: vec_get_def\<close>)
    also have "\<dots> = run_list E (exec_order (es_deps s) ?d) (s, w) \<bind>
        run_list E (concat (map (exec_order (es_deps s)) (drop (dep + 1) ?ds)) @ [task_id])"
      unfolding first by (rule Option.bind_cong [OF refl]) (rule rest)
    also have "\<dots> = run_list E (concat (map (exec_order (es_deps s)) (drop dep ?ds)) @ [task_id]) (s, w)"
      unfolding Cons_nth_drop_Suc [OF dep, symmetric] by (simp add: run_list_append)
    finally show ?case .
  qed
qed

text \<open>
  C18: Running a task of the embedded scheduler runs, in order, the tasks it depends on (each after its own
  dependencies, and again for every task that names it) and then the task, whenever tasks depend only on tasks
  added before them; it returns exactly when each of these runs returns.
\<close>

theorem exec_task_runs_dependencies_first:
  assumes "deps_earlier (es_deps s)" and "0 < task_id" and "task_id \<le> length (es_tasks s)"
  shows "exec_task E task_id s w = run_list E (exec_order (es_deps s) task_id) (s, w) \<and>
    exec_order (es_deps s) task_id =
      concat (map (exec_order (es_deps s)) (er_dependencies (es_tasks s ! (task_id - 1)))) @ [task_id]"
proof (rule conjI [rotated])
  have l: "task_id \<le> length (es_deps s)" using assms(3) by (simp add: es_deps_def)
  have n: "es_deps s ! (task_id - 1) = er_dependencies (es_tasks s ! (task_id - 1))" using assms by (simp add: es_deps_def)
  show "exec_order (es_deps s) task_id =
      concat (map (exec_order (es_deps s)) (er_dependencies (es_tasks s ! (task_id - 1)))) @ [task_id]"
    using exec_order_earlier [OF assms(1,2) l] unfolding n .
  then show "exec_task E task_id s w = run_list E (exec_order (es_deps s) task_id) (s, w)"
    using exec_from_order [OF assms(1,2) l, of 0 E w] by (simp add: exec_task_def n [unfolded One_nat_def])
qed

theorem exec_task_runs_dependencies_first_witness:
  "exec_task \<lparr>ex_execute = \<lambda>t w. Some (t, w @ [t]), ex_dependencies = \<lambda>t. []\<rparr> 4
     \<lparr>es_tasks = [\<lparr>er_task = 10, er_dependencies = []\<rparr>, \<lparr>er_task = 20, er_dependencies = [1]\<rparr>,
        \<lparr>er_task = 30, er_dependencies = [1]\<rparr>, \<lparr>er_task = 40, er_dependencies = [2, 3]\<rparr>]\<rparr> [] \<bind> (\<lambda>sw. Some (snd sw)) =
   Some [10, 20, 10, 30, 40 :: nat]"
proof -
  define E :: "(nat, nat list) Executable" where "E = \<lparr>ex_execute = \<lambda>t w. Some (t, w @ [t]), ex_dependencies = \<lambda>t. []\<rparr>"
  define s :: "nat EmbeddedScheduler" where "s = \<lparr>es_tasks = [\<lparr>er_task = 10, er_dependencies = []\<rparr>, \<lparr>er_task = 20, er_dependencies = [1]\<rparr>,
        \<lparr>er_task = 30, er_dependencies = [1]\<rparr>, \<lparr>er_task = 40, er_dependencies = [2, 3]\<rparr>]\<rparr>"
  have "deps_earlier (es_deps s)" unfolding s_def by code_simp
  moreover have "(0::nat) < 4" "4 \<le> length (es_tasks s)" by (simp_all add: s_def)
  ultimately have eq: "exec_task E 4 s [] = run_list E (exec_order (es_deps s) 4) (s, [])"
    by (rule exec_task_runs_dependencies_first [THEN conjunct1])
  have "run_list E (exec_order (es_deps s) 4) (s, []) \<bind> (\<lambda>sw. Some (snd sw)) = Some [10, 20, 10, 30, 40]"
    unfolding E_def s_def by code_simp
  then have "exec_task E 4 s [] \<bind> (\<lambda>sw. Some (snd sw)) = Some [10, 20, 10, 30, 40]" by (simp only: eq)
  then show ?thesis unfolding E_def s_def .
qed

text \<open>Adding a task keeps the condition when the task depends on tasks that are there, and returns its handle.\<close>

lemma es_add_task_earlier:
  assumes "deps_earlier (es_deps s)" and "\<forall>d\<in>set (ex_dependencies E task). 0 < d \<and> d \<le> length (es_tasks s)"
    and "es_add_task E task s = (r, s')"
  shows "deps_earlier (es_deps s')" and "r = Inr (length (es_tasks s'))"
    and "es_get s' (length (es_tasks s')) = Some (ERunnable_from_task E task)"
  using assms by (auto simp: es_add_task_def deps_earlier_def es_deps_def nth_append ERunnable_from_task_def less_Suc_eq
      es_get_def len_sub_def vec_get_def)

text \<open>Tasks that wait for each other in a circle: each of them depends on one of them.\<close>

definition waits_in :: "nat set \<Rightarrow> nat list list \<Rightarrow> nat \<Rightarrow> nat \<Rightarrow> bool" where
  "waits_in C ds task_id dep \<longleftrightarrow> (\<exists>k<length (ds ! (task_id - 1)). dep \<le> k \<and> ds ! (task_id - 1) ! k \<in> C)"

lemma exec_from_cycle:
  assumes "exec_from E task_id dep s w = Some sw"
  shows "es_deps (fst sw) = es_deps s \<and>
    (task_id \<in> C \<longrightarrow> waits_in C (es_deps s) task_id dep \<longrightarrow> (\<forall>i\<in>C. waits_in C (es_deps s) i 0) \<longrightarrow> False)"
  (is "?P E task_id dep s w sw")
proof (rule exec_from.raw_induct [of ?P, OF _ assms])
  fix exec E task_id dep s w sw
  assume IH: "\<And>E task_id dep s w sw. exec E task_id dep s w = Some sw \<Longrightarrow> ?P E task_id dep s w sw"
    and body: "es_get s task_id \<bind> (\<lambda>r. if dep < length (er_dependencies r) then
        vec_get (er_dependencies r) dep \<bind> (\<lambda>d. exec E d 0 s w \<bind> (\<lambda>sw. exec E task_id (dep + 1) (fst sw) (snd sw)))
      else ex_execute E (er_task r) w \<bind> (\<lambda>(t, w). Some (s\<lparr>es_tasks := (es_tasks s)[task_id - 1 := r\<lparr>er_task := t\<rparr>]\<rparr>, w))) = Some sw"
  obtain r where r: "es_get s task_id = Some r" using body by (auto simp: bind_eq_Some_conv)
  then have ds: "er_dependencies r = es_deps s ! (task_id - 1)"
    by (auto simp: es_get_def len_sub_def vec_get_def es_deps_def bind_eq_Some_conv split: if_splits)
  show "?P E task_id dep s w sw"
  proof (cases "dep < length (er_dependencies r)")
    case True
    then obtain sw1 where 1: "exec E (er_dependencies r ! dep) 0 s w = Some sw1"
      and 2: "exec E task_id (dep + 1) (fst sw1) (snd sw1) = Some sw"
      using body r by (auto simp: bind_eq_Some_conv vec_get_def)
    have "er_dependencies r ! dep \<in> C \<or> waits_in C (es_deps s) task_id (dep + 1)" if "waits_in C (es_deps s) task_id dep"
      using that unfolding waits_in_def ds by (metis Suc_eq_plus1 Suc_leI le_neq_implies_less)
    with IH [OF 1] IH [OF 2] show ?thesis by auto
  next
    case False
    then have "run_one E task_id (s, w) = Some sw" using body r by (simp add: run_one_def)
    then have "es_deps (fst sw) = es_deps s" using run_one_deps by fastforce
    moreover have "\<not> waits_in C (es_deps s) task_id dep" using False by (simp add: waits_in_def ds)
    ultimately show ?thesis by simp
  qed
qed

text \<open>
  A task that belongs to a circle of dependencies, each task of the circle depending on another one (or on
  itself), never finishes: running it does not return, whatever the tasks do.
\<close>

theorem dependency_circle_never_returns:
  assumes "task_id \<in> C" and "\<forall>i\<in>C. \<exists>d\<in>set (es_deps s ! (i - 1)). d \<in> C"
  shows "exec_task E task_id s w = None"
proof (rule ccontr)
  assume "exec_task E task_id s w \<noteq> None"
  then obtain sw where "exec_from E task_id 0 s w = Some sw" by (auto simp: exec_task_def)
  moreover have "\<forall>i\<in>C. waits_in C (es_deps s) i 0" using assms(2) by (fastforce simp: waits_in_def in_set_conv_nth)
  ultimately show False using exec_from_cycle [of E task_id 0 s w sw C] assms(1) by blast
qed

theorem dependency_circle_never_returns_witness:
  "exec_task \<lparr>ex_execute = \<lambda>t w. Some (t, w), ex_dependencies = \<lambda>t. []\<rparr> 1
     \<lparr>es_tasks = [\<lparr>er_task = (), er_dependencies = [2]\<rparr>, \<lparr>er_task = (), er_dependencies = [1]\<rparr>]\<rparr> (0 :: nat) = None"
  by (rule dependency_circle_never_returns [of _ "{1, 2}"]) (simp_all add: es_deps_def)

section \<open>The turns of the standalone scheduler\<close>

text \<open>The loop as the source writes it.\<close>

lemma execute_while_eq:
  "execute_while E begin_time s w =
     (if execute_loop s then do {
        (time, s, w) \<leftarrow> execute_internal E begin_time s w;
        execute_while E time s w
      } else Some (s, w))"
proof -
  have "(case cmd of None \<Rightarrow> Some (s', w')
        | Some Execute \<Rightarrow> (let now = se_rdtsc E w' in
             if run_q s' \<noteq> [] then execute_while E (fst now) (s'\<lparr>execute_loop := True\<rparr>) (snd now)
             else Some (s'\<lparr>execute_loop := True\<rparr>, snd now))
        | Some cmd \<Rightarrow> handle_simple E cmd s' w') =
      (case cmd of Some cmd \<Rightarrow> handle_request E cmd s' w' | None \<Rightarrow> Some (s', w'))" for cmd s' w'
    by (auto simp: handle_request_def run_execute_loop_def Let_def case_prod_beta' split: option.split SchedulerCommand.split)
  then show ?thesis
    by (subst execute_while.simps) (simp add: execute_internal_def Let_def case_prod_beta' bind_assoc)
qed

text \<open>Every task once, in the order of the queue, with the time it took.\<close>

fun run_pass :: "('t, 'f, 'c, 'w) sched_env \<Rightarrow> 64 word \<Rightarrow> 't Runnable list \<Rightarrow> 'w \<Rightarrow> (64 word \<times> 't Runnable list \<times> 'w) option" where
  "run_pass E begin_time [] w = Some (begin_time, [], w)"
| "run_pass E begin_time (r # rs) w = do {
     (t, w) \<leftarrow> ex_execute (se_tasks E) (rn_task r) w;
     let (end_time, w) = se_rdtsc E w;
     d \<leftarrow> checked_sub end_time begin_time;
     cycles \<leftarrow> checked_add (rn_cycles r) d;
     (time, rs, w) \<leftarrow> run_pass E end_time rs w;
     Some (time, \<lparr>rn_task = t, rn_cycles = cycles, rn_last_run = end_time\<rparr> # rs, w)
   }"

text \<open>\<open>n\<close> rounds over the queue.\<close>

fun run_passes :: "('t, 'f, 'c, 'w) sched_env \<Rightarrow> nat \<Rightarrow> 64 word \<Rightarrow> 't Runnable list \<Rightarrow> 'w \<Rightarrow> (64 word \<times> 't Runnable list \<times> 'w) option" where
  "run_passes E 0 begin_time rs w = Some (begin_time, rs, w)"
| "run_passes E (Suc n) begin_time rs w = do {
     (time, rs, w) \<leftarrow> run_pass E begin_time rs w;
     run_passes E n time rs w
   }"

text \<open>What follows a round: a command if one has arrived, and the next round unless it was the last.\<close>

definition after_pass ::
  "('t, 'f, 'c, 'w) sched_env \<Rightarrow> 64 word \<Rightarrow> ('t, 'f, 'c) StandaloneScheduler \<Rightarrow> 'w \<Rightarrow> (('t, 'f, 'c) StandaloneScheduler \<times> 'w) option" where
  "after_pass E time s w = (let (cmd, channel) = try_recv (sched_channel s); s = s\<lparr>next_task := 0, sched_channel := channel\<rparr> in do {
     (s, w) \<leftarrow> (case cmd of Some cmd \<Rightarrow> handle_request E cmd s w | None \<Rightarrow> Some (s, w));
     execute_while E time s w
   })"

lemma execute_while_pass:
  assumes "execute_loop s" and "run_q s = before @ todo" and "next_task s = length before" and "todo \<noteq> []"
  shows "execute_while E begin_time s w =
    run_pass E begin_time todo w \<bind> (\<lambda>(time, rs, w). after_pass E time (s\<lparr>run_q := before @ rs\<rparr>) w)"
  using assms
proof (induction todo arbitrary: before begin_time s w)
  case (Cons r todo)
  show ?case
  proof (cases "todo = []")
    case True
    with Cons.prems show ?thesis
      by (subst execute_while_eq, cases "fst (try_recv (sched_channel s))")
        (simp_all add: execute_internal_def execute_next_def vec_get_def advance_def after_pass_def Let_def case_prod_beta' bind_assoc)
  next
    case False
    have step: "execute_while E time (s\<lparr>run_q := before @ r' # todo, next_task := Suc (length before)\<rparr>) w' =
        run_pass E time todo w' \<bind> (\<lambda>(time, rs, w). after_pass E time (s\<lparr>run_q := before @ r' # rs\<rparr>) w)" for time r' w'
      using Cons.IH [of "s\<lparr>run_q := before @ r' # todo, next_task := Suc (length before)\<rparr>" "before @ [r']" time w'] Cons.prems False
      by (simp add: after_pass_def)
    from Cons.prems False show ?thesis
      by (subst execute_while_eq)
        (simp add: execute_internal_def execute_next_def vec_get_def advance_def Let_def case_prod_beta' bind_assoc step)
  qed
qed simp

lemma run_pass_length: "run_pass E begin_time rs w = Some (time, rs', w') \<Longrightarrow> length rs' = length rs"
  by (induction rs arbitrary: begin_time w rs') (auto simp: bind_eq_Some_conv Let_def case_prod_beta')

text \<open>A queue that hears of nothing for \<open>n\<close> rounds and then of a shutdown.\<close>

lemma execute_while_shutdown:
  assumes "execute_loop s" and "run_q s \<noteq> []" and "next_task s = 0"
    and "sched_channel s = replicate n None @ Some Shutdown # rest"
  shows "execute_while E begin_time s w =
    run_passes E (Suc n) begin_time (run_q s) w \<bind> (\<lambda>(time, rs, w).
      Some (s\<lparr>run_q := rs, sched_channel := rest, execute_loop := False, shutdown := True\<rparr>, w))"
  using assms
proof (induction n arbitrary: begin_time s w)
  case 0
  have s: "s\<lparr>run_q := rs, next_task := 0, sched_channel := rest, execute_loop := False, shutdown := True\<rparr> =
      s\<lparr>run_q := rs, sched_channel := rest, execute_loop := False, shutdown := True\<rparr>" for rs
    using 0(3) by (cases s) simp
  have "after_pass E time (s\<lparr>run_q := rs\<rparr>) w =
      Some (s\<lparr>run_q := rs, sched_channel := rest, execute_loop := False, shutdown := True\<rparr>, w)" for time rs w
    using 0 by (simp add: after_pass_def handle_request_def s) (subst execute_while.simps, simp)
  then show ?case
    using execute_while_pass [of s "[]" "run_q s" E begin_time w] 0 by (simp add: case_prod_beta' bind_assoc)
next
  case (Suc n)
  have s: "s\<lparr>run_q := rs, next_task := 0, sched_channel := ch\<rparr> = s\<lparr>run_q := rs, sched_channel := ch\<rparr>" for rs ch
    using Suc.prems(3) by (cases s) simp
  have "after_pass E time (s\<lparr>run_q := rs\<rparr>) w' = run_passes E (Suc n) time rs w' \<bind> (\<lambda>(time, rs, w).
      Some (s\<lparr>run_q := rs, sched_channel := rest, execute_loop := False, shutdown := True\<rparr>, w))"
    if "run_pass E begin_time (run_q s) w = Some (time, rs, w')" for time rs w'
  proof -
    have "rs \<noteq> []" using run_pass_length [OF that] Suc.prems(2) by auto
    then show ?thesis using Suc.IH [of "s\<lparr>run_q := rs, sched_channel := replicate n None @ Some Shutdown # rest\<rparr>" time w'] Suc.prems
      by (simp add: after_pass_def s)
  qed
  then show ?case
    using execute_while_pass [of s "[]" "run_q s" E begin_time w] Suc.prems
    by (cases "run_pass E begin_time (run_q s) w") auto
qed

text \<open>The tasks a list of commands adds.\<close>

fun install :: "('t, 'f, 'c, 'w) sched_env \<Rightarrow> 't list \<Rightarrow> 'w \<Rightarrow> 't Runnable list \<times> 'w" where
  "install E [] w = ([], w)"
| "install E (t # ts) w = (let (r, w) = Runnable_from_task E t w; (rs, w) = install E ts w in (r # rs, w))"

lemma install_tasks: "map rn_task (fst (install E ts w)) = ts" "\<forall>r\<in>set (fst (install E ts w)). rn_cycles r = 0"
  by (induction ts arbitrary: w) (simp_all add: Runnable_from_task_def Let_def case_prod_beta')

lemma handle_requests_adds:
  assumes "\<not> shutdown s" and "sched_channel s = map (Some \<circ> Add) ts @ cs"
  shows "rust_loop (handle_requests_step E) (s, w) =
    rust_loop (handle_requests_step E) (s\<lparr>run_q := run_q s @ fst (install E ts w), sched_channel := cs\<rparr>, snd (install E ts w))"
  using assms
proof (induction ts arbitrary: s w)
  case Nil
  then have "s\<lparr>run_q := run_q s, sched_channel := cs\<rparr> = s" by (cases s) simp
  then show ?case by simp
next
  case (Cons t ts)
  let ?r = "Runnable_from_task E t w"
  have "handle_requests_step E (s, w) =
      Some (Inl (s\<lparr>run_q := run_q s @ [fst ?r], sched_channel := map (Some \<circ> Add) ts @ cs\<rparr>, snd ?r))"
    using Cons.prems by (simp add: handle_requests_step_def handle_request_def case_prod_beta' Let_def)
  then show ?case
    using Cons.IH [of "s\<lparr>run_q := run_q s @ [fst ?r], sched_channel := map (Some \<circ> Add) ts @ cs\<rparr>" "snd ?r"] Cons.prems(1)
    by (simp add: rust_loop_continue case_prod_beta' Let_def)
qed

lemma handle_requests_ended: "shutdown s \<Longrightarrow> rust_loop (handle_requests_step E) (s, w) = Some (s, w)"
  by (rule rust_loop_break) (simp add: handle_requests_step_def)

text \<open>A scheduler with tasks that is told to execute and some rounds later to stop.\<close>

lemma handle_requests_executes:
  assumes "run_q s \<noteq> []" and "next_task s = 0" and "\<not> shutdown s" and "se_rdtsc E w = (now, w1)"
    and "sched_channel s = Some Execute # replicate n None @ Some Shutdown # rest"
  shows "rust_loop (handle_requests_step E) (s, w) =
    run_passes E (Suc n) now (run_q s) w1 \<bind> (\<lambda>(time, rs', w').
      Some (\<lparr>run_q = rs', next_task = 0, sched_channel = rest, execute_loop = False, shutdown = True\<rparr>, w'))"
proof -
  let ?s = "s\<lparr>sched_channel := replicate n None @ Some Shutdown # rest\<rparr>"
  have eq: "s\<lparr>run_q := rs, sched_channel := rest, execute_loop := False, shutdown := True\<rparr> =
      \<lparr>run_q = rs, next_task = 0, sched_channel = rest, execute_loop = False, shutdown = True\<rparr>" for rs
    using assms(2) by (cases s) simp
  have "rust_loop (handle_requests_step E) (s, w) = run_execute_loop E ?s w \<bind> (\<lambda>sw. rust_loop (handle_requests_step E) sw)"
    by (subst rust_loop.simps) (simp add: handle_requests_step_def handle_request_def map_conv_bind_option bind_assoc assms)
  also have "run_execute_loop E ?s w = run_passes E (Suc n) now (run_q s) w1 \<bind> (\<lambda>(time, rs', w').
      Some (\<lparr>run_q = rs', next_task = 0, sched_channel = rest, execute_loop = False, shutdown = True\<rparr>, w'))"
    by (simp only: run_execute_loop_def assms(4) Let_def prod.case)
      (subst execute_while_shutdown [where n = n and rest = rest], simp_all add: assms eq)
  finally show ?thesis
    by (simp add: bind_assoc case_prod_beta' handle_requests_ended)
qed

text \<open>The life of a scheduler thread: tasks arrive, it is told to execute, and some rounds later to stop.\<close>

lemma handle_requests_life:
  assumes "ts \<noteq> []" and "channel = map (Some \<circ> Add) ts @ Some Execute # replicate n None @ Some Shutdown # rest"
    and "install E ts w = (rs, w1)" and "se_rdtsc E w1 = (now, w2)"
  shows "handle_requests E (StandaloneScheduler_new_with_channel channel) w =
    run_passes E (Suc n) now rs w2 \<bind> (\<lambda>(time, rs', w').
      Some (\<lparr>run_q = rs', next_task = 0, sched_channel = rest, execute_loop = False, shutdown = True\<rparr>, w'))"
proof -
  let ?s = "\<lparr>run_q = rs, next_task = 0, sched_channel = Some Execute # replicate n None @ Some Shutdown # rest, execute_loop = False, shutdown = False\<rparr>"
  have rs: "rs \<noteq> []" using install_tasks(1) [of E ts w] assms(1,3) by auto
  have "handle_requests E (StandaloneScheduler_new_with_channel channel) w = rust_loop (handle_requests_step E) (?s, w1)"
    unfolding handle_requests_def
    by (subst handle_requests_adds [where ts = ts]) (simp_all add: assms StandaloneScheduler_new_with_channel_def)
  then show ?thesis using handle_requests_executes [OF _ _ _ assms(4), of ?s n rest] rs by simp
qed

text \<open>
  What a scheduler relies on: tasks return, and the time stamp counter, read from the world, does not go
  backwards.
\<close>

definition steady :: "('w \<Rightarrow> 64 word) \<Rightarrow> ('t, 'f, 'c, 'w) sched_env \<Rightarrow> bool" where
  "steady clock E \<longleftrightarrow>
     (\<forall>w. fst (se_rdtsc E w) = clock (snd (se_rdtsc E w)) \<and> clock w \<le> clock (snd (se_rdtsc E w))) \<and>
     (\<forall>t w. \<exists>t' w'. ex_execute (se_tasks E) t w = Some (t', w') \<and> clock w \<le> clock w')"

definition total_cycles :: "'t Runnable list \<Rightarrow> nat" where
  "total_cycles rs = (\<Sum>r\<leftarrow>rs. unat (rn_cycles r))"

text \<open>The cycles charged never exceed the time that has passed, so the counters do not overflow.\<close>

lemma run_pass_steady:
  assumes "steady clock E" and "extra + total_cycles rs \<le> unat begin_time" and "begin_time \<le> clock w"
  shows "\<exists>time rs' w'. run_pass E begin_time rs w = Some (time, rs', w') \<and>
    extra + total_cycles rs' \<le> unat time \<and> time \<le> clock w'"
  using assms(2,3)
proof (induction rs arbitrary: extra begin_time w)
  case (Cons r rs)
  obtain t w1 where x: "ex_execute (se_tasks E) (rn_task r) w = Some (t, w1)" and w1: "clock w \<le> clock w1"
    using assms(1) unfolding steady_def by blast
  obtain now w2 where now: "se_rdtsc E w1 = (now, w2)" by fastforce
  have w2: "now = clock w2" "clock w1 \<le> now" using assms(1) now unfolding steady_def by (metis fst_conv snd_conv)+
  have le: "begin_time \<le> now" using Cons.prems(2) w1 w2(2) by (meson order_trans)
  have d: "unat (now - begin_time) = unat now - unat begin_time" using le by (rule unat_sub)
  have nat_le: "unat begin_time \<le> unat now" using le by (simp add: word_le_nat_alt)
  have bound: "extra + (unat (rn_cycles r) + unat (now - begin_time)) + total_cycles rs \<le> unat now"
    using Cons.prems(1) d nat_le by (simp add: total_cycles_def)
  have "unat now < 2 ^ 64" using unsigned_less [of now] by simp
  with bound have sum: "unat (rn_cycles r) + unat (now - begin_time) < 2 ^ 64" by linarith
  let ?c = "rn_cycles r + (now - begin_time)"
  have add: "checked_add (rn_cycles r) (now - begin_time) = Some ?c" using sum by (simp add: checked_add_def)
  note c = checked_add_unat [OF add]
  obtain time rs' w' where rec: "run_pass E now rs w2 = Some (time, rs', w')"
    "extra + unat ?c + total_cycles rs' \<le> unat time" "time \<le> clock w'"
    using Cons.IH [of "extra + unat ?c" now w2] bound c w2(1) by auto
  have "run_pass E begin_time (r # rs) w = Some (time, \<lparr>rn_task = t, rn_cycles = ?c, rn_last_run = now\<rparr> # rs', w')"
    using le add rec(1) by (simp add: x now checked_sub_def)
  then show ?case using rec(2,3) by (intro exI conjI) (auto simp: total_cycles_def)
qed (simp add: total_cycles_def)

lemma run_passes_steady:
  assumes "steady clock E" and "total_cycles rs \<le> unat begin_time" and "begin_time \<le> clock w"
  shows "\<exists>time rs' w'. run_passes E n begin_time rs w = Some (time, rs', w') \<and>
    total_cycles rs' \<le> unat time \<and> time \<le> clock w'"
  using assms(2,3)
proof (induction n arbitrary: begin_time rs w)
  case (Suc n)
  obtain time rs' w' where p: "run_pass E begin_time rs w = Some (time, rs', w')"
    "0 + total_cycles rs' \<le> unat time" "time \<le> clock w'"
    using run_pass_steady [OF assms(1), of 0 rs begin_time w] Suc.prems by auto
  then show ?case using Suc.IH [of rs' time w'] by simp
qed simp

text \<open>
  C17: A scheduler thread that is sent its tasks, the command to execute and, after \<open>n\<close> further rounds, the command
  to shut down returns, for every steady clock: it has run \<open>n + 1\<close> rounds, each task once per round in the order
  of arrival, the rest of the channel is unread, and no task has been charged more cycles than have passed.
\<close>

theorem scheduler_runs_until_shutdown:
  assumes "steady clock E" and "ts \<noteq> []"
    and "channel = map (Some \<circ> Add) ts @ Some Execute # replicate n None @ Some Shutdown # rest"
    and "install E ts w = (rs, w1)" and "se_rdtsc E w1 = (now, w2)"
  shows "\<exists>time rs' w'. run_passes E (Suc n) now rs w2 = Some (time, rs', w') \<and> map rn_task rs = ts \<and>
    handle_requests E (StandaloneScheduler_new_with_channel channel) w =
      Some (\<lparr>run_q = rs', next_task = 0, sched_channel = rest, execute_loop = False, shutdown = True\<rparr>, w') \<and>
    total_cycles rs' \<le> unat time \<and> time \<le> clock w'"
proof -
  have zero: "total_cycles rs = 0" and tasks: "map rn_task rs = ts"
    using install_tasks [of E ts w] assms(4) by (simp_all add: total_cycles_def)
  have "now \<le> clock w2" using assms(1,5) unfolding steady_def by (metis fst_conv snd_conv order_refl)
  then obtain time rs' w' where r: "run_passes E (Suc n) now rs w2 = Some (time, rs', w')"
    "total_cycles rs' \<le> unat time" "time \<le> clock w'"
    using run_passes_steady [OF assms(1), of rs now w2 "Suc n"] zero by auto
  have "handle_requests E (StandaloneScheduler_new_with_channel channel) w =
      Some (\<lparr>run_q = rs', next_task = 0, sched_channel = rest, execute_loop = False, shutdown = True\<rparr>, w')"
    using handle_requests_life [OF assms(2-5)] by (simp only: r(1) bind.bind_lunit prod.case)
  with r tasks show ?thesis by blast
qed

text \<open>Two tasks that write their number to a log, under a clock that advances until it saturates.\<close>

definition log_env :: "(nat, unit, unit, 64 word \<times> nat list) sched_env" where
  "log_env = \<lparr>
     se_tasks = \<lparr>ex_execute = \<lambda>t (c, out). Some (t, (c, out @ [t])), ex_dependencies = \<lambda>t. []\<rparr>,
     se_rdtsc = \<lambda>(c, out). (max c (c + 1), (max c (c + 1), out)),
     se_run = \<lambda>f s w. Some (s, w),
     se_handshake = \<lambda>c w. Some w\<rparr>"

theorem scheduler_runs_until_shutdown_witness:
  "\<exists>s'. handle_requests log_env (StandaloneScheduler_new_with_channel
      [Some (Add 7), Some (Add 8), Some Execute, None, None, Some Shutdown, Some (Add 9)]) (0, []) = Some (s', (9, [7, 8, 7, 8, 7, 8]))
    \<and> sched_channel s' = [Some (Add 9)]"
proof -
  let ?ch = "[Some (Add 7), Some (Add 8), Some Execute, None, None, Some Shutdown, Some (Add 9)]"
  have st: "steady fst log_env" by (simp add: steady_def log_env_def)
  have ch: "?ch = map (Some \<circ> Add) [7, 8] @ Some Execute # replicate 2 None @ Some Shutdown # [Some (Add 9)]"
    by (simp add: numeral_2_eq_2)
  define rs where "rs = fst (install log_env [7, 8] (0, []))"
  have i: "install log_env [7, 8] (0, []) = (rs, (2, []))" unfolding rs_def by code_simp
  have n: "se_rdtsc log_env (2, []) = (3, (3, []))" by code_simp
  have log: "map_option (\<lambda>r. snd (snd r)) (run_passes log_env (Suc 2) 3 rs (3, [])) = Some (9, [7, 8, 7, 8, 7, 8])"
    unfolding rs_def by code_simp
  have "[7, 8] \<noteq> ([] :: nat list)" by simp
  from scheduler_runs_until_shutdown [OF st this ch i n] log show ?thesis by fastforce
qed

end
