(* ===== verification/NB_Context.thy ===== *)
theory NB_Context
  imports NB_Ports NB_Scheduler NB_Packet "HOL-Library.AList"
begin

text \<open>
  Bringing a system up and running it: the initialisation of DPDK (\<open>framework/src/interface/dpdk.rs\<close>) and the
  context with its ports, queues and scheduler threads (\<open>framework/src/scheduler/context.rs\<close>).  Hash maps are
  association lists; where the order in which a hash map gives its entries matters it is a parameter.
\<close>

section \<open>Initialising DPDK\<close>

record 'y dpdk_natives =
  init_system_whitelisted :: "string \<Rightarrow> i32 \<Rightarrow> i32 \<Rightarrow> string list \<Rightarrow> i32 \<Rightarrow> u32 \<Rightarrow> u32 \<Rightarrow> u16 \<Rightarrow> 'y ports world \<Rightarrow> i32 \<times> 'y ports world"
  init_secondary :: "string \<Rightarrow> i32 \<Rightarrow> i32 \<Rightarrow> string list \<Rightarrow> i32 \<Rightarrow> 'y ports world \<Rightarrow> i32 \<times> 'y ports world"
  numa_available :: "'y ports world \<Rightarrow> i32"
  numa_preferred :: "'y ports world \<Rightarrow> i32"
  zcsi_init_thread :: "i32 \<Rightarrow> i32 \<Rightarrow> 'y ports world \<Rightarrow> i32 \<times> 'y ports world"

text \<open>The thread local \<open>NUMA_DOMAIN\<close> is the result of the functions that set it.\<close>

definition set_numa_domain :: "'y dpdk_natives \<Rightarrow> 'y ports world \<Rightarrow> i32" where
  "set_numa_domain D w = (if numa_available D w = - 1 then - 1 else numa_preferred D w)"

definition init_system_wl_with_mempool ::
  "'y dpdk_natives \<Rightarrow> string \<Rightarrow> i32 \<Rightarrow> string list \<Rightarrow> u32 \<Rightarrow> u32 \<Rightarrow> 'y ports world \<Rightarrow> 'y ports world option" where
  "init_system_wl_with_mempool D name core pci pool_size cache_size w = do {
     name_cstr \<leftarrow> CString_new name;
     whitelist \<leftarrow> collect CString_new pci;
     let (ret, w) = init_system_whitelisted D name_cstr (of_nat (length name)) core whitelist (of_nat (length pci)) pool_size cache_size
       (of_nat METADATA_SLOTS) w;
     if ret \<noteq> 0 then None else Some w
   }"

definition init_system_wl :: "'y dpdk_natives \<Rightarrow> string \<Rightarrow> i32 \<Rightarrow> string list \<Rightarrow> 'y ports world \<Rightarrow> (i32 \<times> 'y ports world) option" where
  "init_system_wl D name core pci w = do {
     w \<leftarrow> init_system_wl_with_mempool D name core pci DEFAULT_POOL_SIZE DEFAULT_CACHE_SIZE w;
     Some (set_numa_domain D w, w)
   }"

definition init_system_secondary :: "'y dpdk_natives \<Rightarrow> string \<Rightarrow> i32 \<Rightarrow> 'y ports world \<Rightarrow> (i32 \<times> 'y ports world) option" where
  "init_system_secondary D name core w = do {
     name_cstr \<leftarrow> CString_new name;
     let (ret, w) = init_secondary D name_cstr (of_nat (length name)) core [] 0 w;
     if ret \<noteq> 0 then None else Some (set_numa_domain D w, w)
   }"

definition init_system :: "'y dpdk_natives \<Rightarrow> NetbricksConfiguration \<Rightarrow> 'y ports world \<Rightarrow> (i32 \<times> 'y ports world) option" where
  "init_system D config w =
     (if nc_name config = [] then None
      else do {
        w \<leftarrow> (if nc_secondary config then map_option snd (init_system_secondary D (nc_name config) (nc_primary_core config) w)
              else init_system_wl_with_mempool D (nc_name config) (nc_primary_core config) [] (nc_pool_size config) (nc_cache_size config) w);
        Some (set_numa_domain D w, w)
      })"

definition init_thread :: "'y dpdk_natives \<Rightarrow> i32 \<Rightarrow> i32 \<Rightarrow> 'y ports world \<Rightarrow> i32 \<times> 'y ports world" where
  "init_thread D tid core w = zcsi_init_thread D tid core w"

section \<open>The context\<close>

text \<open>
  A pipeline to install on a scheduler: the function that builds it (a name \<open>'g\<close>) with the queues it captures.
  A channel to a scheduler is the list of commands sent on it.
\<close>

datatype 'g pipeline = Pipeline 'g "PortQueue list" | TestPipeline 'g "VirtualQueue list"

type_synonym ('t, 'g) command = "('t, 'g pipeline, nat) SchedulerCommand"

record ('t, 'g) NetBricksContext =
  cx_ports :: "(string \<times> PmdPort) list"
  cx_rx_queues :: "(i32 \<times> PortQueue list) list"
  cx_active_cores :: "i32 list"
  cx_virtual_ports :: "(i32 \<times> VirtualPort) list"
  cx_scheduler_channels :: "(i32 \<times> ('t, 'g) command list) list"
  cx_scheduler_handles :: "i32 list"

definition NetBricksContext_default :: "('t, 'g) NetBricksContext" where
  "NetBricksContext_default = \<lparr>cx_ports = [], cx_rx_queues = [], cx_active_cores = [], cx_virtual_ports = [],
     cx_scheduler_channels = [], cx_scheduler_handles = []\<rparr>"

text \<open>A new thread listens to a new channel.\<close>

definition start_scheduler :: "i32 \<Rightarrow> ('t, 'g) NetBricksContext \<Rightarrow> ('t, 'g) NetBricksContext" where
  "start_scheduler core ctx = ctx\<lparr>cx_scheduler_channels := AList.update core [] (cx_scheduler_channels ctx),
     cx_scheduler_handles := List.insert core (cx_scheduler_handles ctx)\<rparr>"

definition start_schedulers :: "('t, 'g) NetBricksContext \<Rightarrow> ('t, 'g) NetBricksContext" where
  "start_schedulers ctx = foldl (\<lambda>ctx core. start_scheduler core ctx) ctx (cx_active_cores ctx)"

text \<open>
  \<open>send(..).unwrap()\<close>: the channel has no buffer, so the call returns when the scheduler takes the command, and panics
  when the scheduler has ended, which it does after a \<open>Shutdown\<close>.
\<close>

definition chan_send :: "('t, 'g) command \<Rightarrow> ('t, 'g) command list \<Rightarrow> ('t, 'g) command list option" where
  "chan_send cmd sent = (if Shutdown \<in> set sent then None else Some (sent @ [cmd]))"

text \<open>One command to every scheduler; the command may depend on the core.\<close>

definition send_all :: "(i32 \<Rightarrow> ('t, 'g) command) \<Rightarrow> ('t, 'g) NetBricksContext \<Rightarrow> ('t, 'g) NetBricksContext option" where
  "send_all cmd ctx = do {
     chans \<leftarrow> collect (\<lambda>(core, sent). map_option (Pair core) (chan_send (cmd core) sent)) (cx_scheduler_channels ctx);
     Some (ctx\<lparr>cx_scheduler_channels := chans\<rparr>)
   }"

definition core_queues :: "('t, 'g) NetBricksContext \<Rightarrow> i32 \<Rightarrow> PortQueue list" where
  "core_queues ctx core = (case map_of (cx_rx_queues ctx) core of Some v \<Rightarrow> v | None \<Rightarrow> [])"

definition add_pipeline_to_run :: "'g \<Rightarrow> ('t, 'g) NetBricksContext \<Rightarrow> ('t, 'g) NetBricksContext option" where
  "add_pipeline_to_run run ctx = send_all (\<lambda>core. Run (Pipeline run (core_queues ctx core))) ctx"

definition add_pipeline_to_core :: "i32 \<Rightarrow> 'g \<Rightarrow> ('t, 'g) NetBricksContext \<Rightarrow> (unit result \<times> ('t, 'g) NetBricksContext) option" where
  "add_pipeline_to_core core run ctx = (case map_of (cx_scheduler_channels ctx) core of
      Some sent \<Rightarrow> do {
        sent \<leftarrow> chan_send (Run (Pipeline run (core_queues ctx core))) sent;
        Some (Inr (), ctx\<lparr>cx_scheduler_channels := AList.update core sent (cx_scheduler_channels ctx)\<rparr>)
      }
    | None \<Rightarrow> Some (Inl (NoRunningSchedulerOnCore (sint core)), ctx))"

text \<open>
  The virtual port of a core: a new one is made in any case (\<open>or_insert\<close> evaluates its argument) and kept when
  there was none.
\<close>

definition virtual_port_entry ::
  "i32 \<Rightarrow> ('t, 'g) NetBricksContext \<Rightarrow> 'y ports world \<Rightarrow> (VirtualPort \<times> ('t, 'g) NetBricksContext \<times> 'y ports world) option" where
  "virtual_port_entry core ctx w = (case VirtualPort_new 1 w of
      (Inl e, w) \<Rightarrow> None
    | (Inr fresh, w) \<Rightarrow> (case map_of (cx_virtual_ports ctx) core of
          Some port \<Rightarrow> Some (port, ctx, w)
        | None \<Rightarrow> Some (fresh, ctx\<lparr>cx_virtual_ports := cx_virtual_ports ctx @ [(core, fresh)]\<rparr>, w)))"

definition add_test_pipeline_to_core ::
  "i32 \<Rightarrow> 'g \<Rightarrow> ('t, 'g) NetBricksContext \<Rightarrow> 'y ports world \<Rightarrow> (unit result \<times> ('t, 'g) NetBricksContext \<times> 'y ports world) option" where
  "add_test_pipeline_to_core core run ctx w = (case map_of (cx_scheduler_channels ctx) core of
      Some sent \<Rightarrow> do {
        (port, ctx, w) \<leftarrow> virtual_port_entry core ctx w;
        queue \<leftarrow> (case new_virtual_queue port 1 of Inl e \<Rightarrow> None | Inr q \<Rightarrow> Some q);
        sent \<leftarrow> chan_send (Run (TestPipeline run [queue])) sent;
        Some (Inr (), ctx\<lparr>cx_scheduler_channels := AList.update core sent (cx_scheduler_channels ctx)\<rparr>, w)
      }
    | None \<Rightarrow> Some (Inl (NoRunningSchedulerOnCore (sint core)), ctx, w))"

text \<open>\<open>cores\<close> are the keys of the channels in the order of the hash map.\<close>

fun add_test_pipeline_loop ::
  "'g \<Rightarrow> i32 list \<Rightarrow> ('t, 'g) NetBricksContext \<Rightarrow> 'y ports world \<Rightarrow> (('t, 'g) NetBricksContext \<times> 'y ports world) option" where
  "add_test_pipeline_loop run [] ctx w = Some (ctx, w)"
| "add_test_pipeline_loop run (core # cores) ctx w = do {
     (r, ctx, w) \<leftarrow> add_test_pipeline_to_core core run ctx w;
     add_test_pipeline_loop run cores ctx w
   }"

definition add_test_pipeline ::
  "(i32 list \<Rightarrow> i32 list) \<Rightarrow> 'g \<Rightarrow> ('t, 'g) NetBricksContext \<Rightarrow> 'y ports world \<Rightarrow> (('t, 'g) NetBricksContext \<times> 'y ports world) option" where
  "add_test_pipeline order run ctx w = add_test_pipeline_loop run (order (map fst (cx_scheduler_channels ctx))) ctx w"

definition execute :: "('t, 'g) NetBricksContext \<Rightarrow> ('t, 'g) NetBricksContext option" where
  "execute ctx = send_all (\<lambda>core. Execute) ctx"

text \<open>
  A handshake for each scheduler, as many as there are threads (\<open>zip\<close>), and the threads that wait until the
  barrier is released.
\<close>

definition barrier :: "('t, 'g) NetBricksContext \<Rightarrow> (i32 list \<times> ('t, 'g) NetBricksContext) option" where
  "barrier ctx = do {
     let n = length (cx_scheduler_handles ctx);
     let chans = cx_scheduler_channels ctx;
     front \<leftarrow> collect (\<lambda>((core, sent), i). map_option (Pair core) (chan_send (Handshake i) sent)) (zip chans [0..<n]);
     Some (cx_scheduler_handles ctx, ctx\<lparr>cx_scheduler_channels := front @ drop n chans\<rparr>)
   }"

definition stop :: "('t, 'g) NetBricksContext \<Rightarrow> ('t, 'g) NetBricksContext option" where
  "stop ctx = do {
     ctx \<leftarrow> send_all (\<lambda>core. Shutdown) ctx;
     Some (ctx\<lparr>cx_scheduler_handles := []\<rparr>)
   }"

definition ctx_wait :: "('t, 'g) NetBricksContext \<Rightarrow> ('t, 'g) NetBricksContext" where
  "ctx_wait ctx = ctx\<lparr>cx_scheduler_handles := []\<rparr>"

definition ctx_shutdown :: "('t, 'g) NetBricksContext \<Rightarrow> ('t, 'g) NetBricksContext option" where
  "ctx_shutdown ctx = stop ctx"

section \<open>Initialising a system from its configuration\<close>

text \<open>
  \<open>debug_error\<close> is the text of an error in a message.  A step ends with an error and the context that is given up, or
  with the context.
\<close>

type_synonym ('t, 'g) built = "(error_kind \<times> ('t, 'g) NetBricksContext) + ('t, 'g) NetBricksContext"

fun init_queues ::
  "(error_kind \<Rightarrow> string) \<Rightarrow> string \<Rightarrow> PmdPort \<Rightarrow> nat \<Rightarrow> i32 list \<Rightarrow> ('t, 'g) NetBricksContext \<Rightarrow> ('t, 'g) built option" where
  "init_queues debug_error name port rx_q [] ctx = Some (Inr ctx)"
| "init_queues debug_error name port rx_q (core # cores) ctx = do {
     r \<leftarrow> new_queue_pair port (of_nat rx_q) (of_nat rx_q);
     case r of
       Inr q \<Rightarrow> init_queues debug_error name port (Suc rx_q) cores (ctx\<lparr>cx_rx_queues := entry_push core q (cx_rx_queues ctx)\<rparr>)
     | Inl e \<Rightarrow> Some (Inl (ConfigurationError
         (''Queue '' @ i32_to_string (of_nat rx_q) @ '' on port '' @ name @ '' could not be initialized '' @ debug_error e), ctx))
   }"

fun init_ports ::
  "'y zcsi \<Rightarrow> (string \<Rightarrow> bool) \<Rightarrow> (error_kind \<Rightarrow> string) \<Rightarrow> PortConfiguration list \<Rightarrow> ('t, 'g) NetBricksContext \<Rightarrow> 'y ports world \<Rightarrow>
   (('t, 'g) built \<times> 'y ports world) option" where
  "init_ports Z is_pci debug_error [] ctx w = Some (Inr ctx, w)"
| "init_ports Z is_pci debug_error (port # ports) ctx w =
     (if map_of (cx_ports ctx) (pc_name port) \<noteq> None then
        Some (Inl (ConfigurationError (''Port '' @ pc_name port @ '' appears twice in specification''), ctx), w)
      else do {
        (r, w) \<leftarrow> new_port_from_configuration Z is_pci port w;
        case r of
          Inl e \<Rightarrow> Some (Inl (ConfigurationError (''Port '' @ pc_name port @ '' could not be initialized '' @ debug_error e), ctx), w)
        | Inr p \<Rightarrow> do {
            r \<leftarrow> init_queues debug_error (pc_name port) p 0 (pc_rx_queues port) (ctx\<lparr>cx_ports := cx_ports ctx @ [(pc_name port, p)]\<rparr>);
            case r of
              Inl e \<Rightarrow> Some (Inl e, w)
            | Inr ctx \<Rightarrow> init_ports Z is_pci debug_error ports ctx w
          }
      })"

text \<open>\<open>core_diff.join(", ")\<close>\<close>

fun join :: "string \<Rightarrow> string list \<Rightarrow> string" where
  "join sep [] = []"
| "join sep [s] = s"
| "join sep (s # ss) = s @ sep @ join sep ss"

definition check_cores ::
  "(i32 list \<Rightarrow> i32 list) \<Rightarrow> NetbricksConfiguration \<Rightarrow> ('t, 'g) NetBricksContext \<Rightarrow> ('t, 'g) built" where
  "check_cores order configuration ctx =
     (let cores = remdups (nc_cores configuration); other_cores = map fst (cx_rx_queues ctx) in
      if nc_strict configuration then
        let core_diff = filter (\<lambda>c. c \<notin> set cores) (order other_cores) in
        if core_diff \<noteq> [] then
          Inl (ConfigurationError (''Strict configuration selected but core(s) '' @ join '', '' (map i32_to_string core_diff) @
            '' appear in port configuration but not in cores''), ctx)
        else Inr (ctx\<lparr>cx_active_cores := order cores\<rparr>)
      else Inr (ctx\<lparr>cx_active_cores := order (remdups (cores @ other_cores))\<rparr>))"

text \<open>
  A context that is given up drops its ports, in the order of the hash map.  A queue pair holds a reference to
  its port, and \<open>CacheAligned\<close> frees the memory of its content without dropping it
  (\<open>framework/src/allocators/cache_aligned.rs\<close>), so only a port without queue pairs is closed.
\<close>

definition ctx_drop ::
  "'y zcsi \<Rightarrow> ((string \<times> PmdPort) list \<Rightarrow> (string \<times> PmdPort) list) \<Rightarrow> ('t, 'g) NetBricksContext \<Rightarrow> 'y ports world \<Rightarrow> 'y ports world" where
  "ctx_drop Z port_order ctx w = foldl (\<lambda>w (name, p).
     if p \<in> pq_port ` set (concat (map snd (cx_rx_queues ctx))) then w else PmdPort_drop Z p w) w (port_order (cx_ports ctx))"

text \<open>\<open>initialize_system\<close>: a panic, an error or the context.\<close>

definition initialize_system ::
  "'y dpdk_natives \<Rightarrow> 'y zcsi \<Rightarrow> (string \<Rightarrow> bool) \<Rightarrow> (error_kind \<Rightarrow> string) \<Rightarrow> (i32 list \<Rightarrow> i32 list) \<Rightarrow>
   ((string \<times> PmdPort) list \<Rightarrow> (string \<times> PmdPort) list) \<Rightarrow> NetbricksConfiguration \<Rightarrow> 'y ports world \<Rightarrow>
   (('t, 'g) NetBricksContext result \<times> 'y ports world) option" where
  "initialize_system D Z is_pci debug_error order port_order configuration w = do {
     (domain, w) \<leftarrow> init_system D configuration w;
     (r, w) \<leftarrow> init_ports Z is_pci debug_error (nc_ports configuration) NetBricksContext_default w;
     let r = (case r of Inl e \<Rightarrow> Inl e | Inr ctx \<Rightarrow> check_cores order configuration ctx);
     case r of
       Inl (e, ctx) \<Rightarrow> Some (Inl e, ctx_drop Z port_order ctx w)
     | Inr ctx \<Rightarrow> Some (Inr ctx, w)
   }"

section \<open>Every queue goes to its core\<close>

abbreviation push_all :: "('k \<times> 'v list) list \<Rightarrow> ('k \<times> 'v) list \<Rightarrow> ('k \<times> 'v list) list" where
  "push_all m xs \<equiv> foldl (\<lambda>m (k, v). entry_push k v m) m xs"

text \<open>A queue as its port and its number.\<close>

definition queue_id :: "PortQueue \<Rightarrow> PmdPort \<times> i32" where
  "queue_id q = (pq_port q, pq_rxq q)"

text \<open>What the configuration of a port asks for: its queues, numbered, each with its core.\<close>

definition wanted :: "PortConfiguration \<Rightarrow> PmdPort \<Rightarrow> (i32 \<times> PmdPort \<times> i32) list" where
  "wanted c p = zip (pc_rx_queues c) (map (\<lambda>j. (p, of_nat j)) [0..<length (pc_rx_queues c)])"

lemma new_queue_pair_id: "new_queue_pair p r t = Some (Inr q) \<Longrightarrow> queue_id q = (p, r)"
  by (auto simp: new_queue_pair_def queue_id_def bind_eq_Some_conv split: if_splits)

lemma init_queues_grants:
  assumes "init_queues dbg name p k cores ctx = Some (Inr ctx')"
  shows "\<exists>qs. length qs = length cores \<and> map queue_id qs = map (\<lambda>j. (p, of_nat j)) [k..<k + length cores] \<and>
    ctx' = ctx\<lparr>cx_rx_queues := push_all (cx_rx_queues ctx) (zip cores qs)\<rparr>"
  using assms
proof (induction cores arbitrary: k ctx)
  case (Cons core cores)
  obtain r where r: "new_queue_pair p (of_nat k) (of_nat k) = Some r" using Cons.prems by (auto simp: bind_eq_Some_conv)
  with Cons.prems obtain q where "r = Inr q" by (cases r) auto
  with r Cons.prems have q: "new_queue_pair p (of_nat k) (of_nat k) = Some (Inr q)"
    and rest: "init_queues dbg name p (Suc k) cores (ctx\<lparr>cx_rx_queues := entry_push core q (cx_rx_queues ctx)\<rparr>) = Some (Inr ctx')"
    by simp_all
  from Cons.IH [OF rest] obtain qs where "length qs = length cores" "map queue_id qs = map (\<lambda>j. (p, of_nat j)) [Suc k..<Suc k + length cores]"
    "ctx' = ctx\<lparr>cx_rx_queues := push_all (entry_push core q (cx_rx_queues ctx)) (zip cores qs)\<rparr>" by auto
  then show ?case using new_queue_pair_id [OF q] by (intro exI [of _ "q # qs"]) (simp add: upt_conv_Cons del: upt_Suc)
qed simp

lemma map_snd_zip_queues:
  "length qs = length cores \<Longrightarrow> map (\<lambda>(c, q). (c, queue_id q)) (zip cores qs) = zip cores (map queue_id qs)"
  by (simp add: zip_map2)

lemma init_ports_grants:
  assumes "init_ports Z is_pci dbg cs ctx w = Some (Inr ctx', w')"
  shows "\<exists>ps gs. length ps = length cs \<and> cx_ports ctx' = cx_ports ctx @ zip (map pc_name cs) ps \<and>
    cx_rx_queues ctx' = push_all (cx_rx_queues ctx) gs \<and>
    map (\<lambda>(c, q). (c, queue_id q)) gs = concat (map (\<lambda>(c, p). wanted c p) (zip cs ps)) \<and>
    distinct (map pc_name cs) \<and> set (map pc_name cs) \<inter> fst ` set (cx_ports ctx) = {} \<and>
    cx_scheduler_channels ctx' = cx_scheduler_channels ctx \<and> cx_scheduler_handles ctx' = cx_scheduler_handles ctx"
  using assms
proof (induction cs arbitrary: ctx w)
  case (Cons c cs)
  let ?ctx = "\<lambda>p. ctx\<lparr>cx_ports := cx_ports ctx @ [(pc_name c, p)]\<rparr>"
  have new: "map_of (cx_ports ctx) (pc_name c) = None" using Cons.prems by (auto split: if_splits)
  with Cons.prems obtain r w1 where r: "new_port_from_configuration Z is_pci c w = Some (r, w1)"
    by (auto simp: bind_eq_Some_conv)
  with Cons.prems new obtain p where p: "r = Inr p" by (cases r) auto
  with r Cons.prems new obtain r' where r': "init_queues dbg (pc_name c) p 0 (pc_rx_queues c) (?ctx p) = Some r'"
    by (auto simp: bind_eq_Some_conv)
  with r p Cons.prems new obtain ctx1 where "r' = Inr ctx1" by (cases r') auto
  with r p r' Cons.prems new have q: "init_queues dbg (pc_name c) p 0 (pc_rx_queues c) (?ctx p) = Some (Inr ctx1)"
    and rest: "init_ports Z is_pci dbg cs ctx1 w1 = Some (Inr ctx', w')"
    by simp_all
  obtain qs where qs: "length qs = length (pc_rx_queues c)" "map queue_id qs = map (\<lambda>j. (p, of_nat j)) [0..<length (pc_rx_queues c)]"
    "ctx1 = (?ctx p)\<lparr>cx_rx_queues := push_all (cx_rx_queues ctx) (zip (pc_rx_queues c) qs)\<rparr>"
    using init_queues_grants [OF q] by auto
  obtain ps gs where 1: "length ps = length cs" "cx_ports ctx' = cx_ports ctx1 @ zip (map pc_name cs) ps"
    "cx_rx_queues ctx' = push_all (cx_rx_queues ctx1) gs"
    "map (\<lambda>(c, q). (c, queue_id q)) gs = concat (map (\<lambda>(c, p). wanted c p) (zip cs ps))"
    "distinct (map pc_name cs)" "set (map pc_name cs) \<inter> fst ` set (cx_ports ctx1) = {}"
    "cx_scheduler_channels ctx' = cx_scheduler_channels ctx1" "cx_scheduler_handles ctx' = cx_scheduler_handles ctx1"
    using Cons.IH [OF rest] by blast
  have "map (\<lambda>(c, q). (c, queue_id q)) (zip (pc_rx_queues c) qs) = wanted c p"
    unfolding map_snd_zip_queues [OF qs(1)] qs(2) wanted_def ..
  then show ?case using 1 qs(3) new
    by (intro exI [of _ "p # ps"] exI [of _ "zip (pc_rx_queues c) qs @ gs"]) (auto simp: map_of_eq_None_iff)
qed simp

lemma cores_named_map: "map f (cores_named k xs) = cores_named k (map (\<lambda>(k, v). (k, f v)) xs)"
  by (induction xs) (auto simp: cores_named_def)

text \<open>
  C7: Initialising a system either fails or gives every receive queue to its core: the ports have distinct names and are those of
  the configuration, each core is given exactly the receive queues configured for it, in the order of the
  ports and of their queues, and the active cores are those of the configuration together with those that have a
  receive queue; in a strict configuration every core with a receive queue is listed.  Cores that are configured for
  transmit queues only are neither added nor checked, although the documentation of the configuration says so.
\<close>

theorem initialize_system_assigns_queues:
  fixes ctx :: "('t, 'g) NetBricksContext"
  assumes "\<forall>cs. mset (order cs) = mset cs"
    and "initialize_system D Z is_pci dbg order port_order config w = Some (Inr ctx, w')"
  shows "map fst (cx_ports ctx) = map pc_name (nc_ports config) \<and> distinct (map fst (cx_ports ctx)) \<and>
    (\<forall>core. map queue_id (core_queues ctx core) =
      cores_named core (concat (map (\<lambda>(c, p). wanted c p) (zip (nc_ports config) (map snd (cx_ports ctx)))))) \<and>
    distinct (cx_active_cores ctx) \<and>
    (nc_strict config \<longrightarrow> (\<forall>core. core_queues ctx core \<noteq> [] \<longrightarrow> core \<in> set (nc_cores config))) \<and>
    set (cx_active_cores ctx) = set (nc_cores config) \<union> {core. core_queues ctx core \<noteq> []}"
proof -
  obtain r w1 domain w2 where 1: "init_system D config w = Some (domain, w1)"
    "init_ports Z is_pci dbg (nc_ports config) (NetBricksContext_default :: ('t, 'g) NetBricksContext) w1 = Some (r, w2)"
    using assms(2) by (auto simp: initialize_system_def bind_eq_Some_conv)
  obtain ctx0 where ctx0: "r = Inr ctx0" using assms(2) 1 by (cases r) (auto simp: initialize_system_def)
  have c: "check_cores order config ctx0 = Inr ctx"
    using assms(2) 1 ctx0 by (cases "check_cores order config ctx0") (auto simp: initialize_system_def)
  obtain ps gs where G: "length ps = length (nc_ports config)" "cx_ports ctx0 = zip (map pc_name (nc_ports config)) ps"
    "cx_rx_queues ctx0 = push_all [] gs" "map (\<lambda>(c, q). (c, queue_id q)) gs = concat (map (\<lambda>(c, p). wanted c p) (zip (nc_ports config) ps))"
    "distinct (map pc_name (nc_ports config))"
    using init_ports_grants [OF 1(2) [unfolded ctx0]] by (auto simp: NetBricksContext_default_def)
  have same: "cx_ports ctx = cx_ports ctx0" "cx_rx_queues ctx = cx_rx_queues ctx0"
    using c by (auto simp: check_cores_def Let_def split: if_splits)
  have names: "map fst (cx_ports ctx) = map pc_name (nc_ports config)" "map snd (cx_ports ctx) = ps"
    using G(1,2) same by simp_all
  have queues: "core_queues ctx core = cores_named core gs" for core
    using map_of_extract [of "[]" gs core] same(2) G(3) by (simp add: core_queues_def)
  have keys: "fst ` set (cx_rx_queues ctx) = {core. core_queues ctx core \<noteq> []}" "distinct (map fst (cx_rx_queues ctx))"
    using keys_extract [of "[]" gs] same(2) G(3) queues cores_named_empty [of _ gs] by auto
  have perm: "set (order cs) = set cs" "distinct (order cs) \<longleftrightarrow> distinct cs" for cs
    using assms(1) by (metis mset_eq_setD, metis mset_eq_imp_distinct_iff)
  have "distinct (cx_active_cores ctx)" "nc_strict config \<longrightarrow> fst ` set (cx_rx_queues ctx) \<subseteq> set (nc_cores config)"
    "set (cx_active_cores ctx) = set (nc_cores config) \<union> fst ` set (cx_rx_queues ctx)"
    using c same(2) by (auto simp: check_cores_def Let_def perm filter_empty_conv image_iff split: if_splits) force+
  with names G(4,5) queues cores_named_map [of queue_id _ gs] show ?thesis unfolding keys(1) by auto
qed

definition card_dpdk :: "card dpdk_natives" where
  "card_dpdk = \<lparr>init_system_whitelisted = \<lambda>n l c wl k p cs m w. (0, w), init_secondary = \<lambda>n l c v k w. (0, w), numa_available = \<lambda>w. - 1,
     numa_preferred = \<lambda>w. 0, zcsi_init_thread = \<lambda>t c w. (0, w)\<rparr>"

definition card_configuration :: NetbricksConfiguration where
  "card_configuration = (NetbricksConfiguration_new_with_name ''nf'')\<lparr>nc_cores := [7],
     nc_ports := [PortConfiguration_new_with_queues ''dpdk:eth0'' [5, 6] [5, 6], PortConfiguration_new_with_queues ''bess:b'' [6] [6]]\<rparr>"

theorem initialize_system_assigns_queues_witness:
  "\<exists>ctx :: (unit, unit) NetBricksContext. \<exists>w'.
     initialize_system card_dpdk card_zcsi (\<lambda>s. False) (\<lambda>e. []) id id card_configuration card_world = Some (Inr ctx, w') \<and>
     map fst (cx_ports ctx) = [''dpdk:eth0'', ''bess:b''] \<and> set (cx_active_cores ctx) = {5, 6, 7} \<and>
     map snd (map queue_id (core_queues ctx 6)) = [1, 0]"
proof -
  let ?run = "initialize_system card_dpdk card_zcsi (\<lambda>s. False) (\<lambda>e. []) id id card_configuration card_world
    :: ((unit, unit) NetBricksContext result \<times> card ports world) option"
  have "map_option (\<lambda>(r, w). case r of Inl e \<Rightarrow> None | Inr ctx \<Rightarrow> Some (cx_active_cores ctx, map pq_rxq (core_queues ctx 6))) ?run =
      Some (Some ([7, 5, 6], [1, 0]))" by code_simp
  moreover obtain r w' where r: "?run = Some (r, w')" using calculation by (cases ?run) auto
  ultimately obtain ctx where "r = Inr ctx" by (cases r) auto
  then have R: "?run = Some (Inr ctx, w')" "cx_active_cores ctx = [7, 5, 6]" "map pq_rxq (core_queues ctx 6) = [1, 0]"
    using r \<open>map_option _ ?run = _\<close> by auto
  have "\<forall>cs :: i32 list. mset (id cs) = mset cs" by simp
  then have "map fst (cx_ports ctx) = map pc_name (nc_ports card_configuration)"
    by (rule initialize_system_assigns_queues [OF _ R(1), THEN conjunct1])
  then have "map fst (cx_ports ctx) = [''dpdk:eth0'', ''bess:b'']"
    by (simp add: card_configuration_def PortConfiguration_new_with_queues_def PortConfiguration_new_with_name_def)
  moreover have "map snd (map queue_id (core_queues ctx 6)) = [1, 0]" using R(3) by (simp add: queue_id_def comp_def)
  moreover have "set (cx_active_cores ctx) = {5, 6, 7}" using R(2) by auto
  ultimately show ?thesis using R(1) by (intro exI conjI)
qed

section \<open>The life of a system\<close>

lemma update_new: "k \<notin> fst ` set al \<Longrightarrow> AList.update k v al = al @ [(k, v)]"
  by (induction al) auto

lemma start_schedulers_channels:
  assumes "distinct cs" and "set cs \<inter> fst ` set (cx_scheduler_channels ctx) = {}"
  shows "foldl (\<lambda>ctx core. start_scheduler core ctx) ctx cs =
    ctx\<lparr>cx_scheduler_channels := cx_scheduler_channels ctx @ map (\<lambda>c. (c, [])) cs,
      cx_scheduler_handles := foldl (\<lambda>hs c. List.insert c hs) (cx_scheduler_handles ctx) cs\<rparr>"
  using assms
proof (induction cs arbitrary: ctx)
  case (Cons c cs)
  have upd: "AList.update c [] (cx_scheduler_channels ctx) = cx_scheduler_channels ctx @ [(c, [])]"
    using Cons.prems(2) by (intro update_new) simp
  show ?case using Cons by (simp add: start_scheduler_def upd)
qed simp

lemma collect_chan_send:
  assumes "\<forall>(core, sent)\<in>set chans. Shutdown \<notin> set sent"
  shows "collect (\<lambda>(core, sent). map_option (Pair core) (chan_send (cmd core) sent)) chans =
    Some (map (\<lambda>(core, sent). (core, sent @ [cmd core])) chans)"
  using assms by (induction chans) (auto simp: chan_send_def)

lemma send_all_open:
  assumes "\<forall>(core, sent)\<in>set (cx_scheduler_channels ctx). Shutdown \<notin> set sent"
  shows "send_all cmd ctx = Some (ctx\<lparr>cx_scheduler_channels := map (\<lambda>(core, sent). (core, sent @ [cmd core])) (cx_scheduler_channels ctx)\<rparr>)"
  by (simp only: send_all_def collect_chan_send [OF assms] bind.bind_lunit)

text \<open>
  The functions that schedulers are asked to run build a pipeline from the queues they are given and add its tasks.
\<close>

definition builds :: "('t, 'g pipeline, nat, 'w) sched_env \<Rightarrow> ('g \<Rightarrow> PortQueue list \<Rightarrow> 't list) \<Rightarrow> bool" where
  "builds E build \<longleftrightarrow> (\<forall>g qs s w. se_run E (Pipeline g qs) s w =
     Some (s\<lparr>run_q := run_q s @ fst (install E (build g qs) w)\<rparr>, snd (install E (build g qs) w)))"

lemma collect_panics: "x \<in> set xs \<Longrightarrow> f x = None \<Longrightarrow> collect f xs = None"
  by (induction xs) (auto split: Option.bind_split)

text \<open>What the scheduler of a core makes of the commands.\<close>

lemma scheduler_runs_pipeline:
  assumes "steady clock E" and "builds E build" and "build g qs \<noteq> []"
    and "install E (build g qs) w = (rs, w1)" and "se_rdtsc E w1 = (now, w2)"
  obtains time rs' w' where "run_passes E (Suc n) now rs w2 = Some (time, rs', w')" and "map rn_task rs = build g qs"
    and "handle_requests E (StandaloneScheduler_new_with_channel (Some (Run (Pipeline g qs)) # Some Execute # replicate n None @ [Some Shutdown])) w =
      Some (\<lparr>run_q = rs', next_task = 0, sched_channel = [], execute_loop = False, shutdown = True\<rparr>, w')"
proof -
  let ?s = "\<lambda>rs ch. \<lparr>run_q = rs, next_task = 0, sched_channel = ch, execute_loop = False, shutdown = False\<rparr>"
  let ?ch = "Some Execute # replicate n None @ [Some Shutdown]"
  have rs: "map rn_task rs = build g qs" "total_cycles rs = 0"
    using install_tasks [of E "build g qs" w] assms(4) by (simp_all add: total_cycles_def)
  then have ne: "rs \<noteq> []" using assms(3) by auto
  have "now \<le> clock w2" using assms(1,5) unfolding steady_def by (metis fst_conv snd_conv order_refl)
  then obtain time rs' w' where p: "run_passes E (Suc n) now rs w2 = Some (time, rs', w')"
    using run_passes_steady [OF assms(1), of rs now w2 "Suc n"] rs(2) by auto
  have run: "se_run E (Pipeline g qs) (?s [] ?ch) w = Some (?s rs ?ch, w1)"
    using assms(2,4) by (simp add: builds_def)
  have "handle_requests E (StandaloneScheduler_new_with_channel (Some (Run (Pipeline g qs)) # ?ch)) w =
      rust_loop (handle_requests_step E) (?s [] (Some (Run (Pipeline g qs)) # ?ch), w)"
    by (simp add: handle_requests_def StandaloneScheduler_new_with_channel_def)
  also have "\<dots> = rust_loop (handle_requests_step E) (?s rs ?ch, w1)"
    by (rule rust_loop_continue) (simp add: handle_requests_step_def handle_request_def run)
  also have "\<dots> = Some (\<lparr>run_q = rs', next_task = 0, sched_channel = [], execute_loop = False, shutdown = True\<rparr>, w')"
    using handle_requests_executes [OF _ _ _ assms(5), of "?s rs ?ch" n "[]"] ne p by (simp del: run_passes.simps)
  finally show ?thesis using that [OF p rs(1)] by simp
qed

text \<open>
  C6: The life of a system.  Starting the schedulers of a context, installing a pipeline, executing and stopping
  does not panic, and sends the scheduler of each active core the same three commands, the pipeline with the
  queues of that core; a second stop panics.  The scheduler that takes its commands from the channel, the last one
  after \<open>n\<close> further rounds, ends, and has run the tasks of the pipeline for its queues \<open>n + 1\<close> times.
\<close>

theorem system_life:
  assumes "distinct (cx_active_cores ctx)" and "cx_scheduler_channels ctx = []" and "core \<in> set (cx_active_cores ctx)"
    and "steady clock E" and "builds E build" and "build g (core_queues ctx core) \<noteq> []"
    and "install E (build g (core_queues ctx core)) w = (rs, w1)" and "se_rdtsc E w1 = (now, w2)"
  shows "\<exists>ctx1 ctx2 ctx3 run exec halt time rs' w'.
    add_pipeline_to_run g (start_schedulers ctx) = Some ctx1 \<and> execute ctx1 = Some ctx2 \<and> stop ctx2 = Some ctx3 \<and>
    map_of (cx_scheduler_channels ctx3) core = Some [run, exec, halt] \<and> run = Run (Pipeline g (core_queues ctx core)) \<and>
    cx_scheduler_handles ctx3 = [] \<and> stop ctx3 = None \<and>
    run_passes E (Suc n) now rs w2 = Some (time, rs', w') \<and> map rn_task rs = build g (core_queues ctx core) \<and>
    handle_requests E (StandaloneScheduler_new_with_channel (Some run # Some exec # replicate n None @ [Some halt])) w =
      Some (\<lparr>run_q = rs', next_task = 0, sched_channel = [], execute_loop = False, shutdown = True\<rparr>, w')"
proof -
  let ?qs = "core_queues ctx core" and ?cs = "cx_active_cores ctx"
  let ?c = "\<lambda>cmds. ctx\<lparr>cx_scheduler_channels := map (\<lambda>c. (c, cmds c)) ?cs, cx_scheduler_handles := foldl (\<lambda>hs c. List.insert c hs) (cx_scheduler_handles ctx) ?cs\<rparr>"
  let ?run = "\<lambda>c. Run (Pipeline g (core_queues ctx c)) :: ('a, 'b) command"
  have q: "core_queues (?c cmds) = core_queues ctx" for cmds by (simp add: core_queues_def fun_eq_iff)
  have start: "start_schedulers ctx = ?c (\<lambda>c. [])"
    using start_schedulers_channels [of ?cs ctx] assms(1,2) by (simp add: start_schedulers_def)
  have send: "send_all cmd (?c cmds) = Some (?c (\<lambda>c. cmds c @ [cmd c]))" if "\<And>c. Shutdown \<notin> set (cmds c)" for cmd cmds
    by (subst send_all_open) (use that in \<open>auto simp: comp_def\<close>)
  have 1: "add_pipeline_to_run g (start_schedulers ctx) = Some (?c (\<lambda>c. [?run c]))"
    unfolding add_pipeline_to_run_def start q using send [of "\<lambda>c. []" ?run] by simp
  have 2: "execute (?c (\<lambda>c. [?run c])) = Some (?c (\<lambda>c. [?run c, Execute]))"
    unfolding execute_def using send [of "\<lambda>c. [?run c]" "\<lambda>c. Execute"] by simp
  let ?fin = "(?c (\<lambda>c. [?run c, Execute, Shutdown]))\<lparr>cx_scheduler_handles := []\<rparr>"
  have 3: "stop (?c (\<lambda>c. [?run c, Execute])) = Some ?fin"
    unfolding stop_def using send [of "\<lambda>c. [?run c, Execute]" "\<lambda>c. Shutdown"] by simp
  have 4: "map_of (cx_scheduler_channels ?fin) core = Some [?run core, Execute, Shutdown]"
    using assms(3) by (simp add: map_of_map_restrict)
  have 5: "stop ?fin = None"
    unfolding stop_def send_all_def
    by (subst collect_panics [where x = "(core, [?run core, Execute, Shutdown])"]) (use assms(3) in \<open>auto simp: chan_send_def\<close>)
  obtain time rs' w' where 6: "run_passes E (Suc n) now rs w2 = Some (time, rs', w')" "map rn_task rs = build g ?qs"
    "handle_requests E (StandaloneScheduler_new_with_channel (Some (?run core) # Some Execute # replicate n None @ [Some Shutdown])) w =
      Some (\<lparr>run_q = rs', next_task = 0, sched_channel = [], execute_loop = False, shutdown = True\<rparr>, w')"
    by (rule scheduler_runs_pipeline [OF assms(4-8)])
  show ?thesis by (intro exI conjI) (rule 1 2 3 4 5 6 refl | simp)+
qed

text \<open>An environment whose pipelines log the numbers of their queues.\<close>

definition queue_tasks :: "nat \<Rightarrow> PortQueue list \<Rightarrow> nat list" where
  "queue_tasks g qs = map (\<lambda>q. g + unat (pq_rxq q)) qs"

definition queue_base :: "(nat, nat pipeline, nat, 64 word \<times> nat list) sched_env" where
  "queue_base = \<lparr>
     se_tasks = \<lparr>ex_execute = \<lambda>t (c, out). Some (t, (c, out @ [t])), ex_dependencies = \<lambda>t. []\<rparr>,
     se_rdtsc = \<lambda>(c, out). (max c (c + 1), (max c (c + 1), out)),
     se_run = \<lambda>f s w. Some (s, w),
     se_handshake = \<lambda>c w. Some w\<rparr>"

definition queue_env :: "(nat, nat pipeline, nat, 64 word \<times> nat list) sched_env" where
  "queue_env = queue_base\<lparr>se_run := \<lambda>f s w. case f of
      Pipeline g qs \<Rightarrow> Some (s\<lparr>run_q := run_q s @ fst (install queue_base (queue_tasks g qs) w)\<rparr>, snd (install queue_base (queue_tasks g qs) w))
    | TestPipeline g qs \<Rightarrow> Some (s, w)\<rparr>"

lemma queue_env_builds: "builds queue_env queue_tasks"
proof -
  have "install queue_env ts w = install queue_base ts w" for ts w
    by (induction ts arbitrary: w) (simp_all add: Runnable_from_task_def queue_env_def)
  then show ?thesis by (simp add: builds_def) (simp add: queue_env_def)
qed

lemma queue_env_steady: "steady fst queue_env"
  by (simp add: steady_def queue_env_def queue_base_def)

definition queue_context :: "(nat, nat) NetBricksContext" where
  "queue_context = NetBricksContext_default\<lparr>cx_active_cores := [5, 6], cx_rx_queues := [(6, [card_queue, card_queue\<lparr>pq_rxq := 1\<rparr>])]\<rparr>"

theorem system_life_witness:
  "\<exists>ctx1 ctx2 ctx3 sent s' w'. add_pipeline_to_run 40 (start_schedulers queue_context) = Some ctx1 \<and> execute ctx1 = Some ctx2 \<and>
     stop ctx2 = Some ctx3 \<and> map_of (cx_scheduler_channels ctx3) 6 = Some sent \<and>
     handle_requests queue_env (StandaloneScheduler_new_with_channel
       (Some (sent ! 0) # Some (sent ! 1) # replicate 1 None @ [Some (sent ! 2)])) (0, []) = Some (s', w') \<and>
     snd w' = [40, 41, 40, 41]"
proof -
  define rs where "rs = fst (install queue_env (queue_tasks 40 (core_queues queue_context 6)) (0, []))"
  have tasks: "queue_tasks 40 (core_queues queue_context 6) = [40, 41]" by code_simp
  have i: "install queue_env (queue_tasks 40 (core_queues queue_context 6)) (0, []) = (rs, (2, []))"
    unfolding rs_def tasks by code_simp
  have t: "se_rdtsc queue_env (2, []) = (3, (3, []))" by code_simp
  have log: "map_option (\<lambda>r. snd (snd (snd r))) (run_passes queue_env (Suc 1) 3 rs (3, [])) = Some [40, 41, 40, 41]"
    unfolding rs_def tasks by code_simp
  have ctx: "distinct (cx_active_cores queue_context)" "cx_scheduler_channels queue_context = []" "6 \<in> set (cx_active_cores queue_context)"
    by (simp_all add: queue_context_def NetBricksContext_default_def)
  have "queue_tasks 40 (core_queues queue_context 6) \<noteq> []" by (simp add: tasks)
  from system_life [OF ctx queue_env_steady queue_env_builds this i t, of 1]
  obtain ctx1 ctx2 ctx3 run exec halt time rs' w' where
    L: "add_pipeline_to_run 40 (start_schedulers queue_context) = Some ctx1" "execute ctx1 = Some ctx2" "stop ctx2 = Some ctx3"
      "map_of (cx_scheduler_channels ctx3) 6 = Some [run, exec, halt]" "run_passes queue_env (Suc 1) 3 rs (3, []) = Some (time, rs', w')"
      "handle_requests queue_env (StandaloneScheduler_new_with_channel (Some run # Some exec # replicate 1 None @ [Some halt])) (0, []) =
        Some (\<lparr>run_q = rs', next_task = 0, sched_channel = [], execute_loop = False, shutdown = True\<rparr>, w')"
    by (elim exE conjE) (rule that; assumption)
  then have "snd w' = [40, 41, 40, 41]" using log by simp
  with L(1-4,6) show ?thesis by (intro exI [of _ "[run, exec, halt]"] exI conjI) (assumption | simp)+
qed

end
