(* ===== verification/NB_Mergeable.thy ===== *)
theory NB_Mergeable
  imports NB_Flow "HOL-Library.AList_Mapping"
begin

text \<open>
  The stores that associate values with flows: \<open>framework/src/state/dp_mergeable.rs\<close> (data plane only),
  \<open>cp_mergeable.rs\<close> (written in the data plane, read in the control plane, over a channel) and \<open>mergeable.rs\<close> (written in the
  data plane and copied to the control plane under a lock).  The type of values has the operations that the trait bounds
  name: \<open>+\<close> for \<open>AddAssign\<close> and \<open>0\<close> for \<open>Default\<close>.
\<close>

section \<open>Hash maps\<close>

text \<open>\<open>HashMap::extend\<close>: the entries are inserted one after the other, each replacing an entry with its key.\<close>

definition hm_extend :: "('k, 'v) mapping \<Rightarrow> ('k \<times> 'v) list \<Rightarrow> ('k, 'v) mapping" where
  "hm_extend m kvs = foldl (\<lambda>m (k, v). Mapping.update k v m) m kvs"

text \<open>\<open>get\<close> and \<open>remove\<close> with a default.\<close>

definition hm_get :: "('k, 'v :: zero) mapping \<Rightarrow> 'k \<Rightarrow> 'v" where
  "hm_get m k = (case Mapping.lookup m k of Some v \<Rightarrow> v | None \<Rightarrow> 0)"

definition hm_remove :: "('k, 'v :: zero) mapping \<Rightarrow> 'k \<Rightarrow> 'v \<times> ('k, 'v) mapping" where
  "hm_remove m k = (hm_get m k, Mapping.delete k m)"

section \<open>The store of the data plane\<close>

record 'v DpMergeableStore =
  dm_state :: "(Flow, 'v) mapping"
  dm_cache :: "(Flow \<times> 'v) list"
  dm_cache_size :: nat

definition DpMergeableStore_with_cache_and_size :: "nat \<Rightarrow> nat \<Rightarrow> 'v DpMergeableStore" where
  "DpMergeableStore_with_cache_and_size cache sz = \<lparr>dm_state = Mapping.empty, dm_cache = [], dm_cache_size = cache\<rparr>"

definition DpMergeableStore_new :: "'v DpMergeableStore" where
  "DpMergeableStore_new = DpMergeableStore_with_cache_and_size (2 ^ 14) (2 ^ 24)"

definition dm_merge_cache :: "'v DpMergeableStore \<Rightarrow> 'v DpMergeableStore" where
  "dm_merge_cache s = s\<lparr>dm_state := hm_extend (dm_state s) (dm_cache s), dm_cache := []\<rparr>"

definition dm_update :: "Flow \<Rightarrow> 'v \<Rightarrow> 'v DpMergeableStore \<Rightarrow> 'v DpMergeableStore" where
  "dm_update flow inc s = (let s = s\<lparr>dm_cache := dm_cache s @ [(flow, inc)]\<rparr> in
     if dm_cache_size s \<le> length (dm_cache s) then dm_merge_cache s else s)"

definition dm_remove :: "Flow \<Rightarrow> ('v :: zero) DpMergeableStore \<Rightarrow> 'v \<times> 'v DpMergeableStore" where
  "dm_remove flow s = (let s = dm_merge_cache s; (v, m) = hm_remove (dm_state s) flow in (v, s\<lparr>dm_state := m\<rparr>))"

definition dm_iter :: "'v DpMergeableStore \<Rightarrow> (Flow, 'v) mapping \<times> 'v DpMergeableStore" where
  "dm_iter s = (let s = dm_merge_cache s in (dm_state s, s))"

definition dm_len :: "'v DpMergeableStore \<Rightarrow> nat \<times> 'v DpMergeableStore" where
  "dm_len s = (let s = dm_merge_cache s in (Mapping.size (dm_state s), s))"

definition dm_is_empty :: "'v DpMergeableStore \<Rightarrow> bool" where
  "dm_is_empty s \<longleftrightarrow> Mapping.is_empty (dm_state s) \<and> dm_cache s = []"

section \<open>The store of the control plane\<close>

text \<open>The bounded channel that the data paths and the control plane share.\<close>

record 'v cp_channel =
  ch_size :: nat
  ch_msgs :: "(Flow \<times> 'v) list list"

text \<open>\<open>try_send\<close>; nobody waits in \<open>recv\<close>, so a channel of size 0 takes nothing.\<close>

definition try_send :: "(Flow \<times> 'v) list \<Rightarrow> 'v cp_channel \<Rightarrow> bool \<times> 'v cp_channel" where
  "try_send msg c = (if length (ch_msgs c) < ch_size c then (True, c\<lparr>ch_msgs := ch_msgs c @ [msg]\<rparr>) else (False, c))"

record 'v CpMergeableStoreDataPath =
  cd_cache :: "(Flow \<times> 'v) list"
  cd_updates :: nat
  cd_delay :: nat

record 'v CpMergeableStoreControlPlane =
  cc_flow_counters :: "(Flow, 'v) mapping"

definition cd_update ::
  "Flow \<Rightarrow> 'v \<Rightarrow> 'v CpMergeableStoreDataPath \<Rightarrow> 'v cp_channel \<Rightarrow> 'v CpMergeableStoreDataPath \<times> 'v cp_channel" where
  "cd_update flow inc d c =
     (let d = d\<lparr>cd_cache := cd_cache d @ [(flow, inc)], cd_updates := cd_updates d + 1\<rparr> in
      if cd_delay d \<le> cd_updates d then
        let (sent, c) = try_send (cd_cache d) c in (d\<lparr>cd_updates := 0, cd_cache := []\<rparr>, c)
      else (d, c))"

definition update_internal ::
  "(Flow \<times> 'v :: {plus, zero}) list \<Rightarrow> 'v CpMergeableStoreControlPlane \<Rightarrow> 'v CpMergeableStoreControlPlane" where
  "update_internal v s = s\<lparr>cc_flow_counters :=
     foldl (\<lambda>m (flow, c). Mapping.update flow (hm_get m flow + c) m) (cc_flow_counters s) v\<rparr>"

definition cc_recv ::
  "('v :: {plus, zero}) CpMergeableStoreControlPlane \<Rightarrow> 'v cp_channel \<Rightarrow> 'v CpMergeableStoreControlPlane \<times> 'v cp_channel" where
  "cc_recv s c = (case ch_msgs c of
      [] \<Rightarrow> (s, c)
    | v # vs \<Rightarrow> (update_internal v s, c\<lparr>ch_msgs := vs\<rparr>))"

definition cc_get :: "('v :: zero) CpMergeableStoreControlPlane \<Rightarrow> Flow \<Rightarrow> 'v" where
  "cc_get s flow = hm_get (cc_flow_counters s) flow"

definition cc_len :: "'v CpMergeableStoreControlPlane \<Rightarrow> nat" where
  "cc_len s = Mapping.size (cc_flow_counters s)"

definition cc_is_empty :: "'v CpMergeableStoreControlPlane \<Rightarrow> bool" where
  "cc_is_empty s = Mapping.is_empty (cc_flow_counters s)"

definition cc_remove :: "Flow \<Rightarrow> ('v :: zero) CpMergeableStoreControlPlane \<Rightarrow> 'v \<times> 'v CpMergeableStoreControlPlane" where
  "cc_remove flow s = (let (v, m) = hm_remove (cc_flow_counters s) flow in (v, s\<lparr>cc_flow_counters := m\<rparr>))"

definition new_cp_mergeable_store ::
  "nat \<Rightarrow> nat \<Rightarrow> 'v CpMergeableStoreDataPath \<times> 'v CpMergeableStoreControlPlane \<times> 'v cp_channel" where
  "new_cp_mergeable_store delay channel_size =
     (\<lparr>cd_cache = [], cd_updates = 0, cd_delay = delay\<rparr>, \<lparr>cc_flow_counters = Mapping.empty\<rparr>, \<lparr>ch_size = channel_size, ch_msgs = []\<rparr>)"

section \<open>The store shared under locks\<close>

definition MAX_CACHE_SIZE :: nat where "MAX_CACHE_SIZE = 2 ^ 20"

text \<open>
  The maps of the data planes are shared: a store of maps, addressed by position.  Whether a lock is free at the
  moment of a \<open>try_write\<close> or \<open>try_read\<close> is an argument.
\<close>

record 'v MergeableStoreCP =
  mc_flow_counters :: "(Flow, 'v) mapping"
  mc_hashmaps :: "nat list"

record 'v MergeableStoreDP =
  md_flow_counters :: nat
  md_cache :: "(Flow \<times> 'v) list"
  md_base_cache_size :: nat
  md_cache_size :: nat
  md_len :: nat

type_synonym 'v maps = "(Flow, 'v) mapping list"

definition MergeableStoreCP_new :: "'v MergeableStoreCP" where
  "MergeableStoreCP_new = \<lparr>mc_flow_counters = Mapping.empty, mc_hashmaps = []\<rparr>"

definition dp_store_with_cache_and_size ::
  "nat \<Rightarrow> nat \<Rightarrow> 'v MergeableStoreCP \<Rightarrow> 'v maps \<Rightarrow> 'v MergeableStoreDP \<times> 'v MergeableStoreCP \<times> 'v maps" where
  "dp_store_with_cache_and_size cache sz s maps =
     (\<lparr>md_flow_counters = length maps, md_cache = [], md_base_cache_size = cache, md_cache_size = cache, md_len = 0\<rparr>,
      s\<lparr>mc_hashmaps := mc_hashmaps s @ [length maps]\<rparr>, maps @ [Mapping.empty])"

definition dp_store :: "'v MergeableStoreCP \<Rightarrow> 'v maps \<Rightarrow> 'v MergeableStoreDP \<times> 'v MergeableStoreCP \<times> 'v maps" where
  "dp_store s maps = dp_store_with_cache_and_size (2 ^ 10) (2 ^ 10) s maps"

text \<open>
  \<open>order\<close> is the order in which a hash map gives its entries; \<open>free a\<close> says whether the lock of map \<open>a\<close> could be taken.
\<close>

definition mc_sync ::
  "((Flow, 'v) mapping \<Rightarrow> (Flow \<times> 'v) list) \<Rightarrow> (nat \<Rightarrow> bool) \<Rightarrow> 'v MergeableStoreCP \<Rightarrow> 'v maps \<Rightarrow> 'v MergeableStoreCP" where
  "mc_sync order free s maps =
     (let copies = map (\<lambda>a. order (maps ! a)) (filter free (mc_hashmaps s)) in
      s\<lparr>mc_flow_counters := foldl hm_extend Mapping.empty copies\<rparr>)"

definition mc_get :: "('v :: zero) MergeableStoreCP \<Rightarrow> Flow \<Rightarrow> 'v" where
  "mc_get s flow = hm_get (mc_flow_counters s) flow"

definition mc_len :: "'v MergeableStoreCP \<Rightarrow> nat" where
  "mc_len s = Mapping.size (mc_flow_counters s)"

definition mc_is_empty :: "'v MergeableStoreCP \<Rightarrow> bool" where
  "mc_is_empty s = Mapping.is_empty (mc_flow_counters s)"

definition md_merge_locked :: "'v MergeableStoreDP \<Rightarrow> 'v maps \<Rightarrow> 'v MergeableStoreDP \<times> 'v maps" where
  "md_merge_locked s maps = (let g = hm_extend (maps ! md_flow_counters s) (md_cache s) in
     (s\<lparr>md_cache := [], md_cache_size := md_base_cache_size s, md_len := Mapping.size g\<rparr>, maps[md_flow_counters s := g]))"

definition md_merge_cache :: "bool \<Rightarrow> 'v MergeableStoreDP \<Rightarrow> 'v maps \<Rightarrow> 'v MergeableStoreDP \<times> 'v maps" where
  "md_merge_cache free s maps = (if free then md_merge_locked s maps
     else (s\<lparr>md_cache_size := max (md_cache_size s * 2) MAX_CACHE_SIZE\<rparr>, maps))"

definition md_update :: "bool \<Rightarrow> Flow \<Rightarrow> 'v \<Rightarrow> 'v MergeableStoreDP \<Rightarrow> 'v maps \<Rightarrow> 'v MergeableStoreDP \<times> 'v maps" where
  "md_update free flow inc s maps = (let s = s\<lparr>md_cache := md_cache s @ [(flow, inc)]\<rparr> in
     if md_cache_size s \<le> length (md_cache s) then md_merge_cache free s maps else (s, maps))"

text \<open>\<open>remove\<close> waits for the lock.\<close>

definition md_remove :: "Flow \<Rightarrow> ('v :: zero) MergeableStoreDP \<Rightarrow> 'v maps \<Rightarrow> 'v \<times> 'v MergeableStoreDP \<times> 'v maps" where
  "md_remove flow s maps = (let (s, maps) = md_merge_locked s maps; (v, g) = hm_remove (maps ! md_flow_counters s) flow in
     (v, s, maps[md_flow_counters s := g]))"

definition md_length :: "'v MergeableStoreDP \<Rightarrow> nat" where
  "md_length s = md_len s"

definition md_is_empty :: "'v MergeableStoreDP \<Rightarrow> bool" where
  "md_is_empty s \<longleftrightarrow> md_len s \<noteq> 0"

section \<open>The last update of a flow wins\<close>

lemma lookup_extend:
  "Mapping.lookup (hm_extend m kvs) k = (case map_of (rev kvs) k of Some v \<Rightarrow> Some v | None \<Rightarrow> Mapping.lookup m k)"
  unfolding hm_extend_def
  by (induction kvs rule: rev_induct) (auto simp: lookup_update')

text \<open>What a store holds: the map with the cache written over it.\<close>

definition dm_abs :: "'v DpMergeableStore \<Rightarrow> Flow \<Rightarrow> 'v option" where
  "dm_abs s = Mapping.lookup (hm_extend (dm_state s) (dm_cache s))"

lemma dm_abs_merge: "dm_abs (dm_merge_cache s) = dm_abs s"
  by (simp add: dm_abs_def dm_merge_cache_def hm_extend_def)

lemma dm_abs_update: "dm_abs (dm_update flow inc s) = (dm_abs s)(flow \<mapsto> inc)"
proof -
  have "dm_abs (s\<lparr>dm_cache := dm_cache s @ [(flow, inc)]\<rparr>) = (dm_abs s)(flow \<mapsto> inc)"
    by (rule ext) (simp add: dm_abs_def hm_extend_def lookup_update')
  then show ?thesis by (simp add: dm_update_def dm_abs_merge Let_def)
qed

lemma dm_remove_abs: "fst (dm_remove flow s) = (case dm_abs s flow of Some v \<Rightarrow> v | None \<Rightarrow> 0)"
  by (simp add: dm_remove_def hm_remove_def hm_get_def dm_abs_def dm_merge_cache_def)

lemma dm_abs_updates: "dm_abs (foldl (\<lambda>s (f, i). dm_update f i s) s us) f = (case map_of (rev us) f of Some v \<Rightarrow> Some v | None \<Rightarrow> dm_abs s f)"
  by (induction us arbitrary: s rule: rev_induct) (auto simp: dm_abs_update)

text \<open>
  The cache of the data plane store is invisible: whatever its size, and whenever it is merged, the store after any
  sequence of updates gives for a flow the value of the last update of that flow, and not their sum.
\<close>

theorem dp_store_last_update_wins:
  fixes us :: "(Flow \<times> 'v :: zero) list"
  shows "fst (dm_remove flow (foldl (\<lambda>s (f, i). dm_update f i s) (DpMergeableStore_with_cache_and_size cache sz) us)) =
     (case map_of (rev us) flow of Some v \<Rightarrow> v | None \<Rightarrow> 0)"
proof -
  have "dm_abs (DpMergeableStore_with_cache_and_size cache sz :: 'v DpMergeableStore) flow = None"
    by (simp add: dm_abs_def DpMergeableStore_with_cache_and_size_def hm_extend_def)
  then show ?thesis by (cases "map_of (rev us) flow") (simp_all add: dm_remove_abs dm_abs_updates)
qed

text \<open>The same for the store under a lock, whichever attempts to take the lock succeed.\<close>

definition md_abs :: "'v MergeableStoreDP \<Rightarrow> 'v maps \<Rightarrow> Flow \<Rightarrow> 'v option" where
  "md_abs s maps = Mapping.lookup (hm_extend (maps ! md_flow_counters s) (md_cache s))"

lemma md_merge_locked_abs:
  assumes "md_flow_counters s < length maps" and "md_merge_locked s maps = (s', maps')"
  shows "md_abs s' maps' = md_abs s maps \<and> md_flow_counters s' = md_flow_counters s \<and> length maps' = length maps \<and> md_cache s' = []"
  using assms by (auto simp: md_merge_locked_def md_abs_def hm_extend_def Let_def)

lemma md_update_abs:
  assumes "md_flow_counters s < length maps" and "md_update free flow inc s maps = (s', maps')"
  shows "md_abs s' maps' = (md_abs s maps)(flow \<mapsto> inc) \<and> md_flow_counters s' = md_flow_counters s \<and> length maps' = length maps"
proof -
  let ?s = "s\<lparr>md_cache := md_cache s @ [(flow, inc)]\<rparr>"
  have abs: "md_abs ?s maps = (md_abs s maps)(flow \<mapsto> inc)"
    by (rule ext) (simp add: md_abs_def hm_extend_def lookup_update')
  have "md_abs (?s\<lparr>md_cache_size := c\<rparr>) maps = md_abs ?s maps" for c by (simp add: md_abs_def)
  with abs assms md_merge_locked_abs [of ?s maps s' maps'] show ?thesis
    by (auto simp: md_update_def md_merge_cache_def Let_def split: if_splits)
qed

lemma md_remove_abs:
  assumes "md_flow_counters s < length maps" and "md_remove flow s maps = (v, s', maps')"
  shows "v = (case md_abs s maps flow of Some v \<Rightarrow> v | None \<Rightarrow> 0) \<and> md_abs s' maps' = (md_abs s maps)(flow := None) \<and>
    md_flow_counters s' = md_flow_counters s \<and> length maps' = length maps"
proof -
  obtain s1 maps1 where m: "md_merge_locked s maps = (s1, maps1)" by fastforce
  note M = md_merge_locked_abs [OF assms(1) m]
  have abs: "md_abs s maps = Mapping.lookup (maps1 ! md_flow_counters s1)"
    using M by (metis hm_extend_def foldl_Nil md_abs_def)
  have r: "v = hm_get (maps1 ! md_flow_counters s1) flow" "s' = s1"
    "maps' = maps1[md_flow_counters s1 := Mapping.delete flow (maps1 ! md_flow_counters s1)]"
    using assms(2) m by (auto simp: md_remove_def hm_remove_def Let_def)
  have "md_abs s' maps' = (Mapping.lookup (maps1 ! md_flow_counters s1))(flow := None)"
    using r M assms(1) by (intro ext) (simp add: md_abs_def hm_extend_def lookup_delete lookup_delete_neq)
  with r abs M show ?thesis by (simp add: hm_get_def)
qed

text \<open>Any sequence of updates, each with the outcome of its attempt to take the lock, and removals, and what the removals return.\<close>

datatype 'v md_op = MdUpdate bool Flow 'v | MdRemove Flow

fun md_run :: "('v :: zero) md_op list \<Rightarrow> 'v MergeableStoreDP \<Rightarrow> 'v maps \<Rightarrow> 'v list" where
  "md_run [] s maps = []"
| "md_run (MdUpdate free flow inc # ops) s maps = (let (s, maps) = md_update free flow inc s maps in md_run ops s maps)"
| "md_run (MdRemove flow # ops) s maps = (let (v, s, maps) = md_remove flow s maps in v # md_run ops s maps)"

text \<open>The reference: a map without a cache and without a lock, where an update replaces the value of its flow.\<close>

fun map_run :: "('v :: zero) md_op list \<Rightarrow> (Flow \<rightharpoonup> 'v) \<Rightarrow> 'v list" where
  "map_run [] m = []"
| "map_run (MdUpdate free flow inc # ops) m = map_run ops (m(flow \<mapsto> inc))"
| "map_run (MdRemove flow # ops) m = (case m flow of Some v \<Rightarrow> v | None \<Rightarrow> 0) # map_run ops (m(flow := None))"

lemma md_run_abs: "md_flow_counters s < length maps \<Longrightarrow> md_run ops s maps = map_run ops (md_abs s maps)"
proof (induction ops arbitrary: s maps)
  case (Cons op ops)
  show ?case
  proof (cases op)
    case (MdUpdate free flow inc)
    obtain s1 maps1 where 1: "md_update free flow inc s maps = (s1, maps1)" by fastforce
    from md_update_abs [OF Cons.prems 1] Cons.IH [of s1 maps1] Cons.prems 1 MdUpdate show ?thesis by (simp del: fun_upd_apply)
  next
    case (MdRemove flow)
    obtain v s1 maps1 where 1: "md_remove flow s maps = (v, s1, maps1)" by (metis prod_cases3)
    from md_remove_abs [OF Cons.prems 1] Cons.IH [of s1 maps1] Cons.prems 1 MdRemove show ?thesis by (simp del: fun_upd_apply)
  qed
qed simp

text \<open>
  C24: The cache and the lock of a data plane store are invisible to its updates and removals: from a new store, for every cache size,
  any sequence of updates and removals and any outcomes of the attempts to take the lock, every removal returns what it returns on
  a plain map in which an update replaces the value of its flow (it does not add to it, although the documentation says so).
\<close>

theorem mergeable_store_cache_invisible:
  assumes "dp_store_with_cache_and_size cache sz cp maps = (s, cp', maps')"
  shows "md_run ops s maps' = map_run ops Map.empty"
proof -
  have new: "md_flow_counters s < length maps'" "md_abs s maps' = Map.empty"
    using assms by (auto simp: dp_store_with_cache_and_size_def md_abs_def hm_extend_def)
  from md_run_abs [OF new(1), of ops] new(2) show ?thesis by simp
qed

definition example_flow :: Flow where
  "example_flow = \<lparr>flow_src_ip = 1, flow_dst_ip = 2, flow_src_port = 3, flow_dst_port = 4, flow_proto = 6\<rparr>"

theorem mergeable_store_cache_invisible_witness:
  "\<exists>s cp' maps'. dp_store_with_cache_and_size 2 8 MergeableStoreCP_new [] = (s, cp', maps') \<and>
     md_run [MdUpdate True example_flow 5, MdUpdate False example_flow 6, MdRemove example_flow, MdUpdate True example_flow 7,
       MdRemove example_flow, MdRemove example_flow] s maps' = [6, 7, 0 :: nat]"
proof -
  obtain s cp' maps' where 1: "dp_store_with_cache_and_size 2 8 (MergeableStoreCP_new :: nat MergeableStoreCP) [] = (s, cp', maps')"
    by (metis prod_cases3)
  show ?thesis using 1 by (simp add: mergeable_store_cache_invisible [OF 1] del: md_run.simps)
qed

text \<open>The emptiness test of the data plane side is inverted.\<close>

lemma md_is_empty_inverted: "md_is_empty s \<longleftrightarrow> md_length s > 0"
  by (simp add: md_is_empty_def md_length_def)

section \<open>No update is lost on the way to the control plane\<close>

text \<open>The sum of the values for a flow.\<close>

definition flow_sum :: "Flow \<Rightarrow> (Flow \<times> 'v :: comm_monoid_add) list \<Rightarrow> 'v" where
  "flow_sum f kvs = (\<Sum>(k, v)\<leftarrow>kvs. if k = f then v else 0)"

lemma flow_sum_simps [simp]:
  "flow_sum f [] = 0" "flow_sum f ((k, v) # kvs) = (if k = f then v else 0) + flow_sum f kvs"
  "flow_sum f (xs @ ys) = flow_sum f xs + flow_sum f ys"
  by (simp_all add: flow_sum_def)

lemma update_internal_get:
  fixes s :: "('v :: comm_monoid_add) CpMergeableStoreControlPlane"
  shows "cc_get (update_internal v s) f = cc_get s f + flow_sum f v"
proof -
  have "hm_get (foldl (\<lambda>m (flow, c). Mapping.update flow (hm_get m flow + c) m) m v) f = hm_get m f + flow_sum f v"
    for m :: "(Flow, 'v) mapping"
  proof (induction v arbitrary: m)
    case (Cons x v)
    obtain k c where "x = (k, c)" by (cases x)
    with Cons [of "Mapping.update k (hm_get m k + c) m"] show ?case
      by (simp add: hm_get_def lookup_update' add.assoc split: if_splits)
  qed simp
  then show ?thesis by (simp add: update_internal_def cc_get_def)
qed

text \<open>
  Several data paths and the control plane, in any order.  The ghost field \<open>cs_dropped\<close> notes the updates that are due while
  the channel is full: the ones collected by a data path that has reached its delay.
\<close>

datatype 'v cp_event = Update nat Flow 'v | Receive

record 'v cp_system =
  cs_paths :: "'v CpMergeableStoreDataPath list"
  cs_control :: "'v CpMergeableStoreControlPlane"
  cs_channel :: "'v cp_channel"
  cs_dropped :: "(Flow \<times> 'v) list"

definition cp_step :: "('v :: comm_monoid_add) cp_event \<Rightarrow> 'v cp_system \<Rightarrow> 'v cp_system" where
  "cp_step e S = (case e of
      Update i flow inc \<Rightarrow>
        (let d = cs_paths S ! i; (d', c') = cd_update flow inc d (cs_channel S) in
         S\<lparr>cs_paths := (cs_paths S)[i := d'], cs_channel := c',
           cs_dropped := cs_dropped S @ (if cd_delay d \<le> cd_updates d + 1 \<and> ch_size (cs_channel S) \<le> length (ch_msgs (cs_channel S))
             then cd_cache d @ [(flow, inc)] else [])\<rparr>)
    | Receive \<Rightarrow> (let (s, c) = cc_recv (cs_control S) (cs_channel S) in S\<lparr>cs_control := s, cs_channel := c\<rparr>))"

fun event_updates :: "'v cp_event \<Rightarrow> (Flow \<times> 'v) list" where
  "event_updates (Update i flow inc) = [(flow, inc)]"
| "event_updates Receive = []"

text \<open>Everything that is somewhere: counted, under way, cached or dropped.\<close>

definition accounted_for :: "('v :: comm_monoid_add) cp_system \<Rightarrow> Flow \<Rightarrow> 'v" where
  "accounted_for S f = cc_get (cs_control S) f + flow_sum f (concat (ch_msgs (cs_channel S))) +
     flow_sum f (concat (map cd_cache (cs_paths S))) + flow_sum f (cs_dropped S)"

lemma flow_sum_update:
  assumes "i < length ds"
  obtains rest where "flow_sum f (concat (map g ds)) = flow_sum f (g (ds ! i)) + rest"
    and "\<And>d. flow_sum f (concat (map g (ds[i := d]))) = flow_sum f (g d) + rest"
proof (rule that)
  let ?rest = "flow_sum f (concat (map g (take i ds))) + flow_sum f (concat (map g (drop (Suc i) ds)))"
  show "flow_sum f (concat (map g ds)) = flow_sum f (g (ds ! i)) + ?rest"
    by (subst id_take_nth_drop [OF assms]) (simp add: ac_simps)
  show "flow_sum f (concat (map g (ds[i := d]))) = flow_sum f (g d) + ?rest" for d
    using assms by (simp add: upd_conv_take_nth_drop ac_simps)
qed

lemma cp_step_accounts:
  assumes "\<And>i flow inc. e = Update i flow inc \<Longrightarrow> i < length (cs_paths S)"
  shows "accounted_for (cp_step e S) f = accounted_for S f + flow_sum f (event_updates e)"
    and "length (cs_paths (cp_step e S)) = length (cs_paths S)"
proof -
  show "length (cs_paths (cp_step e S)) = length (cs_paths S)"
    by (simp add: cp_step_def Let_def case_prod_beta' split: cp_event.split)
  show "accounted_for (cp_step e S) f = accounted_for S f + flow_sum f (event_updates e)"
  proof (cases e)
    case Receive
    then show ?thesis
      by (cases "ch_msgs (cs_channel S)") (simp_all add: cp_step_def cc_recv_def accounted_for_def update_internal_get ac_simps)
  next
    case (Update i flow inc)
    obtain rest where r: "flow_sum f (concat (map cd_cache (cs_paths S))) = flow_sum f (cd_cache (cs_paths S ! i)) + rest"
      "\<And>d. flow_sum f (concat (map cd_cache ((cs_paths S)[i := d]))) = flow_sum f (cd_cache d) + rest"
      by (rule flow_sum_update [OF assms [OF Update], of f cd_cache]) (rule that; assumption)
    show ?thesis
      by (simp add: Update cp_step_def cd_update_def try_send_def accounted_for_def r Let_def ac_simps)
  qed
qed

text \<open>No data path keeps as many updates as its delay.\<close>

definition caches_short :: "nat \<Rightarrow> 'v cp_system \<Rightarrow> bool" where
  "caches_short delay S \<longleftrightarrow> (\<forall>d\<in>set (cs_paths S). cd_delay d = delay \<and> cd_updates d = length (cd_cache d) \<and> length (cd_cache d) < max 1 delay)"

lemma cp_step_caches: "caches_short delay S \<Longrightarrow> (\<And>i flow inc. e = Update i flow inc \<Longrightarrow> i < length (cs_paths S)) \<Longrightarrow> caches_short delay (cp_step e S)"
proof (cases e)
  case (Update i flow inc)
  assume S: "caches_short delay S" and i: "\<And>i flow inc. e = Update i flow inc \<Longrightarrow> i < length (cs_paths S)"
  have "cs_paths S ! i \<in> set (cs_paths S)" using i [OF Update] by simp
  with S have d: "cd_delay (cs_paths S ! i) = delay" "cd_updates (cs_paths S ! i) = length (cd_cache (cs_paths S ! i))"
    "length (cd_cache (cs_paths S ! i)) < max 1 delay" by (auto simp: caches_short_def)
  have "\<forall>d\<in>set ((cs_paths S)[i := fst (cd_update flow inc (cs_paths S ! i) (cs_channel S))]).
      cd_delay d = delay \<and> cd_updates d = length (cd_cache d) \<and> length (cd_cache d) < max 1 delay"
    using S d by (auto simp: caches_short_def cd_update_def Let_def case_prod_beta' dest!: set_update_subset_insert [THEN subsetD])
  then show ?thesis by (simp add: Update cp_step_def caches_short_def Let_def case_prod_beta')
qed (simp add: cp_step_def caches_short_def Let_def case_prod_beta')

lemma cp_run_accounts:
  assumes "\<forall>i flow inc. Update i flow inc \<in> set es \<longrightarrow> i < length (cs_paths S)" and "caches_short delay S"
  shows "accounted_for (foldl (\<lambda>S e. cp_step e S) S es) f = accounted_for S f + flow_sum f (concat (map event_updates es)) \<and>
    caches_short delay (foldl (\<lambda>S e. cp_step e S) S es)"
  using assms
proof (induction es arbitrary: S)
  case (Cons e es)
  have valid: "i < length (cs_paths S)" if "e = Update i flow inc" for i flow inc
    using Cons.prems(1) that by auto
  have step: "accounted_for (cp_step e S) f = accounted_for S f + flow_sum f (event_updates e)"
    "length (cs_paths (cp_step e S)) = length (cs_paths S)"
    by (rule cp_step_accounts; erule valid)+
  have "caches_short delay (cp_step e S)" by (rule cp_step_caches [OF Cons.prems(2) valid])
  moreover have "\<forall>i flow inc. Update i flow inc \<in> set es \<longrightarrow> i < length (cs_paths (cp_step e S))" using Cons.prems(1) step(2) by simp
  ultimately show ?case using Cons.IH [of "cp_step e S"] step(1) by (simp add: add.assoc)
qed simp

text \<open>
  C23: Updates in the data paths and receptions in the control plane, in any order and by any number of data paths, neither lose nor
  invent anything: for every flow, what the control plane has counted, together with what is under way in the channel,
  waits in the caches or was due while the channel was full, is the sum of the updates; and no data path holds back as many updates
  as the delay.
\<close>

theorem cp_store_conserves_updates:
  assumes "new_cp_mergeable_store delay channel_size = (d, s, c)"
    and "\<forall>i flow inc. Update i flow inc \<in> set es \<longrightarrow> i < n"
    and "S = foldl (\<lambda>S e. cp_step e S) \<lparr>cs_paths = replicate n d, cs_control = s, cs_channel = c, cs_dropped = []\<rparr> es"
  shows "cc_get (cs_control S) f + flow_sum f (concat (ch_msgs (cs_channel S))) +
    flow_sum f (concat (map cd_cache (cs_paths S))) + flow_sum f (cs_dropped S) = flow_sum f (concat (map event_updates es)) \<and>
    (\<forall>d\<in>set (cs_paths S). length (cd_cache d) < max 1 delay)"
proof -
  let ?S0 = "\<lparr>cs_paths = replicate n d, cs_control = s, cs_channel = c, cs_dropped = []\<rparr>"
  have "concat (replicate n []) = ([] :: (Flow \<times> 'a) list)" by (induction n) simp_all
  with assms(1) have S0: "accounted_for ?S0 f = 0" "caches_short delay ?S0"
    by (auto simp: new_cp_mergeable_store_def accounted_for_def cc_get_def hm_get_def caches_short_def)
  have "\<forall>i flow inc. Update i flow inc \<in> set es \<longrightarrow> i < length (cs_paths ?S0)" using assms(2) by simp
  from cp_run_accounts [OF this S0(2), of f]
  have "accounted_for S f = flow_sum f (concat (map event_updates es))" "caches_short delay S"
    unfolding assms(3) S0(1) by simp_all
  then show ?thesis unfolding accounted_for_def caches_short_def by blast
qed

theorem cp_store_conserves_updates_witness:
  "\<exists>d s c S. new_cp_mergeable_store 2 1 = (d, s, c) \<and>
     S = foldl (\<lambda>S e. cp_step e S) \<lparr>cs_paths = replicate 2 d, cs_control = s, cs_channel = c, cs_dropped = []\<rparr>
       [Update 0 example_flow 3, Update 1 example_flow 4, Update 0 example_flow 5, Receive, Update 0 example_flow (6 :: nat)] \<and>
     cc_get (cs_control S) example_flow = 8 \<and>
     cc_get (cs_control S) example_flow + flow_sum example_flow (concat (ch_msgs (cs_channel S))) +
       flow_sum example_flow (concat (map cd_cache (cs_paths S))) + flow_sum example_flow (cs_dropped S) = 18"
proof -
  let ?es = "[Update 0 example_flow 3, Update 1 example_flow 4, Update 0 example_flow 5, Receive, Update 0 example_flow (6 :: nat)]"
  define d :: "nat CpMergeableStoreDataPath" where "d = fst (new_cp_mergeable_store 2 1)"
  define s :: "nat CpMergeableStoreControlPlane" where "s = fst (snd (new_cp_mergeable_store 2 1))"
  define c :: "nat cp_channel" where "c = snd (snd (new_cp_mergeable_store 2 1))"
  have 1: "new_cp_mergeable_store 2 1 = (d, s, c)" by (simp add: d_def s_def c_def)
  define S where "S = foldl (\<lambda>S e. cp_step e S) \<lparr>cs_paths = replicate 2 d, cs_control = s, cs_channel = c, cs_dropped = []\<rparr> ?es"
  have "cc_get (cs_control S) example_flow = 8" unfolding S_def d_def s_def c_def by code_simp
  moreover have valid: "\<forall>i flow inc. Update i flow inc \<in> set ?es \<longrightarrow> i < 2" by auto
  have "flow_sum example_flow (concat (map event_updates ?es)) = 18" by (simp add: flow_sum_def)
  with cp_store_conserves_updates [OF 1 valid S_def, of example_flow]
  have "cc_get (cs_control S) example_flow + flow_sum example_flow (concat (ch_msgs (cs_channel S))) +
       flow_sum example_flow (concat (map cd_cache (cs_paths S))) + flow_sum example_flow (cs_dropped S) = 18" by simp
  ultimately show ?thesis using 1 S_def by blast
qed

end
