(* ===== verification/NB_SharedState.thy ===== *)
theory NB_SharedState
  imports NB_Utils NB_Config
begin

text \<open>
  Memory shared with other processes: \<open>framework/src/shared_state\<close>.  Opening a region (\<open>mod.rs\<close>), the directory of shared
  structures (\<open>directory.rs\<close>) and vectors in such a region (\<open>shared_vec.rs\<close>).  The C library is a parameter that acts on a state \<open>'o\<close> of
  the operating system.
\<close>

section \<open>Opening a region\<close>

record 'o libc =
  shm_open :: "string \<Rightarrow> 'o \<Rightarrow> i32 \<times> 'o"
  last_os_error_is_exist :: "'o \<Rightarrow> bool"
  shm_unlink :: "string \<Rightarrow> 'o \<Rightarrow> i32 \<times> 'o"
  ftruncate :: "i32 \<Rightarrow> usize \<Rightarrow> 'o \<Rightarrow> i32 \<times> 'o"
  mmap :: "usize \<Rightarrow> i32 \<Rightarrow> 'o \<Rightarrow> nat option \<times> 'o"
  munmap :: "nat \<Rightarrow> usize \<Rightarrow> 'o \<Rightarrow> i32 \<times> 'o"
  close :: "i32 \<Rightarrow> 'o \<Rightarrow> 'o"

record SharedMemory =
  sm_mem :: nat
  sm_name :: string
  sm_size :: usize

text \<open>\<open>shm_open\<close>, and again after unlinking when the name exists.\<close>

definition shm_create :: "'o libc \<Rightarrow> string \<Rightarrow> 'o \<Rightarrow> i32 \<times> 'o" where
  "shm_create C name os = (let (fd, os) = shm_open C name os in
     if fd = - 1 \<and> last_os_error_is_exist C os then let (r, os) = shm_unlink C name os in shm_open C name os
     else (fd, os))"

definition open_shared :: "'o libc \<Rightarrow> string \<Rightarrow> usize \<Rightarrow> 'o \<Rightarrow> (SharedMemory \<times> 'o) option" where
  "open_shared C name sz os = do {
     rust_assert (sz AND NOT PAGE_SIZE = 0);
     name \<leftarrow> CString_new name;
     let (fd, os) = shm_create C name os;
     rust_assert (0 \<le> sint fd);
     let (ftret, os) = ftruncate C fd sz os;
     rust_assert (ftret = 0);
     let (address, os) = mmap C sz fd os;
     address \<leftarrow> address;
     Some (\<lparr>sm_mem = address, sm_name = name, sm_size = sz\<rparr>, close C fd os)
   }"

definition SharedMemory_drop :: "'o libc \<Rightarrow> SharedMemory \<Rightarrow> 'o \<Rightarrow> 'o option" where
  "SharedMemory_drop C m os = do {
     let (ret, os) = munmap C (sm_mem m) (sm_size m) os;
     let (shm_ret, os) = shm_unlink C (sm_name m) os;
     rust_assert (shm_ret = 0);
     Some os
   }"

section \<open>The directory\<close>

definition MAX_LEN :: nat where "MAX_LEN = 256"
definition DIRECTORY_PAGES :: usize where "DIRECTORY_PAGES = 2"
definition BYTE_SIZE :: usize where "BYTE_SIZE = DIRECTORY_PAGES * PAGE_SIZE"

text \<open>Four words, and an array of bytes; both are packed.\<close>

record DirectoryHeader =
  dh_entries :: usize
  dh_current_version :: usize
  dh_committed_version :: usize
  dh_length :: usize

definition header_size :: usize where "header_size = 4 * 8"
definition entry_size :: usize where "entry_size = of_nat MAX_LEN"

text \<open>The region as the directory uses it: the header and the entries behind it.\<close>

record Directory =
  di_head :: DirectoryHeader
  di_data :: "u8 list list"
  di_shared_memory :: SharedMemory
  di_entry :: nat
  di_len :: nat

definition Directory_new :: "'o libc \<Rightarrow> string \<Rightarrow> 'o \<Rightarrow> (Directory \<times> 'o) option" where
  "Directory_new C name os = do {
     (shared, os) \<leftarrow> open_shared C name BYTE_SIZE os;
     let entries = (BYTE_SIZE - header_size) div entry_size;
     Some (\<lparr>di_head = \<lparr>dh_entries = 0, dh_current_version = 1, dh_committed_version = 1, dh_length = entries\<rparr>,
        di_data = replicate (unat entries) (replicate MAX_LEN 0), di_shared_memory = shared, di_entry = 0, di_len = unat entries\<rparr>, os)
   }"

text \<open>\<open>copy_from_slice\<close> panics unless the slices have the same length.\<close>

definition copy_from_slice :: "'a list \<Rightarrow> 'a list \<Rightarrow> 'a list option" where
  "copy_from_slice src dst = (if length src = length dst then Some src else None)"

definition register_new_entry :: "u8 list \<Rightarrow> Directory \<Rightarrow> (nat option \<times> Directory) option" where
  "register_new_entry name d =
     (let entry = di_entry d in
      if entry \<ge> di_len d \<or> length name \<ge> MAX_LEN then Some (None, d)
      else do {
        old \<leftarrow> vec_get (di_data d) entry;
        new \<leftarrow> copy_from_slice name old;
        Some (Some entry, d\<lparr>di_data := (di_data d)[entry := new], di_head := (di_head d)\<lparr>dh_entries := of_nat entry\<rparr>, di_entry := entry + 1\<rparr>)
      })"

definition begin_snapshot :: "Directory \<Rightarrow> Directory" where
  "begin_snapshot d = d\<lparr>di_head := (di_head d)\<lparr>dh_current_version := dh_current_version (di_head d) + 1\<rparr>\<rparr>"

definition end_snapshot :: "Directory \<Rightarrow> Directory" where
  "end_snapshot d = (let version = dh_current_version (di_head d) in d\<lparr>di_head := (di_head d)\<lparr>dh_committed_version := version\<rparr>\<rparr>)"

section \<open>Vectors\<close>

record 'a SharedVec =
  sv_vec :: "'a list"
  sv_shared :: SharedMemory
  sv_modified :: bool

definition SharedVec_new_with_capacity :: "'o libc \<Rightarrow> string \<Rightarrow> usize \<Rightarrow> 'o \<Rightarrow> ('a SharedVec \<times> 'o) option" where
  "SharedVec_new_with_capacity C name capacity os = do {
     capacity_pages \<leftarrow> round_to_pages capacity;
     (shared, os) \<leftarrow> open_shared C name capacity_pages os;
     Some (\<lparr>sv_vec = [], sv_shared = shared, sv_modified = False\<rparr>, os)
   }"

definition sv_index :: "'a SharedVec \<Rightarrow> nat \<Rightarrow> 'a option" where
  "sv_index s i = vec_get (sv_vec s) i"

definition sv_index_range :: "'a SharedVec \<Rightarrow> nat \<Rightarrow> nat \<Rightarrow> 'a list option" where
  "sv_index_range s a b = slice_range a b (sv_vec s)"

definition sv_index_to :: "'a SharedVec \<Rightarrow> nat \<Rightarrow> 'a list option" where
  "sv_index_to s b = slice_range 0 b (sv_vec s)"

definition sv_index_from :: "'a SharedVec \<Rightarrow> nat \<Rightarrow> 'a list option" where
  "sv_index_from s a = slice_range a (length (sv_vec s)) (sv_vec s)"

text \<open>Writing through \<open>index_mut\<close>.\<close>

definition sv_index_set :: "'a SharedVec \<Rightarrow> nat \<Rightarrow> 'a \<Rightarrow> 'a SharedVec option" where
  "sv_index_set s i x = do {
     v \<leftarrow> vec_set (sv_vec s) i x;
     Some (s\<lparr>sv_modified := True, sv_vec := v\<rparr>)
   }"

section \<open>What the directory can do\<close>

text \<open>The test for alignment admits the empty region and a single page only.\<close>

lemma open_shared_sizes:
  assumes "open_shared C name sz os \<noteq> None"
  shows "sz = 0 \<or> sz = PAGE_SIZE"
proof -
  have "sz AND NOT PAGE_SIZE = 0" using assms by (auto simp: open_shared_def rust_assert_def split: if_splits)
  then have "\<not> bit (sz AND NOT PAGE_SIZE) n" for n by simp
  then have sub: "bit sz n \<Longrightarrow> bit PAGE_SIZE n" for n
    using bit_imp_le_length [of sz n] by (auto simp: bit_and_iff bit_not_iff)
  have page: "bit PAGE_SIZE n \<longleftrightarrow> n = 12" for n
  proof -
    have "PAGE_SIZE = (2 :: usize) ^ 12" by (simp add: PAGE_SIZE_def)
    then have "bit PAGE_SIZE n \<longleftrightarrow> bit ((2 :: usize) ^ 12) n" by (simp only:)
    then show ?thesis by (simp only: bit_exp_iff) auto
  qed
  show ?thesis
  proof (cases "bit sz 12")
    case True
    then have "bit sz n = bit PAGE_SIZE n" for n using sub [of n] by (auto simp: page)
    then have "sz = PAGE_SIZE" by (intro bit_word_eqI)
    then show ?thesis ..
  next
    case False
    then have "\<not> bit sz n" for n using sub [of n] by (auto simp: page)
    then have "sz = 0" by (intro bit_word_eqI) simp
    then show ?thesis ..
  qed
qed

text \<open>
  No directory can be made: \<open>Directory::new\<close> panics for every name and every state of the operating system, because the
  two pages it asks for do not pass the test for alignment in \<open>open_shared\<close>; and on a directory in which every
  entry has its full length no name can be registered, because a name that is short enough to be accepted
  panics in \<open>copy_from_slice\<close>.
\<close>

theorem directory_unusable:
  "Directory_new C name os = None \<and>
   (list_all (\<lambda>e. length e = MAX_LEN) (di_data d) \<longrightarrow>
     register_new_entry entry d = (if di_len d \<le> di_entry d \<or> MAX_LEN \<le> length entry then Some (None, d) else None))"
proof (intro conjI impI)
  have "BYTE_SIZE \<noteq> 0" "BYTE_SIZE \<noteq> PAGE_SIZE" by (simp_all add: BYTE_SIZE_def DIRECTORY_PAGES_def PAGE_SIZE_def)
  then have "open_shared C name BYTE_SIZE os = None" using open_shared_sizes [of C name BYTE_SIZE os] by blast
  then show "Directory_new C name os = None" by (simp add: Directory_new_def)
next
  assume "list_all (\<lambda>e. length e = MAX_LEN) (di_data d)"
  then show "register_new_entry entry d = (if di_len d \<le> di_entry d \<or> MAX_LEN \<le> length entry then Some (None, d) else None)"
    by (auto simp: register_new_entry_def vec_get_def copy_from_slice_def list_all_length Let_def)
qed

definition example_libc :: "unit libc" where
  "example_libc = \<lparr>shm_open = \<lambda>n os. (3, os), last_os_error_is_exist = \<lambda>os. False, shm_unlink = \<lambda>n os. (0, os), ftruncate = \<lambda>fd n os. (0, os),
     mmap = \<lambda>n fd os. (Some 4096, os), munmap = \<lambda>a n os. (0, os), close = \<lambda>fd os. os\<rparr>"

definition example_directory :: Directory where
  "example_directory = \<lparr>di_head = \<lparr>dh_entries = 0, dh_current_version = 1, dh_committed_version = 1, dh_length = 31\<rparr>,
     di_data = replicate 31 (replicate MAX_LEN 0), di_shared_memory = \<lparr>sm_mem = 4096, sm_name = ''d'', sm_size = 8192\<rparr>, di_entry = 0, di_len = 31\<rparr>"

theorem directory_unusable_witness:
  "Directory_new example_libc ''d'' () = None \<and> open_shared example_libc ''d'' PAGE_SIZE () \<noteq> None \<and>
   register_new_entry [100] example_directory = None"
proof -
  have "list_all (\<lambda>e. length e = MAX_LEN) (di_data example_directory)" by (simp add: example_directory_def list_all_length)
  then have "register_new_entry [100] example_directory = None"
    using directory_unusable [of example_libc "''d''" "()" example_directory "[100]"] by (simp add: example_directory_def MAX_LEN_def)
  have "CString_new ''d'' = Some ''d''" by code_simp
  then have "open_shared example_libc ''d'' PAGE_SIZE () \<noteq> None"
    by (simp add: open_shared_def example_libc_def shm_create_def rust_assert_def PAGE_SIZE_def sint_uint)
  then show ?thesis using \<open>register_new_entry [100] example_directory = None\<close> directory_unusable [of example_libc "''d''" "()"] by simp
qed

text \<open>A snapshot is in progress exactly between its begin and its end.\<close>

lemma snapshot_versions:
  "dh_committed_version (di_head d) = dh_current_version (di_head d) \<Longrightarrow>
     dh_committed_version (di_head (begin_snapshot d)) \<noteq> dh_current_version (di_head (begin_snapshot d))"
  "dh_committed_version (di_head (end_snapshot d)) = dh_current_version (di_head (end_snapshot d))"
  by (simp_all add: begin_snapshot_def end_snapshot_def)

end
