(* ===== verification/NB_Control.thy ===== *)
theory NB_Control
  imports NB_Scheduler NB_Config "HOL-Library.AList_Mapping"
begin

text \<open>
  The control plane: \<open>framework/src/control\<close>.  The wrapper around \<open>epoll\<close> (\<open>linux/epoll.rs\<close>), the handle with which a connection asks
  for events (\<open>mod.rs\<close>) and the server that accepts connections and hands events to their agents (\<open>tcp.rs\<close>).  The operating
  system and the agents are parameters.
\<close>

section \<open>Events\<close>

definition NONE :: u64 where "NONE = 0x0"
definition READ :: u64 where "READ = 0x1"
definition WRITE :: u64 where "WRITE = 0x2"
definition HUP :: u64 where "HUP = 0x4"

text \<open>The flags of \<open>epoll\<close> that the code uses.\<close>

record EpollFlags =
  EPOLLIN :: bool
  EPOLLOUT :: bool
  EPOLLHUP :: bool
  EPOLLERR :: bool
  EPOLLET :: bool
  EPOLLONESHOT :: bool

definition no_flags :: EpollFlags where
  "no_flags = \<lparr>EPOLLIN = False, EPOLLOUT = False, EPOLLHUP = False, EPOLLERR = False, EPOLLET = False, EPOLLONESHOT = False\<rparr>"

record EpollEvent =
  ev_events :: EpollFlags
  ev_data :: u64

datatype EpollOp = EpollCtlAdd | EpollCtlMod

text \<open>
  The operating system: \<open>None\<close> is an error, on which the code panics.  \<open>epoll_wait\<close> gets the room for events and gives those it
  reports; \<open>accept\<close> gives an address and a descriptor, or fails.
\<close>

record ('o, 'addr) control_os =
  epoll_create :: "'o \<Rightarrow> (i32 \<times> 'o) option"
  epoll_ctl :: "i32 \<Rightarrow> EpollOp \<Rightarrow> i32 \<Rightarrow> EpollEvent \<Rightarrow> 'o \<Rightarrow> 'o option"
  epoll_wait :: "i32 \<Rightarrow> nat \<Rightarrow> 'o \<Rightarrow> (EpollEvent list \<times> 'o) option"
  listen :: "'addr \<Rightarrow> 'o \<Rightarrow> (i32 \<times> 'o) option"
  set_nonblocking :: "i32 \<Rightarrow> 'o \<Rightarrow> 'o option"
  accept :: "i32 \<Rightarrow> 'o \<Rightarrow> ('addr \<times> i32) option \<times> 'o"

record PollHandle =
  ph_epoll_fd :: i32

definition schedule_read_rawfd :: "('o, 'addr) control_os \<Rightarrow> PollHandle \<Rightarrow> i32 \<Rightarrow> u64 \<Rightarrow> 'o \<Rightarrow> 'o option" where
  "schedule_read_rawfd C h fd token os = epoll_ctl C (ph_epoll_fd h) EpollCtlMod fd
     \<lparr>ev_events = no_flags\<lparr>EPOLLIN := True, EPOLLET := True, EPOLLONESHOT := True\<rparr>, ev_data = token\<rparr> os"

definition schedule_write_rawfd :: "('o, 'addr) control_os \<Rightarrow> PollHandle \<Rightarrow> i32 \<Rightarrow> u64 \<Rightarrow> 'o \<Rightarrow> 'o option" where
  "schedule_write_rawfd C h fd token os = epoll_ctl C (ph_epoll_fd h) EpollCtlMod fd
     \<lparr>ev_events = no_flags\<lparr>EPOLLOUT := True, EPOLLET := True, EPOLLONESHOT := True\<rparr>, ev_data = token\<rparr> os"

definition new_io_fd :: "('o, 'addr) control_os \<Rightarrow> PollHandle \<Rightarrow> i32 \<Rightarrow> u64 \<Rightarrow> 'o \<Rightarrow> 'o option" where
  "new_io_fd C h fd token os = epoll_ctl C (ph_epoll_fd h) EpollCtlAdd fd
     \<lparr>ev_events = no_flags\<lparr>EPOLLET := True, EPOLLONESHOT := True\<rparr>, ev_data = token\<rparr> os"

text \<open>\<open>ready_tokens\<close> is a vector with room for 32 events.\<close>

record PollScheduler =
  ps_epoll_fd :: i32
  ps_ready_tokens :: "EpollEvent list"
  ps_events :: nat

definition PollScheduler_new :: "('o, 'addr) control_os \<Rightarrow> 'o \<Rightarrow> (PollScheduler \<times> 'o) option" where
  "PollScheduler_new C os = do {
     (fd, os) \<leftarrow> epoll_create C os;
     Some (\<lparr>ps_epoll_fd = fd, ps_ready_tokens = [], ps_events = 0\<rparr>, os)
   }"

definition new_poll_handle :: "PollScheduler \<Rightarrow> PollHandle" where
  "new_poll_handle s = \<lparr>ph_epoll_fd = ps_epoll_fd s\<rparr>"

definition epoll_kind_to_available :: "EpollFlags \<Rightarrow> u64" where
  "epoll_kind_to_available kind =
     (let available = NONE;
          available = (if EPOLLIN kind then available OR READ else available);
          available = (if EPOLLOUT kind then available OR WRITE else available) in
      if EPOLLHUP kind \<or> EPOLLERR kind then available OR HUP else available)"

text \<open>\<open>Vec::pop\<close>\<close>

definition pop_token :: "PollScheduler \<Rightarrow> (u64 \<times> u64) option \<times> PollScheduler" where
  "pop_token s = (if ps_ready_tokens s = [] then (None, s)
     else let t = last (ps_ready_tokens s) in
       (Some (ev_data t, epoll_kind_to_available (ev_events t)), s\<lparr>ps_ready_tokens := butlast (ps_ready_tokens s)\<rparr>))"

definition get_token_noblock ::
  "('o, 'addr) control_os \<Rightarrow> PollScheduler \<Rightarrow> 'o \<Rightarrow> ((u64 \<times> u64) option \<times> PollScheduler \<times> 'o) option" where
  "get_token_noblock C s os =
     (if 0 < ps_events s then
        let (t, s) = pop_token (s\<lparr>ps_events := ps_events s - 1\<rparr>) in Some (t, s, os)
      else do {
        (dest, os) \<leftarrow> epoll_wait C (ps_epoll_fd s) 32 os;
        let (t, s) = pop_token (s\<lparr>ps_events := length dest, ps_ready_tokens := dest\<rparr>);
        Some (t, s, os)
      })"

section \<open>Connections\<close>

record IOScheduler =
  io_fd :: i32
  io_scheduler :: PollHandle
  io_token :: u64

definition IOScheduler_new :: "('o, 'addr) control_os \<Rightarrow> PollHandle \<Rightarrow> i32 \<Rightarrow> u64 \<Rightarrow> 'o \<Rightarrow> (IOScheduler \<times> 'o) option" where
  "IOScheduler_new C scheduler fd token os = do {
     os \<leftarrow> new_io_fd C scheduler fd token os;
     Some (\<lparr>io_fd = fd, io_scheduler = scheduler, io_token = token\<rparr>, os)
   }"

definition io_schedule_read :: "('o, 'addr) control_os \<Rightarrow> IOScheduler \<Rightarrow> 'o \<Rightarrow> 'o option" where
  "io_schedule_read C s os = schedule_read_rawfd C (io_scheduler s) (io_fd s) (io_token s) os"

definition io_schedule_write :: "('o, 'addr) control_os \<Rightarrow> IOScheduler \<Rightarrow> 'o \<Rightarrow> 'o option" where
  "io_schedule_write C s os = schedule_write_rawfd C (io_scheduler s) (io_fd s) (io_token s) os"

text \<open>The trait \<open>TcpControlAgent\<close>; a handler says whether its connection is kept.\<close>

record ('o, 'addr, 'a) TcpControlAgent =
  agent_new :: "'addr \<Rightarrow> i32 \<Rightarrow> IOScheduler \<Rightarrow> 'o \<Rightarrow> ('a \<times> 'o) option"
  handle_read_ready :: "'a \<Rightarrow> 'o \<Rightarrow> (bool \<times> 'a \<times> 'o) option"
  handle_write_ready :: "'a \<Rightarrow> 'o \<Rightarrow> (bool \<times> 'a \<times> 'o) option"
  handle_hup :: "'a \<Rightarrow> 'o \<Rightarrow> (bool \<times> 'a \<times> 'o) option"

section \<open>The server\<close>

record 'a TcpControlServer =
  ts_listener :: i32
  ts_scheduler :: PollScheduler
  ts_handle :: PollHandle
  ts_next_token :: u64
  ts_listener_token :: u64
  ts_connections :: "(u64, 'a) mapping"

definition TcpControlServer_new :: "('o, 'addr) control_os \<Rightarrow> 'addr \<Rightarrow> 'o \<Rightarrow> ('a TcpControlServer \<times> 'o) option" where
  "TcpControlServer_new C address os = do {
     (listener, os) \<leftarrow> listen C address os;
     os \<leftarrow> set_nonblocking C listener os;
     (scheduler, os) \<leftarrow> PollScheduler_new C os;
     let listener_token = 0;
     let handle = new_poll_handle scheduler;
     os \<leftarrow> new_io_fd C handle listener listener_token os;
     os \<leftarrow> schedule_read_rawfd C handle listener listener_token os;
     Some (\<lparr>ts_listener = listener, ts_scheduler = scheduler, ts_handle = handle, ts_next_token = listener_token + 1,
        ts_listener_token = listener_token, ts_connections = Mapping.empty\<rparr>, os)
   }"

definition accept_connection ::
  "('o, 'addr) control_os \<Rightarrow> ('o, 'addr, 'a) TcpControlAgent \<Rightarrow> u64 \<Rightarrow> 'a TcpControlServer \<Rightarrow> 'o \<Rightarrow> ('a TcpControlServer \<times> 'o) option" where
  "accept_connection C A available s os = do {
     (s, os) \<leftarrow> (if available AND READ \<noteq> 0 then
         (case accept C (ts_listener s) os of
            (Some (addr, stream), os) \<Rightarrow> do {
              let token = ts_next_token s;
              next \<leftarrow> checked_add token 1;
              os \<leftarrow> set_nonblocking C stream os;
              (io, os) \<leftarrow> IOScheduler_new C (new_poll_handle (ts_scheduler s)) stream token os;
              (agent, os) \<leftarrow> agent_new A addr stream io os;
              Some (s\<lparr>ts_next_token := next, ts_connections := Mapping.update token agent (ts_connections s)\<rparr>, os)
            }
          | (None, os) \<Rightarrow> Some (s, os))
       else Some (s, os));
     os \<leftarrow> schedule_read_rawfd C (ts_handle s) (ts_listener s) (ts_listener_token s) os;
     Some (s, os)
   }"

definition handle_event ::
  "('o, 'addr, 'a) TcpControlAgent \<Rightarrow> u64 \<Rightarrow> 'a \<Rightarrow> 'o \<Rightarrow> (bool \<times> 'a \<times> 'o) option" where
  "handle_event A available connection os =
     (if available AND READ \<noteq> 0 then handle_read_ready A connection os
      else if available AND WRITE \<noteq> 0 then handle_write_ready A connection os
      else if available AND HUP \<noteq> 0 then handle_hup A connection os
      else Some (True, connection, os))"

definition handle_data ::
  "('o, 'addr, 'a) TcpControlAgent \<Rightarrow> u64 \<Rightarrow> u64 \<Rightarrow> 'a TcpControlServer \<Rightarrow> 'o \<Rightarrow> ('a TcpControlServer \<times> 'o) option" where
  "handle_data A token available s os = (case Mapping.lookup (ts_connections s) token of
      Some connection \<Rightarrow> do {
        (preserve, connection, os) \<leftarrow> handle_event A available connection os;
        let s = s\<lparr>ts_connections := Mapping.update token connection (ts_connections s)\<rparr>;
        Some (if preserve then s else s\<lparr>ts_connections := Mapping.delete token (ts_connections s)\<rparr>, os)
      }
    | None \<Rightarrow> Some (s, os))"

definition schedule ::
  "('o, 'addr) control_os \<Rightarrow> ('o, 'addr, 'a) TcpControlAgent \<Rightarrow> 'a TcpControlServer \<Rightarrow> 'o \<Rightarrow> ('a TcpControlServer \<times> 'o) option" where
  "schedule C A s os = do {
     (t, sched, os) \<leftarrow> get_token_noblock C (ts_scheduler s) os;
     let s = s\<lparr>ts_scheduler := sched\<rparr>;
     case t of
       Some (token, available) \<Rightarrow>
         if token = ts_listener_token s then accept_connection C A available s os else handle_data A token available s os
     | None \<Rightarrow> Some (s, os)
   }"

definition TcpControlServer_Executable ::
  "('o, 'addr) control_os \<Rightarrow> ('o, 'addr, 'a) TcpControlAgent \<Rightarrow> ('a TcpControlServer, 'o) Executable" where
  "TcpControlServer_Executable C A = \<lparr>ex_execute = schedule C A, ex_dependencies = \<lambda>s. []\<rparr>"

section \<open>Every event is handed out once\<close>

fun poll_n :: "('o, 'addr) control_os \<Rightarrow> nat \<Rightarrow> PollScheduler \<Rightarrow> 'o \<Rightarrow> ((u64 \<times> u64) option list \<times> PollScheduler \<times> 'o) option" where
  "poll_n C 0 s os = Some ([], s, os)"
| "poll_n C (Suc n) s os = do {
     (t, s, os) \<leftarrow> get_token_noblock C s os;
     (ts, s, os) \<leftarrow> poll_n C n s os;
     Some (t # ts, s, os)
   }"

definition event_token :: "EpollEvent \<Rightarrow> (u64 \<times> u64) option" where
  "event_token e = Some (ev_data e, epoll_kind_to_available (ev_events e))"

lemma poll_drains:
  "poll_n C (Suc (length evs)) \<lparr>ps_epoll_fd = fd, ps_ready_tokens = evs, ps_events = Suc (length evs)\<rparr> os =
     Some (map event_token (rev evs) @ [None], \<lparr>ps_epoll_fd = fd, ps_ready_tokens = [], ps_events = 0\<rparr>, os)"
proof (induction evs rule: rev_induct)
  case Nil
  then show ?case by (simp add: get_token_noblock_def pop_token_def)
next
  case (snoc e evs)
  have "poll_n C (Suc (length (evs @ [e]))) \<lparr>ps_epoll_fd = fd, ps_ready_tokens = evs @ [e], ps_events = Suc (length (evs @ [e]))\<rparr> os =
      poll_n C (Suc (length evs)) \<lparr>ps_epoll_fd = fd, ps_ready_tokens = evs, ps_events = Suc (length evs)\<rparr> os \<bind>
        (\<lambda>(ts, s, os). Some (event_token e # ts, s, os))"
    by (subst poll_n.simps) (simp add: get_token_noblock_def pop_token_def event_token_def del: poll_n.simps)
  also have "\<dots> = Some (map event_token (rev (evs @ [e])) @ [None], \<lparr>ps_epoll_fd = fd, ps_ready_tokens = [], ps_events = 0\<rparr>, os)"
    unfolding snoc.IH by simp
  finally show ?case .
qed

text \<open>
  C26: When \<open>epoll\<close> reports events, the calls of \<open>get_token_noblock\<close> that follow hand out each of them exactly once, the last one
  first, and the operating system is not asked again before they are used up.  One more call then reports nothing without
  asking, since the count of events is not decreased for the first of them.
\<close>

theorem every_event_handed_out_once:
  assumes "epoll_wait C fd 32 os = Some (evs, os')" and "evs \<noteq> []"
  shows "poll_n C (Suc (length evs)) \<lparr>ps_epoll_fd = fd, ps_ready_tokens = rest, ps_events = 0\<rparr> os =
    Some (map event_token (rev evs) @ [None], \<lparr>ps_epoll_fd = fd, ps_ready_tokens = [], ps_events = 0\<rparr>, os')"
proof -
  obtain xs e where evs: "evs = xs @ [e]" using assms(2) by (metis rev_exhaust)
  have "poll_n C (Suc (length evs)) \<lparr>ps_epoll_fd = fd, ps_ready_tokens = rest, ps_events = 0\<rparr> os =
      poll_n C (Suc (length xs)) \<lparr>ps_epoll_fd = fd, ps_ready_tokens = xs, ps_events = Suc (length xs)\<rparr> os' \<bind>
        (\<lambda>(ts, s, os). Some (event_token e # ts, s, os))"
    using assms(1) evs by (subst poll_n.simps) (simp add: get_token_noblock_def pop_token_def event_token_def del: poll_n.simps)
  then show ?thesis unfolding poll_drains using evs by simp
qed

text \<open>An operating system that has two events to report and three connections to accept.\<close>

definition example_events :: "EpollEvent list" where
  "example_events = [\<lparr>ev_events = no_flags\<lparr>EPOLLIN := True\<rparr>, ev_data = 0\<rparr>, \<lparr>ev_events = no_flags\<lparr>EPOLLOUT := True, EPOLLERR := True\<rparr>, ev_data = 7\<rparr>]"

definition example_os :: "(EpollEvent list, nat) control_os" where
  "example_os = \<lparr>epoll_create = \<lambda>os. Some (5, os), epoll_ctl = \<lambda>fd op f e os. Some os, epoll_wait = \<lambda>fd n os. Some (os, []),
     listen = \<lambda>a os. Some (3, os), set_nonblocking = \<lambda>fd os. Some os, accept = \<lambda>fd os. (Some (80, 9), os)\<rparr>"

theorem every_event_handed_out_once_witness:
  "map_option fst (poll_n example_os 3 \<lparr>ps_epoll_fd = 5, ps_ready_tokens = [], ps_events = 0\<rparr> example_events) =
     Some [Some (7, WRITE OR HUP), Some (0, READ), None]"
proof -
  have "epoll_wait example_os 5 32 example_events = Some (example_events, [])" "example_events \<noteq> []"
    by (simp_all add: example_os_def example_events_def)
  note every_event_handed_out_once [OF this, of "[]"]
  then show ?thesis
    by (simp add: example_events_def event_token_def epoll_kind_to_available_def no_flags_def NONE_def READ_def WRITE_def HUP_def
        numeral_3_eq_3 del: poll_n.simps)
qed

section \<open>Connections keep apart\<close>

text \<open>The tokens in use lie between that of the listener and the next one to be given out.\<close>

definition server_wf :: "'a TcpControlServer \<Rightarrow> bool" where
  "server_wf s \<longleftrightarrow> ts_listener_token s = 0 \<and> 0 < ts_next_token s \<and>
     (\<forall>t\<in>Mapping.keys (ts_connections s). 0 < t \<and> t < ts_next_token s)"

text \<open>Two states that differ in one connection at most, a new one only under the next token.\<close>

definition touches_one :: "'a TcpControlServer \<Rightarrow> 'a TcpControlServer \<Rightarrow> bool" where
  "touches_one s s' \<longleftrightarrow> (\<exists>t. \<forall>u. u \<noteq> t \<longrightarrow> Mapping.lookup (ts_connections s') u = Mapping.lookup (ts_connections s) u) \<and>
     (\<forall>t. Mapping.lookup (ts_connections s) t = None \<and> Mapping.lookup (ts_connections s') t \<noteq> None \<longrightarrow>
        t = ts_next_token s \<and> ts_next_token s' = ts_next_token s + 1)"

lemma touches_one_refl [simp]: "ts_connections s' = ts_connections s \<Longrightarrow> touches_one s s'"
  by (auto simp: touches_one_def)

lemma lookup_delete_if: "Mapping.lookup (Mapping.delete k m) k' = (if k' = k then None else Mapping.lookup m k')"
  by simp

lemma handle_data_keeps:
  assumes "server_wf s" and "handle_data A token available s os = Some (s', os')"
  shows "server_wf s' \<and> touches_one s s'"
proof (cases "Mapping.lookup (ts_connections s) token")
  case None
  with assms show ?thesis by (simp add: handle_data_def)
next
  case (Some c)
  then obtain preserve c' os1 where "handle_event A available c os = Some (preserve, c', os1)"
    using assms(2) by (auto simp: handle_data_def bind_eq_Some_conv)
  with Some assms(2) have "s' = s\<lparr>ts_connections := (if preserve then Mapping.update token c' (ts_connections s)
      else Mapping.delete token (Mapping.update token c' (ts_connections s)))\<rparr>"
    by (auto simp: handle_data_def Let_def split: if_splits)
  moreover have "token \<in> Mapping.keys (ts_connections s)" using Some by (simp add: keys_is_none_rep)
  ultimately show ?thesis
    using assms(1) Some by (auto simp: server_wf_def touches_one_def lookup_update' lookup_delete_if Let_def split: if_splits)
qed

lemma accept_connection_keeps:
  assumes "server_wf s" and "accept_connection C A available s os = Some (s', os')"
  shows "server_wf s' \<and> touches_one s s'"
proof -
  have "s' = s \<or> (\<exists>agent nxt. checked_add (ts_next_token s) 1 = Some nxt \<and>
      s' = s\<lparr>ts_next_token := nxt, ts_connections := Mapping.update (ts_next_token s) agent (ts_connections s)\<rparr>)"
    using assms(2) by (cases "accept C (ts_listener s) os")
      (auto simp: accept_connection_def Let_def bind_eq_Some_conv split: if_splits option.splits, blast)
  then show ?thesis
  proof (elim disjE exE conjE)
    fix agent nxt
    assume add: "checked_add (ts_next_token s) 1 = Some nxt"
      and s': "s' = s\<lparr>ts_next_token := nxt, ts_connections := Mapping.update (ts_next_token s) agent (ts_connections s)\<rparr>"
    have nxt: "nxt = ts_next_token s + 1" using add by (auto simp: checked_add_def split: if_splits)
    have less: "ts_next_token s < nxt" using checked_add_unat [OF add] by (simp add: word_less_nat_alt)
    have "Mapping.lookup (ts_connections s) (ts_next_token s) = None"
      using assms(1) by (auto simp: server_wf_def keys_dom_lookup)
    moreover have "server_wf s'"
      using assms(1) less unfolding s' server_wf_def by (auto intro: less_trans)
    ultimately show ?thesis by (auto simp: s' nxt touches_one_def lookup_update' split: if_splits)
  qed (use assms(1) in simp)
qed

text \<open>
  C25: One step of the control server, whatever the operating system and the agents answer, keeps the tokens of the
  connections apart from each other and from that of the listener, and changes, removes or adds one connection
  at most; a connection that is added gets a token that was not in use.
\<close>

theorem control_server_keeps_connections_apart:
  assumes "server_wf s" and "schedule C A s os = Some (s', os')"
  shows "server_wf s' \<and> (\<exists>t. \<forall>u. u \<noteq> t \<longrightarrow> Mapping.lookup (ts_connections s') u = Mapping.lookup (ts_connections s) u) \<and>
    (\<forall>t. Mapping.lookup (ts_connections s) t = None \<and> Mapping.lookup (ts_connections s') t \<noteq> None \<longrightarrow>
      t = ts_next_token s \<and> ts_next_token s' = ts_next_token s + 1)"
proof -
  obtain t sched os1 where t: "get_token_noblock C (ts_scheduler s) os = Some (t, sched, os1)"
    using assms(2) by (auto simp: schedule_def bind_eq_Some_conv)
  let ?s = "s\<lparr>ts_scheduler := sched\<rparr>"
  have wf: "server_wf ?s" using assms(1) by (simp add: server_wf_def)
  have "server_wf s' \<and> touches_one ?s s'"
  proof (cases t)
    case None
    with assms(2) t wf show ?thesis by (auto simp: schedule_def Let_def)
  next
    case (Some tk)
    with assms(2) t wf show ?thesis
      by (cases tk) (auto simp: schedule_def Let_def split: if_splits dest: handle_data_keeps accept_connection_keeps)
  qed
  then show ?thesis by (simp add: touches_one_def)
qed

definition example_agent :: "(EpollEvent list, nat, nat) TcpControlAgent" where
  "example_agent = \<lparr>agent_new = \<lambda>addr fd io os. Some (addr, os), handle_read_ready = \<lambda>a os. Some (True, a, os),
     handle_write_ready = \<lambda>a os. Some (True, a, os), handle_hup = \<lambda>a os. Some (False, a, os)\<rparr>"

definition example_server :: "nat TcpControlServer" where
  "example_server = \<lparr>ts_listener = 3, ts_scheduler = \<lparr>ps_epoll_fd = 5, ps_ready_tokens = [], ps_events = 0\<rparr>, ts_handle = \<lparr>ph_epoll_fd = 5\<rparr>,
     ts_next_token = 8, ts_listener_token = 0, ts_connections = Mapping.update 7 70 Mapping.empty\<rparr>"

theorem control_server_keeps_connections_apart_witness:
  "\<exists>s' os'. schedule example_os example_agent example_server (take 1 example_events) = Some (s', os') \<and> server_wf s' \<and>
     Mapping.lookup (ts_connections s') 8 = Some 80 \<and> Mapping.lookup (ts_connections s') 7 = Some 70"
proof -
  have wf: "server_wf example_server" by (simp add: server_wf_def example_server_def)
  let ?run = "schedule example_os example_agent example_server (take 1 example_events)"
  have "map_option (\<lambda>(s, os). (Mapping.lookup (ts_connections s) 8, Mapping.lookup (ts_connections s) 7)) ?run = Some (Some 80, Some 70)"
    by code_simp
  then obtain s' os' where R: "?run = Some (s', os')" "Mapping.lookup (ts_connections s') 8 = Some 80"
    "Mapping.lookup (ts_connections s') 7 = Some 70" by auto
  from control_server_keeps_connections_apart [OF wf R(1)] R show ?thesis by blast
qed

end
