(* ===== verification/NB_Lpm.thy ===== *)
theory NB_Lpm
  imports NB_NetworkFunctions "HOL-Library.AList"
begin

text \<open>
  The longest prefix match of \<open>test/lpm/src/nf.rs\<close> (the same file is \<open>test/lpm-embedded/src/nf.rs\<close>):
  the two-level table \<open>IPLookup\<close> (a DIR-24-8 table), its construction from the prefixes inserted, the
  lookup, and the network function \<open>lpm\<close> built on it.

  \<^item> A table of prefixes of one length is a \<open>HashMap<u32, u16>\<close>: an association list without
    repeated keys.  The order in which the map is iterated is a parameter \<open>order\<close>; what
    \<open>std::collections::HashMap\<close> promises of it is \<open>visits_all\<close>.
  \<^item> Indices into the tables and sizes are natural numbers; addresses and gates keep their width.
\<close>

section \<open>The table\<close>

type_synonym entries = "(u32 \<times> u16) list"

record IPLookup =
  tbl24 :: "u16 list"
  tbl_long :: "u16 list"
  current_tbl_long :: nat
  raw_entries :: "entries list"

definition TBL24_SIZE :: nat where
  "TBL24_SIZE = 2 ^ 24 + 1"

definition RAW_SIZE :: nat where
  "RAW_SIZE = 33"

definition OVERFLOW_MASK :: u16 where
  "OVERFLOW_MASK = 0x8000"

definition IPLookup_default :: IPLookup where
  "IPLookup_default = \<lparr>tbl24 = replicate TBL24_SIZE 0, tbl_long = replicate TBL24_SIZE 0, current_tbl_long = 0,
     raw_entries = replicate RAW_SIZE []\<rparr>"

definition IPLookup_new :: IPLookup where
  "IPLookup_new = IPLookup_default"

definition Ipv4Addr_new :: "u8 \<Rightarrow> u8 \<Rightarrow> u8 \<Rightarrow> u8 \<Rightarrow> u32" where
  "Ipv4Addr_new a b c d = push_bit 24 (ucast a) OR push_bit 16 (ucast b) OR push_bit 8 (ucast c) OR ucast d"

definition lpm_insert :: "u32 \<Rightarrow> nat \<Rightarrow> u16 \<Rightarrow> IPLookup \<Rightarrow> IPLookup option" where
  "lpm_insert ip len gate t = do {
     m \<leftarrow> vec_get (raw_entries t) len;
     Some (t\<lparr>raw_entries := (raw_entries t)[len := AList.update ip gate m]\<rparr>)
   }"

text \<open>An \<open>Ipv4Addr\<close> is its \<open>u32\<close>, so \<open>insert_ipv4\<close> only forwards.\<close>

definition insert_ipv4 :: "u32 \<Rightarrow> nat \<Rightarrow> u16 \<Rightarrow> IPLookup \<Rightarrow> IPLookup option" where
  "insert_ipv4 ip len gate t = (let ip_u32 = ip in lpm_insert ip_u32 len gate t)"

text \<open>The body of the loop over the prefixes of at most 24 bits.\<close>

definition insert_short :: "nat \<Rightarrow> u32 \<times> u16 \<Rightarrow> IPLookup \<Rightarrow> IPLookup option" where
  "insert_short i kv t = (let
       k = fst kv; v = snd kv;
       start = unat (drop_bit 8 k);
       fin = start + 2 ^ (24 - i)
     in do {
       tbl \<leftarrow> mfold (\<lambda>pfx tbl. vec_set tbl pfx v) [start..<fin] (tbl24 t);
       Some (t\<lparr>tbl24 := tbl\<rparr>)
     })"

text \<open>The body of the loop over the longer prefixes.\<close>

definition insert_long :: "nat \<Rightarrow> u32 \<times> u16 \<Rightarrow> IPLookup \<Rightarrow> IPLookup option" where
  "insert_long i kv t = (let addr = unat (fst kv); v = snd kv in do {
       t24entry \<leftarrow> vec_get (tbl24 t) (addr div 256);
       if t24entry AND OVERFLOW_MASK = 0 then
         (let ctlb = current_tbl_long t;
              start = ctlb + addr mod 256;
              fin = start + 2 ^ (32 - i)
          in do {
            tl \<leftarrow> mfold (\<lambda>j tl. vec_set tl j (if j < start \<or> j \<ge> fin then t24entry else v)) [ctlb..<ctlb + 256] (tbl_long t);
            t24 \<leftarrow> vec_set (tbl24 t) (addr div 256) (word_of_nat (ctlb div 256) OR OVERFLOW_MASK);
            Some (t\<lparr>tbl_long := tl, tbl24 := t24, current_tbl_long := current_tbl_long t + 256\<rparr>)
          })
       else
         (let start = unat (t24entry AND NOT OVERFLOW_MASK) * 256 + addr mod 256;
              fin = start + 2 ^ (32 - i)
          in do {
            tl \<leftarrow> mfold (\<lambda>j tl. vec_set tl j v) [start..<fin] (tbl_long t);
            Some (t\<lparr>tbl_long := tl\<rparr>)
          })
     })"

definition construct_table :: "(entries \<Rightarrow> entries) \<Rightarrow> IPLookup \<Rightarrow> IPLookup option" where
  "construct_table order t = do {
     t \<leftarrow> mfold (\<lambda>i t. vec_get (raw_entries t) i \<bind> (\<lambda>m. mfold (insert_short i) (order m) t)) [0..<25] t;
     mfold (\<lambda>i t. vec_get (raw_entries t) i \<bind> (\<lambda>m. mfold (insert_long i) (order m) t)) [25..<RAW_SIZE] t
   }"

definition lookup_entry :: "IPLookup \<Rightarrow> u32 \<Rightarrow> u16 option" where
  "lookup_entry t ip = (let addr = unat ip in do {
     t24entry \<leftarrow> vec_get (tbl24 t) (addr div 256);
     if t24entry AND OVERFLOW_MASK > 0
     then vec_get (tbl_long t) (unat (t24entry AND NOT OVERFLOW_MASK) * 256 + addr mod 256)
     else Some t24entry
   })"

section \<open>The network function\<close>

definition lpm_prefixes :: "((u8 \<times> u8 \<times> u8 \<times> u8) \<times> nat \<times> u16) list" where
  "lpm_prefixes = [
    ((188, 19, 50, 135), 32, 1), ((123, 19, 205, 58), 32, 1), ((58, 218, 199, 165), 32, 1),
    ((61, 90, 38, 155), 32, 1), ((190, 179, 91, 29), 32, 1), ((198, 23, 250, 66), 32, 1),
    ((42, 103, 111, 67), 32, 1), ((117, 197, 187, 144), 32, 1), ((207, 198, 106, 183), 32, 1),
    ((122, 90, 22, 43), 32, 1), ((5, 167, 64, 38), 32, 1), ((152, 166, 114, 31), 32, 1),
    ((191, 81, 59, 58), 32, 1), ((190, 175, 182, 182), 32, 1), ((190, 237, 89, 70), 32, 1),
    ((181, 21, 43, 134), 32, 1), ((122, 171, 197, 247), 32, 1), ((113, 212, 69, 195), 32, 1),
    ((151, 74, 149, 41), 32, 1), ((27, 28, 145, 139), 32, 1), ((206, 169, 145, 35), 32, 1),
    ((105, 103, 122, 43), 32, 1), ((116, 45, 32, 133), 32, 1), ((202, 109, 166, 177), 32, 1),
    ((195, 53, 118, 92), 32, 1), ((5, 167, 65, 10), 32, 1), ((216, 151, 137, 247), 32, 1),
    ((103, 56, 182, 207), 32, 1), ((216, 151, 138, 92), 32, 1), ((88, 250, 194, 52), 32, 1),
    ((41, 232, 211, 169), 32, 1), ((106, 215, 170, 250), 32, 1), ((187, 3, 143, 162), 32, 1),
    ((110, 85, 81, 79), 32, 1), ((220, 111, 212, 68), 32, 1), ((185, 151, 210, 156), 32, 1),
    ((190, 179, 180, 225), 32, 1), ((2, 92, 39, 245), 32, 1), ((107, 191, 202, 53), 32, 1),
    ((46, 161, 9, 22), 32, 1), ((122, 117, 64, 197), 32, 1), ((186, 133, 153, 160), 32, 1),
    ((36, 255, 211, 72), 32, 1), ((173, 234, 225, 96), 32, 1), ((95, 68, 215, 116), 32, 1),
    ((115, 84, 82, 217), 32, 1), ((84, 164, 153, 138), 32, 1), ((190, 50, 251, 94), 32, 1),
    ((93, 105, 249, 221), 32, 1), ((37, 21, 101, 156), 32, 1), ((143, 0, 222, 235), 32, 1),
    ((5, 167, 69, 45), 32, 1), ((37, 191, 159, 133), 32, 1), ((203, 134, 213, 65), 32, 1),
    ((84, 211, 75, 56), 32, 1), ((117, 248, 162, 119), 32, 1), ((69, 178, 195, 20), 32, 1),
    ((113, 189, 147, 99), 32, 1), ((185, 84, 202, 52), 32, 1), ((188, 143, 232, 190), 32, 1),
    ((41, 221, 50, 102), 32, 1), ((92, 82, 174, 27), 32, 1), ((113, 55, 12, 76), 32, 1),
    ((62, 211, 191, 202), 32, 1), ((191, 82, 178, 107), 32, 1), ((181, 23, 198, 10), 32, 1),
    ((117, 196, 200, 35), 32, 1), ((117, 198, 60, 179), 32, 1), ((178, 136, 73, 133), 32, 1),
    ((203, 130, 228, 60), 32, 1), ((179, 41, 211, 34), 32, 1), ((193, 92, 162, 10), 32, 1),
    ((216, 151, 130, 236), 32, 1), ((2, 185, 182, 1), 32, 1), ((185, 148, 100, 45), 32, 1),
    ((85, 105, 157, 175), 32, 1), ((171, 80, 158, 237), 32, 1), ((109, 165, 67, 16), 32, 1),
    ((5, 167, 66, 53), 32, 1), ((183, 165, 159, 231), 32, 1), ((152, 232, 193, 27), 32, 1),
    ((60, 184, 112, 190), 32, 1), ((122, 163, 104, 12), 32, 1), ((177, 213, 230, 190), 32, 1),
    ((113, 146, 90, 33), 32, 1), ((190, 49, 119, 180), 32, 1), ((89, 187, 144, 19), 32, 1),
    ((31, 168, 81, 84), 32, 1), ((201, 254, 169, 36), 32, 1), ((200, 71, 53, 112), 32, 1),
    ((90, 189, 133, 179), 32, 1), ((24, 219, 68, 17), 32, 1), ((190, 178, 143, 49), 32, 1),
    ((41, 105, 236, 253), 32, 1), ((183, 60, 48, 25), 32, 1), ((188, 143, 232, 254), 32, 1),
    ((36, 97, 169, 81), 32, 1), ((192, 99, 147, 251), 32, 1), ((171, 233, 174, 141), 32, 1),
    ((112, 227, 158, 252), 32, 1), ((188, 143, 233, 59), 32, 1), ((192, 209, 125, 92), 32, 1),
    ((5, 167, 66, 37), 32, 1), ((95, 215, 103, 88), 32, 1), ((5, 167, 65, 50), 32, 1)]"

definition lpm_table :: "(entries \<Rightarrow> entries) \<Rightarrow> IPLookup option" where
  "lpm_table order = do {
     t \<leftarrow> mfold (\<lambda>((a, b, c, d), len, gate). insert_ipv4 (Ipv4Addr_new a b c d) len gate) lpm_prefixes IPLookup_new;
     construct_table order t
   }"

definition lpm_group :: "IPLookup \<Rightarrow> 'x GroupFn" where
  "lpm_group t pkt h x = do {
     bs \<leftarrow> get_header h pkt;
     gate \<leftarrow> lookup_entry t (ip_src (IpHeader_of_bytes bs));
     Some (unat gate, x)
   }"

text \<open>The pipeline; the result is the composed merge of the three groups.\<close>

definition lpm ::
  "(entries \<Rightarrow> entries) \<Rightarrow> ((('b, 'x) TransformBatch, 'x) GroupByProducer \<Rightarrow> 'sched \<Rightarrow> nat result \<times> 'sched) \<Rightarrow>
   'b \<Rightarrow> 'sched \<Rightarrow> 'x world \<Rightarrow> ('x ReceiveBatch MergeBatch \<times> 'sched \<times> 'x world) option" where
  "lpm order add_task parent s w = do {
     t \<leftarrow> lpm_table order;
     (groups, s, w) \<leftarrow> GroupBy_new add_task (TransformBatch_new parent acl_swap) 3 (lpm_group t) s w;
     let (g0, groups) = get_group groups 0;
     g0 \<leftarrow> g0;
     let (g1, groups) = get_group groups 1;
     g1 \<leftarrow> g1;
     let (g2, groups) = get_group groups 2;
     g2 \<leftarrow> g2;
     Some (MergeBatch_new [g0, g1, g2], s, w)
   }"

definition lpm_ops :: "'x natives \<Rightarrow> ('x ReceiveBatch MergeBatch, 'x) Batch" where
  "lpm_ops N = CompositionBatch_ops (MergeBatch_ops (RestoreHeader_ops HIp (ReceiveBatch_ops N)))"

section \<open>Longest prefix match\<close>

text \<open>
  The specification: routes are what was inserted, a later one replacing an earlier one with the same
  prefix; the match of an address is the gate of the longest prefix of it that has a route, or gate 0.
\<close>

type_synonym route = "u32 \<times> nat \<times> u16"

definition prefix :: "nat \<Rightarrow> u32 \<Rightarrow> u32" where
  "prefix len ip = word_of_nat (unat ip div 2 ^ (32 - len) * 2 ^ (32 - len))"

definition routes_of_length :: "route list \<Rightarrow> nat \<Rightarrow> entries" where
  "routes_of_length rs len = map (\<lambda>(k, l, g). (k, g)) (filter (\<lambda>(k, l, g). l = len) rs)"

fun longest_match :: "route list \<Rightarrow> nat \<Rightarrow> u32 \<Rightarrow> u16" where
  "longest_match rs 0 ip = 0"
| "longest_match rs (Suc len) ip = (case map_of (rev (routes_of_length rs len)) (prefix len ip) of
     Some g \<Rightarrow> g
   | None \<Rightarrow> longest_match rs len ip)"

definition insert_routes :: "route list \<Rightarrow> IPLookup \<Rightarrow> IPLookup option" where
  "insert_routes = mfold (\<lambda>(ip, len, gate). insert_ipv4 ip len gate)"

text \<open>
  What the table needs of its routes: a length of at most 32, no bit set behind the prefix, a gate
  below the overflow mark, and no more long prefixes than the second level can address.
\<close>

definition route_ok :: "route \<Rightarrow> bool" where
  "route_ok r = (case r of (k, len, g) \<Rightarrow> len \<le> 32 \<and> 2 ^ (32 - len) dvd unat k \<and> g < OVERFLOW_MASK)"

definition routes_ok :: "route list \<Rightarrow> bool" where
  "routes_ok rs \<longleftrightarrow> list_all route_ok rs \<and> length (filter (\<lambda>(k, len, g). 24 < len) rs) \<le> 2 ^ 15"

definition visits_all :: "(entries \<Rightarrow> entries) \<Rightarrow> bool" where
  "visits_all order \<longleftrightarrow> (\<forall>m. mset (order m) = mset m)"

section \<open>Filling the tables\<close>

lemma mfold_fill:
  assumes "a \<le> b" and "b \<le> length xs"
  shows "\<exists>ys. mfold (\<lambda>j ys. vec_set ys j (g j)) [a..<b] xs = Some ys \<and> length ys = length xs \<and>
    (\<forall>j<length xs. ys ! j = (if a \<le> j \<and> j < b then g j else xs ! j))"
  using assms
proof (induction b rule: dec_induct)
  case base
  then show ?case by auto
next
  case (step b)
  then obtain ys where "mfold (\<lambda>j ys. vec_set ys j (g j)) [a..<b] xs = Some ys" "length ys = length xs"
    "\<forall>j<length xs. ys ! j = (if a \<le> j \<and> j < b then g j else xs ! j)" by auto
  with step show ?case by (auto simp: mfold_append vec_set_def nth_list_update less_Suc_eq)
qed

lemma mask_bit: "bit OVERFLOW_MASK n \<longleftrightarrow> n = 15"
proof -
  have m: "OVERFLOW_MASK = 2 ^ 15" by (simp add: OVERFLOW_MASK_def)
  show ?thesis unfolding m bit_exp_iff by auto
qed

lemma marked_iff: "e AND OVERFLOW_MASK = 0 \<longleftrightarrow> \<not> bit e 15"
proof -
  have b: "bit (e AND OVERFLOW_MASK) n \<longleftrightarrow> n = 15 \<and> bit e 15" for n by (auto simp: bit_and_iff mask_bit)
  show ?thesis
  proof
    assume "e AND OVERFLOW_MASK = 0"
    with b [of 15] show "\<not> bit e 15" by simp
  next
    assume "\<not> bit e 15"
    then show "e AND OVERFLOW_MASK = 0" by (intro bit_word_eqI) (simp add: b)
  qed
qed

lemma marked_gt: "(0::u16) < e AND OVERFLOW_MASK \<longleftrightarrow> bit e 15"
  using marked_iff [of e] by (simp add: word_gt_0)

lemma low_bit15:
  assumes "(w::u16) < OVERFLOW_MASK"
  shows "\<not> bit w 15"
proof -
  have "unat w < 2 ^ 15" using assms by (simp add: OVERFLOW_MASK_def word_less_nat_alt)
  then have "unat w div 2 ^ 15 = 0" by simp
  then have "\<not> bit (unat w) 15" by (simp add: bit_iff_odd)
  then show ?thesis by (simp add: bit_unsigned_iff)
qed

lemma slot_of_mark:
  assumes "n < 2 ^ 15"
  shows "bit ((word_of_nat n :: u16) OR OVERFLOW_MASK) 15"
    and "unat (((word_of_nat n :: u16) OR OVERFLOW_MASK) AND NOT OVERFLOW_MASK) = n"
proof -
  have u: "unat (word_of_nat n :: u16) = n" using assms by (simp add: unat_of_nat)
  then have "(word_of_nat n :: u16) < OVERFLOW_MASK" using assms by (simp add: word_less_nat_alt OVERFLOW_MASK_def)
  then have "\<not> bit (word_of_nat n :: u16) 15" by (rule low_bit15)
  then have "((word_of_nat n :: u16) OR OVERFLOW_MASK) AND NOT OVERFLOW_MASK = word_of_nat n"
    by (intro bit_word_eqI) (auto simp: bit_simps mask_bit)
  then show "unat (((word_of_nat n :: u16) OR OVERFLOW_MASK) AND NOT OVERFLOW_MASK) = n" using u by simp
  show "bit ((word_of_nat n :: u16) OR OVERFLOW_MASK) 15" by (simp add: bit_simps mask_bit)
qed

section \<open>Blocks of addresses\<close>

definition in_block :: "nat \<Rightarrow> u32 \<Rightarrow> u32 \<Rightarrow> bool" where
  "in_block len k x \<longleftrightarrow> unat k \<le> unat x \<and> unat x < unat k + 2 ^ (32 - len)"

lemma u32_less: "unat (x::u32) < 2 ^ 32"
  using unsigned_less [of x] by simp

lemma dvd_room:
  fixes a b d :: nat
  assumes "d dvd a" and "d dvd b" and "a < b"
  shows "a + d \<le> b"
  using assms dvd_imp_le [of d "b - a"] by (simp add: dvd_diff_nat)

lemma aligned_bound:
  assumes "len \<le> 32" and "2 ^ (32 - len) dvd unat (k::u32)"
  shows "unat k + 2 ^ (32 - len) \<le> 2 ^ 32"
  using assms(2) _ u32_less by (rule dvd_room) (rule le_imp_power_dvd, simp)

lemma div_block: "x div d = q \<longleftrightarrow> d * q \<le> x \<and> x < d * q + d" if "0 < d" for x d q :: nat
proof
  assume "x div d = q"
  then show "d * q \<le> x \<and> x < d * q + d" using that dividend_less_times_div [of d x] by auto
next
  assume "d * q \<le> x \<and> x < d * q + d"
  then show "x div d = q" by (intro div_nat_eqI) (simp_all add: mult.commute)
qed

lemma prefix_block:
  assumes "2 ^ (32 - len) dvd unat k"
  shows "in_block len k x \<longleftrightarrow> prefix len x = k"
proof -
  let ?d = "2 ^ (32 - len) :: nat"
  obtain q where q: "unat k = ?d * q" using assms by (rule dvdE)
  have "unat x div ?d * ?d < 2 ^ 32" using u32_less [of x] div_times_less_eq_dividend le_less_trans by blast
  then have p: "unat (prefix len x) = unat x div ?d * ?d" unfolding prefix_def unat_of_nat by simp
  have "prefix len x = k \<longleftrightarrow> unat (prefix len x) = unat k" by (auto intro: unsigned_word_eqI)
  also have "\<dots> \<longleftrightarrow> unat x div ?d = q" unfolding p q by simp
  also have "\<dots> \<longleftrightarrow> in_block len k x"
    unfolding in_block_def q by (rule div_block) simp
  finally show ?thesis by blast
qed

section \<open>The first level\<close>

text \<open>What a table answers is a function from addresses to gates; adding a prefix changes it on one block.\<close>

definition overlay :: "nat \<Rightarrow> u32 \<times> u16 \<Rightarrow> (u32 \<Rightarrow> u16) \<Rightarrow> u32 \<Rightarrow> u16" where
  "overlay len kv A x = (if in_block len (fst kv) x then snd kv else A x)"

definition sized :: "IPLookup \<Rightarrow> bool" where
  "sized t \<longleftrightarrow> length (tbl24 t) = TBL24_SIZE \<and> length (tbl_long t) = TBL24_SIZE"

definition first_level :: "IPLookup \<Rightarrow> (u32 \<Rightarrow> u16) \<Rightarrow> bool" where
  "first_level t A \<longleftrightarrow> sized t \<and> current_tbl_long t = 0 \<and> (\<forall>p<2 ^ 24. \<not> bit (tbl24 t ! p) 15) \<and>
     (\<forall>x. tbl24 t ! (unat x div 256) = A x)"

lemma index24: "unat (x::u32) div 256 < 2 ^ 24"
  using u32_less [of x] by (simp add: less_mult_imp_div_less)

lemma insert_short_step:
  assumes t: "first_level t A" and len: "len \<le> 24" and k: "2 ^ (32 - len) dvd unat k" and v: "v < OVERFLOW_MASK"
  shows "\<exists>t'. insert_short len (k, v) t = Some t' \<and> first_level t' (overlay len (k, v) A) \<and> raw_entries t' = raw_entries t"
proof -
  let ?s = "unat k div 256" and ?n = "2 ^ (24 - len) :: nat"
  have n: "(2::nat) ^ (32 - len) = 256 * ?n" using len power_add [of "2::nat" 8 "24 - len"] by simp
  then have k256: "unat k = 256 * ?s" using k by (metis dvd_mult_left dvd_mult_div_cancel)
  have bound: "?s + ?n \<le> 2 ^ 24" using aligned_bound [OF _ k] len n k256 by simp
  obtain tbl where tbl: "mfold (\<lambda>pfx tbl. vec_set tbl pfx v) [?s..<?s + ?n] (tbl24 t) = Some tbl" "length tbl = TBL24_SIZE"
    "\<forall>p<TBL24_SIZE. tbl ! p = (if ?s \<le> p \<and> p < ?s + ?n then v else tbl24 t ! p)"
    using mfold_fill [of ?s "?s + ?n" "tbl24 t" "\<lambda>_. v"] t bound by (auto simp: first_level_def sized_def TBL24_SIZE_def)
  have start: "unat (drop_bit 8 k) = ?s" unfolding unat_drop_bit_eq by (simp add: drop_bit_eq_div)
  have "\<not> bit (tbl ! p) 15" if "p < 2 ^ 24" for p
    using t tbl(3) that low_bit15 [OF v] by (simp add: first_level_def TBL24_SIZE_def)
  moreover have "tbl ! (unat x div 256) = overlay len (k, v) A x" for x
  proof -
    have "in_block len k x \<longleftrightarrow> ?s \<le> unat x div 256 \<and> unat x div 256 < ?s + ?n"
      using k256 by (auto simp: in_block_def n less_eq_div_iff_mult_less_eq div_less_iff_less_mult algebra_simps)
    then show ?thesis using t tbl(3) index24 [of x] by (simp add: overlay_def first_level_def TBL24_SIZE_def)
  qed
  ultimately have "first_level (t\<lparr>tbl24 := tbl\<rparr>) (overlay len (k, v) A)"
    using t tbl(2) by (simp add: first_level_def sized_def)
  moreover have "insert_short len (k, v) t = Some (t\<lparr>tbl24 := tbl\<rparr>)"
    using tbl(1) by (simp add: insert_short_def start Let_def)
  ultimately show ?thesis by simp
qed

section \<open>The second level\<close>

definition slot :: "u16 \<Rightarrow> nat" where
  "slot e = unat (e AND NOT OVERFLOW_MASK)"

definition second_level :: "nat \<Rightarrow> IPLookup \<Rightarrow> (u32 \<Rightarrow> u16) \<Rightarrow> bool" where
  "second_level g t A \<longleftrightarrow> sized t \<and> (\<exists>m\<le>g. current_tbl_long t = 256 * m \<and>
     (\<forall>p<2 ^ 24. bit (tbl24 t ! p) 15 \<longrightarrow> slot (tbl24 t ! p) < m)) \<and>
     (\<forall>p<2 ^ 24. \<forall>q<2 ^ 24. bit (tbl24 t ! p) 15 \<longrightarrow> bit (tbl24 t ! q) 15 \<longrightarrow> slot (tbl24 t ! p) = slot (tbl24 t ! q) \<longrightarrow> p = q) \<and>
     (\<forall>x. lookup_entry t x = Some (A x))"

lemma lookup_sized:
  assumes "sized t"
  shows "lookup_entry t x = (let e = tbl24 t ! (unat x div 256) in
    if bit e 15 then vec_get (tbl_long t) (slot e * 256 + unat x mod 256) else Some e)"
  using assms index24 [of x]
  by (simp add: lookup_entry_def sized_def vec_get_def TBL24_SIZE_def marked_gt slot_def Let_def)

lemma first_level_second:
  assumes "first_level t A"
  shows "second_level 0 t A"
proof -
  have s: "sized t" and 1: "\<And>p. p < 2 ^ 24 \<Longrightarrow> \<not> bit (tbl24 t ! p) 15" and 2: "tbl24 t ! (unat x div 256) = A x" for x
    using assms by (simp_all add: first_level_def)
  have "\<not> bit (A x) 15" for x using 1 [OF index24, of x] unfolding 2 .
  with s 1 2 assms show ?thesis by (simp add: second_level_def lookup_sized first_level_def Let_def)
qed

lemma second_level_mono: "second_level g t A \<Longrightarrow> g \<le> h \<Longrightarrow> second_level h t A"
  unfolding second_level_def by (meson order_trans)

lemma long_block:
  assumes len: "24 < len" "len \<le> 32" and k: "2 ^ (32 - len) dvd unat k"
  shows "unat k mod 256 + 2 ^ (32 - len) \<le> 256"
    and "in_block len k x \<longleftrightarrow> unat x div 256 = unat k div 256 \<and>
      unat k mod 256 \<le> unat x mod 256 \<and> unat x mod 256 < unat k mod 256 + 2 ^ (32 - len)"
proof -
  let ?d = "2 ^ (32 - len) :: nat"
  have d: "?d dvd 256" using le_imp_power_dvd [of "32 - len" 8 "2::nat"] len by simp
  show room: "unat k mod 256 + ?d \<le> 256" by (rule dvd_room) (use d k in \<open>simp_all add: dvd_mod\<close>)
  have "unat x div 256 = unat k div 256" if "in_block len k x"
  proof (rule div_nat_eqI)
    have "unat k \<le> unat x" "unat x < unat k + ?d" using that by (simp_all add: in_block_def)
    then show "256 * (unat k div 256) \<le> unat x" "unat x < 256 * Suc (unat k div 256)"
      using room div_mult_mod_eq [of "unat k" 256] unfolding mult_Suc_right by linarith+
  qed
  moreover have "in_block len k x \<longleftrightarrow> unat k mod 256 \<le> unat x mod 256 \<and> unat x mod 256 < unat k mod 256 + ?d"
    if "unat x div 256 = unat k div 256"
    using that div_mult_mod_eq [of "unat x" 256] div_mult_mod_eq [of "unat k" 256] unfolding in_block_def by linarith
  ultimately show "in_block len k x \<longleftrightarrow> unat x div 256 = unat k div 256 \<and>
      unat k mod 256 \<le> unat x mod 256 \<and> unat x mod 256 < unat k mod 256 + ?d" by blast
qed

text \<open>A prefix in a block that has no second level yet.\<close>

lemma insert_long_fresh:
  assumes t: "second_level g t A" and g: "g < 2 ^ 15" and len: "24 < len" "len \<le> 32" and k: "2 ^ (32 - len) dvd unat k"
    and fresh: "\<not> bit (tbl24 t ! (unat k div 256)) 15"
  shows "\<exists>t'. insert_long len (k, v) t = Some t' \<and> second_level (Suc g) t' (overlay len (k, v) A) \<and> raw_entries t' = raw_entries t"
proof -
  let ?p = "unat k div 256" and ?n = "2 ^ (32 - len) :: nat"
  let ?e = "tbl24 t ! ?p"
  obtain m where m: "m \<le> g" "current_tbl_long t = 256 * m" "\<forall>p<2 ^ 24. bit (tbl24 t ! p) 15 \<longrightarrow> slot (tbl24 t ! p) < m"
    and inj: "\<And>p q. p < 2 ^ 24 \<Longrightarrow> q < 2 ^ 24 \<Longrightarrow> bit (tbl24 t ! p) 15 \<Longrightarrow> bit (tbl24 t ! q) 15 \<Longrightarrow>
      slot (tbl24 t ! p) = slot (tbl24 t ! q) \<Longrightarrow> p = q"
    using t unfolding second_level_def by blast
  let ?s = "256 * m + unat k mod 256" and ?mark = "word_of_nat m OR OVERFLOW_MASK :: u16"
  have mark: "bit ?mark 15" "slot ?mark = m" using slot_of_mark [of m] m(1) g by (simp_all add: slot_def)
  have sized: "length (tbl24 t) = TBL24_SIZE" "length (tbl_long t) = TBL24_SIZE" using t by (simp_all add: second_level_def sized_def)
  obtain tl where tl: "mfold (\<lambda>j tl. vec_set tl j (if j < ?s \<or> j \<ge> ?s + ?n then ?e else v)) [256 * m..<256 * m + 256] (tbl_long t) = Some tl"
    "length tl = TBL24_SIZE" and nth: "\<forall>j<TBL24_SIZE. tl ! j =
      (if 256 * m \<le> j \<and> j < 256 * m + 256 then if j < ?s \<or> j \<ge> ?s + ?n then ?e else v else tbl_long t ! j)"
    using mfold_fill [of "256 * m" "256 * m + 256" "tbl_long t" "\<lambda>j. if j < ?s \<or> j \<ge> ?s + ?n then ?e else v"] m(1) g sized
    by (auto simp: TBL24_SIZE_def)
  let ?t = "t\<lparr>tbl_long := tl, tbl24 := (tbl24 t)[?p := ?mark], current_tbl_long := current_tbl_long t + 256\<rparr>"
  have run: "insert_long len (k, v) t = Some ?t"
    using tl(1) fresh index24 [of k] sized
    by (simp add: insert_long_def vec_get_def vec_set_def marked_iff TBL24_SIZE_def m(2) Let_def)
  have s: "sized ?t" and st: "sized t" using sized tl(2) by (simp_all add: sized_def)
  have "lookup_entry ?t x = Some (overlay len (k, v) A x)" for x
  proof (cases "unat x div 256 = ?p")
    case True
    have "Some (A x) = Some ?e" using t fresh True lookup_sized [of t x] by (simp add: second_level_def)
    moreover have "256 * m + unat x mod 256 < TBL24_SIZE" using m(1) g by (simp add: TBL24_SIZE_def)
    ultimately show ?thesis
      using True mark nth index24 [of k] sized(1) long_block(2) [OF len k, of x] tl(2)
      by (auto simp: lookup_sized [OF s] vec_get_def overlay_def TBL24_SIZE_def mult.commute)
  next
    case False
    let ?e' = "tbl24 t ! (unat x div 256)"
    have "tl ! (slot ?e' * 256 + unat x mod 256) = tbl_long t ! (slot ?e' * 256 + unat x mod 256)" if "bit ?e' 15"
    proof -
      have "slot ?e' < m" using that m(3) index24 by blast
      then have "slot ?e' * 256 + unat x mod 256 < 256 * m" using mult_le_mono1 [of "Suc (slot ?e')" m 256] by simp
      moreover have "256 * m \<le> TBL24_SIZE" using m(1) g by (simp add: TBL24_SIZE_def)
      ultimately show ?thesis using nth by simp
    qed
    moreover have "tbl24 ?t ! (unat x div 256) = ?e'" using False by simp
    ultimately have "lookup_entry ?t x = lookup_entry t x"
      unfolding lookup_sized [OF s] lookup_sized [OF st] using tl(2) sized(2) by (simp add: vec_get_def Let_def)
    with False t show ?thesis using long_block(2) [OF len k, of x] by (simp add: second_level_def overlay_def)
  qed
  moreover have upd: "tbl24 ?t ! p = (if p = ?p then ?mark else tbl24 t ! p)" for p
    using index24 [of k] sized(1) by (simp add: nth_list_update TBL24_SIZE_def)
  have "\<forall>p<2 ^ 24. bit (tbl24 ?t ! p) 15 \<longrightarrow> slot (tbl24 ?t ! p) < Suc m"
    unfolding upd using m(3) mark by (simp add: less_SucI)
  moreover have "p = q" if "p < 2 ^ 24" "q < 2 ^ 24" "bit (tbl24 ?t ! p) 15" "bit (tbl24 ?t ! q) 15"
    "slot (tbl24 ?t ! p) = slot (tbl24 ?t ! q)" for p q
    using that(3-5) m(3) [rule_format, OF that(1)] m(3) [rule_format, OF that(2)] inj [OF that(1,2)] mark(2)
    unfolding upd by (auto split: if_splits)
  ultimately have "second_level (Suc g) ?t (overlay len (k, v) A)"
    using s m(1,2) unfolding second_level_def by (intro conjI exI [of _ "Suc m"]) simp_all
  with run show ?thesis by simp
qed

lemma same_row:
  fixes i j r c n :: nat
  assumes "r + n \<le> 256" and "c < 256"
  shows "j * 256 + r \<le> i * 256 + c \<and> i * 256 + c < j * 256 + r + n \<longleftrightarrow> i = j \<and> r \<le> c \<and> c < r + n"
proof -
  consider "i < j" | "i = j" | "j < i" by arith
  then show ?thesis using assms by cases auto
qed

text \<open>A prefix in a block that has one.\<close>

lemma insert_long_present:
  assumes t: "second_level g t A" and g: "g < 2 ^ 15" and len: "24 < len" "len \<le> 32" and k: "2 ^ (32 - len) dvd unat k"
    and marked: "bit (tbl24 t ! (unat k div 256)) 15"
  shows "\<exists>t'. insert_long len (k, v) t = Some t' \<and> second_level (Suc g) t' (overlay len (k, v) A) \<and> raw_entries t' = raw_entries t"
proof -
  let ?p = "unat k div 256" and ?n = "2 ^ (32 - len) :: nat"
  let ?i = "slot (tbl24 t ! ?p)"
  let ?s = "?i * 256 + unat k mod 256"
  obtain m where m: "m \<le> g" "current_tbl_long t = 256 * m" "\<forall>p<2 ^ 24. bit (tbl24 t ! p) 15 \<longrightarrow> slot (tbl24 t ! p) < m"
    and inj: "\<And>p q. p < 2 ^ 24 \<Longrightarrow> q < 2 ^ 24 \<Longrightarrow> bit (tbl24 t ! p) 15 \<Longrightarrow> bit (tbl24 t ! q) 15 \<Longrightarrow>
      slot (tbl24 t ! p) = slot (tbl24 t ! q) \<Longrightarrow> p = q"
    using t unfolding second_level_def by blast
  have sized: "length (tbl24 t) = TBL24_SIZE" "length (tbl_long t) = TBL24_SIZE" "sized t" using t by (simp_all add: second_level_def sized_def)
  have i: "?i < m" using m(3) marked index24 [of k] by blast
  have room: "unat k mod 256 + ?n \<le> 256" by (rule long_block(1) [OF len k])
  have fin: "?s + ?n \<le> TBL24_SIZE" using room i m(1) g by (simp add: TBL24_SIZE_def)
  obtain tl where tl: "mfold (\<lambda>j tl. vec_set tl j v) [?s..<?s + ?n] (tbl_long t) = Some tl" "length tl = TBL24_SIZE"
    and nth: "\<forall>j<TBL24_SIZE. tl ! j = (if ?s \<le> j \<and> j < ?s + ?n then v else tbl_long t ! j)"
    using mfold_fill [of ?s "?s + ?n" "tbl_long t" "\<lambda>_. v"] fin sized by auto
  let ?t = "t\<lparr>tbl_long := tl\<rparr>"
  have run: "insert_long len (k, v) t = Some ?t"
    using tl(1) marked index24 [of k] sized
    by (simp add: insert_long_def vec_get_def marked_iff TBL24_SIZE_def slot_def Let_def)
  have s: "sized ?t" using sized tl(2) by (simp add: sized_def)
  have "lookup_entry ?t x = Some (overlay len (k, v) A x)" for x
  proof -
    let ?e = "tbl24 t ! (unat x div 256)"
    let ?j = "slot ?e * 256 + unat x mod 256"
    have A: "lookup_entry t x = Some (A x)" using t by (simp add: second_level_def)
    show ?thesis
    proof (cases "bit ?e 15")
      case True
      then have "slot ?e < m" using m(3) index24 by blast
      then have j: "?j < TBL24_SIZE" using mult_le_mono1 [of "Suc (slot ?e)" m 256] m(1) g by (simp add: TBL24_SIZE_def)
      have "unat x div 256 = ?p \<longleftrightarrow> slot ?e = ?i" using inj [OF index24 index24 True marked] by auto
      moreover have "?s \<le> ?j \<and> ?j < ?s + ?n \<longleftrightarrow> slot ?e = ?i \<and> unat k mod 256 \<le> unat x mod 256 \<and> unat x mod 256 < unat k mod 256 + ?n"
        by (rule same_row) (use room in auto)
      ultimately have "?s \<le> ?j \<and> ?j < ?s + ?n \<longleftrightarrow> in_block len k x" unfolding long_block(2) [OF len k] by blast
      with A True j nth tl(2) sized(2) show ?thesis
        by (simp add: lookup_sized [OF s] lookup_sized [OF sized(3)] overlay_def vec_get_def)
    next
      case False
      then have "\<not> in_block len k x" using marked long_block(2) [OF len k, of x] by auto
      with A False show ?thesis by (simp add: lookup_sized [OF s] lookup_sized [OF sized(3)] overlay_def)
    qed
  qed
  with s m(1,2,3) inj have "second_level (Suc g) ?t (overlay len (k, v) A)"
    unfolding second_level_def by (intro conjI exI [of _ m]) auto
  with run show ?thesis by simp
qed

section \<open>Building the table\<close>

definition entry_ok :: "nat \<Rightarrow> u32 \<times> u16 \<Rightarrow> bool" where
  "entry_ok len kv \<longleftrightarrow> 2 ^ (32 - len) dvd unat (fst kv) \<and> snd kv < OVERFLOW_MASK"

lemma fold_short:
  assumes "first_level t A" and "len \<le> 24" and "\<forall>kv\<in>set m. entry_ok len kv"
  shows "\<exists>t'. mfold (insert_short len) m t = Some t' \<and> first_level t' (fold (overlay len) m A) \<and> raw_entries t' = raw_entries t"
  using assms
proof (induction m arbitrary: t A)
  case (Cons kv m)
  obtain t1 where "insert_short len kv t = Some t1" "first_level t1 (overlay len kv A)" "raw_entries t1 = raw_entries t"
    using insert_short_step [OF Cons.prems(1,2), of "fst kv" "snd kv"] Cons.prems(3) by (auto simp: entry_ok_def)
  with Cons.IH [of t1 "overlay len kv A"] Cons.prems show ?case by auto
qed simp

lemma fold_long:
  assumes "second_level g t A" and "24 < len" "len \<le> 32" and "g + length m \<le> 2 ^ 15" and "\<forall>kv\<in>set m. entry_ok len kv"
  shows "\<exists>t'. mfold (insert_long len) m t = Some t' \<and> second_level (g + length m) t' (fold (overlay len) m A) \<and>
    raw_entries t' = raw_entries t"
  using assms
proof (induction m arbitrary: g t A)
  case (Cons kv m)
  have g: "g < 2 ^ 15" and k: "2 ^ (32 - len) dvd unat (fst kv)" using Cons.prems by (simp_all add: entry_ok_def)
  obtain t1 where "insert_long len kv t = Some t1" "second_level (Suc g) t1 (overlay len kv A)" "raw_entries t1 = raw_entries t"
    using insert_long_fresh [OF Cons.prems(1) g Cons.prems(2,3) k, of "snd kv"]
      insert_long_present [OF Cons.prems(1) g Cons.prems(2,3) k, of "snd kv"] by auto
  with Cons.IH [of "Suc g" t1 "overlay len kv A"] Cons.prems show ?case by auto
qed simp

text \<open>Prefixes of one length do not overlap, so the order in which they are added does not matter.\<close>

lemma fold_overlay:
  assumes "distinct (map fst m)" and "\<forall>kv\<in>set m. entry_ok len kv"
  shows "fold (overlay len) m A x = (case map_of m (prefix len x) of Some g \<Rightarrow> g | None \<Rightarrow> A x)"
  using assms
proof (induction m arbitrary: A)
  case (Cons kv m)
  have "in_block len (fst kv) x \<longleftrightarrow> prefix len x = fst kv"
    using Cons.prems(2) by (intro prefix_block) (simp add: entry_ok_def)
  moreover have "map_of m (fst kv) = None" using Cons.prems(1) by (simp add: map_of_eq_None_iff)
  ultimately show ?case using Cons by (auto simp: overlay_def split: option.splits)
qed simp

definition inserted :: "route list \<Rightarrow> IPLookup \<Rightarrow> bool" where
  "inserted rs t \<longleftrightarrow> length (raw_entries t) = RAW_SIZE \<and> t = IPLookup_default\<lparr>raw_entries := raw_entries t\<rparr> \<and>
     (\<forall>i<RAW_SIZE. distinct (map fst (raw_entries t ! i)) \<and>
       map_of (raw_entries t ! i) = map_of (rev (routes_of_length rs i)))"

lemma routes_snoc:
  "routes_of_length (rs @ [(k, l, g)]) i = routes_of_length rs i @ (if l = i then [(k, g)] else [])"
  by (simp add: routes_of_length_def)

lemma insert_routes_inserted:
  assumes "list_all route_ok rs"
  shows "\<exists>t. insert_routes rs IPLookup_new = Some t \<and> inserted rs t"
  using assms
proof (induction rs rule: rev_induct)
  case Nil
  then show ?case by (simp add: insert_routes_def inserted_def IPLookup_new_def IPLookup_default_def routes_of_length_def)
next
  case (snoc r rs)
  obtain k l g where r: "r = (k, l, g)" by (rule prod_cases3)
  obtain t where t: "insert_routes rs IPLookup_new = Some t" "inserted rs t" using snoc by auto
  have l: "l < RAW_SIZE" using snoc.prems r by (simp add: route_ok_def RAW_SIZE_def)
  let ?t = "t\<lparr>raw_entries := (raw_entries t)[l := AList.update k g (raw_entries t ! l)]\<rparr>"
  have "insert_routes (rs @ [r]) IPLookup_new = Some ?t"
    using t l by (simp add: insert_routes_def mfold_append r insert_ipv4_def lpm_insert_def vec_get_def inserted_def)
  moreover have "inserted (rs @ [r]) ?t"
    unfolding inserted_def
  proof (intro conjI allI impI)
    show "length (raw_entries ?t) = RAW_SIZE" using t(2) by (simp add: inserted_def)
    show "?t = IPLookup_default\<lparr>raw_entries := raw_entries ?t\<rparr>" using t(2) unfolding inserted_def by (metis (no_types) IPLookup.update_convs(4) IPLookup.surjective IPLookup.select_convs(4))
    fix i assume "i < RAW_SIZE"
    with t(2) l show "distinct (map fst (raw_entries ?t ! i))"
      "map_of (raw_entries ?t ! i) = map_of (rev (routes_of_length (rs @ [r]) i))"
      by (auto simp: inserted_def r routes_snoc nth_list_update distinct_update update_conv')
  qed
  ultimately show ?case by blast
qed

text \<open>What an iteration over the prefixes of one length meets.\<close>

lemma ordered_entries:
  assumes "inserted rs t" and "list_all route_ok rs" and "visits_all order" and "i < RAW_SIZE"
  defines "m \<equiv> order (raw_entries t ! i)"
  shows "\<forall>kv\<in>set m. entry_ok i kv" and "length m \<le> length (routes_of_length rs i)"
    and "fold (overlay i) m (longest_match rs i) = longest_match rs (Suc i)"
proof -
  let ?m = "raw_entries t ! i"
  have d: "distinct (map fst ?m)" and map: "map_of ?m = map_of (rev (routes_of_length rs i))"
    using assms(1,4) by (simp_all add: inserted_def)
  have mset: "mset m = mset ?m" using assms(3) by (simp add: visits_all_def m_def)
  then have s: "set m = set ?m" by (rule mset_eq_setD)
  have "mset (map fst m) = mset (map fst ?m)" using mset by simp
  then have d': "distinct (map fst m)" using d mset_eq_imp_distinct_iff by blast
  have sub: "set ?m \<subseteq> set (routes_of_length rs i)"
  proof
    fix kv assume "kv \<in> set ?m"
    then have "map_of ?m (fst kv) = Some (snd kv)" using d by (simp add: map_of_eq_Some_iff)
    then show "kv \<in> set (routes_of_length rs i)" unfolding map using map_of_SomeD by fastforce
  qed
  show ok: "\<forall>kv\<in>set m. entry_ok i kv"
    using sub assms(2) unfolding s by (fastforce simp: routes_of_length_def entry_ok_def route_ok_def list_all_iff)
  have "length m = card (set ?m)" using mset_eq_length [OF mset] distinct_card [of ?m] d by (simp add: distinct_map)
  also have "\<dots> \<le> card (set (routes_of_length rs i))" by (rule card_mono [OF _ sub]) simp
  also have "\<dots> \<le> length (routes_of_length rs i)" by (rule card_length)
  finally show "length m \<le> length (routes_of_length rs i)" .
  have "map_of m = map_of ?m" using d d' s by (simp add: map_of_inject_set)
  then show "fold (overlay i) m (longest_match rs i) = longest_match rs (Suc i)"
    by (simp add: fun_eq_iff fold_overlay [OF d' ok] map)
qed

lemma long_routes_sum:
  "(\<Sum>i\<leftarrow>[25..<33]. length (routes_of_length rs i)) \<le> length (filter (\<lambda>(k, len, g). 24 < len) rs)"
proof (induction rs)
  case (Cons r rs)
  obtain k l g where r: "r = (k, l, g)" by (rule prod_cases3)
  have "length (routes_of_length (r # rs) i) = (if l = i then 1 else 0) + length (routes_of_length rs i)" for i
    by (simp add: routes_of_length_def r)
  moreover have "(\<Sum>i\<leftarrow>[25..<33]. if l = i then 1 else (0 :: nat)) \<le> (if 24 < l then 1 else 0)" by (simp add: upt_rec)
  ultimately show ?case using Cons r by (simp add: sum_list_addf)
qed (simp add: routes_of_length_def)

lemma first_loop:
  assumes "inserted rs t" and "list_all route_ok rs" and "visits_all order" and "n \<le> 25"
  shows "\<exists>t'. mfold (\<lambda>i t. vec_get (raw_entries t) i \<bind> (\<lambda>m. mfold (insert_short i) (order m) t)) [0..<n] t = Some t' \<and>
    first_level t' (longest_match rs n) \<and> raw_entries t' = raw_entries t"
  using assms(4)
proof (induction n)
  case 0
  obtain raw where "t = IPLookup_default\<lparr>raw_entries := raw\<rparr>" using assms(1) by (auto simp: inserted_def)
  moreover have "unat x div 256 < TBL24_SIZE" for x :: u32 using index24 [of x] by (simp add: TBL24_SIZE_def)
  moreover have "p < TBL24_SIZE" if "p < 2 ^ 24" for p using that by (simp add: TBL24_SIZE_def)
  ultimately show ?case by (simp add: first_level_def sized_def IPLookup_default_def)
next
  case (Suc n)
  then obtain t1 where t1: "mfold (\<lambda>i t. vec_get (raw_entries t) i \<bind> (\<lambda>m. mfold (insert_short i) (order m) t)) [0..<n] t = Some t1"
    "first_level t1 (longest_match rs n)" "raw_entries t1 = raw_entries t" by auto
  have n: "n < RAW_SIZE" "n \<le> 24" using Suc.prems by (simp_all add: RAW_SIZE_def)
  then have "vec_get (raw_entries t1) n = Some (raw_entries t ! n)" using assms(1) t1(3) by (simp add: vec_get_def inserted_def)
  with t1 ordered_entries [OF assms(1-3) n(1)] fold_short [OF t1(2) n(2), of "order (raw_entries t ! n)"]
  show ?case by (auto simp: mfold_append simp del: longest_match.simps)
qed

lemma second_loop:
  assumes "inserted rs t" and "list_all route_ok rs" and "visits_all order" and "25 \<le> n" and "n \<le> RAW_SIZE"
    and "second_level 0 t0 (longest_match rs 25)" and "raw_entries t0 = raw_entries t"
    and "(\<Sum>i\<leftarrow>[25..<n]. length (routes_of_length rs i)) \<le> 2 ^ 15"
  shows "\<exists>t'. mfold (\<lambda>i t. vec_get (raw_entries t) i \<bind> (\<lambda>m. mfold (insert_long i) (order m) t)) [25..<n] t0 = Some t' \<and>
    second_level (\<Sum>i\<leftarrow>[25..<n]. length (routes_of_length rs i)) t' (longest_match rs n) \<and> raw_entries t' = raw_entries t"
  using assms(4,5,8)
proof (induction n rule: dec_induct)
  case base
  then show ?case using assms(6,7) by simp
next
  case (step n)
  let ?g = "\<Sum>i\<leftarrow>[25..<n]. length (routes_of_length rs i)" and ?m = "order (raw_entries t ! n)"
  have g: "?g + length (routes_of_length rs n) \<le> 2 ^ 15" using step by simp
  then obtain t1 where t1: "mfold (\<lambda>i t. vec_get (raw_entries t) i \<bind> (\<lambda>m. mfold (insert_long i) (order m) t)) [25..<n] t0 = Some t1"
    "second_level ?g t1 (longest_match rs n)" "raw_entries t1 = raw_entries t" using step by auto
  have n: "n < RAW_SIZE" "24 < n" "n \<le> 32" using step by (simp_all add: RAW_SIZE_def)
  note ms = ordered_entries [OF assms(1-3) n(1)]
  have "vec_get (raw_entries t1) n = Some (raw_entries t ! n)" using n(1) assms(1) t1(3) by (simp add: vec_get_def inserted_def)
  moreover obtain t2 where "mfold (insert_long n) ?m t1 = Some t2" "second_level (?g + length ?m) t2 (longest_match rs (Suc n))"
    "raw_entries t2 = raw_entries t"
    using fold_long [OF t1(2) n(2,3) _ ms(1)] ms(2,3) g t1(3) by (auto simp del: longest_match.simps)
  moreover have "second_level (?g + length (routes_of_length rs n)) t2 (longest_match rs (Suc n))"
    if "second_level (?g + length ?m) t2 (longest_match rs (Suc n))"
    using that ms(2) by (rule second_level_mono [OF _ add_left_mono])
  ultimately show ?case using t1(1) step(1) by (auto simp: mfold_append simp del: longest_match.simps)
qed

lemma lookup_entry_longest:
  assumes "visits_all order" and "routes_ok rs"
  shows "\<exists>t t'. insert_routes rs IPLookup_new = Some t \<and> construct_table order t = Some t' \<and>
    (\<forall>ip. lookup_entry t' ip = Some (longest_match rs RAW_SIZE ip))"
proof -
  have ok: "list_all route_ok rs" using assms(2) by (simp add: routes_ok_def)
  then obtain t where t: "insert_routes rs IPLookup_new = Some t" "inserted rs t" using insert_routes_inserted by blast
  obtain t1 where t1: "mfold (\<lambda>i t. vec_get (raw_entries t) i \<bind> (\<lambda>m. mfold (insert_short i) (order m) t)) [0..<25] t = Some t1"
    "first_level t1 (longest_match rs 25)" "raw_entries t1 = raw_entries t"
    using first_loop [OF t(2) ok assms(1), of 25] by auto
  have sum: "(\<Sum>i\<leftarrow>[25..<RAW_SIZE]. length (routes_of_length rs i)) \<le> 2 ^ 15"
    using long_routes_sum [of rs] assms(2) unfolding RAW_SIZE_def routes_ok_def by linarith
  obtain t2 where "mfold (\<lambda>i t. vec_get (raw_entries t) i \<bind> (\<lambda>m. mfold (insert_long i) (order m) t)) [25..<RAW_SIZE] t1 = Some t2"
    "second_level (\<Sum>i\<leftarrow>[25..<RAW_SIZE]. length (routes_of_length rs i)) t2 (longest_match rs RAW_SIZE)"
    using second_loop [OF t(2) ok assms(1) _ order_refl first_level_second [OF t1(2)] t1(3) sum] by (auto simp: RAW_SIZE_def)
  with t(1) t1(1) show ?thesis by (auto simp: construct_table_def second_level_def)
qed

text \<open>The table of the network function itself: gate 1 for the listed addresses, gate 0 for all others.\<close>

definition lpm_routes :: "route list" where
  "lpm_routes = map (\<lambda>((a, b, c, d), len, gate). (Ipv4Addr_new a b c d, len, gate)) lpm_prefixes"

lemma mfold_map: "mfold f (map g xs) s = mfold (f \<circ> g) xs s"
  by (induction xs arbitrary: s) (auto split: Option.bind_split)

lemma lpm_table_routes: "lpm_table order = insert_routes lpm_routes IPLookup_new \<bind> construct_table order"
  by (simp add: lpm_table_def insert_routes_def lpm_routes_def mfold_map comp_def case_prod_unfold)

lemma longest_match_host_routes:
  assumes "\<forall>r\<in>set rs. fst (snd r) = 32 \<and> snd (snd r) = g"
  shows "longest_match rs RAW_SIZE ip = (if ip \<in> fst ` set rs then g else 0)"
proof -
  have "longest_match rs n ip = 0" if "n \<le> 32" for n
    using that
  proof (induction n)
    case (Suc n)
    then have "routes_of_length rs n = []" using assms by (auto simp: routes_of_length_def filter_empty_conv)
    with Suc show ?case by simp
  qed simp
  moreover have "routes_of_length rs 32 = map (\<lambda>k. (k, g)) (map fst rs)"
    using assms by (induction rs) (auto simp: routes_of_length_def)
  then have "map_of (rev (routes_of_length rs 32)) ip = (if ip \<in> fst ` set rs then Some g else None)"
    by (simp only: rev_map map_of_map_restrict) (simp add: restrict_map_def)
  moreover have "prefix 32 ip = ip" by (simp add: prefix_def)
  ultimately have "longest_match rs (Suc 32) ip = (if ip \<in> fst ` set rs then g else 0)"
    unfolding longest_match.simps by simp
  then show ?thesis by (simp add: RAW_SIZE_def)
qed

lemma lpm_table_gates:
  assumes "visits_all order"
  shows "\<exists>t. lpm_table order = Some t \<and> (\<forall>ip. lookup_entry t ip = Some (if ip \<in> fst ` set lpm_routes then 1 else 0))"
proof -
  have hosts: "\<forall>r\<in>set lpm_routes. fst (snd r) = 32 \<and> snd (snd r) = 1"
    by (simp add: lpm_routes_def lpm_prefixes_def)
  have "length (filter P lpm_routes) \<le> 2 ^ 15" for P
    using length_filter_le [of P lpm_routes] by (simp add: lpm_routes_def lpm_prefixes_def)
  with hosts have "routes_ok lpm_routes"
    by (fastforce simp: routes_ok_def list_all_iff route_ok_def OVERFLOW_MASK_def)
  from lookup_entry_longest [OF assms this] obtain t t' where "insert_routes lpm_routes IPLookup_new = Some t"
    "construct_table order t = Some t'" "\<forall>ip. lookup_entry t' ip = Some (longest_match lpm_routes RAW_SIZE ip)" by blast
  moreover have "longest_match lpm_routes RAW_SIZE ip = (if ip \<in> fst ` set lpm_routes then 1 else 0)" for ip
    by (rule longest_match_host_routes [OF hosts])
  ultimately show ?thesis by (simp add: lpm_table_routes)
qed

text \<open>Started with a scheduler that takes its task, the function sets up its three groups.\<close>

lemma lpm_starts:
  assumes "visits_all order" and "\<And>p s. \<exists>i s'. add_task p s = (Inr i, s')"
  shows "\<exists>g q s' w'. lpm order add_task parent s w = Some (g, s', w') \<and> length (mg_parents g) = 3 \<and>
    w_queues w' = w_queues w @ [q, q, q] \<and> mq_inv q \<and> mq_contents q = []"
proof -
  obtain t where t: "lpm_table order = Some t" using lpm_table_gates [OF assms(1)] by blast
  obtain q where q: "new_mpsc_queue_pair = Some q" "mq_inv q" "mq_contents q = []"
    using MpscQueue_new_spec [of DEFAULT_QUEUE_SIZE] by (auto simp: new_mpsc_queue_pair_def DEFAULT_QUEUE_SIZE_def)
  let ?Q = "w_queues w"
  obtain p c where "make_queues 3 0 w [] Map.empty = Some (p, c, w\<lparr>w_queues := ?Q @ [q, q, q]\<rparr>)"
    "c = Map.empty(0 \<mapsto> ReceiveBatch_new (consumer_rx (length ?Q)), 1 \<mapsto> ReceiveBatch_new (consumer_rx (length ?Q + 1)),
       2 \<mapsto> ReceiveBatch_new (consumer_rx (length ?Q + 2)))"
    by (simp add: q(1) numeral_3_eq_3 numeral_2_eq_2 Let_def)
  moreover obtain i s' where "add_task \<lparr>gp_parent = TransformBatch_new parent acl_swap, gp_producers = p, gp_group_fn = lpm_group t\<rparr> s =
      (Inr i, s')" using assms(2) by metis
  ultimately show ?thesis using t q(2,3) by (simp add: lpm_def GroupBy_new_def get_group_def MergeBatch_new_def Let_def)
qed

text \<open>
  C9: The two-level lookup table answers every address with the longest prefix match of the inserted
  routes, provided that the routes are ones the table can hold (\<open>routes_ok\<close>): every prefix is at most 32 bits long and has no bits
  set beyond its length, every gate is below \<open>0x8000\<close> (that bit marks a pointer into the second table), and at most
  \<open>2 ^ 15\<close> prefixes are longer than 24 bits.  Whatever the order in which the hash maps are iterated, inserting the routes and
  constructing the table then does not panic, and a lookup returns the gate of the longest inserted prefix of the address
  (the one inserted last, if a prefix was inserted twice), and gate 0 if there is none.
\<close>
theorem lookup_is_longest_prefix_match:
  assumes "visits_all order" and "routes_ok rs"
  shows "\<exists>t t'. insert_routes rs IPLookup_new = Some t \<and> construct_table order t = Some t' \<and>
    (\<forall>ip. lookup_entry t' ip = Some (longest_match rs RAW_SIZE ip))"
  using assms by (rule lookup_entry_longest)

theorem lookup_is_longest_prefix_match_witness:
  "\<exists>t t'. insert_routes [(0x0a000000, 8, 1), (0x0a010000, 16, 2), (0x0a010280, 25, 3)] IPLookup_new = Some t \<and>
    construct_table rev t = Some t' \<and>
    map (lookup_entry t') [0x0a0102c8, 0x0a010203, 0x0a090909, 0x0b000001] = [Some 3, Some 2, Some 1, Some 0]"
proof -
  let ?rs = "[(0x0a000000, 8, 1), (0x0a010000, 16, 2), (0x0a010280, 25, 3)] :: route list"
  have v: "visits_all rev" by (simp add: visits_all_def)
  have ok: "routes_ok ?rs" by code_simp
  have "map (longest_match ?rs RAW_SIZE) [0x0a0102c8, 0x0a010203, 0x0a090909, 0x0b000001] = [3, 2, 1, 0]" by code_simp
  with lookup_is_longest_prefix_match [OF v ok] show ?thesis by auto
qed

end
