(* ===== verification/NB_Maglev.thy ===== *)
theory NB_Maglev
  imports NB_NetworkFunctions "HOL-Library.AList"
begin

text \<open>
  The Maglev load balancer of \<open>test/maglev/src/nf.rs\<close>: the permutations of the backends, the lookup table
  filled from them in turns, and the network function that sends every flow to the backend of its hash.

  \<^item> The hash functions of the crates \<open>fnv\<close> and \<open>twox_hash\<close> are parameters; nothing is assumed of them.
  \<^item> Hashes, offsets and sizes are words whose operations panic on overflow; indices into vectors and
    the numbers of backends are natural numbers.
\<close>

section \<open>The table\<close>

record Maglev =
  lut :: "nat list"
  lut_size :: usize

text \<open>The operator \<open>%\<close>.\<close>

definition checked_rem :: "usize \<Rightarrow> usize \<Rightarrow> usize option" where
  "checked_rem a b = (if b = 0 then None else Some (a mod b))"

definition offset_skip_for_name ::
  "(string \<Rightarrow> u64) \<Rightarrow> (string \<Rightarrow> u64) \<Rightarrow> string \<Rightarrow> usize \<Rightarrow> (usize \<times> usize) option" where
  "offset_skip_for_name h1 h2 name lsize = do {
     let hash1 = h1 name;
     let hash2 = h2 name;
     offset \<leftarrow> checked_rem hash2 lsize;
     m \<leftarrow> checked_sub lsize 1;
     r \<leftarrow> checked_rem hash1 m;
     skip \<leftarrow> checked_add r 1;
     Some (offset, skip)
   }"

definition permutation_entry :: "usize \<times> usize \<Rightarrow> usize \<Rightarrow> nat \<Rightarrow> nat option" where
  "permutation_entry os lsize j = do {
     m \<leftarrow> checked_mul (word_of_nat j) (snd os);
     s \<leftarrow> checked_add (fst os) m;
     r \<leftarrow> checked_rem s lsize;
     Some (unat r)
   }"

definition generate_permutations ::
  "(string \<Rightarrow> u64) \<Rightarrow> (string \<Rightarrow> u64) \<Rightarrow> string list \<Rightarrow> usize \<Rightarrow> nat list list option" where
  "generate_permutations h1 h2 backends lsize = those (map (\<lambda>n. do {
     os \<leftarrow> offset_skip_for_name h1 h2 n lsize;
     those (map (permutation_entry os lsize) [0..<unat lsize])
   }) backends)"

definition FREE :: nat where
  "FREE = 0x8000"

text \<open>The inner \<open>while\<close>: the position of the next preference of a backend that is still free, and the slot.\<close>

definition next_preference :: "nat list \<Rightarrow> nat list \<Rightarrow> nat \<Rightarrow> (nat \<times> nat) option" where
  "next_preference permutation entry next_i = rust_loop (\<lambda>next_i. do {
     c \<leftarrow> vec_get permutation next_i;
     e \<leftarrow> vec_get entry c;
     Some (if e \<noteq> FREE then Inl (next_i + 1) else Inr (next_i, c))
   }) next_i"

text \<open>The \<open>for\<close> over the backends, with its \<open>break\<close>.\<close>

fun lut_pass :: "nat list list \<Rightarrow> nat \<Rightarrow> nat list \<Rightarrow> nat list \<times> nat list \<times> nat \<Rightarrow> (nat list \<times> nat list \<times> nat) option" where
  "lut_pass permutations n_slots [] st = Some st"
| "lut_pass permutations n_slots (i # is) (next, entry, n) = do {
     permutation \<leftarrow> vec_get permutations i;
     next_i \<leftarrow> vec_get next i;
     (next_i, c) \<leftarrow> next_preference permutation entry next_i;
     let next = next[i := next_i];
     let (next, entry, n) = (if entry ! c = FREE then (next[i := next_i + 1], entry[c := i], n + 1) else (next, entry, n));
     if n \<ge> n_slots then Some (next, entry, n) else lut_pass permutations n_slots is (next, entry, n)
   }"

definition generate_lut :: "nat list list \<Rightarrow> nat \<Rightarrow> nat list option" where
  "generate_lut permutations n_slots = rust_loop (\<lambda>(next, entry, n).
     if n < n_slots then do {
       st \<leftarrow> lut_pass permutations n_slots [0..<length next] (next, entry, n);
       Some (Inl st)
     } else Some (Inr entry)) (replicate (length permutations) 0, replicate n_slots FREE, 0)"

definition Maglev_new :: "(string \<Rightarrow> u64) \<Rightarrow> (string \<Rightarrow> u64) \<Rightarrow> string list \<Rightarrow> usize \<Rightarrow> Maglev option" where
  "Maglev_new h1 h2 name lsize = do {
     permutations \<leftarrow> generate_permutations h1 h2 name lsize;
     l \<leftarrow> generate_lut permutations (unat lsize);
     Some \<lparr>lut = l, lut_size = lsize\<rparr>
   }"

definition maglev_lookup :: "Maglev \<Rightarrow> usize \<Rightarrow> nat option" where
  "maglev_lookup m hash = do {
     idx \<leftarrow> checked_rem hash (lut_size m);
     vec_get (lut m) (unat idx)
   }"

section \<open>The network function\<close>

text \<open>The cache captured by the closure is the first component of the outside state.\<close>

definition maglev_group ::
  "BigEndian \<Rightarrow> (u8 list \<Rightarrow> u64) \<Rightarrow> Maglev \<Rightarrow> ((usize \<times> nat) list \<times> 'd) GroupFn" where
  "maglev_group bo fnv m pkt h x = do {
     payload \<leftarrow> get_payload h pkt;
     hash \<leftarrow> ipv4_flow_hash bo fnv payload 0;
     case map_of (fst x) hash of
       Some out \<Rightarrow> Some (out, x)
     | None \<Rightarrow> do {
         out \<leftarrow> maglev_lookup m hash;
         Some (out, (AList.update hash out (fst x), snd x))
       }
   }"

text \<open>\<open>(0..ct).map(|i| groups.get_group(i).unwrap()).collect()\<close>\<close>

fun get_groups :: "nat list \<Rightarrow> 'x GroupBy \<Rightarrow> 'x ReceiveBatch list option" where
  "get_groups [] g = Some []"
| "get_groups (i # is) g = do {
     let (r, g) = get_group g i;
     r \<leftarrow> r;
     rs \<leftarrow> get_groups is g;
     Some (r # rs)
   }"

definition maglev ::
  "BigEndian \<Rightarrow> (u8 list \<Rightarrow> u64) \<Rightarrow> (string \<Rightarrow> u64) \<Rightarrow> (string \<Rightarrow> u64) \<Rightarrow>
   ((('b, (usize \<times> nat) list \<times> 'd) TransformBatch, (usize \<times> nat) list \<times> 'd) GroupByProducer \<Rightarrow> 'sched \<Rightarrow> nat result \<times> 'sched) \<Rightarrow>
   'b \<Rightarrow> 'sched \<Rightarrow> string list \<Rightarrow> ((usize \<times> nat) list \<times> 'd) world \<Rightarrow>
   (((usize \<times> nat) list \<times> 'd) ReceiveBatch MergeBatch \<times> 'sched \<times> ((usize \<times> nat) list \<times> 'd) world) option" where
  "maglev bo fnv h1 h2 add_task parent s backends w = do {
     let ct = length backends;
     m \<leftarrow> Maglev_new h1 h2 backends 65537;
     let w = w\<lparr>w_ext := ([], snd (w_ext w))\<rparr>;
     (groups, s, w) \<leftarrow> GroupBy_new add_task (TransformBatch_new parent macswap_closure) ct (maglev_group bo fnv m) s w;
     gs \<leftarrow> get_groups [0..<ct] groups;
     Some (MergeBatch_new gs, s, w)
   }"

definition maglev_ops :: "'x natives \<Rightarrow> ('x ReceiveBatch MergeBatch, 'x) Batch" where
  "maglev_ops N = CompositionBatch_ops (MergeBatch_ops (RestoreHeader_ops HMac (ReceiveBatch_ops N)))"

section \<open>Filling the table\<close>

text \<open>How often a value occurs, and how many slots each of \<open>k\<close> backends has after \<open>n\<close> turns.\<close>

definition slots_of :: "nat list \<Rightarrow> nat \<Rightarrow> nat set" where
  "slots_of entry v = {c. c < length entry \<and> entry ! c = v}"

definition fair_share :: "nat \<Rightarrow> nat \<Rightarrow> nat \<Rightarrow> nat" where
  "fair_share k n i = n div k + (if i < n mod k then 1 else 0)"

definition preferences :: "nat \<Rightarrow> nat list list \<Rightarrow> bool" where
  "preferences n_slots permutations \<longleftrightarrow> (\<forall>p\<in>set permutations. length p = n_slots \<and> set p = {0..<n_slots})"

definition lut_inv :: "nat list list \<Rightarrow> nat \<Rightarrow> nat list \<times> nat list \<times> nat \<Rightarrow> bool" where
  "lut_inv permutations n_slots st \<longleftrightarrow> (case st of (next, entry, n) \<Rightarrow>
     length next = length permutations \<and> length entry = n_slots \<and>
     (\<forall>e\<in>set entry. e = FREE \<or> e < length permutations) \<and>
     n + card (slots_of entry FREE) = n_slots \<and>
     (\<forall>i<length permutations. card (slots_of entry i) = fair_share (length permutations) n i) \<and>
     (\<forall>i<length permutations. \<forall>j<next ! i. j < n_slots \<and> entry ! (permutations ! i ! j) \<noteq> FREE))"

lemma finite_slots [simp]: "finite (slots_of entry v)"
  by (simp add: slots_of_def)

lemma slots_of_update:
  assumes "c < length entry" and "entry ! c = u" and "u \<noteq> v"
  shows "slots_of (entry[c := v]) v = insert c (slots_of entry v)"
    and "slots_of (entry[c := v]) u = slots_of entry u - {c}"
    and "w \<noteq> u \<Longrightarrow> w \<noteq> v \<Longrightarrow> slots_of (entry[c := v]) w = slots_of entry w"
  using assms by (auto simp: slots_of_def nth_list_update)

lemma fair_share_Suc:
  assumes "i < k"
  shows "fair_share k (Suc n) i = fair_share k n i + (if i = n mod k then 1 else 0)"
proof (cases "Suc (n mod k) = k")
  case True
  then have "Suc n div k = Suc (n div k)" "Suc n mod k = 0" by (simp_all add: div_Suc mod_Suc)
  with True assms show ?thesis by (auto simp: fair_share_def)
next
  case False
  then have "Suc n div k = n div k" "Suc n mod k = Suc (n mod k)" by (simp_all add: div_Suc mod_Suc)
  with assms show ?thesis by (auto simp: fair_share_def)
qed

text \<open>As long as a slot is free, every backend finds its next preferred one.\<close>

lemma next_preference_finds:
  assumes p: "length p = length entry" "set p = {0..<length entry}" and free: "slots_of entry FREE \<noteq> {}"
    and before: "\<forall>j<k. j < length entry \<and> entry ! (p ! j) \<noteq> FREE"
  shows "\<exists>k' c. next_preference p entry k = Some (k', c) \<and> k' < length p \<and> c = p ! k' \<and> c < length entry \<and> entry ! c = FREE \<and>
    (\<forall>j<k'. entry ! (p ! j) \<noteq> FREE)"
proof -
  obtain c0 where "c0 < length entry" "entry ! c0 = FREE" using free by (auto simp: slots_of_def)
  then obtain j0 where j0: "j0 < length p" "entry ! (p ! j0) = FREE" using p(2) by (metis atLeastLessThan_iff in_set_conv_nth le0)
  have in_range: "p ! j < length entry" if "j < length p" for j using that p(2) by (metis atLeastLessThan_iff nth_mem)
  let ?I = "\<lambda>k. (\<forall>j<k. entry ! (p ! j) \<noteq> FREE)"
  have le: "k \<le> j0" if "?I k" for k using that j0(2) by (meson linorder_not_le)
  have "\<exists>r. next_preference p entry k = Some r \<and> (case r of (k', c) \<Rightarrow> k' < length p \<and> c = p ! k' \<and> c < length entry \<and>
      entry ! c = FREE \<and> ?I k')"
    unfolding next_preference_def
  proof (rule rust_loop_total [where I = ?I and m = "\<lambda>k. length p - k"])
    show "?I k" using before by blast
    fix k assume k: "?I k"
    then have "k < length p" using le [OF k] j0(1) by simp
    then show "(\<exists>s'. (vec_get p k \<bind> (\<lambda>c. vec_get entry c \<bind> (\<lambda>e. Some (if e \<noteq> FREE then Inl (k + 1) else Inr (k, c))))) = Some (Inl s') \<and>
          ?I s' \<and> length p - s' < length p - k) \<or>
        (\<exists>r. (vec_get p k \<bind> (\<lambda>c. vec_get entry c \<bind> (\<lambda>e. Some (if e \<noteq> FREE then Inl (k + 1) else Inr (k, c))))) = Some (Inr r) \<and>
          (case r of (k', c) \<Rightarrow> k' < length p \<and> c = p ! k' \<and> c < length entry \<and> entry ! c = FREE \<and> ?I k'))"
      using k in_range [of k] by (auto simp: vec_get_def less_Suc_eq)
  qed
  then show ?thesis by auto
qed

lemma lut_turn:
  assumes P: "preferences n_slots P" and k: "length P \<le> FREE" and inv: "lut_inv P n_slots (next, entry, n)" and n: "n < n_slots"
    and i: "i < length P" "i = n mod length P"
  shows "\<exists>next_i c. next_preference (P ! i) entry (next ! i) = Some (next_i, c) \<and> entry ! c = FREE \<and>
    lut_inv P n_slots (next[i := next_i + 1], entry[c := i], n + 1)"
proof -
  have len: "length next = length P" "length entry = n_slots" using inv by (simp_all add: lut_inv_def)
  have p: "length (P ! i) = length entry" "set (P ! i) = {0..<length entry}"
    using P i(1) len nth_mem [of i P] by (simp_all add: preferences_def)
  have free: "slots_of entry FREE \<noteq> {}" using inv n by (auto simp: lut_inv_def)
  have before: "\<forall>j<next ! i. j < length entry \<and> entry ! (P ! i ! j) \<noteq> FREE" using inv i(1) by (simp add: lut_inv_def)
  from next_preference_finds [OF p free before] obtain k' c where f: "next_preference (P ! i) entry (next ! i) = Some (k', c)"
    "k' < length (P ! i)" "c = P ! i ! k'" "c < length entry" "entry ! c = FREE" "\<forall>j<k'. entry ! (P ! i ! j) \<noteq> FREE" by blast
  have iF: "FREE \<noteq> i" using i(1) k by simp
  note upd = slots_of_update [OF f(4,5) iF]
  have "n + 1 + card (slots_of (entry[c := i]) FREE) = n_slots"
  proof -
    have "c \<in> slots_of entry FREE" using f(4,5) by (simp add: slots_of_def)
    then have "card (slots_of entry FREE) = Suc (card (slots_of entry FREE - {c}))" by (rule card.remove [OF finite_slots])
    with inv show ?thesis by (simp add: upd(2) lut_inv_def)
  qed
  moreover have "card (slots_of (entry[c := i]) j) = fair_share (length P) (n + 1) j" if "j < length P" for j
  proof -
    have "c \<notin> slots_of entry i" using f(5) iF by (simp add: slots_of_def)
    moreover have "card (slots_of entry j) = fair_share (length P) n j" using inv that by (simp add: lut_inv_def)
    moreover have "j \<noteq> FREE" using that k by simp
    ultimately show ?thesis using upd(1) upd(3) [of j] fair_share_Suc [OF that, of n] i(2) by (cases "j = i") simp_all
  qed
  moreover have "\<forall>e\<in>set (entry[c := i]). e = FREE \<or> e < length P"
    using inv i(1) set_update_subset_insert [of entry c i] by (auto simp: lut_inv_def)
  moreover have "j < n_slots \<and> entry[c := i] ! (P ! l ! j) \<noteq> FREE" if "l < length P" "j < next[i := k' + 1] ! l" for l j
  proof (cases "l = i")
    case True
    then show ?thesis using that f(2,3,4,6) len p(1) i(1) iF by (auto simp: less_Suc_eq nth_list_update)
  next
    case False
    then have "j < n_slots" "entry ! (P ! l ! j) \<noteq> FREE" using inv that by (simp_all add: lut_inv_def)
    then show ?thesis using iF f(4) by (simp add: nth_list_update)
  qed
  ultimately have "lut_inv P n_slots (next[i := k' + 1], entry[c := i], n + 1)" using len unfolding lut_inv_def by simp
  with f(1,5) show ?thesis by blast
qed

lemma lut_pass_fills:
  assumes P: "preferences n_slots P" and k: "length P \<le> FREE" and inv: "lut_inv P n_slots (next, entry, n)" and n: "n < n_slots"
    and i: "i < length P" "i = n mod length P"
  shows "\<exists>next' entry' n'. lut_pass P n_slots [i..<length P] (next, entry, n) = Some (next', entry', n') \<and>
    lut_inv P n_slots (next', entry', n') \<and> n < n' \<and> (n' = n_slots \<or> n' < n_slots \<and> n' mod length P = 0)"
  using inv n i
proof (induction "length P - i" arbitrary: i "next" entry n)
  case (Suc d)
  from lut_turn [OF P k Suc.prems] obtain next_i c where t: "next_preference (P ! i) entry (next ! i) = Some (next_i, c)"
    "entry ! c = FREE" "lut_inv P n_slots (next[i := next_i + 1], entry[c := i], n + 1)" by blast
  have upt: "[i..<length P] = i # [Suc i..<length P]" using Suc.prems(3) by (rule upt_conv_Cons)
  have get: "vec_get P i = Some (P ! i)" "vec_get next i = Some (next ! i)"
    using Suc.prems(1,3) by (simp_all add: vec_get_def lut_inv_def)
  have le: "n + 1 \<le> n_slots" using Suc.prems(2) by simp
  let ?st = "(next[i := next_i + 1], entry[c := i], n + 1)"
  show ?case
  proof (cases "n + 1 = n_slots")
    case True
    with t get show ?thesis unfolding upt by (simp add: Let_def)
  next
    case False
    then have run: "lut_pass P n_slots [i..<length P] (next, entry, n) = lut_pass P n_slots [Suc i..<length P] ?st"
      using t(1,2) get le unfolding upt by (simp add: Let_def)
    show ?thesis
    proof (cases "Suc i = length P")
      case True
      then have "Suc n mod length P = 0" using Suc.prems(4) by (simp add: mod_Suc)
      with True run t(3) False le show ?thesis by simp
    next
      case neq: False
      then have "Suc i < length P" "Suc i = (n + 1) mod length P" using Suc.prems(3,4) by (simp_all add: mod_Suc)
      with Suc.hyps(1) [of "Suc i" "next[i := next_i + 1]" "entry[c := i]" "n + 1"] Suc.hyps(2) t(3) False le run
      show ?thesis by fastforce
    qed
  qed
qed simp

text \<open>Whatever the preferences of at least one and less than 0x8000 backends are, the table is filled fairly.\<close>

lemma generate_lut_fair:
  assumes P: "preferences n_slots P" and k: "P \<noteq> []" "length P \<le> FREE"
  shows "\<exists>l. generate_lut P n_slots = Some l \<and> length l = n_slots \<and> (\<forall>e\<in>set l. e < length P) \<and>
    (\<forall>i<length P. card (slots_of l i) = fair_share (length P) n_slots i)"
  unfolding generate_lut_def
proof (rule rust_loop_total [where m = "\<lambda>(next, entry, n). n_slots - n" and
    I = "\<lambda>(next, entry, n). lut_inv P n_slots (next, entry, n) \<and> (n = n_slots \<or> n < n_slots \<and> n mod length P = 0)"], goal_cases)
  case 1
  have "slots_of (replicate n_slots FREE) FREE = {0..<n_slots}" "i \<noteq> FREE \<Longrightarrow> slots_of (replicate n_slots FREE) i = {}" for i
    by (auto simp: slots_of_def)
  with k show ?case by (auto simp: lut_inv_def fair_share_def)
next
  case (2 st)
  obtain nx entry n where st: "st = (nx, entry, n)" by (rule prod_cases3)
  with 2 have inv: "lut_inv P n_slots (nx, entry, n)" and n: "n = n_slots \<or> n < n_slots \<and> n mod length P = 0" by simp_all
  show ?case
  proof (cases "n < n_slots")
    case True
    then have "0 = n mod length P" "0 < length P" using n k(1) by auto
    with lut_pass_fills [OF P k(2) inv True, of 0] True inv show ?thesis
      by (auto simp: st lut_inv_def)
  next
    case False
    then have n: "n = n_slots" using n by simp
    then have "slots_of entry FREE = {}" using inv by (simp add: lut_inv_def)
    then have "FREE \<notin> set entry" by (auto simp: slots_of_def in_set_conv_nth)
    then have "\<forall>e\<in>set entry. e < length P" using inv by (auto simp: lut_inv_def)
    with n inv show ?thesis by (simp add: st lut_inv_def)
  qed
qed

section \<open>Permutations\<close>

text \<open>
  The steps \<open>offset + j * skip\<close> meet every slot when the number of slots is a prime; the primality is
  stated with divisors.
\<close>

definition prime_size :: "nat \<Rightarrow> bool" where
  "prime_size p \<longleftrightarrow> 1 < p \<and> (\<forall>d. d dvd p \<longrightarrow> d = 1 \<or> d = p)"

lemma coprime_below_prime:
  assumes "prime_size p" and "0 < a" and "a < p"
  shows "coprime a p"
proof -
  have "gcd a p = 1 \<or> gcd a p = p" using assms(1) by (simp add: prime_size_def)
  moreover have "gcd a p \<le> a" using assms(2) by (intro gcd_le1_nat) simp
  ultimately show ?thesis using assms(3) by (auto simp: coprime_iff_gcd_eq_1)
qed

lemma strides_cover:
  fixes p a b :: nat
  assumes "prime_size p" and "0 < a" and "a < p"
  shows "set (map (\<lambda>j. (b + j * a) mod p) [0..<p]) = {0..<p}"
proof -
  have p: "0 < p" using assms(3) by simp
  have eq: "i = j" if "i \<le> j" "j < p" "(b + i * a) mod p = (b + j * a) mod p" for i j
  proof -
    have "b + i * a \<le> b + j * a" using that(1) by simp
    then have "p dvd b + j * a - (b + i * a)" using that(3) mod_eq_dvd_iff_nat by metis
    then have "p dvd (j - i) * a" by (simp add: diff_mult_distrib)
    then have "p dvd j - i" using coprime_below_prime [OF assms] by (simp add: coprime_dvd_mult_left_iff coprime_commute)
    with that(1,2) show ?thesis using dvd_imp_le [of p "j - i"] by (cases "j - i = 0") auto
  qed
  have "inj_on (\<lambda>j. (b + j * a) mod p) {0..<p}"
  proof (rule inj_onI)
    fix i j assume "i \<in> {0..<p}" "j \<in> {0..<p}" "(b + i * a) mod p = (b + j * a) mod p"
    then show "i = j" using eq [of i j] eq [of j i] by (cases "i \<le> j") auto
  qed
  then have "card ((\<lambda>j. (b + j * a) mod p) ` {0..<p}) = p" by (simp add: card_image)
  moreover have "(\<lambda>j. (b + j * a) mod p) ` {0..<p} \<subseteq> {0..<p}" using p by auto
  ultimately show ?thesis using card_subset_eq [of "{0..<p}"] by simp
qed

lemma those_map: "(\<And>x. x \<in> set xs \<Longrightarrow> f x = Some (g x)) \<Longrightarrow> those (map f xs) = Some (map g xs)"
  by (induction xs) simp_all

lemma permutation_entry_eq:
  assumes "unat off < unat lsize" "unat skip < unat lsize" "j < unat lsize" "unat lsize < 2 ^ 32"
  shows "permutation_entry (off, skip) lsize j = Some ((unat off + j * unat skip) mod unat lsize)"
proof -
  let ?p = "unat lsize"
  have j: "unat (word_of_nat j :: usize) = j" using assms(3,4) by (simp add: unat_of_nat)
  have "j * unat skip \<le> (?p - 1) * (?p - 1)" using assms(2,3) by (intro mult_le_mono) simp_all
  also have "\<dots> \<le> (2 ^ 32 - 1) * (2 ^ 32 - 1)" using assms(4) by (intro mult_le_mono) simp_all
  finally have m: "unat off + j * unat skip < 2 ^ 64" using assms(1,4) by simp
  then have "unat (word_of_nat j * skip :: usize) = j * unat skip" by (simp add: unat_word_ariths j)
  moreover from m this have "unat (off + word_of_nat j * skip) = unat off + j * unat skip" by (simp add: unat_word_ariths)
  ultimately show ?thesis
    using m assms(1) by (auto simp: permutation_entry_def checked_mul_def checked_add_def checked_rem_def j unat_mod_distrib unat_eq_0)
qed

lemma offset_skip_range:
  assumes "1 < unat lsize"
  shows "\<exists>off skip. offset_skip_for_name h1 h2 name lsize = Some (off, skip) \<and>
    unat off < unat lsize \<and> 0 < unat skip \<and> unat skip < unat lsize"
proof -
  have sub: "unat (lsize - 1) = unat lsize - 1" using assms by (simp add: unat_sub word_le_nat_alt)
  then have nz: "lsize \<noteq> 0" "lsize - 1 \<noteq> 0" using assms by (auto simp: unat_eq_zero)
  let ?r = "h1 name mod (lsize - 1)"
  have r: "unat ?r < unat lsize - 1" using sub assms by (simp add: unat_mod_distrib)
  have "unat lsize < 2 ^ 64" by (rule order_less_le_trans [OF unsigned_less]) simp
  with r have "unat ?r + 1 < 2 ^ 64" by simp
  then have "checked_add ?r 1 = Some (?r + 1)" "unat (?r + 1) = unat ?r + 1"
    by (simp_all add: checked_add_def unat_word_ariths)
  moreover have "unat (h2 name mod lsize) < unat lsize" using assms by (simp add: unat_mod_distrib)
  ultimately show ?thesis
    using nz r assms by (simp add: offset_skip_for_name_def checked_rem_def checked_sub_def word_le_nat_alt Let_def)
qed

lemma generate_permutations_preferences:
  assumes "prime_size (unat lsize)" and "unat lsize < 2 ^ 32"
  shows "\<exists>P. generate_permutations h1 h2 backends lsize = Some P \<and> length P = length backends \<and> preferences (unat lsize) P"
proof -
  have one: "1 < unat lsize" using assms(1) by (simp add: prime_size_def)
  define row where "row n = (case offset_skip_for_name h1 h2 n lsize of
    Some (off, skip) \<Rightarrow> map (\<lambda>j. (unat off + j * unat skip) mod unat lsize) [0..<unat lsize] | None \<Rightarrow> [])" for n
  have row: "(do { os \<leftarrow> offset_skip_for_name h1 h2 n lsize; those (map (permutation_entry os lsize) [0..<unat lsize]) }) = Some (row n) \<and>
      length (row n) = unat lsize \<and> set (row n) = {0..<unat lsize}" for n
  proof -
    obtain off skip where os: "offset_skip_for_name h1 h2 n lsize = Some (off, skip)"
      "unat off < unat lsize" "0 < unat skip" "unat skip < unat lsize" using offset_skip_range [OF one] by blast
    have "those (map (permutation_entry (off, skip) lsize) [0..<unat lsize]) =
        Some (map (\<lambda>j. (unat off + j * unat skip) mod unat lsize) [0..<unat lsize])"
      by (rule those_map) (use permutation_entry_eq [OF os(2,4) _ assms(2)] in simp)
    with os(1) strides_cover [OF assms(1) os(3,4), of "unat off"] show ?thesis by (simp add: row_def)
  qed
  then have "generate_permutations h1 h2 backends lsize = Some (map row backends)"
    unfolding generate_permutations_def by (intro those_map) simp
  with row show ?thesis by (auto simp: preferences_def)
qed

text \<open>The size of the network function's table is a prime: no odd number up to 255 divides it.\<close>

lemma prime_65537: "prime_size 65537"
proof -
  have odds: "\<forall>i\<in>set [2..<129]. \<not> 2 * i - 1 dvd (65537 :: nat)" by (simp del: set_upt)
  have small: "257 \<le> d" if "d dvd 65537" "d \<noteq> 1" for d :: nat
  proof (rule ccontr)
    assume d: "\<not> 257 \<le> d"
    have "odd d" using that(1) dvd_trans [of 2 d 65537] by auto
    then obtain i where "d = 2 * i + 1" by (rule oddE)
    with that(2) d have i: "2 \<le> i + 1" "i + 1 < 129" "2 * (i + 1) - 1 = d" by auto
    then have "i + 1 \<in> set [2..<129]" unfolding set_upt by simp
    with odds i(3) that(1) show False by metis
  qed
  have "d = 1 \<or> d = 65537" if d: "d dvd 65537" for d :: nat
  proof (rule ccontr)
    assume no: "\<not> ?thesis"
    from d obtain e where e: "65537 = d * e" by (rule dvdE)
    have "e dvd 65537" unfolding e by simp
    moreover have "e \<noteq> 1" using no e by auto
    ultimately have "257 * 257 \<le> d * e" using no d by (intro mult_le_mono small) auto
    with e show False by simp
  qed
  then show ?thesis by (simp add: prime_size_def)
qed

section \<open>Properties\<close>

lemma Maglev_new_fair:
  assumes "prime_size (unat lsize)" and "unat lsize < 2 ^ 32" and "backends \<noteq> []" and "length backends \<le> FREE"
  shows "\<exists>l. Maglev_new h1 h2 backends lsize = Some \<lparr>lut = l, lut_size = lsize\<rparr> \<and> length l = unat lsize \<and>
    (\<forall>e\<in>set l. e < length backends) \<and>
    (\<forall>i<length backends. card (slots_of l i) = fair_share (length backends) (unat lsize) i)"
proof -
  obtain P where P: "generate_permutations h1 h2 backends lsize = Some P" "length P = length backends" "preferences (unat lsize) P"
    using generate_permutations_preferences [OF assms(1,2)] by blast
  then have "P \<noteq> []" "length P \<le> FREE" using assms(3,4) by auto
  from generate_lut_fair [OF P(3) this] P(1,2) show ?thesis by (auto simp: Maglev_new_def)
qed

lemma maglev_lookup_eq:
  assumes "length l = unat n" and "n \<noteq> 0"
  shows "maglev_lookup \<lparr>lut = l, lut_size = n\<rparr> hash = Some (l ! (unat hash mod unat n))"
  using assms by (simp add: maglev_lookup_def checked_rem_def vec_get_def unat_mod_distrib unat_gt_0)

text \<open>
  C10: The load balancer's table is complete and fair.  For a table of prime size (as the one of the network
  function) and between 1 and 0x8000 backends, whatever their hashes are, building the table ends without
  a panic; a lookup of any hash returns one of the backends; and the table's slots are shared out evenly: each
  backend has the size divided by the number of backends, rounded down, and the first ones one more.
\<close>
theorem maglev_is_fair:
  assumes "prime_size (unat lsize)" and "unat lsize < 2 ^ 32" and "backends \<noteq> []" and "length backends \<le> 0x8000"
  shows "\<exists>m. Maglev_new h1 h2 backends lsize = Some m \<and>
    (\<forall>hash. \<exists>b<length backends. maglev_lookup m hash = Some b) \<and>
    (\<forall>b<length backends. card {c. c < unat lsize \<and> maglev_lookup m (word_of_nat c) = Some b} =
       unat lsize div length backends + (if b < unat lsize mod length backends then 1 else 0))"
proof -
  obtain l where l: "Maglev_new h1 h2 backends lsize = Some \<lparr>lut = l, lut_size = lsize\<rparr>" "length l = unat lsize"
    "\<forall>e\<in>set l. e < length backends"
    "\<forall>i<length backends. card (slots_of l i) = fair_share (length backends) (unat lsize) i"
    using Maglev_new_fair [OF assms(1-3), of h1 h2] assms(4) unfolding FREE_def by blast
  have pos: "1 < unat lsize" using assms(1) by (simp add: prime_size_def)
  then have "lsize \<noteq> 0" by auto
  note look = maglev_lookup_eq [OF l(2) this]
  have slots: "{c. c < unat lsize \<and> maglev_lookup \<lparr>lut = l, lut_size = lsize\<rparr> (word_of_nat c) = Some b} = slots_of l b" for b
    using assms(2) l(2) by (auto simp: look slots_of_def unat_of_nat)
  have "l ! (unat hash mod unat lsize) < length backends" for hash :: usize
    using l(2,3) pos by (auto intro!: nth_mem)
  then have "\<forall>hash. \<exists>b<length backends. maglev_lookup \<lparr>lut = l, lut_size = lsize\<rparr> hash = Some b" by (simp add: look)
  moreover have "\<forall>b<length backends. card {c. c < unat lsize \<and> maglev_lookup \<lparr>lut = l, lut_size = lsize\<rparr> (word_of_nat c) = Some b} =
      unat lsize div length backends + (if b < unat lsize mod length backends then 1 else 0)"
    using l(4) unfolding slots fair_share_def .
  ultimately show ?thesis using l(1) by blast
qed

theorem maglev_is_fair_witness:
  "\<exists>m. Maglev_new (\<lambda>name. 3) (\<lambda>name. 5) [''a'', ''b'', ''c''] 65537 = Some m \<and>
    card {c. c < 65537 \<and> maglev_lookup m (word_of_nat c) = Some 0} = 21846 \<and>
    card {c. c < 65537 \<and> maglev_lookup m (word_of_nat c) = Some 2} = 21845"
proof -
  let ?B = "[''a'', ''b'', ''c'']"
  have u: "unat (65537 :: usize) = 65537" and n: "length ?B = 3" by simp_all
  have p: "prime_size (unat (65537 :: usize))" using prime_65537 unfolding u .
  obtain m where m: "Maglev_new (\<lambda>name. 3) (\<lambda>name. 5) ?B 65537 = Some m"
    "\<forall>b<3. card {c. c < 65537 \<and> maglev_lookup m (word_of_nat c) = Some b} = 65537 div 3 + (if b < 65537 mod 3 then 1 else 0)"
    using maglev_is_fair [OF p, of ?B "\<lambda>name. 3" "\<lambda>name. 5"] unfolding u n by auto
  have "card {c. c < 65537 \<and> maglev_lookup m (word_of_nat c) = Some 0} = 21846"
    using m(2) [rule_format, of 0] by simp
  moreover have "card {c. c < 65537 \<and> maglev_lookup m (word_of_nat c) = Some 2} = 21845"
    using m(2) [rule_format, of 2] by simp
  ultimately show ?thesis using m(1) by blast
qed

text \<open>
  With the cache in front of the table, a packet goes to the backend the table has for the hash of its flow; the cache only ever holds
  such answers.  So all packets of a flow go to the same backend.
\<close>

definition cache_ok :: "Maglev \<Rightarrow> (usize \<times> nat) list \<Rightarrow> bool" where
  "cache_ok m cache \<longleftrightarrow> (\<forall>hash b. map_of cache hash = Some b \<longrightarrow> maglev_lookup m hash = Some b)"

theorem maglev_flow_affinity:
  assumes "cache_ok m (fst x)" and "maglev_group bo fnv m pkt h x = Some (b, x')"
  shows "cache_ok m (fst x')" and "snd x' = snd x"
    and "\<exists>payload flow. get_payload h pkt = Some payload \<and> ipv4_extract_flow bo payload = Some flow \<and>
      maglev_lookup m (flow_hash fnv flow) = Some b"
proof -
  obtain payload where p: "get_payload h pkt = Some payload" using assms(2) by (cases "get_payload h pkt") (auto simp: maglev_group_def)
  then obtain flow where f: "ipv4_extract_flow bo payload = Some flow"
    using assms(2) by (cases "ipv4_extract_flow bo payload") (auto simp: maglev_group_def ipv4_flow_hash_def)
  let ?hash = "flow_hash fnv flow"
  have "maglev_lookup m ?hash = Some b \<and> cache_ok m (fst x') \<and> snd x' = snd x"
  proof (cases "map_of (fst x) ?hash")
    case None
    with assms(2) p f obtain out where "maglev_lookup m ?hash = Some out" "b = out" "x' = (AList.update ?hash out (fst x), snd x)"
      by (cases "maglev_lookup m ?hash") (auto simp: maglev_group_def ipv4_flow_hash_def)
    with assms(1) show ?thesis by (auto simp: cache_ok_def update_conv')
  next
    case (Some out)
    with assms p f show ?thesis by (auto simp: maglev_group_def ipv4_flow_hash_def cache_ok_def)
  qed
  with p f show "cache_ok m (fst x')" "snd x' = snd x" "\<exists>payload flow. get_payload h pkt = Some payload \<and>
      ipv4_extract_flow bo payload = Some flow \<and> maglev_lookup m (flow_hash fnv flow) = Some b" by auto
qed

end
