(* ===== verification/NB_Nat.thy ===== *)
theory NB_Nat
  imports NB_NetworkFunctions "HOL-Library.AList"
begin

text \<open>
  The network address translator of \<open>test/nat/src/nf.rs\<close>: the state its closure captures, the translation
  of a flow, and the closure on a packet.  The map of flows is an association list without repeated keys; it is
  only looked up and extended, so the hash function does not matter.
\<close>

section \<open>The translator\<close>

record FlowUsed =
  fu_flow :: Flow
  fu_time :: u64
  fu_used :: bool

definition FlowUsed_default :: FlowUsed where
  "FlowUsed_default = \<lparr>fu_flow = \<lparr>flow_src_ip = 0, flow_dst_ip = 0, flow_src_port = 0, flow_dst_port = 0, flow_proto = 0\<rparr>,
     fu_time = 0, fu_used = False\<rparr>"

definition MIN_PORT :: u16 where
  "MIN_PORT = 1024"

definition MAX_PORT :: u16 where
  "MAX_PORT = 65535"

record nat_state =
  port_hash :: "(Flow \<times> Flow) list"
  flow_vec :: "FlowUsed list"
  next_port :: u16

definition nat_init :: nat_state where
  "nat_init = \<lparr>port_hash = [], flow_vec = map (\<lambda>_. FlowUsed_default) [unat MIN_PORT..<65535], next_port = 1024\<rparr>"

text \<open>The flow to stamp into the packet, if any: a known one or a new one with the next port.\<close>

definition nat_flow :: "u32 \<Rightarrow> Flow \<Rightarrow> nat_state \<Rightarrow> (Flow option \<times> nat_state) option" where
  "nat_flow ip flow st = (case map_of (port_hash st) flow of
     Some s \<Rightarrow> Some (Some s, st)
   | None \<Rightarrow>
       if next_port st < MAX_PORT then do {
         let assigned_port = next_port st;
         next \<leftarrow> checked_add (next_port st) 1;
         e \<leftarrow> vec_get (flow_vec st) (unat assigned_port);
         fv \<leftarrow> vec_set (flow_vec st) (unat assigned_port) (e\<lparr>fu_flow := flow\<rparr>);
         e \<leftarrow> vec_get fv (unat assigned_port);
         fv \<leftarrow> vec_set fv (unat assigned_port) (e\<lparr>fu_used := True\<rparr>);
         let outgoing_flow = flow\<lparr>flow_src_ip := ip, flow_src_port := assigned_port\<rparr>;
         let rev_flow = reverse_flow outgoing_flow;
         let ph = AList.update flow outgoing_flow (port_hash st);
         let ph = AList.update rev_flow (reverse_flow flow) ph;
         Some (Some outgoing_flow, \<lparr>port_hash = ph, flow_vec = fv, next_port = next\<rparr>)
       } else Some (None, st))"

definition nat_payload :: "BigEndian \<Rightarrow> (u8 list \<Rightarrow> u16) \<Rightarrow> u32 \<Rightarrow> u8 list \<Rightarrow> nat_state \<Rightarrow> (u8 list \<times> nat_state) option" where
  "nat_payload bo ipcsum ip bytes st = do {
     flow \<leftarrow> ipv4_extract_flow bo bytes;
     (out, st) \<leftarrow> nat_flow ip flow st;
     case out of
       Some f \<Rightarrow> do {
         bytes \<leftarrow> ipv4_stamp_flow bo ipcsum f bytes;
         Some (bytes, st)
       }
     | None \<Rightarrow> Some (bytes, st)
   }"

text \<open>The closure; its state is the first component of the outside state.\<close>

definition nat_closure :: "BigEndian \<Rightarrow> (u8 list \<Rightarrow> u16) \<Rightarrow> u32 \<Rightarrow> (nat_state \<times> 'd) TransformFn" where
  "nat_closure bo ipcsum ip pkt w = do {
     payload \<leftarrow> get_payload (w_heap w) pkt;
     (payload, st) \<leftarrow> nat_payload bo ipcsum ip payload (fst (w_ext w));
     h \<leftarrow> get_mut_payload (w_heap w) pkt (\<lambda>_. payload);
     Some (w\<lparr>w_heap := h, w_ext := (st, snd (w_ext w))\<rparr>)
   }"

definition nat_nf :: "BigEndian \<Rightarrow> (u8 list \<Rightarrow> u16) \<Rightarrow> 'b \<Rightarrow> u32 \<Rightarrow> ('b, nat_state \<times> 'd) TransformBatch" where
  "nat_nf bo ipcsum parent nat_ip = TransformBatch_new parent (nat_closure bo ipcsum nat_ip)"

definition nat_ops :: "('b, 'x) Batch \<Rightarrow> (('b, 'x) TransformBatch, 'x) Batch" where
  "nat_ops V = CompositionBatch_ops (TransformBatch_ops (ParsedBatch_ops HMac V))"

section \<open>The invariant\<close>

text \<open>The packets the translator sees are represented by their flows.\<close>

fun nat_run :: "u32 \<Rightarrow> Flow list \<Rightarrow> nat_state \<Rightarrow> (Flow option list \<times> nat_state) option" where
  "nat_run ip [] st = Some ([], st)"
| "nat_run ip (f # fs) st = do {
     (out, st) \<leftarrow> nat_flow ip f st;
     (outs, st) \<leftarrow> nat_run ip fs st;
     Some (out # outs, st)
   }"

definition outgoing :: "u32 \<Rightarrow> u16 \<Rightarrow> Flow \<Rightarrow> Flow" where
  "outgoing ip p f = f\<lparr>flow_src_ip := ip, flow_src_port := p\<rparr>"

text \<open>
  After the flows \<open>known\<close>, none of which is addressed to the translator, have been seen in this order:
  the \<open>i\<close>-th one is mapped to port \<open>1024 + i\<close>, the reply to it is mapped back, and no other flow that
  is not addressed to the translator is mapped.
\<close>

definition port_no :: "nat \<Rightarrow> u16" where
  "port_no i = word_of_nat (1024 + i)"

definition nat_inv :: "u32 \<Rightarrow> Flow list \<Rightarrow> nat_state \<Rightarrow> bool" where
  "nat_inv ip known st \<longleftrightarrow> distinct known \<and> (\<forall>f\<in>set known. flow_dst_ip f \<noteq> ip) \<and> length known \<le> 63487 \<and>
     length (flow_vec st) = 64511 \<and> next_port st = port_no (length known) \<and>
     (\<forall>i<length known. map_of (port_hash st) (known ! i) = Some (outgoing ip (port_no i) (known ! i)) \<and>
       map_of (port_hash st) (reverse_flow (outgoing ip (port_no i) (known ! i))) = Some (reverse_flow (known ! i))) \<and>
     (\<forall>f. flow_dst_ip f \<noteq> ip \<longrightarrow> f \<notin> set known \<longrightarrow> map_of (port_hash st) f = None)"

lemma unat_port_no: "i \<le> 63487 \<Longrightarrow> unat (port_no i) = 1024 + i"
  by (simp add: port_no_def unat_of_nat del: of_nat_add)

lemma nat_inv_init: "nat_inv ip [] nat_init"
proof -
  have "length (flow_vec nat_init) = 64511" by (simp add: nat_init_def MIN_PORT_def del: upt_rec_numeral)
  then show ?thesis by (simp add: nat_inv_def) (simp add: nat_init_def port_no_def del: upt_rec_numeral)
qed

lemma nat_flow_known:
  assumes "nat_inv ip known st" and "i < length known"
  shows "nat_flow ip (known ! i) st = Some (Some (outgoing ip (port_no i) (known ! i)), st)"
    and "nat_flow ip (reverse_flow (outgoing ip (port_no i) (known ! i))) st = Some (Some (reverse_flow (known ! i)), st)"
  using assms by (simp_all add: nat_inv_def nat_flow_def)

lemma nat_flow_new:
  assumes inv: "nat_inv ip known st" and f: "flow_dst_ip f \<noteq> ip" "f \<notin> set known" and room: "length known < 63487"
  shows "\<exists>st'. nat_flow ip f st = Some (Some (outgoing ip (port_no (length known)) f), st') \<and> nat_inv ip (known @ [f]) st'"
proof -
  let ?p = "port_no (length known)" and ?o = "outgoing ip (port_no (length known)) f"
  have p: "unat ?p = 1024 + length known" using room by (intro unat_port_no) simp
  have np: "next_port st = ?p" and len: "length (flow_vec st) = 64511" using inv by (simp_all add: nat_inv_def)
  have none: "map_of (port_hash st) f = None" using inv f by (simp add: nat_inv_def)
  have lt: "?p < MAX_PORT" using room by (simp add: word_less_nat_alt p MAX_PORT_def)
  have add: "checked_add ?p 1 = Some (port_no (Suc (length known)))"
  proof -
    have "?p + 1 = port_no (Suc (length known))" by (simp add: port_no_def)
    moreover have "unat ?p + unat (1 :: u16) < 2 ^ LENGTH(16)" using room p by simp
    ultimately show ?thesis by (simp only: checked_add_def if_True)
  qed
  let ?ph = "AList.update (reverse_flow ?o) (reverse_flow f) (AList.update f ?o (port_hash st))"
  let ?fv = "(flow_vec st)[1024 + length known := (flow_vec st ! (1024 + length known))\<lparr>fu_flow := f, fu_used := True\<rparr>]"
  have run: "nat_flow ip f st = Some (Some ?o, \<lparr>port_hash = ?ph, flow_vec = ?fv, next_port = port_no (Suc (length known))\<rparr>)"
    using p room len by (simp add: nat_flow_def none np lt add vec_get_def vec_set_def outgoing_def Let_def)
  have dst: "flow_dst_ip (reverse_flow (outgoing ip q g)) = ip" for q g by (simp add: reverse_flow_def outgoing_def)
  have "reverse_flow (outgoing ip (port_no i) (known ! i)) \<noteq> reverse_flow ?o" if "i < length known" for i
  proof
    assume "reverse_flow (outgoing ip (port_no i) (known ! i)) = reverse_flow ?o"
    then have "port_no i = ?p" by (simp add: reverse_flow_def outgoing_def)
    with that room p show False using unat_port_no [of i] by simp
  qed
  moreover have "known ! i \<noteq> f" "flow_dst_ip (known ! i) \<noteq> ip" if "i < length known" for i
    using that f(2) inv nth_mem [OF that] by (auto simp: nat_inv_def)
  ultimately have "nat_inv ip (known @ [f]) \<lparr>port_hash = ?ph, flow_vec = ?fv, next_port = port_no (Suc (length known))\<rparr>"
    using inv f room dst unfolding nat_inv_def
    by (auto simp: nth_append less_Suc_eq update_conv' dest: arg_cong [where f = flow_dst_ip])
  with run show ?thesis by blast
qed

text \<open>The packet that leaves has the flow the translation chose.\<close>

lemma nat_payload_stamps:
  assumes "big_endian bo" and "port_start bytes = Some ps" and "20 \<le> ps" and "ps + 4 \<le> length bytes"
    and "ipv4_extract_flow bo bytes = Some flow" and "nat_flow ip flow st = Some (Some f, st')"
  shows "\<exists>bytes'. nat_payload bo ipcsum ip bytes st = Some (bytes', st') \<and> length bytes' = length bytes \<and>
    ipv4_extract_flow bo bytes' = Some (f\<lparr>flow_proto := bytes ! 9\<rparr>)"
  using assms(5,6) ipv4_stamp_flow_eq [OF assms(1-4)] stamped_extract [OF assms(1-4)] length_stamped [OF assms(1,3,4)]
  by (simp add: nat_payload_def)

text \<open>The distinct flows of a sequence, in the order of their first packets.\<close>

definition add_flow :: "Flow list \<Rightarrow> Flow \<Rightarrow> Flow list" where
  "add_flow known f = (if f \<in> set known then known else known @ [f])"

lemma nat_flow_step:
  assumes inv: "nat_inv ip known st" and f: "flow_dst_ip f \<noteq> ip" and room: "length (add_flow known f) \<le> 63487"
  shows "\<exists>i st'. nat_flow ip f st = Some (Some (outgoing ip (port_no i) f), st') \<and> nat_inv ip (add_flow known f) st' \<and>
    i < length (add_flow known f) \<and> add_flow known f ! i = f"
proof (cases "f \<in> set known")
  case True
  then obtain i where "i < length known" "known ! i = f" by (auto simp: in_set_conv_nth)
  with nat_flow_known(1) [OF inv, of i] inv True show ?thesis by (auto simp: add_flow_def)
next
  case False
  with room have "length known < 63487" by (simp add: add_flow_def)
  with nat_flow_new [OF inv f False] False show ?thesis by (force simp: add_flow_def)
qed

lemma add_flow_prefix:
  "length known \<le> length (foldl add_flow known fs)"
  "i < length known \<Longrightarrow> foldl add_flow known fs ! i = known ! i"
  "set (foldl add_flow known fs) = set known \<union> set fs"
proof -
  have "length known \<le> length (foldl add_flow known fs) \<and> (\<forall>i<length known. foldl add_flow known fs ! i = known ! i) \<and>
      set (foldl add_flow known fs) = set known \<union> set fs"
  proof (induction fs arbitrary: known)
    case (Cons f fs)
    have "length known \<le> length (add_flow known f)" "\<forall>i<length known. add_flow known f ! i = known ! i"
      "set (add_flow known f) = insert f (set known)" by (auto simp: add_flow_def nth_append)
    with Cons.IH [of "add_flow known f"] show ?case by simp
  qed simp
  then show "length known \<le> length (foldl add_flow known fs)"
    "i < length known \<Longrightarrow> foldl add_flow known fs ! i = known ! i"
    "set (foldl add_flow known fs) = set known \<union> set fs" by simp_all
qed

lemma nat_run_ok:
  assumes "nat_inv ip known st" and "\<forall>f\<in>set fs. flow_dst_ip f \<noteq> ip" and "length (foldl add_flow known fs) \<le> 63487"
  shows "\<exists>outs st'. nat_run ip fs st = Some (outs, st') \<and> nat_inv ip (foldl add_flow known fs) st' \<and> length outs = length fs \<and>
    (\<forall>j<length fs. \<exists>i<length (foldl add_flow known fs). foldl add_flow known fs ! i = fs ! j \<and>
      outs ! j = Some (outgoing ip (port_no i) (fs ! j)))"
  using assms
proof (induction fs arbitrary: known st)
  case (Cons f fs)
  let ?k = "add_flow known f"
  have room: "length ?k \<le> 63487" using Cons.prems(3) add_flow_prefix(1) [of ?k fs] by simp
  obtain i st1 where 1: "nat_flow ip f st = Some (Some (outgoing ip (port_no i) f), st1)" "nat_inv ip ?k st1" "i < length ?k" "?k ! i = f"
    using nat_flow_step [OF Cons.prems(1) _ room] Cons.prems(2) by auto
  obtain outs st' where 2: "nat_run ip fs st1 = Some (outs, st')" "nat_inv ip (foldl add_flow ?k fs) st'" "length outs = length fs"
    "\<forall>j<length fs. \<exists>i<length (foldl add_flow ?k fs). foldl add_flow ?k fs ! i = fs ! j \<and>
      outs ! j = Some (outgoing ip (port_no i) (fs ! j))"
    using Cons.IH [OF 1(2)] Cons.prems(2,3) by auto
  have "i < length (foldl add_flow ?k fs)" "foldl add_flow ?k fs ! i = f"
    using 1(3,4) add_flow_prefix(1) [of ?k fs] add_flow_prefix(2) [OF 1(3), of fs] by simp_all
  with 1 2 show ?case by (auto simp: nth_Cons split: nat.split)
qed (simp add: nat_inv_def)

section \<open>Properties\<close>

text \<open>
  C11: The translator gives every flow its own port and finds the way back.  On any sequence of packets
  to other hosts with at most 63487 different flows it does not panic: every packet leaves with the translator's
  address and a port as its source and everything else of its flow unchanged; two packets get the same port exactly if they
  are of the same flow; and the reply to any of these packets is sent to the original source, without a change of the state.
\<close>
theorem nat_translates_both_ways:
  assumes "\<forall>f\<in>set fs. flow_dst_ip f \<noteq> ip" and "card (set fs) \<le> 63487"
  shows "\<exists>outs st p. nat_run ip fs nat_init = Some (outs, st) \<and>
    outs = map (\<lambda>f. Some (f\<lparr>flow_src_ip := ip, flow_src_port := p f\<rparr>)) fs \<and> inj_on p (set fs) \<and>
    (\<forall>f\<in>set fs. nat_flow ip (reverse_flow (f\<lparr>flow_src_ip := ip, flow_src_port := p f\<rparr>)) st = Some (Some (reverse_flow f), st))"
proof -
  let ?k = "foldl add_flow [] fs"
  have "distinct (foldl add_flow known fs)" if "distinct known" for known
    using that by (induction fs arbitrary: known) (auto simp: add_flow_def)
  then have d: "distinct ?k" by simp
  have s: "set ?k = set fs" by (simp add: add_flow_prefix(3))
  then have len: "length ?k \<le> 63487" using assms(2) distinct_card [OF d] by simp
  obtain outs st where R: "nat_run ip fs nat_init = Some (outs, st)" "nat_inv ip ?k st" "length outs = length fs"
    "\<forall>j<length fs. \<exists>i<length ?k. ?k ! i = fs ! j \<and> outs ! j = Some (outgoing ip (port_no i) (fs ! j))"
    using nat_run_ok [OF nat_inv_init assms(1) len] by blast
  define index where "index f = (THE i. i < length ?k \<and> ?k ! i = f)" for f
  have index: "index (?k ! i) = i" if "i < length ?k" for i
    unfolding index_def using that d by (intro the_equality) (auto simp: nth_eq_iff_index_eq)
  have "outs ! j = Some (outgoing ip (port_no (index (fs ! j))) (fs ! j))" if "j < length fs" for j
    using R(4) that index by metis
  then have "outs = map (\<lambda>f. Some (outgoing ip (port_no (index f)) f)) fs" using R(3) by (intro nth_equalityI) auto
  moreover have "inj_on (\<lambda>f. port_no (index f)) (set fs)"
  proof (rule inj_onI)
    fix f g assume "f \<in> set fs" "g \<in> set fs" and eq: "port_no (index f) = port_no (index g)"
    then obtain i j where ij: "i < length ?k" "f = ?k ! i" "j < length ?k" "g = ?k ! j" unfolding s [symmetric] in_set_conv_nth by metis
    then have "unat (port_no i) = unat (port_no j)" using eq index by metis
    moreover have "i \<le> 63487" "j \<le> 63487" using ij(1,3) len by linarith+
    ultimately have "i = j" unfolding unat_port_no [OF \<open>i \<le> 63487\<close>] unat_port_no [OF \<open>j \<le> 63487\<close>] by simp
    with ij show "f = g" by simp
  qed
  moreover have "nat_flow ip (reverse_flow (outgoing ip (port_no (index f)) f)) st = Some (Some (reverse_flow f), st)" if "f \<in> set fs" for f
    using that nat_flow_known(2) [OF R(2)] index unfolding s [symmetric] in_set_conv_nth by metis
  ultimately show ?thesis using R(1) unfolding outgoing_def
    by (intro exI [of _ outs] exI [of _ st] exI [of _ "\<lambda>f. port_no (index f)"]) blast
qed

theorem nat_translates_both_ways_witness:
  "let a = \<lparr>flow_src_ip = 1, flow_dst_ip = 9, flow_src_port = 80, flow_dst_port = 443, flow_proto = 6\<rparr>;
       b = \<lparr>flow_src_ip = 2, flow_dst_ip = 9, flow_src_port = 80, flow_dst_port = 443, flow_proto = 6\<rparr>
   in \<exists>st p. nat_run 7 [a, b, a] nat_init = Some ([Some (a\<lparr>flow_src_ip := 7, flow_src_port := p a\<rparr>),
       Some (b\<lparr>flow_src_ip := 7, flow_src_port := p b\<rparr>), Some (a\<lparr>flow_src_ip := 7, flow_src_port := p a\<rparr>)], st) \<and> p a \<noteq> p b \<and>
     nat_flow 7 \<lparr>flow_src_ip = 9, flow_dst_ip = 7, flow_src_port = 443, flow_dst_port = p b, flow_proto = 6\<rparr> st =
       Some (Some \<lparr>flow_src_ip = 9, flow_dst_ip = 2, flow_src_port = 443, flow_dst_port = 80, flow_proto = 6\<rparr>, st)"
proof -
  define a :: Flow where "a = \<lparr>flow_src_ip = 1, flow_dst_ip = 9, flow_src_port = 80, flow_dst_port = 443, flow_proto = 6\<rparr>"
  define b :: Flow where "b = \<lparr>flow_src_ip = 2, flow_dst_ip = 9, flow_src_port = 80, flow_dst_port = 443, flow_proto = 6\<rparr>"
  have dst: "\<forall>f\<in>set [a, b, a]. flow_dst_ip f \<noteq> 7" by (simp add: a_def b_def)
  have ab: "a \<noteq> b" by (simp add: a_def b_def)
  have "card (set [a, b, a]) \<le> 63487" using card_length [of "[a, b, a]"] by simp
  from nat_translates_both_ways [OF dst this] obtain st p where "nat_run 7 [a, b, a] nat_init =
      Some (map (\<lambda>f. Some (f\<lparr>flow_src_ip := 7, flow_src_port := p f\<rparr>)) [a, b, a], st)" "inj_on p (set [a, b, a])"
    "\<forall>f\<in>set [a, b, a]. nat_flow 7 (reverse_flow (f\<lparr>flow_src_ip := 7, flow_src_port := p f\<rparr>)) st = Some (Some (reverse_flow f), st)"
    by blast
  with ab have "nat_run 7 [a, b, a] nat_init = Some ([Some (a\<lparr>flow_src_ip := 7, flow_src_port := p a\<rparr>),
       Some (b\<lparr>flow_src_ip := 7, flow_src_port := p b\<rparr>), Some (a\<lparr>flow_src_ip := 7, flow_src_port := p a\<rparr>)], st) \<and> p a \<noteq> p b \<and>
     nat_flow 7 \<lparr>flow_src_ip = 9, flow_dst_ip = 7, flow_src_port = 443, flow_dst_port = p b, flow_proto = 6\<rparr> st =
       Some (Some \<lparr>flow_src_ip = 9, flow_dst_ip = 2, flow_src_port = 443, flow_dst_port = 80, flow_proto = 6\<rparr>, st)"
    by (auto simp: reverse_flow_def b_def inj_on_def)
  then show ?thesis unfolding Let_def a_def [symmetric] b_def [symmetric] by blast
qed

lemma nat_run_append:
  "nat_run ip (fs @ gs) st = do { (outs, st) \<leftarrow> nat_run ip fs st; (outs', st) \<leftarrow> nat_run ip gs st; Some (outs @ outs', st) }"
  by (induction fs arbitrary: st) (auto split: Option.bind_split prod.splits)

text \<open>
  C40: The translator panics on the 63488th flow although 1024 ports are left: the vector of the flows in use
  has one element per port from 1024 on but is indexed with the port itself.
\<close>
theorem nat_panics_before_ports_run_out:
  assumes "distinct fs" and "length fs = 63487" and "f \<notin> set fs" and "\<forall>g\<in>set (f # fs). flow_dst_ip g \<noteq> ip"
  shows "nat_run ip (fs @ [f]) nat_init = None"
proof -
  have "foldl add_flow known gs = known @ gs" if "distinct (known @ gs)" for known gs
    using that by (induction gs arbitrary: known) (auto simp: add_flow_def)
  then have k: "foldl add_flow [] fs = fs" using assms(1) by simp
  have "\<forall>g\<in>set fs. flow_dst_ip g \<noteq> ip" using assms(4) by simp
  from nat_run_ok [OF nat_inv_init this] k assms(2) obtain outs st where R: "nat_run ip fs nat_init = Some (outs, st)" "nat_inv ip fs st"
    by auto
  have p: "unat (port_no (length fs)) = 64511" using assms(2) unat_port_no [of "length fs"] by simp
  then have lt: "port_no (length fs) < MAX_PORT" by (simp add: word_less_nat_alt MAX_PORT_def)
  have "map_of (port_hash st) f = None" "length (flow_vec st) = 64511" "next_port st = port_no (length fs)"
    using R(2) assms(3,4) by (simp_all add: nat_inv_def)
  then have "nat_flow ip f st = None" using p lt by (simp add: nat_flow_def vec_get_def Let_def split: Option.bind_split)
  with R(1) show ?thesis by (simp add: nat_run_append)
qed

theorem nat_panics_before_ports_run_out_witness:
  "let flow = (\<lambda>n. \<lparr>flow_src_ip = word_of_nat n, flow_dst_ip = 9, flow_src_port = 80, flow_dst_port = 443, flow_proto = 6\<rparr>)
   in nat_run 7 (map flow [0..<63487] @ [flow 63487]) nat_init = None"
proof -
  define flow :: "nat \<Rightarrow> Flow" where
    "flow = (\<lambda>n. \<lparr>flow_src_ip = word_of_nat n, flow_dst_ip = 9, flow_src_port = 80, flow_dst_port = 443, flow_proto = 6\<rparr>)"
  have inj: "m = n" if "flow m = flow n" "m < 2 ^ 32" "n < 2 ^ 32" for m n
  proof -
    have "unat (word_of_nat m :: u32) = unat (word_of_nat n :: u32)" using that(1) by (simp add: flow_def)
    with that(2,3) show ?thesis by (simp add: unat_of_nat)
  qed
  have d: "distinct (map flow [0..<63487])"
    unfolding distinct_map set_upt by (auto intro!: inj_onI inj)
  have n: "flow 63487 \<notin> set (map flow [0..<63487])"
  proof
    assume "flow 63487 \<in> set (map flow [0..<63487])"
    then obtain m where "flow 63487 = flow m" "m < 63487" unfolding set_map set_upt by auto
    with inj [of 63487 m] show False by simp
  qed
  have len: "length (map flow [0..<63487]) = 63487" by (simp only: length_map length_upt)
  have "\<forall>g\<in>set (flow 63487 # map flow [0..<63487]). flow_dst_ip g \<noteq> 7" unfolding list.set set_map set_upt by (auto simp: flow_def)
  from nat_panics_before_ports_run_out [OF d len n this] show ?thesis unfolding Let_def flow_def .
qed

end
