(* ===== verification/NB_Reconstruction.thy ===== *)
theory NB_Reconstruction
  imports NB_NetworkFunctions NB_ReorderedBuffer "HOL-Library.AList"
begin

text \<open>
  The network function of \<open>test/tcp_payload/src/nf.rs\<close>, which puts the payload of every TCP flow together
  in a \<open>ReorderedBuffer\<close> and prints it at the end of the flow.  The two maps its closure captures are association
  lists without repeated keys; what it prints is a list of outputs.
\<close>

section \<open>The closure\<close>

definition BUFFER_SIZE :: usize where
  "BUFFER_SIZE = 2048"

definition READ_SIZE :: nat where
  "READ_SIZE = 256"

datatype print_out =
    Payload "u8 list"
  | EmptyPayload Flow
  | Resetting
  | NoSyn
  | TooBig

record reconstruction_state =
  rb_map :: "(Flow \<times> ReorderedBuffer) list"
  payload_cache :: "(Flow \<times> u8 list) list"
  printed :: "print_out list"

text \<open>\<open>entry(flow).or_insert(Vec::new())\<close> followed by \<open>extend\<close>.\<close>

definition extend_payload :: "Flow \<Rightarrow> u8 list \<Rightarrow> (Flow \<times> u8 list) list \<Rightarrow> (Flow \<times> u8 list) list" where
  "extend_payload flow bytes cache =
     AList.update flow ((case map_of cache flow of Some v \<Rightarrow> v | None \<Rightarrow> []) @ bytes) cache"

definition read_payload :: "ReorderedBuffer \<Rightarrow> nat \<Rightarrow> Flow \<Rightarrow> (Flow \<times> u8 list) list \<Rightarrow>
  (ReorderedBuffer \<times> (Flow \<times> u8 list) list) option" where
  "read_payload rb to_read flow cache = rust_loop (\<lambda>(rb, read_buf, so_far, cache).
     if to_read > so_far then do {
       (n, read_buf, rb) \<leftarrow> read_data rb read_buf;
       bytes \<leftarrow> slice_range 0 n read_buf;
       Some (Inl (rb, read_buf, so_far + n, extend_payload flow bytes cache))
     } else Some (Inr (rb, cache))) (rb, replicate READ_SIZE 0, 0, cache)"

text \<open>A flow that is known: the branch \<open>Entry::Occupied\<close>.\<close>

definition known_flow :: "Flow \<Rightarrow> TcpHeader \<Rightarrow> u8 list \<Rightarrow> ReorderedBuffer \<Rightarrow> reconstruction_state \<Rightarrow> reconstruction_state option" where
  "known_flow flow h data b st = do {
     let seq = tcp_seq_num h;
     (result, b) \<leftarrow> add_data b seq data;
     st \<leftarrow> (case result of
         Inserted written available \<Rightarrow> do {
           (b, cache) \<leftarrow> read_payload b (unat available) flow (payload_cache st);
           Some (st\<lparr>rb_map := AList.update flow b (rb_map st), payload_cache := cache\<rparr>)
         }
       | OutOfMemory written available \<Rightarrow>
           if written = 0 then do {
             b \<leftarrow> ro_reset b;
             (_, b) \<leftarrow> ro_seq b seq data;
             Some (st\<lparr>rb_map := AList.update flow b (rb_map st), printed := printed st @ [Resetting]\<rparr>)
           } else Some (st\<lparr>rb_map := AList.update flow b (rb_map st)\<rparr>));
     Some (if rst_flag h then st\<lparr>rb_map := AList.delete flow (rb_map st)\<rparr>
       else if fin_flag h then
         (case map_of (payload_cache st) flow of
            Some p \<Rightarrow> st\<lparr>payload_cache := AList.delete flow (payload_cache st), printed := printed st @ [Payload p],
              rb_map := AList.delete flow (rb_map st)\<rparr>
          | None \<Rightarrow> st\<lparr>printed := printed st @ [EmptyPayload flow], rb_map := AList.delete flow (rb_map st)\<rparr>)
       else st)
   }"

text \<open>A new flow: the branch \<open>Entry::Vacant\<close>.\<close>

definition new_flow :: "Flow \<Rightarrow> TcpHeader \<Rightarrow> u8 list \<Rightarrow> reconstruction_state \<Rightarrow> reconstruction_state option" where
  "new_flow flow h data st = do {
     r \<leftarrow> ReorderedBuffer_new BUFFER_SIZE;
     case r of
       Inr b \<Rightarrow> do {
         (seq, out) \<leftarrow> (if syn_flag h then do {
             seq \<leftarrow> checked_add (tcp_seq_num h) 1;
             Some (seq, [])
           } else Some (tcp_seq_num h, [NoSyn]));
         (result, b) \<leftarrow> ro_seq b seq data;
         case result of
           Inserted written available \<Rightarrow> do {
             (b, cache) \<leftarrow> read_payload b (unat available) flow (payload_cache st);
             Some (st\<lparr>rb_map := AList.update flow b (rb_map st), payload_cache := cache, printed := printed st @ out\<rparr>)
           }
         | OutOfMemory written available \<Rightarrow>
             Some (st\<lparr>rb_map := AList.update flow b (rb_map st), printed := printed st @ out @ [TooBig]\<rparr>)
       }
     | Inl e \<Rightarrow> Some st
   }"

definition reconstruct :: "Flow \<Rightarrow> TcpHeader \<Rightarrow> u8 list \<Rightarrow> reconstruction_state \<Rightarrow> reconstruction_state option" where
  "reconstruct flow h data st = (case map_of (rb_map st) flow of
     Some b \<Rightarrow> known_flow flow h data b st
   | None \<Rightarrow> new_flow flow h data st)"

section \<open>The network function\<close>

text \<open>The flow travels in the metadata of the packet as its memory image.\<close>

definition flow_of_u8 :: "u8 list \<Rightarrow> Flow" where
  "flow_of_u8 bs = \<lparr>flow_src_ip = le32 (bs ! 0) (bs ! 1) (bs ! 2) (bs ! 3), flow_dst_ip = le32 (bs ! 4) (bs ! 5) (bs ! 6) (bs ! 7),
     flow_src_port = le16 (bs ! 8) (bs ! 9), flow_dst_port = le16 (bs ! 10) (bs ! 11), flow_proto = bs ! 12\<rparr>"

definition reconstruction_closure :: "(reconstruction_state \<times> 'd) TransformFn" where
  "reconstruction_closure p w = do {
     meta \<leftarrow> read_metadata (w_heap w) p 13;
     bs \<leftarrow> get_header (w_heap w) p;
     data \<leftarrow> get_payload (w_heap w) p;
     st \<leftarrow> reconstruct (flow_of_u8 meta) (TcpHeader_of_bytes bs) data (fst (w_ext w));
     Some (w\<lparr>w_ext := (st, snd (w_ext w))\<rparr>)
   }"

definition flow_metadata :: "BigEndian \<Rightarrow> 'x MetadataFn" where
  "flow_metadata bo p h x = do {
     mem \<leftarrow> header_memory h p;
     f \<leftarrow> ip_flow bo mem;
     flow \<leftarrow> f;
     Some (flow_as_u8 flow, x)
   }"

definition protocol_group :: "'x GroupFn" where
  "protocol_group p h x = do {
     bs \<leftarrow> get_header h p;
     Some (if ip_protocol (IpHeader_of_bytes bs) = 6 then 0 else 1, x)
   }"

text \<open>A boxed batch of one of two types: the calls go to the type it has.\<close>

definition boxed_ops :: "('a, 'x) Batch \<Rightarrow> ('b, 'x) Batch \<Rightarrow> ('a + 'b, 'x) Batch" where
  "boxed_ops U V = \<lparr>
     b_act = \<lambda>b w. (case b of Inl a \<Rightarrow> map_option (apfst Inl) (b_act U a w) | Inr a \<Rightarrow> map_option (apfst Inr) (b_act V a w)),
     b_done = \<lambda>b w. (case b of Inl a \<Rightarrow> map_option (apfst Inl) (b_done U a w) | Inr a \<Rightarrow> map_option (apfst Inr) (b_done V a w)),
     b_send_q = \<lambda>port b w. (case b of
         Inl a \<Rightarrow> map_option (apsnd (apfst Inl)) (b_send_q U port a w)
       | Inr a \<Rightarrow> map_option (apsnd (apfst Inr)) (b_send_q V port a w)),
     b_capacity = case_sum (b_capacity U) (b_capacity V),
     b_drop_packets = \<lambda>idxes b w. (case b of
         Inl a \<Rightarrow> map_option (apsnd (apfst Inl)) (b_drop_packets U idxes a w)
       | Inr a \<Rightarrow> map_option (apsnd (apfst Inr)) (b_drop_packets V idxes a w)),
     b_clear_packets = case_sum (map_option Inl \<circ> b_clear_packets U) (map_option Inr \<circ> b_clear_packets V),
     b_get_packet_batch = case_sum (b_get_packet_batch U) (b_get_packet_batch V),
     b_set_packet_batch = \<lambda>b pb. (case b of Inl a \<Rightarrow> Inl (b_set_packet_batch U a pb) | Inr a \<Rightarrow> Inr (b_set_packet_batch V a pb)),
     b_get_task_dependencies = case_sum (b_get_task_dependencies U) (b_get_task_dependencies V),
     b_start = case_sum (b_start U) (b_start V),
     b_next_payload = case_sum (b_next_payload U) (b_next_payload V)\<rparr>"

type_synonym 'd recon = "reconstruction_state \<times> 'd"

definition reconstruction ::
  "BigEndian \<Rightarrow> ((('b, 'd recon) TransformBatch, 'd recon) GroupByProducer \<Rightarrow> 'sched \<Rightarrow> nat result \<times> 'sched) \<Rightarrow>
   'b \<Rightarrow> 'sched \<Rightarrow> 'd recon world \<Rightarrow>
   ((((('d recon ReceiveBatch, 'd recon) AddMetadataBatch, 'd recon) TransformBatch) + 'd recon ReceiveBatch) MergeBatch \<times>
    'sched \<times> 'd recon world) option" where
  "reconstruction bo add_task parent sched w = do {
     let w = w\<lparr>w_ext := (\<lparr>rb_map = [], payload_cache = [], printed = []\<rparr>, snd (w_ext w))\<rparr>;
     (groups, sched, w) \<leftarrow> GroupBy_new add_task (TransformBatch_new parent acl_swap) 2 protocol_group sched w;
     let (g0, groups) = get_group groups 0;
     g0 \<leftarrow> g0;
     let pipe = TransformBatch_new (AddMetadataBatch_new g0 (flow_metadata bo)) reconstruction_closure;
     let (g1, groups) = get_group groups 1;
     g1 \<leftarrow> g1;
     Some (MergeBatch_new [Inl pipe, Inr g1], sched, w)
   }"

definition reconstruction_ops :: "'d recon natives \<Rightarrow>
  ((((('d recon ReceiveBatch, 'd recon) AddMetadataBatch, 'd recon) TransformBatch) + 'd recon ReceiveBatch) MergeBatch, 'd recon) Batch" where
  "reconstruction_ops N = (let G = RestoreHeader_ops HIp (ReceiveBatch_ops N) in
     CompositionBatch_ops (MergeBatch_ops (boxed_ops
       (CompositionBatch_ops (TransformBatch_ops (ParsedBatch_ops HTcp (AddMetadataBatch_ops G))))
       (CompositionBatch_ops G))))"

section \<open>Lemmas\<close>

lemma flow_u8_roundtrip: "flow_of_u8 (flow_as_u8 f) = f"
  by (simp add: flow_of_u8_def flow_as_u8_def le32_bytes_def le16_bytes_def le32_def le16_def word_blast bit_simps)

definition entry_of :: "'a list \<Rightarrow> 'a list option" where
  "entry_of acc = (if acc = [] then None else Some acc)"

lemma extend_payload_entry:
  assumes "map_of cache flow = entry_of acc" and "bytes \<noteq> []"
  shows "map_of (extend_payload flow bytes cache) = (map_of cache)(flow := entry_of (acc @ bytes))"
  using assms by (auto simp: extend_payload_def entry_of_def update_conv' fun_eq_iff)

text \<open>Reading drains the buffer into the payload of the flow.\<close>

lemma read_payload_spec:
  assumes "ro_inv ro" and "map_of cache flow = entry_of acc"
  shows "\<exists>ro' cache'. read_payload ro (length (ro_contents ro)) flow cache = Some (ro', cache') \<and> ro_inv ro' \<and>
    ro_contents ro' = [] \<and> ro_room ro' = ro_room ro + length (ro_contents ro) \<and> tail_seq ro' = tail_seq ro \<and>
    map_of cache' = (map_of cache)(flow := entry_of (acc @ ro_contents ro))"
proof -
  let ?c = "ro_contents ro"
  let ?I = "\<lambda>(rb, buf, so_far, c). ro_inv rb \<and> length buf = READ_SIZE \<and> so_far \<le> length ?c \<and> ro_contents rb = drop so_far ?c \<and>
    ro_room rb = ro_room ro + so_far \<and> tail_seq rb = tail_seq ro \<and> map_of c = (map_of cache)(flow := entry_of (acc @ take so_far ?c))"
  have "\<exists>r. read_payload ro (length ?c) flow cache = Some r \<and> (case r of (ro', cache') \<Rightarrow> ro_inv ro' \<and>
      ro_contents ro' = [] \<and> ro_room ro' = ro_room ro + length ?c \<and> tail_seq ro' = tail_seq ro \<and>
      map_of cache' = (map_of cache)(flow := entry_of (acc @ ?c)))"
    unfolding read_payload_def
  proof (rule rust_loop_total [where I = ?I and m = "\<lambda>(rb, buf, so_far, c). length ?c - so_far"], goal_cases)
    case 1
    show ?case using assms by (simp add: fun_upd_idem)
  next
    case (2 s)
    obtain rb buf so_far c where s: "s = (rb, buf, so_far, c)" by (rule prod_cases4)
    with 2 have I: "ro_inv rb" "length buf = READ_SIZE" "so_far \<le> length ?c" "ro_contents rb = drop so_far ?c"
      "ro_room rb = ro_room ro + so_far" "tail_seq rb = tail_seq ro"
      "map_of c = (map_of cache)(flow := entry_of (acc @ take so_far ?c))" by simp_all
    show ?case
    proof (cases "so_far < length ?c")
      case True
      define n where "n = min (length (ro_contents rb)) (length buf)"
      define bytes where "bytes = take n (ro_contents rb)"
      obtain rb' where r: "read_data rb buf = Some (n, bytes @ drop n buf, rb')" "ro_inv rb'"
        "ro_contents rb' = drop (length buf) (ro_contents rb)" "ro_room rb' = ro_room rb + n" "tail_seq rb' = tail_seq rb"
        using read_data_spec [OF I(1), of buf] unfolding n_def bytes_def by blast
      have n: "0 < n" "so_far + n \<le> length ?c" "n \<le> length buf" using True I(2,4) by (simp_all add: n_def READ_SIZE_def)
      have len: "length bytes = n" by (simp add: bytes_def n_def)
      then have ne: "bytes \<noteq> []" using n(1) by auto
      have sl: "slice_range 0 n (bytes @ drop n buf) = Some bytes" using len by (simp add: slice_range_def)
      have "take (so_far + n) ?c = take so_far ?c @ bytes" by (simp add: take_add I(4) bytes_def)
      then have m: "map_of (extend_payload flow bytes c) = (map_of cache)(flow := entry_of (acc @ take (so_far + n) ?c))"
        using extend_payload_entry [of c flow "acc @ take so_far ?c" bytes] I(7) ne by simp
      have d: "ro_contents rb' = drop (so_far + n) ?c"
        unfolding r(3) by (simp add: I(4) n_def min_def add.commute)
      have b: "length (bytes @ drop n buf) = READ_SIZE" using len n(3) I(2) by simp
      show ?thesis
        using True n(1,2) r(2,4,5) I(5,6) by (simp add: s r(1) sl m d b del: length_append)
    next
      case False
      then have "so_far = length ?c" using I(3) by simp
      with I show ?thesis by (simp add: s)
    qed
  qed
  then show ?thesis by auto
qed

text \<open>A flow in order: its buffer is drained and expects \<open>seq\<close>, and \<open>acc\<close> is the payload so far.\<close>

definition tracked :: "Flow \<Rightarrow> u32 \<Rightarrow> u8 list \<Rightarrow> reconstruction_state \<Rightarrow> bool" where
  "tracked flow seq acc st \<longleftrightarrow> (\<exists>ro. map_of (rb_map st) flow = Some ro \<and> ro_inv ro \<and> ro_contents ro = [] \<and> ro_room ro = 2047 \<and>
     tail_seq ro = seq) \<and> map_of (payload_cache st) flow = entry_of acc"

definition others_same :: "Flow \<Rightarrow> reconstruction_state \<Rightarrow> reconstruction_state \<Rightarrow> bool" where
  "others_same flow st st' \<longleftrightarrow> (\<forall>g. g \<noteq> flow \<longrightarrow> map_of (rb_map st') g = map_of (rb_map st) g \<and>
     map_of (payload_cache st') g = map_of (payload_cache st) g)"

text \<open>Accepting data at the expected sequence number and reading it.\<close>

lemma accept_and_read:
  assumes "ro_inv ro1" and "ro_contents ro1 = data" and "ro_room ro1 = 2047 - length data" and "length data \<le> 2047"
    and "map_of cache flow = entry_of acc"
  shows "\<exists>ro' cache'. read_payload ro1 (unat (ro_available ro1)) flow cache = Some (ro', cache') \<and> ro_inv ro' \<and>
    ro_contents ro' = [] \<and> ro_room ro' = 2047 \<and> tail_seq ro' = tail_seq ro1 \<and>
    map_of cache' = (map_of cache)(flow := entry_of (acc @ data))"
proof -
  have "unat (ro_available ro1) = length (ro_contents ro1)" by (simp add: ro_available_def ro_contents_def)
  with read_payload_spec [OF assms(1,5)] assms(2-4) show ?thesis by simp
qed

lemma tail_of_contents: "ro_inv ro \<Longrightarrow> tail_seq ro = head_seq ro + of_nat (length (ro_contents ro))"
  using ucast_available [of "ro_data ro"] by (simp add: ro_inv_def ro_available_def ro_contents_def del: rb_contents_length)

lemma known_flow_in_order:
  assumes t: "tracked flow (tcp_seq_num h) acc st" and len: "length data \<le> 2047"
  shows "\<exists>st1. tracked flow (tcp_seq_num h + of_nat (length data)) (acc @ data) st1 \<and> others_same flow st st1 \<and> printed st1 = printed st \<and>
    reconstruct flow h data st = Some (if rst_flag h then st1\<lparr>rb_map := AList.delete flow (rb_map st1)\<rparr>
      else if fin_flag h then (case map_of (payload_cache st1) flow of
            Some p \<Rightarrow> st1\<lparr>payload_cache := AList.delete flow (payload_cache st1), printed := printed st1 @ [Payload p],
              rb_map := AList.delete flow (rb_map st1)\<rparr>
          | None \<Rightarrow> st1\<lparr>printed := printed st1 @ [EmptyPayload flow], rb_map := AList.delete flow (rb_map st1)\<rparr>)
      else st1)"
proof -
  obtain ro where ro: "map_of (rb_map st) flow = Some ro" "ro_inv ro" "ro_contents ro = []" "ro_room ro = 2047" "tail_seq ro = tcp_seq_num h"
    and cache: "map_of (payload_cache st) flow = entry_of acc" using t by (auto simp: tracked_def)
  obtain ro1 where 1: "fast_path_insert ro data = Some (insertion_result (min (length data) (ro_room ro)) (length data) ro1, ro1)"
    "ro_inv ro1" "ro_contents ro1 = data" "ro_room ro1 = 2047 - length data" "head_seq ro1 = head_seq ro"
    using fast_path_keeps_inv [OF ro(2), of data] ro(3,4) len by auto
  have tail: "tail_seq ro1 = tcp_seq_num h + of_nat (length data)"
    using tail_of_contents [OF 1(2)] tail_of_contents [OF ro(2)] 1(3,5) ro(3,5) by simp
  have add: "add_data ro (tcp_seq_num h) data = Some (Inserted (length data) (ro_available ro1), ro1)"
    using 1(1) ro(2,4,5) len by (simp add: add_data_def ro_inv_def insertion_result_def)
  obtain ro2 cache' where 2: "read_payload ro1 (unat (ro_available ro1)) flow (payload_cache st) = Some (ro2, cache')" "ro_inv ro2"
    "ro_contents ro2 = []" "ro_room ro2 = 2047" "tail_seq ro2 = tail_seq ro1"
    "map_of cache' = (map_of (payload_cache st))(flow := entry_of (acc @ data))"
    using accept_and_read [OF 1(2-4) len cache] by blast
  let ?st = "st\<lparr>rb_map := AList.update flow ro2 (rb_map st), payload_cache := cache'\<rparr>"
  have "tracked flow (tcp_seq_num h + of_nat (length data)) (acc @ data) ?st" "others_same flow st ?st" "printed ?st = printed st"
    using 2 tail by (auto simp: tracked_def others_same_def update_conv')
  then show ?thesis by (intro exI [of _ ?st]) (simp add: reconstruct_def ro(1) known_flow_def add 2(1) Let_def)
qed

text \<open>A reset makes the function forget the buffer of a flow, but not its payload, which a new connection then continues.\<close>

lemma reset_keeps_payload:
  assumes "tracked flow (tcp_seq_num h) acc st" and "length data \<le> 2047" and "rst_flag h"
  shows "\<exists>st'. reconstruct flow h data st = Some st' \<and> map_of (rb_map st') flow = None \<and>
    map_of (payload_cache st') flow = entry_of (acc @ data)"
  using known_flow_in_order [OF assms(1,2)] assms(3) by (auto simp: tracked_def delete_conv')

lemma new_flow_in_order:
  assumes "map_of (rb_map st) flow = None" and "map_of (payload_cache st) flow = None" and "length data \<le> 2047"
    and "syn_flag h" and "tcp_seq_num h \<noteq> - 1"
  shows "\<exists>st1. reconstruct flow h data st = Some st1 \<and> tracked flow (tcp_seq_num h + 1 + of_nat (length data)) data st1 \<and>
    others_same flow st st1 \<and> printed st1 = printed st"
proof -
  have "0 < unat BUFFER_SIZE" "unat BUFFER_SIZE \<le> 2 ^ 63" and B: "unat BUFFER_SIZE = 2 ^ 11" by (simp_all add: BUFFER_SIZE_def)
  from new_with_segments_spec [OF this(1,2), of "BUFFER_SIZE div 64"] obtain k ro where
    ro: "unat BUFFER_SIZE \<le> 2 ^ k" "\<And>j. unat BUFFER_SIZE \<le> 2 ^ j \<Longrightarrow> k \<le> j"
      "ReorderedBuffer_new BUFFER_SIZE = Some (Inr ro)" "ro_state ro = Closed" "rb_inv (ro_data ro)" "ro_contents ro = []"
      "ro_room ro = 2 ^ k - 1" "sl_wf (segment_list ro) []"
    unfolding ReorderedBuffer_new_def by metis
  have "k \<le> 11" using ro(2) [of 11] B by simp
  moreover have "11 \<le> k" using power_le_imp_le_exp [of "2::nat" 11 k] ro(1) unfolding B by simp
  ultimately have room: "ro_room ro = 2047" using ro(7) by simp
  let ?seq = "tcp_seq_num h + 1"
  have add: "checked_add (tcp_seq_num h) 1 = Some ?seq"
  proof -
    have "unat (tcp_seq_num h) \<noteq> unat (- 1 :: u32)" using assms(5) by (metis unsigned_word_eqI)
    moreover have "unat (- 1 :: u32) = 2 ^ 32 - 1" by (simp add: unsigned_minus_1_eq_mask mask_eq_exp_minus_1)
    moreover have "unat (tcp_seq_num h) < 2 ^ 32" by (rule order_less_le_trans [OF unsigned_less]) simp
    ultimately show ?thesis by (simp add: checked_add_def)
  qed
  obtain ro1 where 1: "ro_seq ro ?seq data = Some (insertion_result (min (length data) (ro_room ro)) (length data) ro1, ro1)"
    "ro_inv ro1" "ro_contents ro1 = data" "ro_room ro1 = 2047 - length data" "head_seq ro1 = ?seq"
    using ro_seq_spec [OF ro(4,5,6,8), of ?seq data] room assms(3) by auto
  have "map_of (payload_cache st) flow = entry_of []" using assms(2) by (simp add: entry_of_def)
  from accept_and_read [OF 1(2-4) assms(3) this] obtain ro2 cache' where
    2: "read_payload ro1 (unat (ro_available ro1)) flow (payload_cache st) = Some (ro2, cache')" "ro_inv ro2"
    "ro_contents ro2 = []" "ro_room ro2 = 2047" "tail_seq ro2 = tail_seq ro1"
    "map_of cache' = (map_of (payload_cache st))(flow := entry_of data)" by auto
  let ?st = "st\<lparr>rb_map := AList.update flow ro2 (rb_map st), payload_cache := cache', printed := printed st @ []\<rparr>"
  have "tail_seq ro1 = ?seq + of_nat (length data)" using tail_of_contents [OF 1(2)] 1(3,5) by simp
  then have "tracked flow (?seq + of_nat (length data)) data ?st" "others_same flow st ?st"
    using 2 by (auto simp: tracked_def others_same_def update_conv')
  moreover have "reconstruct flow h data st = Some ?st"
    using assms(3,4) 1(1) 2(1) room by (simp add: reconstruct_def assms(1) new_flow_def ro(3) add insertion_result_def)
  ultimately show ?thesis by simp
qed

section \<open>Properties\<close>

text \<open>The segments of a flow after its first one: in order, none of them a reset, the last one with the FIN flag.\<close>

fun in_order :: "u32 \<Rightarrow> (TcpHeader \<times> u8 list) list \<Rightarrow> bool" where
  "in_order seq [] = True"
| "in_order seq ((h, data) # segs) = (tcp_seq_num h = seq \<and> \<not> rst_flag h \<and> (fin_flag h \<longleftrightarrow> segs = []) \<and> length data \<le> 2047 \<and>
     in_order (seq + of_nat (length data)) segs)"

lemma in_order_run:
  assumes "tracked flow seq acc st" and "in_order seq segs" and "segs \<noteq> []"
  shows "\<exists>st'. mfold (\<lambda>(h, data). reconstruct flow h data) segs st = Some st' \<and> others_same flow st st' \<and>
    map_of (rb_map st') flow = None \<and> map_of (payload_cache st') flow = None \<and>
    (let p = acc @ concat (map snd segs) in printed st' = printed st @ [if p = [] then EmptyPayload flow else Payload p])"
  using assms
proof (induction segs arbitrary: seq acc st)
  case (Cons seg segs)
  obtain h data where seg: "seg = (h, data)" by (rule prod.exhaust)
  have h: "tracked flow (tcp_seq_num h) acc st" "length data \<le> 2047" and rst: "\<not> rst_flag h"
    using Cons.prems by (simp_all add: seg)
  from known_flow_in_order [OF h] obtain st1 where
    1: "tracked flow (tcp_seq_num h + of_nat (length data)) (acc @ data) st1" "others_same flow st st1" "printed st1 = printed st"
    and run: "reconstruct flow h data st = Some (if rst_flag h then st1\<lparr>rb_map := AList.delete flow (rb_map st1)\<rparr>
      else if fin_flag h then (case map_of (payload_cache st1) flow of
            Some p \<Rightarrow> st1\<lparr>payload_cache := AList.delete flow (payload_cache st1), printed := printed st1 @ [Payload p],
              rb_map := AList.delete flow (rb_map st1)\<rparr>
          | None \<Rightarrow> st1\<lparr>printed := printed st1 @ [EmptyPayload flow], rb_map := AList.delete flow (rb_map st1)\<rparr>)
      else st1)" by blast
  show ?case
  proof (cases "segs = []")
    case True
    then have "fin_flag h" using Cons.prems(2) by (simp add: seg)
    moreover have "map_of (payload_cache st1) flow = entry_of (acc @ data)" using 1(1) by (simp add: tracked_def)
    ultimately show ?thesis
      using run rst 1(2,3) True by (cases "acc @ data = []") (auto simp: seg entry_of_def others_same_def delete_conv' Let_def)
  next
    case False
    then have "reconstruct flow h data st = Some st1" "in_order (tcp_seq_num h + of_nat (length data)) segs"
      using run rst Cons.prems(2) by (simp_all add: seg)
    with Cons.IH [OF 1(1) this(2) False] 1(2,3) show ?thesis by (auto simp: seg others_same_def Let_def)
  qed
qed simp

text \<open>
  C12: A TCP flow that arrives in order is printed as it was sent.  From a state that does not know the flow, its
  SYN segment, any segments that continue it (across the wrap-around of the sequence numbers as well) and a segment with
  FIN, each with up to 2047 bytes, run without a panic; the concatenation of their payloads is printed once, nothing else
  is printed, the flow is forgotten, and nothing changes for other flows.
\<close>
theorem reconstruction_prints_stream:
  assumes "map_of (rb_map st) flow = None" and "map_of (payload_cache st) flow = None"
    and "syn_flag h" and "tcp_seq_num h \<noteq> - 1" and "length data \<le> 2047"
    and "in_order (tcp_seq_num h + 1 + of_nat (length data)) segs" and "segs \<noteq> []"
  shows "\<exists>st'. mfold (\<lambda>(h, data). reconstruct flow h data) ((h, data) # segs) st = Some st' \<and>
    (let p = data @ concat (map snd segs) in printed st' = printed st @ [if p = [] then EmptyPayload flow else Payload p]) \<and>
    map_of (rb_map st') flow = None \<and> map_of (payload_cache st') flow = None \<and> others_same flow st st'"
proof -
  obtain st1 where 1: "reconstruct flow h data st = Some st1" "tracked flow (tcp_seq_num h + 1 + of_nat (length data)) data st1"
    "others_same flow st st1" "printed st1 = printed st"
    using new_flow_in_order [OF assms(1,2,5,3,4)] by blast
  from in_order_run [OF 1(2) assms(6,7)] obtain st' where "mfold (\<lambda>(h, data). reconstruct flow h data) segs st1 = Some st'"
    "others_same flow st1 st'" "map_of (rb_map st') flow = None" "map_of (payload_cache st') flow = None"
    "let p = data @ concat (map snd segs) in printed st' = printed st1 @ [if p = [] then EmptyPayload flow else Payload p]" by blast
  with 1 show ?thesis by (auto simp: others_same_def)
qed

theorem reconstruction_prints_stream_witness:
  "let flow = \<lparr>flow_src_ip = 1, flow_dst_ip = 9, flow_src_port = 80, flow_dst_port = 443, flow_proto = 6\<rparr>;
       h = (\<lambda>seq. tcp_set_seq_num TcpHeader_new seq)
   in \<exists>st'. mfold (\<lambda>(h, data). reconstruct flow h data)
       [(set_syn_flag (h (- 3)), []), (h (- 2), [7, 8, 9]), (set_fin_flag (h 1), [10])] \<lparr>rb_map = [], payload_cache = [], printed = []\<rparr> = Some st' \<and>
     printed st' = [Payload [7, 8, 9, 10]]"
proof -
  define flow :: Flow where "flow = \<lparr>flow_src_ip = 1, flow_dst_ip = 9, flow_src_port = 80, flow_dst_port = 443, flow_proto = 6\<rparr>"
  define h where "h = (\<lambda>seq. tcp_set_seq_num TcpHeader_new seq)"
  note tcp_witness = h_def tcp_set_seq_num_def tcp_seq_num_def set_syn_flag_def syn_flag_def set_fin_flag_def fin_flag_def rst_flag_def
    TcpHeader_new_def SYN_def FIN_def RST_def
  let ?st = "\<lparr>rb_map = [], payload_cache = [], printed = []\<rparr>"
  have 1: "map_of (rb_map ?st) flow = None" "map_of (payload_cache ?st) flow = None" by simp_all
  have 2: "syn_flag (set_syn_flag (h (- 3)))" "tcp_seq_num (set_syn_flag (h (- 3))) \<noteq> - 1" "length ([] :: u8 list) \<le> 2047"
    by (simp_all add: tcp_witness)
  have 3: "in_order (tcp_seq_num (set_syn_flag (h (- 3))) + 1 + of_nat (length ([] :: u8 list))) [(h (- 2), [7, 8, 9]), (set_fin_flag (h 1), [10])]"
    by (simp add: tcp_witness)
  from reconstruction_prints_stream [OF 1 2 3] show ?thesis
    unfolding Let_def flow_def [symmetric] h_def [symmetric] by auto
qed

end
