(* ===== verification/NB_Mempool.thy ===== *)
theory NB_Mempool
  imports NB_Batch
begin

text \<open>
  The packet pools of the native library, \<open>native/mempool.c\<close>, in the configuration it is compiled with (one
  pool per NUMA node): their initialisation, and the bulk allocator and bulk free that work on two mbufs at a time with
  vector instructions.  What DPDK provides is the record \<open>rte\<close>; its layout of an mbuf appears as two functions on the
  bytes that start at \<open>buf_len\<close>.
\<close>

section \<open>DPDK and the pools\<close>

record 'x rte =
  RTE_MAX_LCORE :: nat
  RTE_MAX_NUMA_NODES :: nat
  rte_socket_id :: nat
  rte_lcore_to_socket_id :: "nat \<Rightarrow> nat"
  sizeof_rte_mbuf :: nat
  rte_pktmbuf_priv_size :: "u64 \<Rightarrow> nat"
  info_bytes :: "MBuf \<Rightarrow> u64"
  store_info :: "MBuf \<Rightarrow> MBuf \<Rightarrow> MBuf"
  rte_mempool_get_bulk :: "u64 \<Rightarrow> nat \<Rightarrow> 'x world \<Rightarrow> int \<times> nat list \<times> 'x world"
  rte_mempool_put_bulk :: "u64 \<Rightarrow> nat list \<Rightarrow> 'x world \<Rightarrow> 'x world"
  rte_pktmbuf_alloc :: "u64 \<Rightarrow> 'x world \<Rightarrow> nat \<times> 'x world"
  rte_pktmbuf_free :: "nat \<Rightarrow> 'x world \<Rightarrow> 'x world"
  rte_mempools :: "u64 list"
  rte_mempool_size :: "u64 \<Rightarrow> nat"
  rte_mempool_lookup :: "string \<Rightarrow> u64"
  rte_pktmbuf_pool_create :: "nat \<Rightarrow> u32 \<Rightarrow> u32 \<Rightarrow> u16 \<Rightarrow> 'x world \<Rightarrow> u64 \<times> 'x world"

definition METADATA_SLOT_SIZE :: u16 where
  "METADATA_SLOT_SIZE = 8"

record pools =
  pframe_pool :: "u64 list"
  mbuf_template :: "MBuf option list"

definition current_pframe_pool :: "'x rte \<Rightarrow> pools \<Rightarrow> u64 option" where
  "current_pframe_pool D P = vec_get (pframe_pool P) (rte_socket_id D)"

definition current_template :: "'x rte \<Rightarrow> pools \<Rightarrow> MBuf option" where
  "current_template D P = vec_get (mbuf_template P) (rte_socket_id D) \<bind> id"

definition get_pframe_pool :: "pools \<Rightarrow> nat \<Rightarrow> nat \<Rightarrow> u64 option" where
  "get_pframe_pool P coreid sid = vec_get (pframe_pool P) sid"

definition get_mempool_for_core :: "'x rte \<Rightarrow> pools \<Rightarrow> nat \<Rightarrow> u64 option" where
  "get_mempool_for_core D P coreid = get_pframe_pool P coreid (rte_lcore_to_socket_id D coreid)"

text \<open>The pool is named after the node, which is all that its name is used for.\<close>

definition init_mempool_socket ::
  "'x rte \<Rightarrow> nat \<Rightarrow> u32 \<Rightarrow> u32 \<Rightarrow> u16 \<Rightarrow> pools \<Rightarrow> 'x world \<Rightarrow> (bool \<times> pools \<times> 'x world) option" where
  "init_mempool_socket D sid mempool_size mcache_size metadata_slots P w = (
     let (pl, w) = rte_pktmbuf_pool_create D sid mempool_size mcache_size (metadata_slots * METADATA_SLOT_SIZE) w in do {
       pp \<leftarrow> vec_set (pframe_pool P) sid pl;
       Some (pl \<noteq> 0, P\<lparr>pframe_pool := pp\<rparr>, w)
     })"

text \<open>The loop over the cores; \<open>False\<close> is the jump to \<open>fail\<close>.\<close>

fun init_mempool_loop :: "'x rte \<Rightarrow> u32 \<Rightarrow> u32 \<Rightarrow> u16 \<Rightarrow> nat list \<Rightarrow> bool list \<Rightarrow> pools \<Rightarrow> 'x world \<Rightarrow>
  (bool \<times> pools \<times> 'x world) option" where
  "init_mempool_loop D mempool_size mcache_size metadata_slots [] initialized P w = Some (True, P, w)"
| "init_mempool_loop D mempool_size mcache_size metadata_slots (i # is) initialized P w = (
     let sid = rte_lcore_to_socket_id D i in do {
       done_before \<leftarrow> vec_get initialized sid;
       if \<not> done_before then do {
         (ok, P, w) \<leftarrow> init_mempool_socket D sid mempool_size mcache_size metadata_slots P w;
         if \<not> ok then Some (False, P, w)
         else do {
           pl \<leftarrow> vec_get (pframe_pool P) sid;
           let (mbuf, w) = rte_pktmbuf_alloc D pl w;
           m \<leftarrow> deref (w_heap w) mbuf;
           tm \<leftarrow> vec_set (mbuf_template P) sid (Some m);
           let w = rte_pktmbuf_free D mbuf w;
           initialized \<leftarrow> vec_set initialized sid True;
           init_mempool_loop D mempool_size mcache_size metadata_slots is initialized (P\<lparr>mbuf_template := tm\<rparr>) w
         }
       } else init_mempool_loop D mempool_size mcache_size metadata_slots is initialized P w
     })"

definition ENOMEM :: int where
  "ENOMEM = 12"

definition init_mempool :: "'x rte \<Rightarrow> u32 \<Rightarrow> u32 \<Rightarrow> u16 \<Rightarrow> pools \<Rightarrow> 'x world \<Rightarrow> (int \<times> pools \<times> 'x world) option" where
  "init_mempool D mempool_size mcache_size metadata_slots P w = do {
     (ok, P, w) \<leftarrow> init_mempool_loop D mempool_size mcache_size metadata_slots [0..<RTE_MAX_LCORE D]
       (replicate (RTE_MAX_NUMA_NODES D) False) P w;
     Some (if ok then 0 else - ENOMEM, P, w)
   }"

text \<open>A secondary process takes over a pool of the primary one, on every node; \<open>rte_panic\<close> is \<open>None\<close>.\<close>

fun set_mempool_loop :: "'x rte \<Rightarrow> u64 \<Rightarrow> nat list \<Rightarrow> bool list \<Rightarrow> pools \<Rightarrow> 'x world \<Rightarrow> (pools \<times> 'x world) option" where
  "set_mempool_loop D mp [] initialized P w = Some (P, w)"
| "set_mempool_loop D mp (i # is) initialized P w = (
     let sid = rte_lcore_to_socket_id D i in do {
       done_before \<leftarrow> vec_get initialized sid;
       if \<not> done_before then do {
         pp \<leftarrow> vec_set (pframe_pool P) sid mp;
         let (mbuf, w) = rte_pktmbuf_alloc D mp w;
         m \<leftarrow> deref (w_heap w) mbuf;
         _ \<leftarrow> rust_assert (mb_next m = 0 \<and> pool m \<noteq> 0);
         tm \<leftarrow> vec_set (mbuf_template P) sid (Some m);
         let w = rte_pktmbuf_free D mbuf w;
         initialized \<leftarrow> vec_set initialized sid True;
         set_mempool_loop D mp is initialized (P\<lparr>pframe_pool := pp, mbuf_template := tm\<rparr>) w
       } else set_mempool_loop D mp is initialized P w
     })"

definition set_mempool :: "'x rte \<Rightarrow> u64 \<Rightarrow> pools \<Rightarrow> 'x world \<Rightarrow> (pools \<times> 'x world) option" where
  "set_mempool D mp P w = do {
     _ \<leftarrow> rust_assert (mp \<noteq> 0);
     set_mempool_loop D mp [0..<RTE_MAX_LCORE D] (replicate (RTE_MAX_NUMA_NODES D) False) P w
   }"

definition find_mempool_helper :: "'x rte \<Rightarrow> u64 \<Rightarrow> u64 \<Rightarrow> u64" where
  "find_mempool_helper D mp result =
     (if mp \<noteq> 0 \<and> (result = 0 \<or> rte_mempool_size D result < rte_mempool_size D mp) then mp else result)"

definition EINVAL :: int where
  "EINVAL = 22"

definition find_secondary_mempool :: "'x rte \<Rightarrow> pools \<Rightarrow> 'x world \<Rightarrow> (int \<times> pools \<times> 'x world) option" where
  "find_secondary_mempool D P w = (
     let mempool = fold (find_mempool_helper D) (rte_mempools D) 0 in
     if mempool = 0 then Some (- EINVAL, P, w)
     else do {
       (P, w) \<leftarrow> set_mempool D mempool P w;
       Some (0, P, w)
     })"

definition init_secondary_mempool :: "'x rte \<Rightarrow> string \<Rightarrow> pools \<Rightarrow> 'x world \<Rightarrow> (int \<times> pools \<times> 'x world) option" where
  "init_secondary_mempool D mempool_name P w = (
     let mempool = rte_mempool_lookup D mempool_name in
     if mempool = 0 then Some (- EINVAL, P, w)
     else do {
       (P, w) \<leftarrow> set_mempool D mempool P w;
       Some (0, P, w)
     })"

definition native_mbuf_alloc :: "'x rte \<Rightarrow> pools \<Rightarrow> 'x world \<Rightarrow> (nat \<times> 'x world) option" where
  "native_mbuf_alloc D P w = do {
     pl \<leftarrow> current_pframe_pool D P;
     Some (rte_pktmbuf_alloc D pl w)
   }"

definition native_mbuf_free :: "'x rte \<Rightarrow> nat \<Rightarrow> 'x world \<Rightarrow> 'x world" where
  "native_mbuf_free D buf w = rte_pktmbuf_free D buf w"

section \<open>Bulk allocation\<close>

text \<open>The two stores into one mbuf: the template from \<open>buf_len\<close> on, then the four words of \<open>rxdesc_fields\<close> from \<open>packet_type\<close> on.\<close>

definition init_mbuf :: "'x rte \<Rightarrow> MBuf \<Rightarrow> u16 \<Rightarrow> nat \<Rightarrow> heap \<Rightarrow> heap option" where
  "init_mbuf D tmpl len a h = do {
     m \<leftarrow> deref h a;
     let m = store_info D tmpl m;
     let m = m\<lparr>packet_type := 0, mb_pkt_len := ucast len, mb_data_len := len, vlan_tci := 0,
       mb_hash := mb_hash m AND NOT (mask 32)\<rparr>;
     Some (h(a \<mapsto> m))
   }"

definition init_pair :: "'x rte \<Rightarrow> MBuf \<Rightarrow> u16 \<Rightarrow> nat list \<Rightarrow> nat \<Rightarrow> heap \<Rightarrow> heap option" where
  "init_pair D tmpl len arr i h = do {
     mbuf0 \<leftarrow> vec_get arr i;
     mbuf1 \<leftarrow> vec_get arr (i + 1);
     h \<leftarrow> init_mbuf D tmpl len mbuf0 h;
     init_mbuf D tmpl len mbuf1 h
   }"

text \<open>
  The array has as many elements as the caller has room for.  The local variable \<open>tmp\<close> is an mbuf on the stack, given by its
  address and its contents; a store past the end of the array is outside the model (\<open>None\<close>).
\<close>

definition native_mbuf_alloc_bulk ::
  "'x rte \<Rightarrow> pools \<Rightarrow> nat \<times> MBuf \<Rightarrow> nat list \<Rightarrow> u16 \<Rightarrow> nat \<Rightarrow> 'x world \<Rightarrow> (int \<times> nat list \<times> 'x world) option" where
  "native_mbuf_alloc_bulk D P tmp arr len cnt w = do {
     pl \<leftarrow> current_pframe_pool D P;
     let (ret, ms, w) = rte_mempool_get_bulk D pl cnt w;
     if ret \<noteq> 0 then Some (ret, arr, w)
     else do {
       _ \<leftarrow> rust_assert (cnt \<le> length arr);
       let arr = take cnt ms @ drop cnt arr;
       tmpl \<leftarrow> current_template D P;
       arr \<leftarrow> (if odd cnt then vec_set arr cnt (fst tmp) else Some arr);
       h \<leftarrow> mfold (init_pair D tmpl len arr) (map (\<lambda>k. 2 * k) [0..<(cnt + 1) div 2]) ((w_heap w)(fst tmp \<mapsto> snd tmp));
       arr \<leftarrow> (if odd cnt then vec_set arr cnt 0 else Some arr);
       Some (0, arr, w\<lparr>w_heap := h(fst tmp := w_heap w (fst tmp))\<rparr>)
     }
   }"

section \<open>Bulk free\<close>

text \<open>One lane of the vector comparisons: the buffer is embedded in the mbuf, the masked bytes say a reference count and a number of segments of 1, and the pool is the expected one.\<close>

definition lane_ok :: "'x rte \<Rightarrow> u64 \<Rightarrow> nat \<Rightarrow> nat \<Rightarrow> MBuf \<Rightarrow> bool" where
  "lane_ok D pl priv a m \<longleftrightarrow> a + (sizeof_rte_mbuf D + priv) = buf_addr m \<and>
     info_bytes D m AND 0x00ffffff00000000 = 0x0001000100000000 \<and> pool m = pl"

definition pair_ok :: "'x rte \<Rightarrow> u64 \<Rightarrow> nat \<Rightarrow> nat list \<Rightarrow> heap \<Rightarrow> nat \<Rightarrow> bool option" where
  "pair_ok D pl priv arr h i = do {
     a0 \<leftarrow> vec_get arr i;
     a1 \<leftarrow> vec_get arr (i + 1);
     m0 \<leftarrow> deref h a0;
     m1 \<leftarrow> deref h a1;
     Some (lane_ok D pl priv a0 m0 \<and> lane_ok D pl priv a1 m1)
   }"

fun pairs_ok :: "'x rte \<Rightarrow> u64 \<Rightarrow> nat \<Rightarrow> nat list \<Rightarrow> heap \<Rightarrow> nat list \<Rightarrow> bool option" where
  "pairs_ok D pl priv arr h [] = Some True"
| "pairs_ok D pl priv arr h (i # is) = do {
     ok \<leftarrow> pair_ok D pl priv arr h i;
     if ok then pairs_ok D pl priv arr h is else Some False
   }"

definition last_ok :: "'x rte \<Rightarrow> u64 \<Rightarrow> nat list \<Rightarrow> heap \<Rightarrow> nat \<Rightarrow> bool option" where
  "last_ok D pl arr h i = do {
     a \<leftarrow> vec_get arr i;
     m \<leftarrow> deref h a;
     Some (pool m = pl \<and> mb_next m = 0 \<and> mb_refcnt m = 1 \<and> buf_addr m = a + sizeof_rte_mbuf D)
   }"

definition native_mbuf_free_bulk :: "'x rte \<Rightarrow> nat list \<Rightarrow> nat \<Rightarrow> 'x world \<Rightarrow> (int \<times> 'x world) option" where
  "native_mbuf_free_bulk D arr cnt w = do {
     a0 \<leftarrow> vec_get arr 0;
     m0 \<leftarrow> deref (w_heap w) a0;
     let pl = pool m0;
     let priv = rte_pktmbuf_priv_size D pl;
     fast \<leftarrow> pairs_ok D pl priv arr (w_heap w) (map (\<lambda>k. 2 * k) [0..<cnt div 2]);
     fast \<leftarrow> (if fast \<and> odd cnt then last_ok D pl arr (w_heap w) (cnt - 1) else Some fast);
     _ \<leftarrow> rust_assert (cnt \<le> length arr);
     if fast then Some (0, rte_mempool_put_bulk D pl (take cnt arr) w)
     else Some (0, fold (native_mbuf_free D) (take cnt arr) w)
   }"

section \<open>Every core gets a pool\<close>

definition core_served :: "'x rte \<Rightarrow> pools \<Rightarrow> nat \<Rightarrow> bool" where
  "core_served D P i \<longleftrightarrow> (\<exists>pl m. get_mempool_for_core D P i = Some pl \<and> pl \<noteq> 0 \<and>
     vec_get (mbuf_template P) (rte_lcore_to_socket_id D i) = Some (Some m))"

definition node_served :: "pools \<Rightarrow> nat \<Rightarrow> bool" where
  "node_served P sid \<longleftrightarrow> (\<exists>pl m. vec_get (pframe_pool P) sid = Some pl \<and> pl \<noteq> 0 \<and> vec_get (mbuf_template P) sid = Some (Some m))"

lemma core_served_node: "core_served D P i \<longleftrightarrow> node_served P (rte_lcore_to_socket_id D i)"
  by (simp add: core_served_def node_served_def get_mempool_for_core_def get_pframe_pool_def)

lemma vec_get_set: "vec_set xs i x = Some ys \<Longrightarrow> vec_get ys j = (if i = j then Some x else vec_get xs j)"
  by (auto simp: vec_set_def vec_get_def split: if_splits)

lemma node_served_set:
  assumes "vec_set (pframe_pool P) sid pl = Some pp" and "vec_set (mbuf_template P) sid (Some m) = Some tm" and "pl \<noteq> 0"
  shows "node_served (P\<lparr>pframe_pool := pp, mbuf_template := tm\<rparr>) s \<longleftrightarrow> s = sid \<or> node_served P s"
  using assms(3) by (auto simp: node_served_def vec_get_set [OF assms(1)] vec_get_set [OF assms(2)])

text \<open>The invariant of both loops: the nodes marked in \<open>initialized\<close> have a pool and a template.\<close>

definition marks_served :: "bool list \<Rightarrow> pools \<Rightarrow> bool" where
  "marks_served initialized P \<longleftrightarrow> (\<forall>s. vec_get initialized s = Some True \<longrightarrow> node_served P s)"

lemma marks_served_set:
  assumes "marks_served initialized P" and "vec_set initialized sid True = Some marks"
    and "vec_set (pframe_pool P) sid pl = Some pp" and "vec_set (mbuf_template P) sid (Some m) = Some tm" and "pl \<noteq> 0"
  shows "marks_served marks (P\<lparr>pframe_pool := pp, mbuf_template := tm\<rparr>)"
  using assms(1) unfolding marks_served_def vec_get_set [OF assms(2)] node_served_set [OF assms(3-5)] by auto

lemma init_mempool_loop_serves:
  assumes "init_mempool_loop D n c slots is initialized P w = Some (True, P', w')" and "marks_served initialized P"
  shows "(\<forall>s. node_served P s \<longrightarrow> node_served P' s) \<and> (\<forall>i\<in>set is. core_served D P' i)"
  using assms
proof (induction "is" arbitrary: initialized P w)
  case (Cons i "is")
  let ?sid = "rte_lcore_to_socket_id D i"
  obtain b where b: "vec_get initialized ?sid = Some b"
    using Cons.prems(1) by (auto simp: Let_def bind_eq_Some_conv)
  show ?case
  proof (cases b)
    case True
    with b Cons.prems have "init_mempool_loop D n c slots is initialized P w = Some (True, P', w')" by simp
    from Cons.IH [OF this Cons.prems(2)] b True Cons.prems(2) show ?thesis
      by (auto simp: marks_served_def core_served_node)
  next
    case False
    obtain pl w1 where c: "rte_pktmbuf_pool_create D ?sid n c (slots * METADATA_SLOT_SIZE) w = (pl, w1)" by fastforce
    obtain pp mbuf w2 m tm marks where s: "vec_set (pframe_pool P) ?sid pl = Some pp" "pl \<noteq> 0"
        "vec_set (mbuf_template P) ?sid (Some m) = Some tm" "vec_set initialized ?sid True = Some marks"
      and rest: "init_mempool_loop D n c slots is marks (P\<lparr>pframe_pool := pp, mbuf_template := tm\<rparr>)
        (rte_pktmbuf_free D mbuf w2) = Some (True, P', w')"
      using Cons.prems(1) b False
      by (auto simp: Let_def bind_eq_Some_conv init_mempool_socket_def c vec_get_set split: if_splits prod.splits)
    from Cons.IH [OF rest marks_served_set [OF Cons.prems(2) s(4,1,3,2)]] show ?thesis
      by (auto simp: node_served_set [OF s(1,3,2)] core_served_node)
  qed
qed simp

lemma set_mempool_loop_serves:
  assumes "set_mempool_loop D mp is initialized P w = Some (P', w')" and "marks_served initialized P" and "mp \<noteq> 0"
  shows "(\<forall>s. node_served P s \<longrightarrow> node_served P' s) \<and> (\<forall>i\<in>set is. core_served D P' i)"
  using assms(1,2)
proof (induction "is" arbitrary: initialized P w)
  case (Cons i "is")
  let ?sid = "rte_lcore_to_socket_id D i"
  obtain b where b: "vec_get initialized ?sid = Some b"
    using Cons.prems(1) by (auto simp: Let_def bind_eq_Some_conv)
  show ?case
  proof (cases b)
    case True
    with b Cons.prems have "set_mempool_loop D mp is initialized P w = Some (P', w')" by simp
    from Cons.IH [OF this Cons.prems(2)] b True Cons.prems(2) show ?thesis
      by (auto simp: marks_served_def core_served_node)
  next
    case False
    obtain mbuf w2 where al: "rte_pktmbuf_alloc D mp w = (mbuf, w2)" by fastforce
    obtain pp m tm marks where s: "vec_set (pframe_pool P) ?sid mp = Some pp"
        "vec_set (mbuf_template P) ?sid (Some m) = Some tm" "vec_set initialized ?sid True = Some marks"
      and rest: "set_mempool_loop D mp is marks (P\<lparr>pframe_pool := pp, mbuf_template := tm\<rparr>)
        (rte_pktmbuf_free D mbuf w2) = Some (P', w')"
      using Cons.prems(1) b False by (auto simp: Let_def al bind_eq_Some_conv split: if_splits)
    from Cons.IH [OF rest marks_served_set [OF Cons.prems(2) s(3,1,2) assms(3)]] show ?thesis
      by (auto simp: node_served_set [OF s(1,2) assms(3)] core_served_node)
  qed
qed simp

lemma no_marks_served: "marks_served (replicate n False) P"
  by (auto simp: marks_served_def vec_get_def split: if_splits)

text \<open>Whichever way the pools are set up, success means that every core finds a pool and a template on its node.\<close>

lemma init_mempool_serves_cores:
  assumes "init_mempool D n c slots P w = Some (0, P', w')" and "i < RTE_MAX_LCORE D"
  shows "core_served D P' i"
proof -
  have "init_mempool_loop D n c slots [0..<RTE_MAX_LCORE D] (replicate (RTE_MAX_NUMA_NODES D) False) P w = Some (True, P', w')"
    using assms(1) by (auto simp: init_mempool_def bind_eq_Some_conv ENOMEM_def split: if_splits)
  from init_mempool_loop_serves [OF this no_marks_served] assms(2) show ?thesis by simp
qed

lemma set_mempool_serves_cores:
  assumes "set_mempool D mp P w = Some (P', w')" and "i < RTE_MAX_LCORE D"
  shows "core_served D P' i"
proof -
  have mp: "mp \<noteq> 0" and "set_mempool_loop D mp [0..<RTE_MAX_LCORE D] (replicate (RTE_MAX_NUMA_NODES D) False) P w = Some (P', w')"
    using assms(1) by (auto simp: set_mempool_def split: if_splits)
  from set_mempool_loop_serves [OF this(2) no_marks_served mp] assms(2) show ?thesis by simp
qed

lemma find_mempool_chosen:
  assumes "r = 0 \<or> r \<in> set seen" and "\<forall>q\<in>set seen. q \<noteq> 0 \<longrightarrow> r \<noteq> 0 \<and> rte_mempool_size D q \<le> rte_mempool_size D r"
  shows "let r' = fold (find_mempool_helper D) ps r in (r' = 0 \<or> r' \<in> set (seen @ ps)) \<and>
    (\<forall>q\<in>set (seen @ ps). q \<noteq> 0 \<longrightarrow> r' \<noteq> 0 \<and> rte_mempool_size D q \<le> rte_mempool_size D r')"
  using assms
proof (induction ps arbitrary: r seen)
  case (Cons p ps)
  have "let r' = fold (find_mempool_helper D) ps (find_mempool_helper D p r) in
    (r' = 0 \<or> r' \<in> set ((seen @ [p]) @ ps)) \<and>
    (\<forall>q\<in>set ((seen @ [p]) @ ps). q \<noteq> 0 \<longrightarrow> r' \<noteq> 0 \<and> rte_mempool_size D q \<le> rte_mempool_size D r')"
  proof (rule Cons.IH)
    show "find_mempool_helper D p r = 0 \<or> find_mempool_helper D p r \<in> set (seen @ [p])"
      using Cons.prems(1) by (auto simp: find_mempool_helper_def)
    show "\<forall>q\<in>set (seen @ [p]). q \<noteq> 0 \<longrightarrow> find_mempool_helper D p r \<noteq> 0 \<and>
        rte_mempool_size D q \<le> rte_mempool_size D (find_mempool_helper D p r)"
    proof (intro ballI impI)
      fix q assume "q \<in> set (seen @ [p])" "q \<noteq> 0"
      then consider "q = p" | "r \<noteq> 0" "rte_mempool_size D q \<le> rte_mempool_size D r" using Cons.prems(2) by auto
      then show "find_mempool_helper D p r \<noteq> 0 \<and> rte_mempool_size D q \<le> rte_mempool_size D (find_mempool_helper D p r)"
        using \<open>q \<noteq> 0\<close> by cases (auto simp: find_mempool_helper_def)
    qed
  qed
  then show ?case by simp
qed simp

text \<open>A secondary process takes a largest pool, and fails only when there is none.\<close>

lemma find_secondary_mempool_largest:
  assumes "find_secondary_mempool D P w = Some (ret, P', w')"
  shows "(ret = - EINVAL \<and> P' = P \<and> w' = w \<and> (\<forall>q\<in>set (rte_mempools D). q = 0)) \<or>
    (ret = 0 \<and> (\<exists>mp\<in>set (rte_mempools D). set_mempool D mp P w = Some (P', w') \<and>
      (\<forall>q\<in>set (rte_mempools D). q \<noteq> 0 \<longrightarrow> rte_mempool_size D q \<le> rte_mempool_size D mp)))"
  using assms find_mempool_chosen [of 0 "[]" D "rte_mempools D"]
  by (auto simp: find_secondary_mempool_def Let_def bind_eq_Some_conv split: if_splits)

section \<open>Bulk allocation initialises every mbuf\<close>

definition allocated_mbuf :: "'x rte \<Rightarrow> MBuf \<Rightarrow> u16 \<Rightarrow> MBuf \<Rightarrow> MBuf" where
  "allocated_mbuf D tmpl len m = (store_info D tmpl m)\<lparr>packet_type := 0, mb_pkt_len := ucast len, mb_data_len := len,
     vlan_tci := 0, mb_hash := mb_hash (store_info D tmpl m) AND NOT (mask 32)\<rparr>"

definition allocated_mbufs :: "'x rte \<Rightarrow> MBuf \<Rightarrow> u16 \<Rightarrow> nat list \<Rightarrow> heap \<Rightarrow> heap" where
  "allocated_mbufs D tmpl len as h = (\<lambda>a. if a \<in> set as then map_option (allocated_mbuf D tmpl len) (h a) else h a)"

lemma mfold_fun: "mfold f [] = Some" "mfold f (x # xs) = (\<lambda>s. f x s \<bind> mfold f xs)"
  by (simp_all add: fun_eq_iff)

lemma init_pairs_mfold:
  assumes "2 * n \<le> length arr"
  shows "mfold (init_pair D tmpl len arr) (map (\<lambda>k. 2 * k) [0..<n]) h = mfold (init_mbuf D tmpl len) (take (2 * n) arr) h"
  using assms
proof (induction n)
  case (Suc n)
  have "take (2 * Suc n) arr = take (2 * n) arr @ [arr ! (2 * n), arr ! (2 * n + 1)]"
    using Suc.prems by (simp add: take_Suc_conv_app_nth)
  moreover have "mfold (init_pair D tmpl len arr) [2 * n] = mfold (init_mbuf D tmpl len) [arr ! (2 * n), arr ! (2 * n + 1)]"
    using Suc.prems by (simp add: mfold_fun init_pair_def vec_get_def del: mfold.simps)
  ultimately show ?case using Suc by (simp add: mfold_append)
qed simp

text \<open>A loop that updates each of a list of distinct mbufs updates all of them and nothing else.\<close>

lemma mfold_updates:
  assumes step: "\<And>a h m. deref h a = Some m \<Longrightarrow> ok m \<Longrightarrow> f a h = Some (h(a \<mapsto> g m))"
    and "distinct as" and "\<forall>a\<in>set as. \<exists>m. deref h a = Some m \<and> ok m"
  shows "mfold f as h = Some (\<lambda>a. if a \<in> set as then map_option g (h a) else h a)"
  using assms(2,3)
proof (induction as arbitrary: h)
  case (Cons a as)
  obtain m where m: "deref h a = Some m" "ok m" using Cons.prems(2) by auto
  have ha: "h a = Some m" using m(1) by (simp add: deref_def split: if_splits)
  have "\<forall>b\<in>set as. \<exists>m'. deref (h(a \<mapsto> g m)) b = Some m' \<and> ok m'"
    using Cons.prems by (auto simp: deref_def split: if_splits)
  then have IH: "mfold f as (h(a \<mapsto> g m)) = Some (\<lambda>b. if b \<in> set as then map_option g ((h(a \<mapsto> g m)) b) else (h(a \<mapsto> g m)) b)"
    using Cons.prems(1) Cons.IH [of "h(a \<mapsto> g m)"] unfolding distinct.simps by blast
  have "(\<lambda>b. if b \<in> set as then map_option g ((h(a \<mapsto> g m)) b) else (h(a \<mapsto> g m)) b) =
      (\<lambda>b. if b \<in> set (a # as) then map_option g (h b) else h b)"
    using Cons.prems(1) ha by auto
  with IH show ?case by (simp add: step [OF m])
qed simp

lemma init_mbufs:
  assumes "distinct as" and "\<forall>a\<in>set as. deref h a \<noteq> None"
  shows "mfold (init_mbuf D tmpl len) as h = Some (allocated_mbufs D tmpl len as h)"
  unfolding allocated_mbufs_def
  by (rule mfold_updates [where ok = "\<lambda>_. True"])
    (use assms in \<open>auto simp: init_mbuf_def allocated_mbuf_def Let_def\<close>)

text \<open>
  With room for an even number of mbufs in the array, every allocated mbuf gets the template and the length, and nothing
  else in memory changes; \<open>tmp\<close> absorbs the second half of the last pair.
\<close>

lemma mbuf_alloc_bulk_initialises:
  assumes pools: "current_pframe_pool D P = Some pl" "current_template D P = Some tmpl"
    and get: "rte_mempool_get_bulk D pl cnt w = (0, ms, w1)" "length ms = cnt" "distinct ms" "\<forall>a\<in>set ms. deref (w_heap w1) a \<noteq> None"
    and tmp: "t \<noteq> 0" "t \<notin> set ms" and room: "cnt + cnt mod 2 \<le> length arr"
  shows "native_mbuf_alloc_bulk D P (t, mt) arr len cnt w =
    Some (0, ms @ drop cnt (if odd cnt then arr[cnt := 0] else arr), w1\<lparr>w_heap := allocated_mbufs D tmpl len ms (w_heap w1)\<rparr>)"
proof -
  let ?h = "(w_heap w1)(t \<mapsto> mt)"
  let ?as = "if odd cnt then ms @ [t] else ms"
  let ?arr = "if odd cnt then (ms @ drop cnt arr)[cnt := t] else ms @ drop cnt arr"
  have n: "2 * ((cnt + 1) div 2) = cnt + cnt mod 2" by presburger
  have "take (2 * ((cnt + 1) div 2)) ?arr = ?as"
    unfolding n using room get(2) by (cases "drop cnt arr") (auto simp: list_update_append odd_iff_mod_2_eq_one)
  moreover have "mfold (init_mbuf D tmpl len) ?as ?h = Some (allocated_mbufs D tmpl len ?as ?h)"
    using get(3,4) tmp by (intro init_mbufs) (auto simp: deref_def split: if_splits)
  ultimately have "mfold (init_pair D tmpl len ?arr) (map (\<lambda>k. 2 * k) [0..<(cnt + 1) div 2]) ?h = Some (allocated_mbufs D tmpl len ?as ?h)"
    using room get(2) by (subst init_pairs_mfold) (auto simp: n odd_iff_mod_2_eq_one)
  moreover have "(allocated_mbufs D tmpl len ?as ?h)(t := w_heap w1 t) = allocated_mbufs D tmpl len ms (w_heap w1)"
    using tmp by (auto simp: allocated_mbufs_def fun_eq_iff)
  ultimately show ?thesis
    using room get(2) pools get(1)
    by (cases "odd cnt") (auto simp: native_mbuf_alloc_bulk_def Let_def vec_set_def list_update_append drop_update_swap odd_iff_mod_2_eq_one)
qed

text \<open>The callers pass an array of exactly \<open>cnt\<close> elements: for an odd count the extra pointer lands past its end.\<close>

lemma mbuf_alloc_bulk_overruns:
  assumes "current_pframe_pool D P = Some pl" and "rte_mempool_get_bulk D pl cnt w = (0, ms, w1)" and "length ms = cnt"
    and "length arr = cnt" and "odd cnt"
  shows "native_mbuf_alloc_bulk D P tmp arr len cnt w = None"
  using assms by (simp add: native_mbuf_alloc_bulk_def vec_set_def Let_def)

section \<open>Bulk free frees every mbuf\<close>

text \<open>
  What the fast path relies on.  Freeing an unshared, single-segment mbuf whose buffer is embedded returns it to its pool
  and changes no mbuf; and returning objects in one call is returning them one after the other.
\<close>

definition embedded :: "'x rte \<Rightarrow> nat \<Rightarrow> MBuf \<Rightarrow> bool" where
  "embedded D a m \<longleftrightarrow> buf_addr m = a + (sizeof_rte_mbuf D + rte_pktmbuf_priv_size D (pool m))"

definition frees_to_pool :: "'x rte \<Rightarrow> bool" where
  "frees_to_pool D \<longleftrightarrow> (\<forall>w a m. deref (w_heap w) a = Some m \<and> embedded D a m \<and> mb_refcnt m = 1 \<and> (nb_segs m = 1 \<or> mb_next m = 0) \<longrightarrow>
     rte_pktmbuf_free D a w = rte_mempool_put_bulk D (pool m) [a] w)"

definition puts_in_turn :: "'x rte \<Rightarrow> bool" where
  "puts_in_turn D \<longleftrightarrow> (\<forall>pl w. rte_mempool_put_bulk D pl [] w = w) \<and>
     (\<forall>pl a as w. rte_mempool_put_bulk D pl (a # as) w = rte_mempool_put_bulk D pl as (rte_mempool_put_bulk D pl [a] w)) \<and>
     (\<forall>pl as w. w_heap (rte_mempool_put_bulk D pl as w) = w_heap w)"

text \<open>
  The masked bytes that start at \<open>buf_len\<close> are meant to say that an mbuf is unshared and has one segment, as they do in the mbuf
  layout of DPDK 2.1, which the code names.  In the layout of the version it is built with they are bytes of the time stamp, so that this is
  a condition on an mbuf, true in particular when its time stamp does not happen to have the expected bytes.
\<close>

definition info_honest :: "'x rte \<Rightarrow> MBuf \<Rightarrow> bool" where
  "info_honest D m \<longleftrightarrow> (info_bytes D m AND 0x00ffffff00000000 = 0x0001000100000000 \<longrightarrow> mb_refcnt m = 1 \<and> nb_segs m = 1)"

definition simple_mbuf :: "'x rte \<Rightarrow> u64 \<Rightarrow> heap \<Rightarrow> nat \<Rightarrow> bool" where
  "simple_mbuf D pl h a \<longleftrightarrow> (\<exists>m. deref h a = Some m \<and> pool m = pl \<and> embedded D a m \<and> mb_refcnt m = 1 \<and> (nb_segs m = 1 \<or> mb_next m = 0))"

lemma free_simple:
  assumes "frees_to_pool D" and "puts_in_turn D" and "\<forall>a\<in>set as. simple_mbuf D pl (w_heap w) a"
  shows "fold (native_mbuf_free D) as w = rte_mempool_put_bulk D pl as w"
  using assms(3)
proof (induction as arbitrary: w)
  case Nil
  from assms(2) have "rte_mempool_put_bulk D pl [] w = w" unfolding puts_in_turn_def by blast
  then show ?case by simp
next
  case (Cons a as)
  have "native_mbuf_free D a w = rte_mempool_put_bulk D pl [a] w"
    using Cons.prems assms(1) by (auto simp: native_mbuf_free_def frees_to_pool_def simple_mbuf_def)
  moreover have "w_heap (rte_mempool_put_bulk D pl [a] w) = w_heap w" using assms(2) unfolding puts_in_turn_def by blast
  moreover have "rte_mempool_put_bulk D pl (a # as) w = rte_mempool_put_bulk D pl as (rte_mempool_put_bulk D pl [a] w)"
    using assms(2) unfolding puts_in_turn_def by blast
  ultimately show ?case using Cons by simp
qed

lemma lane_simple:
  assumes "info_honest D m" and "lane_ok D pl (rte_pktmbuf_priv_size D pl) a m" and "deref h a = Some m"
  shows "simple_mbuf D pl h a"
  using assms by (auto simp: info_honest_def simple_mbuf_def lane_ok_def embedded_def)

lemma pairs_ok_simple:
  assumes "\<forall>i m. i < cnt \<longrightarrow> deref h (arr ! i) = Some m \<longrightarrow> info_honest D m" and "\<forall>i\<in>set is. Suc i < cnt"
    and "pairs_ok D pl (rte_pktmbuf_priv_size D pl) arr h is = Some True" and "i \<in> set is"
  shows "simple_mbuf D pl h (arr ! i) \<and> simple_mbuf D pl h (arr ! Suc i)"
proof -
  have lane: "simple_mbuf D pl h (arr ! i)"
    if "i < cnt" "lane_ok D pl (rte_pktmbuf_priv_size D pl) (arr ! i) m" "deref h (arr ! i) = Some m" for i m
    using assms(1) that by (blast intro: lane_simple)
  show ?thesis
    using assms(2-4)
    by (induction "is") (auto simp: bind_eq_Some_conv pair_ok_def vec_get_def intro: lane [OF Suc_lessD] lane split: if_splits)
qed

lemma pairs_ok_total:
  assumes "\<And>i. i < cnt \<Longrightarrow> deref h (arr ! i) \<noteq> None" and "cnt \<le> length arr"
  shows "\<exists>b. pairs_ok D pl priv arr h (map (\<lambda>k. 2 * k) [0..<cnt div 2]) = Some b"
proof -
  have total: "\<exists>b. pairs_ok D pl priv arr h is = Some b" if "\<forall>i\<in>set is. Suc i < cnt" for "is"
    using that
  proof (induction "is")
    case (Cons i "is")
    obtain m0 m1 where "deref h (arr ! i) = Some m0" "deref h (arr ! Suc i) = Some m1"
      using Cons.prems assms(1) [of i] assms(1) [of "Suc i"] by auto
    with Cons assms(2) show ?case by (auto simp: pair_ok_def vec_get_def)
  qed (rule exI [of _ True], simp)
  show ?thesis by (rule total) auto
qed

lemma free_bulk_lanes:
  assumes info: "\<forall>i m. i < cnt \<longrightarrow> deref h (arr ! i) = Some m \<longrightarrow> info_honest D m" and pairs: "pairs_ok D pl (rte_pktmbuf_priv_size D pl) arr h (map (\<lambda>k. 2 * k) [0..<cnt div 2]) = Some True"
    and last: "odd cnt \<Longrightarrow> simple_mbuf D pl h (arr ! (cnt - 1))" and i: "i < cnt"
  shows "simple_mbuf D pl h (arr ! i)"
proof (cases "odd cnt \<and> i = cnt - 1")
  case False
  then have "i div 2 < cnt div 2" using i by presburger
  then have "2 * (i div 2) \<in> set (map (\<lambda>k. 2 * k) [0..<cnt div 2])" by simp
  moreover have "\<forall>i\<in>set (map (\<lambda>k. 2 * k) [0..<cnt div 2]). Suc i < cnt" by auto
  ultimately have "simple_mbuf D pl h (arr ! (2 * (i div 2))) \<and> simple_mbuf D pl h (arr ! Suc (2 * (i div 2)))"
    using pairs_ok_simple [OF info _ pairs] by blast
  then show ?thesis by (cases "even i") auto
qed (use last in simp)

text \<open>
  C13: The bulk free, with its vectorised checks on two mbufs at a time, is the loop that frees the mbufs one by one: on an
  array of live mbufs, mixed pools, shared or chained mbufs and odd counts included, it returns 0 and leaves exactly the state
  that freeing each mbuf in turn leaves.  The hypotheses are what DPDK documents of a free and of a bulk return to a
  pool; and of each mbuf of the array, that its information bytes do not show the mark of an unshared mbuf of one segment
  when it is not one, and that its buffer lies directly behind it only if its pool has no private area.
\<close>

theorem mbuf_free_bulk_frees_each:
  assumes dpdk: "frees_to_pool D" "puts_in_turn D"
    and arr: "0 < cnt" "cnt \<le> length arr" "\<forall>a\<in>set (take cnt arr). \<exists>m. deref (w_heap w) a = Some m \<and> info_honest D m \<and>
      (buf_addr m = a + sizeof_rte_mbuf D \<longrightarrow> rte_pktmbuf_priv_size D (pool m) = 0)"
  shows "native_mbuf_free_bulk D arr cnt w = Some (0, fold (rte_pktmbuf_free D) (take cnt arr) w)"
proof -
  let ?h = "w_heap w" and ?is = "map (\<lambda>k. 2 * k) [0..<cnt div 2]"
  have at: "\<exists>m. deref ?h (arr ! i) = Some m \<and> info_honest D m \<and> (buf_addr m = arr ! i + sizeof_rte_mbuf D \<longrightarrow> rte_pktmbuf_priv_size D (pool m) = 0)"
    if "i < cnt" for i
  proof -
    have "arr ! i \<in> set (take cnt arr)" using that arr(2) by (auto simp: in_set_conv_nth)
    with arr(3) show ?thesis by (rule bspec)
  qed
  obtain m0 where m0: "deref ?h (arr ! 0) = Some m0" using at [OF arr(1)] by blast
  let ?pl = "pool m0"
  have live: "deref ?h (arr ! i) \<noteq> None" if "i < cnt" for i using at [OF that] by auto
  obtain f where f: "pairs_ok D ?pl (rte_pktmbuf_priv_size D ?pl) arr ?h ?is = Some f"
    using pairs_ok_total [OF live arr(2)] by blast
  obtain ml where ml: "deref ?h (arr ! (cnt - 1)) = Some ml"
      "buf_addr ml = arr ! (cnt - 1) + sizeof_rte_mbuf D \<longrightarrow> rte_pktmbuf_priv_size D (pool ml) = 0"
    using at [of "cnt - 1"] arr(1) by auto
  define l where "l \<longleftrightarrow> pool ml = ?pl \<and> mb_next ml = 0 \<and> mb_refcnt ml = 1 \<and> buf_addr ml = arr ! (cnt - 1) + sizeof_rte_mbuf D"
  have last: "last_ok D ?pl arr ?h (cnt - 1) = Some l"
    using arr(1,2) ml(1) by (simp add: last_ok_def vec_get_def l_def)
  have "simple_mbuf D ?pl ?h (arr ! i)" if "f" "odd cnt \<longrightarrow> l" "i < cnt" for i
  proof (rule free_bulk_lanes [OF _ _ _ that(3)])
    show "\<forall>i m. i < cnt \<longrightarrow> deref ?h (arr ! i) = Some m \<longrightarrow> info_honest D m" using at by fastforce
    show "pairs_ok D ?pl (rte_pktmbuf_priv_size D ?pl) arr ?h ?is = Some True" using f that(1) by simp
    show "simple_mbuf D ?pl ?h (arr ! (cnt - 1))" if "odd cnt"
      using ml \<open>odd cnt \<longrightarrow> l\<close> that by (auto simp: l_def simple_mbuf_def embedded_def)
  qed
  then have "fold (native_mbuf_free D) (take cnt arr) w = rte_mempool_put_bulk D ?pl (take cnt arr) w" if "f" "odd cnt \<longrightarrow> l"
    using that arr(2) by (intro free_simple [OF dpdk(1,2)]) (auto simp: in_set_conv_nth)
  moreover have "native_mbuf_free D = rte_pktmbuf_free D" by (simp add: native_mbuf_free_def fun_eq_iff)
  ultimately show ?thesis
    using arr(1,2) m0 f last by (auto simp: native_mbuf_free_bulk_def vec_get_def Let_def)
qed

definition example_mbuf :: "nat \<Rightarrow> MBuf" where
  "example_mbuf a = \<lparr>buf_addr = a + 136, phys_addr = 0, data_off = 128, mb_refcnt = 1, nb_segs = 1, mb_port = 0, ol_flags = 0,
     packet_type = 0, mb_pkt_len = 0, mb_data_len = 0, vlan_tci = 0, mb_hash = 0, vlan_tci_outer = 0, mb_buf_len = 2176,
     timestamp = 0, userdata = 0, pool = 7, mb_next = 0, tx_offload = 0, priv_size = 8, timesync = 0, seqn = 0, mb_buf = [], mb_meta = []\<rparr>"

text \<open>
  A DPDK whose external state is the list of the mbufs returned to a pool: the free of a shared mbuf only gives up a reference.
  The time stamp follows the buffer length.
\<close>

definition example_rte :: "nat list rte" where
  "example_rte = \<lparr>RTE_MAX_LCORE = 1, RTE_MAX_NUMA_NODES = 1, rte_socket_id = 0, rte_lcore_to_socket_id = (\<lambda>_. 0),
     sizeof_rte_mbuf = 128, rte_pktmbuf_priv_size = (\<lambda>_. 8),
     info_bytes = (\<lambda>m. ucast (mb_buf_len m) OR push_bit 16 (timestamp m)),
     store_info = (\<lambda>t m. m\<lparr>mb_buf_len := mb_buf_len t, timestamp := timestamp t\<rparr>),
     rte_mempool_get_bulk = (\<lambda>_ n w. (- ENOMEM, [], w)),
     rte_mempool_put_bulk = (\<lambda>_ as w. w\<lparr>w_ext := w_ext w @ as\<rparr>),
     rte_pktmbuf_alloc = (\<lambda>_ w. (0, w)),
     rte_pktmbuf_free = (\<lambda>a w. case deref (w_heap w) a of None \<Rightarrow> w
       | Some m \<Rightarrow> if mb_refcnt m = 1 then w\<lparr>w_ext := w_ext w @ [a]\<rparr>
                  else w\<lparr>w_heap := (w_heap w)(a \<mapsto> m\<lparr>mb_refcnt := mb_refcnt m - 1\<rparr>)\<rparr>),
     rte_mempools = [7], rte_mempool_size = (\<lambda>_. 2047), rte_mempool_lookup = (\<lambda>_. 7),
     rte_pktmbuf_pool_create = (\<lambda>_ _ _ _ w. (7, w))\<rparr>"

lemma example_rte_laws: "frees_to_pool example_rte" "puts_in_turn example_rte"
  by (simp_all add: frees_to_pool_def puts_in_turn_def example_rte_def)

definition example_free_world :: "nat list world" where
  "example_free_world = \<lparr>w_heap = (\<lambda>a. if a = 1000 \<or> a = 5000 then Some (example_mbuf a) else
     if a = 9000 then Some ((example_mbuf a)\<lparr>mb_refcnt := 2\<rparr>) else None), w_queues = [], w_ext = []\<rparr>"

theorem mbuf_free_bulk_frees_each_witness:
  "native_mbuf_free_bulk example_rte [1000, 5000, 9000] 3 example_free_world =
     Some (0, example_free_world\<lparr>w_heap := (w_heap example_free_world)(9000 \<mapsto> example_mbuf 9000), w_ext := [1000, 5000]\<rparr>)"
proof -
  have "native_mbuf_free_bulk example_rte [1000, 5000, 9000] 3 example_free_world =
      Some (0, fold (rte_pktmbuf_free example_rte) (take 3 [1000, 5000, 9000]) example_free_world)"
    by (rule mbuf_free_bulk_frees_each [OF example_rte_laws])
      (simp_all add: example_free_world_def deref_def example_mbuf_def example_rte_def info_honest_def)
  also have "fold (rte_pktmbuf_free example_rte) (take 3 [1000, 5000, 9000]) example_free_world =
      example_free_world\<lparr>w_heap := (w_heap example_free_world)(9000 \<mapsto> example_mbuf 9000), w_ext := [1000, 5000]\<rparr>"
    by (simp add: example_free_world_def deref_def example_mbuf_def example_rte_def)
  finally show ?thesis .
qed

end
