(* ===== verification/NB_Pmd.thy ===== *)
theory NB_Pmd
  imports NB_Mempool NB_Config
begin

text \<open>
  The rest of the native library: starting DPDK and its threads (\<open>native/init.c\<close>), setting up the ports
  of the poll mode drivers (\<open>native/pmd.c\<close>) and the packet helpers (\<open>native/ethpacket.c\<close>).  DPDK and
  the operating system are the records \<open>eal\<close> and \<open>pmd\<close>; behaviour that C leaves undefined is \<open>None\<close>.
\<close>

section \<open>Starting DPDK\<close>

record 'x eal =
  node_possible :: "nat option"
  numa_available :: int
  numa_bind :: "nat \<Rightarrow> 'x world \<Rightarrow> 'x world"
  rte_eal_init :: "string list \<Rightarrow> 'x world \<Rightarrow> int \<times> 'x world"
  is_secondary_process :: "'x world \<Rightarrow> bool"
  rte_timer_subsystem_init :: "'x world \<Rightarrow> 'x world"
  rte_thread_set_affinity :: "nat \<Rightarrow> 'x world \<Rightarrow> 'x world"

text \<open>The variables that DPDK keeps per thread.\<close>

record lcore =
  lcore_id :: int
  mempool_core :: int

definition MAX_ARGS :: nat where "MAX_ARGS = 128"
definition MEMPOOL_SIZE :: int where "MEMPOOL_SIZE = 1024"
definition NUM_PFRAMES :: u32 where "NUM_PFRAMES = 2048 - 1"
definition CACHE_SIZE :: u32 where "CACHE_SIZE = 32"
definition MAX_NAME_LEN :: nat where "MAX_NAME_LEN = 256"

definition get_numa_count :: "'x eal \<Rightarrow> nat" where
  "get_numa_count E = (case node_possible E of Some cnt \<Rightarrow> cnt + 1 | None \<Rightarrow> 1)"

definition bind_to_domain :: "'x eal \<Rightarrow> nat \<Rightarrow> 'x world \<Rightarrow> 'x world" where
  "bind_to_domain E socket_id w = numa_bind E socket_id w"

text \<open>The filled part of \<open>rte_argv\<close>; its length is \<open>rte_argc\<close>.\<close>

definition add_arg :: "string \<Rightarrow> string list \<Rightarrow> string list" where
  "add_arg s rte_argv = (if MAX_ARGS \<le> length rte_argv then rte_argv else rte_argv @ [s])"

definition hex_digit :: "nat \<Rightarrow> char" where
  "hex_digit n = (''0123456789abcdef'' ! (n mod 16))"

fun hex_string :: "nat \<Rightarrow> string" where
  "hex_string n = (if n < 16 then [hex_digit n] else hex_string (n div 16) @ [hex_digit n])"

declare hex_string.simps [simp del]

definition int_string :: "int \<Rightarrow> string" where
  "int_string i = (if i < 0 then CHR ''-'' # nat_to_string (nat (- i)) else nat_to_string (nat i))"

definition socket_mem :: "nat \<Rightarrow> int \<Rightarrow> string" where
  "socket_mem numa_count mempool_size =
     fold (\<lambda>i s. s @ '','' @ int_string mempool_size) [1..<numa_count] (int_string mempool_size)"

text \<open>The arguments in the order in which \<open>init_eal\<close> adds them.\<close>

definition eal_options :: "string \<Rightarrow> bool \<Rightarrow> nat \<Rightarrow> string \<Rightarrow> string list \<Rightarrow> string list \<Rightarrow> string list" where
  "eal_options nm secondary core opt_socket_mem whitelist vdevs =
     [''lzcsi''] @ (if secondary then [''--proc-type'', ''secondary''] else []) @
     [''--file-prefix'', nm, ''-c'', ''0x'' @ hex_string (2 ^ core)] @
     concat (map (\<lambda>s. [''-w'', s]) whitelist) @ concat (map (\<lambda>s. [''--vdev'', s]) vdevs) @
     [''-w'', ''99:99.0'', ''--master-lcore'', nat_to_string core, ''-n'', ''4'', ''--socket-mem'', opt_socket_mem]"

definition init_eal :: "'x eal \<Rightarrow> 'x rte \<Rightarrow> string \<Rightarrow> bool \<Rightarrow> int \<Rightarrow> int \<Rightarrow> string list \<Rightarrow> string list \<Rightarrow>
  lcore \<Rightarrow> 'x world \<Rightarrow> (int \<times> lcore \<times> 'x world) option" where
  "init_eal E D nm secondary core mempool_size whitelist vdevs L w =
     (if int (RTE_MAX_LCORE D) < core then Some (- 1, L, w)
      else do {
        _ \<leftarrow> rust_assert (0 \<le> core \<and> core < 32);
        let opt_socket_mem = socket_mem (get_numa_count E) mempool_size;
        _ \<leftarrow> rust_assert (length opt_socket_mem < 1024);
        let rte_argv = fold add_arg (eal_options nm secondary (nat core) opt_socket_mem whitelist vdevs) [];
        _ \<leftarrow> rust_assert (length rte_argv < MAX_ARGS);
        let (ret, w) = rte_eal_init E rte_argv w;
        _ \<leftarrow> rust_assert (secondary \<longrightarrow> is_secondary_process E w);
        let L = L\<lparr>lcore_id := core, mempool_core := core\<rparr>;
        let socket_id = rte_lcore_to_socket_id D (nat core);
        let w = (if numa_available E \<noteq> - 1 then bind_to_domain E socket_id w else w);
        Some (ret, L, w)
      })"

text \<open>The name is given with its length; \<open>None\<close> is the null pointer.\<close>

definition native_init_secondary :: "'x eal \<Rightarrow> 'x rte \<Rightarrow> string option \<Rightarrow> nat \<Rightarrow> int \<Rightarrow> string list \<Rightarrow> lcore \<Rightarrow> pools \<Rightarrow> 'x world \<Rightarrow>
  (int \<times> lcore \<times> pools \<times> 'x world) option" where
  "native_init_secondary E D nm nlen core vdevs L P w = (case nm of
     None \<Rightarrow> Some (- EINVAL, L, P, w)
   | Some nm \<Rightarrow>
       if MAX_NAME_LEN \<le> nlen then Some (- EINVAL, L, P, w)
       else do {
         let clean_name = take nlen nm;
         let w = rte_timer_subsystem_init E w;
         (ret, L, w) \<leftarrow> init_eal E D clean_name True core MEMPOOL_SIZE [] vdevs L w;
         if ret < 0 then Some (ret, L, P, w)
         else do {
           (ret, P, w) \<leftarrow> find_secondary_mempool D P w;
           Some (ret, L, P, w)
         }
       })"

definition native_init_system_whitelisted :: "'x eal \<Rightarrow> 'x rte \<Rightarrow> string option \<Rightarrow> nat \<Rightarrow> int \<Rightarrow> string list \<Rightarrow> u32 \<Rightarrow> u32 \<Rightarrow> int \<Rightarrow>
  lcore \<Rightarrow> pools \<Rightarrow> 'x world \<Rightarrow> (int \<times> lcore \<times> pools \<times> 'x world) option" where
  "native_init_system_whitelisted E D nm nlen core whitelist mempool_size mcache_size slots L P w = (case nm of
     None \<Rightarrow> Some (- EINVAL, L, P, w)
   | Some nm \<Rightarrow>
       if MAX_NAME_LEN \<le> nlen then Some (- EINVAL, L, P, w)
       else do {
         let clean_name = take nlen nm;
         let w = rte_timer_subsystem_init E w;
         (ret, L, w) \<leftarrow> init_eal E D clean_name False core (sint mempool_size) whitelist [] L w;
         if ret < 0 then Some (ret, L, P, w)
         else do {
           (ret, P, w) \<leftarrow> init_mempool D mempool_size mcache_size (of_int slots) P w;
           Some (ret, L, P, w)
         }
       })"

definition native_init_system :: "'x eal \<Rightarrow> 'x rte \<Rightarrow> string option \<Rightarrow> nat \<Rightarrow> int \<Rightarrow> int \<Rightarrow> lcore \<Rightarrow> pools \<Rightarrow> 'x world \<Rightarrow>
  (int \<times> lcore \<times> pools \<times> 'x world) option" where
  "native_init_system E D nm nlen core slots L P w =
     native_init_system_whitelisted E D nm nlen core [] NUM_PFRAMES CACHE_SIZE slots L P w"

definition native_init_thread :: "'x eal \<Rightarrow> 'x rte \<Rightarrow> int \<Rightarrow> nat \<Rightarrow> lcore \<Rightarrow> 'x world \<Rightarrow> int \<times> lcore \<times> 'x world" where
  "native_init_thread E D tid core L w = (
     let socket_id = rte_lcore_to_socket_id D core;
         numa_active = numa_available E;
         w = rte_thread_set_affinity E core w;
         w = (if numa_active \<noteq> - 1 then bind_to_domain E socket_id w else w);
         L = L\<lparr>lcore_id := tid, mempool_core := int core\<rparr>
     in (if numa_active = - 1 then numa_active else int socket_id, L, w))"

section \<open>Poll mode drivers\<close>

record rte_pci_addr =
  pci_domain :: nat
  pci_bus :: nat
  pci_devid :: nat
  pci_function :: nat

record rte_eth_rxconf =
  rx_drop_en :: nat
  rx_thresholds :: "nat list"

record rte_eth_txconf =
  txq_flags :: u32
  tx_thresholds :: "nat list"

record rte_eth_dev_info =
  max_rx_queues :: u16
  max_tx_queues :: u16
  pci_dev :: "rte_pci_addr option"
  default_rxconf :: rte_eth_rxconf
  default_txconf :: rte_eth_txconf

text \<open>The fields of the configuration that are not left to the driver; the enumerators of DPDK stand for themselves.\<close>

datatype eth_const = ETH_LINK_SPEED_AUTONEG | ETH_MQ_RX_RSS | ETH_MQ_TX_NONE | RTE_FDIR_MODE_NONE
  | ETH_RSS_IP | ETH_RSS_UDP | ETH_RSS_TCP | ETH_RSS_SCTP

record rte_eth_conf =
  link_speeds :: eth_const
  lpbk_mode :: nat
  rx_mq_mode :: eth_const
  max_rx_pkt_len :: nat
  split_hdr_size :: nat
  header_split :: nat
  hw_ip_checksum :: nat
  hw_vlan_filter :: nat
  hw_vlan_strip :: nat
  hw_vlan_extend :: nat
  jumbo_frame :: nat
  hw_strip_crc :: nat
  tx_mq_mode :: eth_const
  rss_hf :: "eth_const list"
  fdir_mode :: eth_const
  intr_lsc :: nat

definition default_eth_conf :: rte_eth_conf where
  "default_eth_conf = \<lparr>link_speeds = ETH_LINK_SPEED_AUTONEG, lpbk_mode = 0, rx_mq_mode = ETH_MQ_RX_RSS, max_rx_pkt_len = 0,
     split_hdr_size = 0, header_split = 0, hw_ip_checksum = 0, hw_vlan_filter = 0, hw_vlan_strip = 0, hw_vlan_extend = 0,
     jumbo_frame = 0, hw_strip_crc = 1, tx_mq_mode = ETH_MQ_TX_NONE, rss_hf = [ETH_RSS_IP, ETH_RSS_UDP, ETH_RSS_TCP, ETH_RSS_SCTP],
     fdir_mode = RTE_FDIR_MODE_NONE, intr_lsc = 0\<rparr>"

record 'x pmd =
  RTE_MAX_ETHPORTS :: nat
  ETH_TXQ_FLAGS_NOVLANOFFL :: u32
  ETH_TXQ_FLAGS_NOMULTSEGS :: u32
  ETH_TXQ_FLAGS_NOXSUMS :: u32
  eth_dev_attached :: "nat \<Rightarrow> 'x world \<Rightarrow> bool"
  rte_eth_dev_count :: "'x world \<Rightarrow> nat"
  rte_eth_dev_info_get :: "nat \<Rightarrow> 'x world \<Rightarrow> rte_eth_dev_info"
  rte_eth_dev_configure :: "nat \<Rightarrow> nat \<Rightarrow> nat \<Rightarrow> rte_eth_conf \<Rightarrow> 'x world \<Rightarrow> int \<times> 'x world"
  rte_eth_promiscuous_enable :: "nat \<Rightarrow> 'x world \<Rightarrow> 'x world"
  rte_eth_rx_queue_setup :: "nat \<Rightarrow> nat \<Rightarrow> nat \<Rightarrow> nat \<Rightarrow> rte_eth_rxconf \<Rightarrow> u64 \<Rightarrow> 'x world \<Rightarrow> int \<times> 'x world"
  rte_eth_tx_queue_setup :: "nat \<Rightarrow> nat \<Rightarrow> nat \<Rightarrow> nat \<Rightarrow> rte_eth_txconf \<Rightarrow> 'x world \<Rightarrow> int \<times> 'x world"
  rte_eth_dev_start :: "nat \<Rightarrow> 'x world \<Rightarrow> int \<times> 'x world"
  rte_eth_dev_stop :: "nat \<Rightarrow> 'x world \<Rightarrow> 'x world"
  rte_eth_dev_close :: "nat \<Rightarrow> 'x world \<Rightarrow> 'x world"
  rte_eth_rx_burst :: "nat \<Rightarrow> u16 \<Rightarrow> nat list \<Rightarrow> u16 \<Rightarrow> 'x world \<Rightarrow> u16 \<times> nat list \<times> 'x world"
  rte_eth_tx_burst :: "nat \<Rightarrow> u16 \<Rightarrow> nat list \<Rightarrow> u16 \<Rightarrow> 'x world \<Rightarrow> u16 \<times> 'x world"
  eal_parse_pci_DomBDF :: "string \<Rightarrow> int \<times> rte_pci_addr"
  eal_parse_pci_BDF :: "string \<Rightarrow> int \<times> rte_pci_addr"
  rte_eal_compare_pci_addr :: "rte_pci_addr \<Rightarrow> rte_pci_addr \<Rightarrow> int"
  rte_eth_dev_attach :: "string \<Rightarrow> 'x world \<Rightarrow> int \<times> nat \<times> 'x world"

definition ENODEV :: int where
  "ENODEV = 19"

definition native_num_pmd_ports :: "'x pmd \<Rightarrow> 'x world \<Rightarrow> nat" where
  "native_num_pmd_ports M w = rte_eth_dev_count M w"

definition get_pmd_ports :: "'x pmd \<Rightarrow> rte_eth_dev_info list \<Rightarrow> 'x world \<Rightarrow> nat \<times> rte_eth_dev_info list" where
  "get_pmd_ports M info w = (
     let num_ports = rte_eth_dev_count M w;
         num_entries = min num_ports (length info)
     in (num_entries, fold (\<lambda>i info. info[i := rte_eth_dev_info_get M i w]) [0..<num_entries] info))"

definition get_rte_eth_dev_info :: "'x pmd \<Rightarrow> nat \<Rightarrow> 'x world \<Rightarrow> int + rte_eth_dev_info" where
  "get_rte_eth_dev_info M dev w =
     (if rte_eth_dev_count M w \<le> dev then Inl (- ENODEV) else Inr (rte_eth_dev_info_get M dev w))"

definition native_max_rxqs :: "'x pmd \<Rightarrow> nat \<Rightarrow> 'x world \<Rightarrow> int" where
  "native_max_rxqs M dev w = (case get_rte_eth_dev_info M dev w of Inl _ \<Rightarrow> - ENODEV | Inr info \<Rightarrow> uint (max_rx_queues info))"

definition native_max_txqs :: "'x pmd \<Rightarrow> nat \<Rightarrow> 'x world \<Rightarrow> int" where
  "native_max_txqs M dev w = (case get_rte_eth_dev_info M dev w of Inl _ \<Rightarrow> - ENODEV | Inr info \<Rightarrow> uint (max_tx_queues info))"

fun setup_rxqs :: "'x pmd \<Rightarrow> 'x rte \<Rightarrow> pools \<Rightarrow> nat \<Rightarrow> nat list \<Rightarrow> nat \<Rightarrow> rte_eth_rxconf \<Rightarrow> nat list \<Rightarrow> 'x world \<Rightarrow> (int \<times> 'x world) option" where
  "setup_rxqs M D P port rxq_core nrxd eth_rxconf [] w = Some (0, w)"
| "setup_rxqs M D P port rxq_core nrxd eth_rxconf (i # is) w = do {
     c \<leftarrow> vec_get rxq_core i;
     let sid = rte_lcore_to_socket_id D c;
     pl \<leftarrow> get_pframe_pool P c sid;
     let (ret, w) = rte_eth_rx_queue_setup M port i nrxd sid eth_rxconf pl w;
     if ret \<noteq> 0 then Some (ret, w) else setup_rxqs M D P port rxq_core nrxd eth_rxconf is w
   }"

fun setup_txqs :: "'x pmd \<Rightarrow> 'x rte \<Rightarrow> nat \<Rightarrow> nat list \<Rightarrow> nat \<Rightarrow> rte_eth_txconf \<Rightarrow> nat list \<Rightarrow> 'x world \<Rightarrow> (int \<times> 'x world) option" where
  "setup_txqs M D port txq_core ntxd eth_txconf [] w = Some (0, w)"
| "setup_txqs M D port txq_core ntxd eth_txconf (i # is) w = do {
     c \<leftarrow> vec_get txq_core i;
     let sid = rte_lcore_to_socket_id D c;
     let (ret, w) = rte_eth_tx_queue_setup M port i ntxd sid eth_txconf w;
     if ret \<noteq> 0 then Some (ret, w) else setup_txqs M D port txq_core ntxd eth_txconf is w
   }"

definition native_init_pmd_port :: "'x pmd \<Rightarrow> 'x rte \<Rightarrow> pools \<Rightarrow> nat \<Rightarrow> nat \<Rightarrow> nat \<Rightarrow> nat list \<Rightarrow> nat list \<Rightarrow> nat \<Rightarrow> nat \<Rightarrow>
  bool \<Rightarrow> bool \<Rightarrow> bool \<Rightarrow> 'x world \<Rightarrow> (int \<times> 'x world) option" where
  "native_init_pmd_port M D P port rxqs txqs rxq_core txq_core nrxd ntxd loopback tso csumoffload w =
     (if RTE_MAX_ETHPORTS M \<le> port \<or> \<not> eth_dev_attached M port w then Some (- ENODEV, w)
      else do {
        let eth_conf = default_eth_conf\<lparr>lpbk_mode := of_bool loopback\<rparr>;
        let dev_info = rte_eth_dev_info_get M port w;
        let eth_rxconf = (default_rxconf dev_info)\<lparr>rx_drop_en := 1\<rparr>;
        let eth_txconf = (default_txconf dev_info)\<lparr>txq_flags := ETH_TXQ_FLAGS_NOVLANOFFL M OR
          ETH_TXQ_FLAGS_NOMULTSEGS M * (1 - of_bool tso) OR ETH_TXQ_FLAGS_NOXSUMS M * (1 - of_bool csumoffload)\<rparr>;
        let (ret, w) = rte_eth_dev_configure M port rxqs txqs eth_conf w;
        if ret \<noteq> 0 then Some (ret, w)
        else do {
          let w = rte_eth_promiscuous_enable M port w;
          (ret, w) \<leftarrow> setup_rxqs M D P port rxq_core nrxd eth_rxconf [0..<rxqs] w;
          if ret \<noteq> 0 then Some (ret, w)
          else do {
            (ret, w) \<leftarrow> setup_txqs M D port txq_core ntxd eth_txconf [0..<txqs] w;
            if ret \<noteq> 0 then Some (ret, w)
            else Some (rte_eth_dev_start M port w)
          }
        }
      })"

definition native_free_pmd_port :: "'x pmd \<Rightarrow> nat \<Rightarrow> 'x world \<Rightarrow> 'x world" where
  "native_free_pmd_port M port w = rte_eth_dev_close M port (rte_eth_dev_stop M port w)"

definition native_recv_pkts :: "'x pmd \<Rightarrow> nat \<Rightarrow> i32 \<Rightarrow> nat list \<Rightarrow> i32 \<Rightarrow> 'x world \<Rightarrow> i32 \<times> nat list \<times> 'x world" where
  "native_recv_pkts M port qid pkts len w = (
     let (ret, pkts, w) = rte_eth_rx_burst M port (ucast qid) pkts (ucast len) w in (ucast ret, pkts, w))"

definition native_send_pkts :: "'x pmd \<Rightarrow> nat \<Rightarrow> i32 \<Rightarrow> nat list \<Rightarrow> i32 \<Rightarrow> 'x world \<Rightarrow> i32 \<times> 'x world" where
  "native_send_pkts M port qid pkts len w = (
     let (ret, w) = rte_eth_tx_burst M port (ucast qid) pkts (ucast len) w in (ucast ret, w))"

definition pad_hex :: "nat \<Rightarrow> nat \<Rightarrow> string" where
  "pad_hex k n = replicate (k - length (hex_string n)) (CHR ''0'') @ hex_string n"

definition pci_string :: "rte_pci_addr \<Rightarrow> string" where
  "pci_string a = take 1023 (pad_hex 4 (pci_domain a) @ '':'' @ pad_hex 2 (pci_bus a) @ '':'' @ pad_hex 2 (pci_devid a) @ ''.'' @
     pad_hex 2 (pci_function a))"

fun scan_devices :: "'x pmd \<Rightarrow> rte_pci_addr \<Rightarrow> 'x world \<Rightarrow> nat list \<Rightarrow> nat option" where
  "scan_devices M pa w [] = None"
| "scan_devices M pa w (i # is) = (case pci_dev (rte_eth_dev_info_get M i w) of
     None \<Rightarrow> scan_devices M pa w is
   | Some a \<Rightarrow> if rte_eal_compare_pci_addr M pa a \<noteq> 0 then Some i else scan_devices M pa w is)"

definition native_find_port_with_pci_address :: "'x pmd \<Rightarrow> string \<Rightarrow> 'x world \<Rightarrow> int \<times> 'x world" where
  "native_find_port_with_pci_address M pci w = (
     let (ret1, pa1) = eal_parse_pci_DomBDF M pci;
         (ret2, pa2) = eal_parse_pci_BDF M pci
     in if ret1 \<noteq> 0 \<and> ret2 \<noteq> 0 then (- 1, w)
        else let pa = (if ret1 = 0 then pa1 else pa2)
             in (case scan_devices M pa w [0..<rte_eth_dev_count M w] of
                   Some i \<Rightarrow> (int i, w)
                 | None \<Rightarrow> let (ret, port_id, w) = rte_eth_dev_attach M (pci_string pa) w
                           in if ret < 0 then (- 1, w) else (int port_id, w)))"

definition native_attach_pmd_device :: "'x pmd \<Rightarrow> string \<Rightarrow> 'x world \<Rightarrow> int \<times> 'x world" where
  "native_attach_pmd_device M devname w = (
     let (error, port, w) = rte_eth_dev_attach M devname w
     in if error \<noteq> 0 then (- ENODEV, w) else (int port, w))"

section \<open>Writing into packets\<close>

definition store_at :: "nat \<Rightarrow> u8 list \<Rightarrow> nat \<Rightarrow> heap \<Rightarrow> heap option" where
  "store_at off data a h = do {
     m \<leftarrow> deref h a;
     let o0 = unat (data_off m) + off;
     _ \<leftarrow> rust_assert (o0 + length data \<le> length (mb_buf m));
     Some (h(a \<mapsto> m\<lparr>mb_buf := blit o0 data (mb_buf m)\<rparr>))
   }"

definition set_packet_data :: "nat list \<Rightarrow> nat \<Rightarrow> u8 list \<Rightarrow> heap \<Rightarrow> heap option" where
  "set_packet_data array off data h = mfold (store_at off data) array h"

definition set_packet_data_at_offset :: "nat list \<Rightarrow> nat list \<Rightarrow> u8 list \<Rightarrow> heap \<Rightarrow> heap option" where
  "set_packet_data_at_offset array offsets data h = mfold (\<lambda>(a, off). store_at off data a) (zip array offsets) h"

definition set_ether_type :: "nat list \<Rightarrow> u16 \<Rightarrow> heap \<Rightarrow> heap option" where
  "set_ether_type array ether h = mfold (store_at 12 (le16_bytes ether)) array h"

section \<open>The arguments fit or overflow\<close>

lemma fold_add_arg: "length ys \<le> MAX_ARGS \<Longrightarrow> fold add_arg xs ys = take MAX_ARGS (ys @ xs)"
proof (induction xs arbitrary: ys)
  case (Cons x xs)
  show ?case
  proof (cases "length ys = MAX_ARGS")
    case True
    then show ?thesis using Cons.IH [of ys] by (simp add: add_arg_def)
  next
    case False
    then show ?thesis using Cons.IH [of "ys @ [x]"] Cons.prems by (simp add: add_arg_def)
  qed
qed simp

lemma length_pairs: "length (concat (map (\<lambda>s. [f s, g s]) xs)) = 2 * length xs"
  by (induction xs) simp_all

lemma length_eal_options:
  "length (eal_options nm secondary core mem whitelist vdevs) =
     (if secondary then 15 else 13) + 2 * (length whitelist + length vdevs)"
  by (simp add: eal_options_def length_pairs)

text \<open>
  On a core that a 32-bit mask can name, DPDK gets exactly the arguments, as long as they are fewer than 128; otherwise the
  terminating null pointer is stored past the end of the array.
\<close>

lemma init_eal_passes_arguments:
  assumes core: "0 \<le> core" "core < 32" "core \<le> int (RTE_MAX_LCORE D)"
    and mem: "length (socket_mem (get_numa_count E) mempool_size) < 1024"
    and few: "(if secondary then 15 else 13) + 2 * (length whitelist + length vdevs) < MAX_ARGS"
  shows "init_eal E D nm secondary core mempool_size whitelist vdevs L w = (
    let opts = eal_options nm secondary (nat core) (socket_mem (get_numa_count E) mempool_size) whitelist vdevs;
        (ret, w) = rte_eal_init E opts w
    in if secondary \<and> \<not> is_secondary_process E w then None
       else Some (ret, L\<lparr>lcore_id := core, mempool_core := core\<rparr>,
         if numa_available E \<noteq> - 1 then bind_to_domain E (rte_lcore_to_socket_id D (nat core)) w else w))"
  using assms by (simp add: init_eal_def fold_add_arg length_eal_options split: prod.splits)

lemma init_eal_overflows:
  assumes "core \<le> int (RTE_MAX_LCORE D)" and "MAX_ARGS \<le> (if secondary then 15 else 13) + 2 * (length whitelist + length vdevs)"
  shows "init_eal E D nm secondary core mempool_size whitelist vdevs L w = None"
  using assms by (simp add: init_eal_def fold_add_arg length_eal_options Let_def del: One_nat_def)

text \<open>The check against \<open>RTE_MAX_LCORE\<close> lets cores through whose bit is outside the mask.\<close>

lemma init_eal_high_core:
  assumes "32 \<le> core" and "core \<le> int (RTE_MAX_LCORE D)"
  shows "init_eal E D nm secondary core mempool_size whitelist vdevs L w = None"
  using assms by (simp add: init_eal_def)

section \<open>Every receive queue has the pool of its core\<close>

lemma setup_rxqs_total:
  assumes "\<forall>i\<in>set is. i < length rxq_core \<and> core_served D P (rxq_core ! i)"
  shows "setup_rxqs M D P port rxq_core nrxd conf is w \<noteq> None"
  using assms
  by (induction "is" arbitrary: w)
    (auto simp: vec_get_def core_served_def get_mempool_for_core_def Let_def split: prod.splits)

lemma setup_rxqs_pools:
  assumes "setup_rxqs M D P port rxq_core nrxd conf is w = Some (0, w')" and "i \<in> set is"
  shows "\<exists>pl w1 w2. get_mempool_for_core D P (rxq_core ! i) = Some pl \<and>
    rte_eth_rx_queue_setup M port i nrxd (rte_lcore_to_socket_id D (rxq_core ! i)) conf pl w1 = (0, w2)"
  using assms
proof (induction "is" arbitrary: w)
  case (Cons j "is")
  let ?sid = "rte_lcore_to_socket_id D (rxq_core ! j)"
  obtain pl where pl: "j < length rxq_core" "get_pframe_pool P (rxq_core ! j) ?sid = Some pl"
    using Cons.prems(1) by (auto simp: vec_get_def Let_def bind_eq_Some_conv split: if_splits)
  obtain ret w1 where q: "rte_eth_rx_queue_setup M port j nrxd ?sid conf pl w = (ret, w1)" by fastforce
  have "ret = 0" "setup_rxqs M D P port rxq_core nrxd conf is w1 = Some (0, w')"
    using Cons.prems(1) pl by (auto simp: vec_get_def Let_def q split: if_splits)
  with Cons.IH [of w1] Cons.prems(2) pl q show ?case by (auto simp: get_mempool_for_core_def)
qed simp

lemma init_pmd_port_pools:
  assumes mempool: "init_mempool D n c slots P0 w0 = Some (0, P, w1)"
    and cores: "\<forall>i < rxqs. rxq_core ! i < RTE_MAX_LCORE D"
    and port: "native_init_pmd_port M D P port rxqs txqs rxq_core txq_core nrxd ntxd loopback tso csum w = Some (0, w')" and i: "i < rxqs"
  shows "\<exists>pl conf w2 w3. pl \<noteq> 0 \<and> get_mempool_for_core D P (rxq_core ! i) = Some pl \<and> rx_drop_en conf = 1 \<and>
    rte_eth_rx_queue_setup M port i nrxd (rte_lcore_to_socket_id D (rxq_core ! i)) conf pl w2 = (0, w3)"
proof -
  let ?conf = "(default_rxconf (rte_eth_dev_info_get M port w))\<lparr>rx_drop_en := 1\<rparr>"
  obtain w2 w3 where "setup_rxqs M D P port rxq_core nrxd ?conf [0..<rxqs] w2 = Some (0, w3)"
    using port by (auto simp: native_init_pmd_port_def Let_def bind_eq_Some_conv ENODEV_def split: if_splits prod.splits)
  from setup_rxqs_pools [OF this, of i] i obtain pl w4 w5 where pl: "get_mempool_for_core D P (rxq_core ! i) = Some pl"
    "rte_eth_rx_queue_setup M port i nrxd (rte_lcore_to_socket_id D (rxq_core ! i)) ?conf pl w4 = (0, w5)" by auto
  moreover have "pl \<noteq> 0"
    using init_mempool_serves_cores [OF mempool, of "rxq_core ! i"] cores i pl(1) by (auto simp: core_served_def)
  ultimately show ?thesis by (intro exI [of _ pl] exI [of _ ?conf]) auto
qed

section \<open>Looking up a port\<close>

text \<open>
  DPDK documents that \<open>rte_eal_compare_pci_addr\<close> gives 0 exactly on equal addresses.  The scan stops at the
  first device whose address is different from the wanted one, and passes over the wanted device.
\<close>

lemma scan_devices_other:
  assumes "\<And>a b. rte_eal_compare_pci_addr M a b = 0 \<longleftrightarrow> a = b" and "scan_devices M pa w is = Some i"
  shows "i \<in> set is \<and> (\<exists>a. pci_dev (rte_eth_dev_info_get M i w) = Some a \<and> a \<noteq> pa)"
  using assms(2) by (induction "is") (auto simp: assms(1) split: option.splits if_splits)

lemma scan_devices_passes_over:
  assumes "\<And>a b. rte_eal_compare_pci_addr M a b = 0 \<longleftrightarrow> a = b"
    and "\<forall>i\<in>set is. pci_dev (rte_eth_dev_info_get M i w) \<in> {None, Some pa}"
  shows "scan_devices M pa w is = None"
  using assms(2) by (induction "is") (auto simp: assms(1) split: option.splits)

lemma find_port_returns_other_device:
  assumes cmp: "\<And>a b. rte_eal_compare_pci_addr M a b = 0 \<longleftrightarrow> a = b"
    and parse: "eal_parse_pci_DomBDF M pci = (0, pa)"
    and other: "i < rte_eth_dev_count M w" "pci_dev (rte_eth_dev_info_get M i w) = Some a" "a \<noteq> pa"
  shows "\<exists>j b. native_find_port_with_pci_address M pci w = (int j, w) \<and> j < rte_eth_dev_count M w \<and>
    pci_dev (rte_eth_dev_info_get M j w) = Some b \<and> b \<noteq> pa"
proof -
  have "scan_devices M pa w is \<noteq> None" if "i \<in> set is" for "is"
    using that other(2,3) by (induction "is") (auto simp: cmp split: option.splits)
  then obtain j where j: "scan_devices M pa w [0..<rte_eth_dev_count M w] = Some j" using other(1) by fastforce
  from scan_devices_other [OF cmp j] j parse show ?thesis
    by (auto simp: native_find_port_with_pci_address_def split: prod.splits)
qed

lemma fold_list_update: "n \<le> length xs \<Longrightarrow> fold (\<lambda>i xs. xs[i := f i]) [0..<n] xs = map f [0..<n] @ drop n xs"
  by (induction n) (auto simp: list_update_append Cons_nth_drop_Suc [symmetric])

lemma get_pmd_ports_fills:
  "get_pmd_ports M info w = (min (rte_eth_dev_count M w) (length info),
     map (\<lambda>i. rte_eth_dev_info_get M i w) [0..<min (rte_eth_dev_count M w) (length info)] @ drop (rte_eth_dev_count M w) info)"
  by (simp add: get_pmd_ports_def Let_def min_def fold_list_update)

section \<open>Every packet is written\<close>

lemma set_packet_data_writes:
  assumes "distinct array" and "\<forall>a\<in>set array. \<exists>m. deref h a = Some m \<and> unat (data_off m) + off + length data \<le> length (mb_buf m)"
  shows "set_packet_data array off data h = Some (\<lambda>a. if a \<in> set array
    then map_option (\<lambda>m. m\<lparr>mb_buf := blit (unat (data_off m) + off) data (mb_buf m)\<rparr>) (h a) else h a)"
  unfolding set_packet_data_def
  by (rule mfold_updates [where ok = "\<lambda>m. unat (data_off m) + off + length data \<le> length (mb_buf m)"])
    (use assms in \<open>auto simp: store_at_def Let_def\<close>)

lemma set_ether_type_is_data: "set_ether_type array ether h = set_packet_data array 12 (le16_bytes ether) h"
  by (simp add: set_ether_type_def set_packet_data_def)

end
