(* ===== verification/Spec2Isabelle.thy ===== *)
theory Spec2Isabelle
  imports NB_ReorderedBuffer NB_MpscConcurrent NB_GroupBy NB_NetworkFunctions NB_Context NB_Mergeable NB_SharedState NB_Control NB_Lpm NB_Maglev NB_Nat NB_Reconstruction NB_Pmd
begin

text \<open>
  Verification of NetBricks, a framework for network functions in Rust.  File names are relative to \<open>src\<close>.

  \<^bold>\<open>The program.\<close>  A context (\<open>framework/src/scheduler/context.rs\<close>) starts DPDK, opens the ports of a configuration and
  runs one scheduler per core.  A scheduler executes pipelines: batches of packets (\<open>operators\<close>) that are filled from a port
  queue (\<open>interface/port\<close>), pass through operators with closures over packets (\<open>interface/packet.rs\<close>,
  \<open>headers\<close>), and are sent to a port queue or to another pipeline through a queue of mbufs (\<open>queues\<close>).  Network functions
  keep state in reordering buffers and stores (\<open>state\<close>), in memory shared with other processes (\<open>shared_state\<close>), and
  talk to a control plane (\<open>control\<close>).  Below the framework is a native library in C (\<open>native\<close>) on top of DPDK; above it are
  the example network functions (\<open>test\<close>).

  \<^bold>\<open>Conventions\<close> (\<open>NB_Prelude\<close>).  Definitions have the names of the source, with a prefix where several types have a method of
  the same name.  Machine integers are words where their width matters.  A panic, an access outside memory and a loop that does
  not end are \<open>None\<close>, and so is an arithmetic overflow, except for the size of a payload and the counters of a port, which wrap around
  as in the release build; an \<open>Err\<close> is \<open>Inl\<close>.  Structs are records, and a method on \<open>&mut self\<close> returns the updated record.  A method of
  a trait that a generic type calls is a field of a record of functions.  Raw memory is a heap of mbufs with
  checked accesses; what lies outside the repository is the part \<open>w_ext\<close> of the \<open>world\<close>, and code outside it is a parameter.

  \<^bold>\<open>Theories.\<close>
  \<^item> \<open>NB_Utils\<close>: \<open>utils/mod.rs\<close> and the prefixes of \<open>utils/flow.rs\<close>; a prefix matches exactly the addresses that share its
    leading bits.
  \<^item> \<open>NB_Headers\<close>, \<open>NB_Tcp_Udp\<close>: \<open>headers/*.rs\<close>; the accessors read and write exactly their fields of the wire format, with the exceptions stated.  The locale
    \<open>end_offset\<close> is the trait \<open>EndOffset\<close>, interpreted for the five headers.
  \<^item> \<open>NB_Flow\<close>: \<open>utils/flow.rs\<close>; a flow stamped into a packet is extracted again.
  \<^item> \<open>NB_MBuf\<close>, \<open>NB_Packet\<close>: \<open>native/zcsi/mbuf.rs\<close> and \<open>interface/packet.rs\<close>; resizing never overflows, parsing stays inside a
    packet whose headers do not claim too much, headers are inserted where the copy is defined, and metadata is read back.
  \<^item> \<open>NB_Fifo\<close>: the locale \<open>bounded_fifo\<close>, with the refinement to a bounded list, results of the calls included, for any sequence of operations.  It is interpreted by
    \<open>NB_RingBuffer\<close> (\<open>state/ring_buffer.rs\<close>), \<open>NB_MpscQueue\<close> (\<open>queues/mpsc_mbuf_queue.rs\<close>) and \<open>NB_ReorderedBuffer\<close>.
  \<^item> \<open>NB_MpscConcurrent\<close>: the same queue with any number of producers and a consumer, one atomic access at a time; nothing
    is lost, duplicated or read early in any interleaving, and all calls in progress can always be brought to their ends, with
    everything accepted delivered.
  \<^item> \<open>NB_SegmentList\<close>, \<open>NB_ReorderedBuffer\<close>: \<open>state/reordered_buffer\<close>; the linked list of segments covers exactly the sequence
    numbers inserted where they touch, data in order comes out unchanged, and a block behind a gap comes out when the gap is
    filled by one block.
  \<^item> \<open>NB_PacketBatch\<close>, \<open>NB_Batch\<close>, \<open>NB_Operators\<close>: \<open>operators/*.rs\<close>.  The locale \<open>batch\<close> is the contract behind the traits \<open>Act\<close> and
    \<open>BatchIterator\<close>.  \<open>NB_Pipeline\<close> and \<open>NB_GroupBy\<close> show what each operator does and that it meets the contract again;
    \<open>NB_Accounting\<close> extends the contract (locale \<open>accounted_batch\<close>) and shows that no pipeline loses an mbuf.
  \<^item> \<open>NB_NetworkFunctions\<close>, \<open>NB_Lpm\<close>, \<open>NB_Maglev\<close>, \<open>NB_Nat\<close>, \<open>NB_Reconstruction\<close>: the network functions \<open>test/macswap\<close>,
    \<open>test/acl-fw\<close>, \<open>test/lpm\<close>, \<open>test/maglev\<close>, \<open>test/nat\<close> and \<open>test/tcp_payload\<close>, as pipelines with their state: the lookup table gives
    the longest matching prefix, the load balancer is fair, addresses are translated back, the stream is printed in order.
  \<^item> \<open>NB_Scheduler\<close>: \<open>scheduler/*.rs\<close>; dependencies run first, and the loop runs its tasks in turn until it is shut down.
  \<^item> \<open>NB_Config\<close>, \<open>NB_Ports\<close>, \<open>NB_Context\<close>: \<open>config\<close>, \<open>interface/port\<close>, \<open>interface/dpdk.rs\<close> and \<open>scheduler/context.rs\<close>; a
    configuration survives being written and read, counters of ports are exact modulo their width, every core gets its receive queues, and a system that is
    started runs its pipelines until it is stopped.
  \<^item> \<open>NB_Mergeable\<close>, \<open>NB_SharedState\<close>, \<open>NB_Control\<close>: \<open>state/*mergeable.rs\<close>, \<open>shared_state\<close> and \<open>control\<close>; the store of the control plane accounts for
    every update, the caches of the merged store are invisible to updates and removals, connections are kept apart and events are handed out once.
  \<^item> \<open>NB_Mempool\<close>, \<open>NB_Pmd\<close>: \<open>native/mempool.c\<close>, \<open>init.c\<close>, \<open>pmd.c\<close> and \<open>ethpacket.c\<close>; every core gets a pool, the bulk free is the free
    of each mbuf as long as no mbuf imitates the mark of the fast path, receive queues get the pool of their core, and the arguments for DPDK fit or overflow.

  \<^bold>\<open>Loops and bounds.\<close>  There is no fuel.  A loop whose end is not evident is \<open>rust_loop\<close>, a partial function with \<open>None\<close> for
  not returning, and its theorems conclude \<open>Some\<close>.  Sequence numbers, ring positions and tickets wrap at their width;
  lengths and indices of vectors are natural numbers, which is exact because a vector never reaches \<open>2 ^ 63\<close> elements.

  \<^bold>\<open>Not modelled.\<close>
  \<^item> DPDK, the C library, the kernel, and the crates for hashing, regular expressions, TOML, options and byte order: these are
    parameters, with the documented behaviour a theorem needs as a named hypothesis.
  \<^item> Weak memory: the interleaving of the concurrent queue is sequentially consistent.  The load that ends the wait of a producer and
    the store that commits its slots are one step, which is exact because only that producer can move the tail then.
  \<^item> The panic of a scheduler thread, which \<open>stop\<close> passes on when it joins the thread, and queues and ring buffers of size 0.
  \<^item> Inline assembly and cache alignment (\<open>utils/asm.rs\<close>, \<open>allocators\<close>), foreign declarations (\<open>native/libnuma.rs\<close>,
    \<open>native/zcsi/zcsi.rs\<close>), printing, and the ring ports of the native library (\<open>native/ring.c\<close>), which follow a pointer found in a
    file.
  \<^item> \<open>control/sctp.rs\<close>, which is \<open>control/tcp.rs\<close> over another socket and is built only with a feature, and the remaining programs
    under \<open>test\<close>, which repeat the modelled functions with delays, chains or printing.
\<close>

end
